(* ===== verification/Prelude.thy ===== *)
theory Prelude imports Main "HOL-Library.Word" begin

unbundle bit_operations_syntax

text \<open>
  Shared vocabulary of the development: the outcome of running a C function, machine words, and
  the generic lemmas about lists and bits that several components use.
\<close>

section \<open>Outcomes of C functions\<close>

text \<open>
  A C function that runs to its \<open>return\<close> gives \<open>Ret v\<close>. Otherwise the thread of control ends, or
  never gets further: it dereferences a null pointer, touches an object that has been freed,
  indexes an array past its end, waits on a semaphore nobody will post, calls \<open>abort\<close> or \<open>exit\<close>,
  loops forever, has its process image replaced by \<open>exec\<close>, reads a variable that was never set, or
  ends its thread.
\<close>

datatype fault =
    Null_deref
  | Use_after_free
  | Out_of_bounds
  | Blocked
  | Abort_called
  | Exit_called int
  | Diverges
  | Image_replaced
  | Uninitialised
  | Thread_exited

datatype 'a outcome = Ret 'a | Stuck fault

definition andThen :: "'a outcome \<Rightarrow> ('a \<Rightarrow> 'b outcome) \<Rightarrow> 'b outcome" where
  "andThen m f = (case m of Ret x \<Rightarrow> f x | Stuck e \<Rightarrow> Stuck e)"

lemma andThen_simps [simp]:
  "andThen (Ret x) f = f x"
  "andThen (Stuck e) f = Stuck e"
  by (simp_all add: andThen_def)

lemma andThen_Ret_iff:
  "andThen m f = Ret y \<longleftrightarrow> (\<exists>x. m = Ret x \<and> f x = Ret y)"
  by (cases m) auto

text \<open>The result of a loop modelled with \<open>option\<close>: \<open>None\<close> is a loop that never ends.\<close>

definition loop_result :: "'a option \<Rightarrow> 'a outcome" where
  "loop_result r = (case r of None \<Rightarrow> Stuck Diverges | Some x \<Rightarrow> Ret x)"

lemma loop_result_simps [simp]:
  "loop_result (Some x) = Ret x"
  "loop_result None = Stuck Diverges"
  by (simp_all add: loop_result_def)

definition returns :: "'a outcome \<Rightarrow> bool" where
  "returns m = (case m of Ret _ \<Rightarrow> True | Stuck _ \<Rightarrow> False)"

lemma returns_simps [simp]: "returns (Ret x)" "\<not> returns (Stuck e)"
  by (simp_all add: returns_def)

section \<open>Words\<close>

type_synonym u8 = "8 word"
type_synonym u16 = "16 word"
type_synonym u32 = "32 word"
type_synonym u64 = "64 word"

text \<open>The conditional exchange of an \<open>int\<close> flag for a truth value.\<close>

definition c_bool :: "bool \<Rightarrow> int" where
  "c_bool b = (if b then 1 else 0)"

text \<open>C's integer division and conversion from \<open>double\<close> to \<open>int\<close> truncate towards zero.\<close>

definition c_div :: "int \<Rightarrow> int \<Rightarrow> int" where
  "c_div a b = sgn a * sgn b * (\<bar>a\<bar> div \<bar>b\<bar>)"

named_theorems word_facts

lemma word_xor_cancel [simp]: "((x::'a::len word) XOR m) XOR m = x"
  by (simp add: xor.assoc)

lemma take_bit_low_bits:
  fixes x :: "'a::len word"
  assumes "take_bit 4 x = 0" "n < 4"
  shows "\<not> bit x n"
  using assms by (metis bit_take_bit_iff bit_0_eq bot_apply bot_bool_def)

section \<open>Lists\<close>

text \<open>The list without its first element that satisfies \<open>P\<close>, together with that element.\<close>

definition take_first :: "('a \<Rightarrow> bool) \<Rightarrow> 'a list \<Rightarrow> ('a \<times> 'a list) option" where
  "take_first P xs = (case dropWhile (\<lambda>x. \<not> P x) xs of
      [] \<Rightarrow> None
    | x # r \<Rightarrow> Some (x, takeWhile (\<lambda>x. \<not> P x) xs @ r))"

lemma take_first_split:
  "(\<forall>x\<in>set pre. \<not> P x) \<Longrightarrow> P b \<Longrightarrow> take_first P (pre @ b # post) = Some (b, pre @ post)"
  by (induction pre) (auto simp: take_first_def)

lemma first_match_split:
  assumes "\<exists>x\<in>set xs. P x"
  obtains pre b post where "xs = pre @ b # post" "P b" "\<forall>x\<in>set pre. \<not> P x"
  using split_list_first_prop[OF assms] by blast

end
