(* ===== verification/Sf_Layout.thy ===== *)
theory Sf_Layout imports Prelude begin

text \<open>
  The allocator of hw3 (\<open>sfmm.c\<close>, \<open>sfmm.h\<close>): its memory, the fields of a \<open>sf_block\<close>, the obfuscated
  header word with its two status bits, and the pure size arithmetic (block size of a request,
  size class of a free list, index of a quick list).

  Memory is flat: \<open>mem\<close> maps the address of a 64-bit row to its contents, so that the fields of a
  block, the footer of its predecessor and the client's payload share storage exactly as they do in
  the C program, and pointers are 64-bit words stored in such rows.
\<close>

unbundle bit_operations_syntax

section \<open>State\<close>

type_synonym ptr = "64 word"

abbreviation NULL :: ptr where "NULL \<equiv> 0"

definition ENOMEM :: int where "ENOMEM = 12"

definition NUM_QUICK_LISTS :: nat where "NUM_QUICK_LISTS = 10"

definition QUICK_LIST_MAX :: nat where "QUICK_LIST_MAX = 5"

definition NUM_FREE_LISTS :: nat where "NUM_FREE_LISTS = 10"

definition PAGE_SZ :: "64 word" where "PAGE_SZ = 4096"

definition THIS_BLOCK_ALLOCATED :: "64 word" where "THIS_BLOCK_ALLOCATED = 4"

definition PREV_BLOCK_ALLOCATED :: "64 word" where "PREV_BLOCK_ALLOCATED = 2"

text \<open>
  The global variables. \<open>quick_first i\<close> is \<open>sf_quick_lists[i].first\<close>, \<open>quick_count i\<close> the counter
  \<open>quick\<close>\<open>i\<close>, \<open>mem_end\<close> the value \<open>sf_mem_end()\<close> returns.
\<close>

record sf_state =
  mem :: "ptr \<Rightarrow> 64 word"
  mem_end :: ptr
  quick_first :: "nat \<Rightarrow> ptr"
  quick_count :: "nat \<Rightarrow> int"
  last_block_allocated :: int
  sf_errno :: int

text \<open>
  What the allocator gets from outside: \<open>sf_magic()\<close>, \<open>sf_mem_start()\<close>, \<open>sf_mem_grow()\<close> (none of
  them under \<open>src/\<close>) and the address the linker gives to the array \<open>sf_free_list_heads\<close>.
\<close>

record sf_env =
  magic :: "64 word"
  mem_start :: ptr
  free_heads :: ptr
  sf_mem_grow :: "sf_state \<Rightarrow> ptr \<times> sf_state"

section \<open>Fields of a block\<close>

definition prev_footer :: "sf_state \<Rightarrow> ptr \<Rightarrow> 64 word" where
  "prev_footer s b = mem s b"

definition header :: "sf_state \<Rightarrow> ptr \<Rightarrow> 64 word" where
  "header s b = mem s (b + 8)"

definition next_link :: "sf_state \<Rightarrow> ptr \<Rightarrow> ptr" where
  "next_link s b = mem s (b + 16)"

definition prev_link :: "sf_state \<Rightarrow> ptr \<Rightarrow> ptr" where
  "prev_link s b = mem s (b + 24)"

definition payload :: "ptr \<Rightarrow> ptr" where
  "payload b = b + 16"

definition write_row :: "ptr \<Rightarrow> 64 word \<Rightarrow> sf_state \<Rightarrow> sf_state" where
  "write_row a v s = s\<lparr>mem := (mem s)(a := v)\<rparr>"

definition set_prev_footer :: "ptr \<Rightarrow> 64 word \<Rightarrow> sf_state \<Rightarrow> sf_state" where
  "set_prev_footer b v = write_row b v"

definition set_header :: "ptr \<Rightarrow> 64 word \<Rightarrow> sf_state \<Rightarrow> sf_state" where
  "set_header b v = write_row (b + 8) v"

definition set_next :: "ptr \<Rightarrow> ptr \<Rightarrow> sf_state \<Rightarrow> sf_state" where
  "set_next b v = write_row (b + 16) v"

definition set_prev :: "ptr \<Rightarrow> ptr \<Rightarrow> sf_state \<Rightarrow> sf_state" where
  "set_prev b v = write_row (b + 24) v"

lemmas field_defs = prev_footer_def header_def next_link_def prev_link_def
  set_prev_footer_def set_header_def set_next_def set_prev_def write_row_def

text \<open>The address of \<open>sf_free_list_heads[i]\<close>: an array of 32-byte blocks.\<close>

definition head_addr :: "sf_env \<Rightarrow> nat \<Rightarrow> ptr" where
  "head_addr E i = free_heads E + 32 * of_nat i"

section \<open>Sizes and size classes\<close>

definition get_aligned_block :: "64 word \<Rightarrow> 64 word" where
  "get_aligned_block request =
     (let sz = request + 8 in
      if sz < 32 then sz + (32 - sz)
      else if sz mod 16 \<noteq> 0 then sz + (16 - sz mod 16)
      else sz)"

definition get_quick_list_index :: "64 word \<Rightarrow> int" where
  "get_quick_list_index sz =
     (if sz = 32 then 0
      else if sz = 48 then 1
      else if sz = 64 then 2
      else if sz = 80 then 3
      else if sz = 96 then 4
      else if sz = 112 then 5
      else if sz = 128 then 6
      else if sz = 144 then 7
      else if sz = 160 then 8
      else if sz = 176 then 9
      else -1)"

definition fit_in_quick_list :: "64 word \<Rightarrow> int" where
  "fit_in_quick_list sz =
     (if sz = 32 then 0
      else if sz = 48 then 1
      else if sz = 64 then 2
      else if sz = 80 then 3
      else if sz = 96 then 4
      else if sz = 112 then 5
      else if sz = 128 then 6
      else if sz = 144 then 7
      else if sz = 160 then 8
      else if sz = 176 then 9
      else -1)"

definition get_free_list_index :: "64 word \<Rightarrow> nat" where
  "get_free_list_index sz =
     (if sz = 32 then 0
      else if sz > 32 \<and> sz \<le> 64 then 1
      else if sz > 64 \<and> sz \<le> 128 then 2
      else if sz > 128 \<and> sz \<le> 256 then 3
      else if sz > 256 \<and> sz \<le> 512 then 4
      else if sz > 512 \<and> sz \<le> 1024 then 5
      else if sz > 1024 \<and> sz \<le> 2048 then 6
      else if sz > 2048 \<and> sz \<le> 4096 then 7
      else if sz > 4096 \<and> sz \<le> 8192 then 8
      else 9)"

section \<open>Headers\<close>

text \<open>The recurring \<open>x &= ~(1 << 2); x &= ~(1 << 1)\<close>.\<close>

definition strip_bits :: "64 word \<Rightarrow> 64 word" where
  "strip_bits h = h AND NOT 4 AND NOT 2"

definition clear_bits :: "sf_env \<Rightarrow> sf_state \<Rightarrow> ptr \<Rightarrow> 64 word" where
  "clear_bits E s block = (header s block XOR magic E) AND NOT 2 AND NOT 4"

definition get_block_size_from_header :: "sf_env \<Rightarrow> sf_state \<Rightarrow> ptr \<Rightarrow> 64 word" where
  "get_block_size_from_header E s block = header s block XOR magic E"

definition update_header :: "sf_env \<Rightarrow> ptr \<Rightarrow> 64 word \<Rightarrow> int \<Rightarrow> int \<Rightarrow> sf_state \<Rightarrow> sf_state" where
  "update_header E block needed_block_size allocate prev_alloc s =
     (let h = needed_block_size;
          h = (if allocate = 1 then h OR THIS_BLOCK_ALLOCATED else h);
          h = (if prev_alloc = 1 then h OR PREV_BLOCK_ALLOCATED else h)
      in set_header block (h XOR magic E) s)"

text \<open>The argument \<open>((block->header^MAGIC) & PREV_BLOCK_ALLOCATED) >> 1\<close> several calls pass.\<close>

definition prev_alloc_bit :: "sf_env \<Rightarrow> sf_state \<Rightarrow> ptr \<Rightarrow> int" where
  "prev_alloc_bit E s block =
     uint (drop_bit 1 ((header s block XOR magic E) AND PREV_BLOCK_ALLOCATED))"

definition get_next_block :: "sf_env \<Rightarrow> sf_state \<Rightarrow> ptr \<Rightarrow> ptr" where
  "get_next_block E s block = block + strip_bits (header s block XOR magic E)"

definition get_next_block_alloc_bit :: "sf_env \<Rightarrow> sf_state \<Rightarrow> ptr \<Rightarrow> int" where
  "get_next_block_alloc_bit E s block =
     (let nxt = get_next_block E s block in
      if nxt > mem_end s then -1
      else uint (drop_bit 2 ((header s nxt XOR magic E) AND THIS_BLOCK_ALLOCATED)))"

definition add_footer :: "sf_env \<Rightarrow> ptr \<Rightarrow> sf_state \<Rightarrow> sf_state" where
  "add_footer E block s =
     (let h = strip_bits (header s block XOR magic E)
      in set_prev_footer (block + h) (header s block) s)"

definition clear_prev_alloc_in_next_block :: "sf_env \<Rightarrow> ptr \<Rightarrow> sf_state \<Rightarrow> sf_state" where
  "clear_prev_alloc_in_next_block E block s =
     (let nxt = block + strip_bits (header s block XOR magic E);
          h = (header s nxt XOR magic E) AND NOT 2;
          s = set_header nxt (h XOR magic E) s
      in if drop_bit 2 (h AND THIS_BLOCK_ALLOCATED) = 0 then add_footer E nxt s else s)"

definition check_last_block :: "sf_env \<Rightarrow> sf_state \<Rightarrow> ptr \<Rightarrow> int" where
  "check_last_block E s block =
     (if block + strip_bits (header s block XOR magic E) = mem_end s - 16 then 1 else 0)"

section \<open>Arithmetic of sizes\<close>

lemma unat_round_up_16:
  fixes w :: "64 word"
  assumes "unat w < 2 ^ 64 - 15"
  shows "unat (w + (16 - w mod 16)) = unat w + (16 - unat w mod 16) \<or> unat w mod 16 = 0"
proof -
  have m: "unat (w mod 16) = unat w mod 16" by (simp add: unat_mod)
  have "w mod 16 \<le> 16" by (simp add: word_le_nat_alt m)
  then have d: "unat (16 - w mod 16) = 16 - unat w mod 16" by (simp add: unat_sub m)
  show ?thesis
    using assms by (cases "unat w mod 16 = 0") (simp_all add: unat_word_ariths(1)[of w] d)
qed

lemma get_aligned_block_unat:
  assumes "unat request < 2 ^ 64 - 23"
  shows "unat (get_aligned_block request) =
    (let n = unat request + 8 in if n < 32 then 32 else if n mod 16 \<noteq> 0 then n + (16 - n mod 16) else n)"
proof -
  define w where "w = request + 8"
  have n: "unat w = unat request + 8"
    using assms by (simp add: w_def unat_word_ariths)
  have z: "w mod 16 = 0 \<longleftrightarrow> unat w mod 16 = 0"
    by (simp add: word_unat_eq_iff unat_mod)
  have "unat (w + (16 - w mod 16)) = unat w + (16 - unat w mod 16) \<or> unat w mod 16 = 0"
    using assms by (intro unat_round_up_16) (simp add: n)
  then show ?thesis
    unfolding get_aligned_block_def Let_def w_def[symmetric] n[symmetric]
    by (auto simp: word_less_nat_alt z)
qed

lemma get_free_list_index_unat:
  "get_free_list_index sz = (let n = unat sz in
     if n = 32 then 0 else if n > 32 \<and> n \<le> 64 then 1 else if n > 64 \<and> n \<le> 128 then 2
     else if n > 128 \<and> n \<le> 256 then 3 else if n > 256 \<and> n \<le> 512 then 4
     else if n > 512 \<and> n \<le> 1024 then 5 else if n > 1024 \<and> n \<le> 2048 then 6
     else if n > 2048 \<and> n \<le> 4096 then 7 else if n > 4096 \<and> n \<le> 8192 then 8 else 9)"
  by (simp add: get_free_list_index_def Let_def word_le_nat_alt word_less_nat_alt word_unat_eq_iff)

theorem get_aligned_block_least:
  assumes "unat request < 2 ^ 64 - 23"
  shows "16 dvd unat (get_aligned_block request) \<and> 32 \<le> unat (get_aligned_block request) \<and>
    unat request + 8 \<le> unat (get_aligned_block request) \<and>
    (\<forall>n. 16 dvd n \<longrightarrow> 32 \<le> n \<longrightarrow> unat request + 8 \<le> n \<longrightarrow> unat (get_aligned_block request) \<le> n)"
proof -
  obtain n where n: "unat request = n" by blast
  define r where "r = unat (get_aligned_block request)"
  have "r = 32 \<and> n + 8 < 32 \<or> n + 8 \<ge> 32 \<and> 16 dvd r \<and> n + 8 \<le> r \<and> r < n + 24"
    using get_aligned_block_unat[OF assms] unfolding n r_def[symmetric] Let_def
    by (auto split: if_splits) presburger+
  then have "16 dvd r" "32 \<le> r" "n + 8 \<le> r" and lt: "r = 32 \<or> r < n + 24" by auto
  moreover have "r \<le> m" if "16 dvd m" "32 \<le> m" "n + 8 \<le> m" for m
    using lt that \<open>16 dvd r\<close> by presburger
  ultimately show ?thesis unfolding n r_def[symmetric] by blast
qed

theorem get_free_list_index_class:
  assumes "32 \<le> unat sz" "get_free_list_index sz = i"
  shows "i < NUM_FREE_LISTS \<and> (i = 0 \<longleftrightarrow> unat sz = 32) \<and>
    (0 < i \<and> i < 9 \<longrightarrow> 32 * 2 ^ (i - 1) < unat sz \<and> unat sz \<le> 32 * 2 ^ i) \<and>
    (i = 9 \<longleftrightarrow> 32 * 2 ^ 8 < unat sz)"
  using assms unfolding get_free_list_index_unat Let_def NUM_FREE_LISTS_def
  by (auto split: if_splits)

lemma get_free_list_index_mono:
  "32 \<le> unat a \<Longrightarrow> unat a \<le> unat b \<Longrightarrow> get_free_list_index a \<le> get_free_list_index b"
  unfolding get_free_list_index_unat Let_def by (auto split: if_splits)

theorem quick_index_spec:
  "get_quick_list_index sz =
     (if 16 dvd unat sz \<and> 32 \<le> unat sz \<and> unat sz \<le> 176 then (int (unat sz) - 32) div 16 else -1)
   \<and> fit_in_quick_list sz = get_quick_list_index sz"
proof -
  have ten: "n = 32 \<or> n = 48 \<or> n = 64 \<or> n = 80 \<or> n = 96 \<or> n = 112 \<or> n = 128 \<or> n = 144 \<or> n = 160 \<or> n = 176"
    if "16 dvd n" "32 \<le> n" "n \<le> 176" for n :: nat using that by presburger
  obtain n where n: "unat sz = n" by blast
  have *: "(get_quick_list_index sz = (if n = 32 then 0 else if n = 48 then 1 else if n = 64 then 2
      else if n = 80 then 3 else if n = 96 then 4 else if n = 112 then 5 else if n = 128 then 6
      else if n = 144 then 7 else if n = 160 then 8 else if n = 176 then 9 else -1))"
    by (simp add: get_quick_list_index_def word_unat_eq_iff n)
  have "fit_in_quick_list sz = get_quick_list_index sz"
    by (simp add: fit_in_quick_list_def get_quick_list_index_def)
  moreover have "get_quick_list_index sz =
     (if 16 dvd n \<and> 32 \<le> n \<and> n \<le> 176 then (int n - 32) div 16 else -1)"
  proof (cases "16 dvd n \<and> 32 \<le> n \<and> n \<le> 176")
    case True
    then show ?thesis unfolding * using ten[of n] by auto
  next
    case False
    then have "n \<notin> {32, 48, 64, 80, 96, 112, 128, 144, 160, 176}" by auto
    with False show ?thesis unfolding * by auto
  qed
  ultimately show ?thesis by (simp add: n)
qed

lemma bit_4_word: "bit (4::64 word) n \<longleftrightarrow> n = 2"
  using bit_exp_iff[where 'a="64 word", of 2 n] by auto

lemma bit_2_word: "bit (2::64 word) n \<longleftrightarrow> n = 1"
  using bit_exp_iff[where 'a="64 word", of 1 n] by auto

text \<open>Block sizes and block addresses are multiples of 16.\<close>

definition mult16 :: "64 word \<Rightarrow> bool" where
  "mult16 sz = (take_bit 4 sz = 0)"

lemma bit_6_word: "bit (6::64 word) n \<longleftrightarrow> n = 1 \<or> n = 2"
proof -
  have "(6::64 word) = 4 OR 2" by simp
  then show ?thesis by (simp only: bit_or_iff bit_4_word bit_2_word) auto
qed

lemmas bit_masks = bit_4_word bit_2_word bit_6_word

lemma bit_strip_bits: "bit (strip_bits h) n \<longleftrightarrow> bit h n \<and> n \<noteq> 1 \<and> n \<noteq> 2"
  using bit_imp_le_length[of h n]
  by (auto simp only: strip_bits_def bit_and_iff bit_not_iff bit_masks possible_bit_word)

lemma clear_bits_strip: "clear_bits E s b = strip_bits (header s b XOR magic E)"
  by (simp add: clear_bits_def strip_bits_def and.assoc and.commute)

lemma bit_mult16: "mult16 sz \<Longrightarrow> n < 4 \<Longrightarrow> \<not> bit sz n"
  by (simp add: mult16_def take_bit_low_bits)

lemma strip_bits_or [simp]:
  assumes "mult16 sz"
  shows "strip_bits sz = sz" "strip_bits (sz OR 4) = sz" "strip_bits (sz OR 2) = sz" "strip_bits (sz OR 6) = sz"
proof -
  have lo: "\<not> bit sz 1" "\<not> bit sz 2" "(1::nat) \<noteq> 2" "(2::nat) \<noteq> 1"
    using assms by (simp_all add: bit_mult16)
  show "strip_bits sz = sz" "strip_bits (sz OR 4) = sz" "strip_bits (sz OR 2) = sz" "strip_bits (sz OR 6) = sz"
    using lo
    by (auto intro!: bit_word_eqI simp only: bit_strip_bits bit_or_iff bit_masks)
qed

lemma and_mask_or:
  assumes "mult16 sz"
  shows "sz AND 4 = 0" "(sz OR 4) AND 4 = 4" "(sz OR 2) AND 4 = 0" "(sz OR 6) AND 4 = 4"
    "sz AND 2 = 0" "(sz OR 4) AND 2 = 0" "(sz OR 2) AND 2 = 2" "(sz OR 6) AND 2 = 2"
proof -
  have lo: "\<not> bit sz 1" "\<not> bit sz 2" "(1::nat) \<noteq> 2" "(2::nat) \<noteq> 1"
    using assms by (simp_all add: bit_mult16)
  show "sz AND 4 = 0" "(sz OR 4) AND 4 = 4" "(sz OR 2) AND 4 = 0" "(sz OR 6) AND 4 = 4"
    "sz AND 2 = 0" "(sz OR 4) AND 2 = 0" "(sz OR 2) AND 2 = 2" "(sz OR 6) AND 2 = 2"
    using lo
    by (auto intro!: bit_word_eqI simp only: bit_and_iff bit_or_iff bit_masks bit_0_eq bot_apply bot_bool_def)
qed

lemma and_not_2_or:
  assumes "mult16 sz"
  shows "sz AND NOT 2 = sz" "(sz OR 4) AND NOT 2 = sz OR 4" "(sz OR 2) AND NOT 2 = sz" "(sz OR 6) AND NOT 2 = sz OR 4"
proof -
  have lo: "\<not> bit sz 1" "\<not> bit sz 2" "(1::nat) \<noteq> 2" "(2::nat) \<noteq> 1"
    using assms by (simp_all add: bit_mult16)
  show "sz AND NOT 2 = sz" "(sz OR 4) AND NOT 2 = sz OR 4" "(sz OR 2) AND NOT 2 = sz" "(sz OR 6) AND NOT 2 = sz OR 4"
    using lo
    by (auto intro!: bit_word_eqI simp only: bit_and_iff bit_or_iff bit_not_iff bit_masks possible_bit_word)
qed
section \<open>Addresses and fields\<close>

lemma mult16_unat: "mult16 p \<longleftrightarrow> 16 dvd unat p"
proof -
  have "unat (take_bit 4 p) = unat p mod 16" by (simp add: unsigned_take_bit_eq take_bit_eq_mod unat_mod)
  then show ?thesis unfolding mult16_def by (metis dvd_eq_mod_eq_0 unat_eq_zero)
qed

lemma unat_add_mod_16: "unat ((p::64 word) + q) mod 16 = (unat p + unat q) mod 16"
  unfolding unat_word_ariths(1) by (rule mod_mod_cancel) simp

lemma mult16_add_iff:
  assumes "mult16 q"
  shows "mult16 (p + q) \<longleftrightarrow> mult16 p"
  using assms unfolding mult16_unat dvd_eq_mod_eq_0 unat_add_mod_16
  by (simp add: mod_add_right_eq[symmetric, of "unat p" "unat q"])

lemma mult16_numeral [simp]: "mult16 0" "mult16 16" "mult16 32" "mult16 4096" "\<not> mult16 8" "\<not> mult16 (-8)"
  by (simp_all add: mult16_def)

lemma mult16_neq:
  assumes "mult16 p" "mult16 q"
  shows "p + 8 \<noteq> q" "p + 8 \<noteq> q + 16" "p + 16 \<noteq> q + 8" "p + 16 \<noteq> q + 24" "p + 24 \<noteq> q + 16" "p \<noteq> q + 8"
    "p \<noteq> q + 24" "p + 24 \<noteq> q"
proof -
  have odd: "\<not> mult16 (p + 8)" "\<not> mult16 (q + 8)" "\<not> mult16 (p - 8)" "\<not> mult16 (q - 8)"
    using mult16_add_iff[OF assms(1), of 8] mult16_add_iff[OF assms(2), of 8] 
      mult16_add_iff[OF assms(1), of "-8"] mult16_add_iff[OF assms(2), of "-8"] 
    by (simp_all add: add.commute)
  have 24: "\<not> mult16 (p + 24)" "\<not> mult16 (q + 24)"
    using odd mult16_add_iff[of 16 "p + 8"] mult16_add_iff[of 16 "q + 8"] by (simp_all add: add.assoc)
  have 16: "mult16 (p + 16)" "mult16 (q + 16)" using assms by (simp_all add: mult16_add_iff)
  show "p + 8 \<noteq> q" "p + 8 \<noteq> q + 16" "p + 16 \<noteq> q + 8" "p + 16 \<noteq> q + 24" "p + 24 \<noteq> q + 16" "p \<noteq> q + 8"
    "p \<noteq> q + 24" "p + 24 \<noteq> q"
    using odd 24 16 assms by metis+
qed

lemma get_set_same [simp]:
  "next_link (set_next b v s) a = (if a = b then v else next_link s a)"
  "prev_link (set_prev b v s) a = (if a = b then v else prev_link s a)"
  "header (set_header b v s) a = (if a = b then v else header s a)"
  "prev_footer (set_prev_footer b v s) a = (if a = b then v else prev_footer s a)"
  by (simp_all add: field_defs)

lemma get_set_other:
  assumes "mult16 a" "mult16 b"
  shows
  "next_link (set_prev b v s) a = next_link s a"
  "next_link (set_header b v s) a = next_link s a"
  "prev_link (set_next b v s) a = prev_link s a"
  "prev_link (set_prev_footer b v s) a = prev_link s a"
  "header (set_next b v s) a = header s a"
  "header (set_prev_footer b v s) a = header s a"
  "prev_footer (set_prev b v s) a = prev_footer s a"
  "prev_footer (set_header b v s) a = prev_footer s a"
  using mult16_neq[OF assms] by (simp_all add: field_defs)

lemma set_frame [simp]:
  "mem_end (write_row a v s) = mem_end s" "quick_first (write_row a v s) = quick_first s"
  "quick_count (write_row a v s) = quick_count s"
  "last_block_allocated (write_row a v s) = last_block_allocated s"
  "sf_errno (write_row a v s) = sf_errno s"
  "mem_end (set_next a v s) = mem_end s" "quick_first (set_next a v s) = quick_first s"
  "quick_count (set_next a v s) = quick_count s"
  "last_block_allocated (set_next a v s) = last_block_allocated s"
  "sf_errno (set_next a v s) = sf_errno s"
  "mem_end (set_prev a v s) = mem_end s" "quick_first (set_prev a v s) = quick_first s"
  "quick_count (set_prev a v s) = quick_count s"
  "last_block_allocated (set_prev a v s) = last_block_allocated s"
  "sf_errno (set_prev a v s) = sf_errno s"
  "mem_end (set_header a v s) = mem_end s" "quick_first (set_header a v s) = quick_first s"
  "quick_count (set_header a v s) = quick_count s"
  "last_block_allocated (set_header a v s) = last_block_allocated s"
  "sf_errno (set_header a v s) = sf_errno s"
  "mem_end (set_prev_footer a v s) = mem_end s" "quick_first (set_prev_footer a v s) = quick_first s"
  "quick_count (set_prev_footer a v s) = quick_count s"
  "last_block_allocated (set_prev_footer a v s) = last_block_allocated s"
  "sf_errno (set_prev_footer a v s) = sf_errno s"
  by (simp_all add: field_defs)

lemma header_update_header [simp]:
  "header (update_header E b sz a p s) b = (sz OR (if a = 1 then 4 else 0) OR (if p = 1 then 2 else 0)) XOR magic E"
  by (simp add: update_header_def THIS_BLOCK_ALLOCATED_def PREV_BLOCK_ALLOCATED_def or.assoc)

lemma mem_update_header: "q \<noteq> b + 8 \<Longrightarrow> mem (update_header E b sz a p s) q = mem s q"
  by (simp add: update_header_def set_header_def write_row_def Let_def)

lemma prev_alloc_bit_eq:
  "(header s b XOR magic E) AND 2 = w \<Longrightarrow> prev_alloc_bit E s b = uint (drop_bit 1 w)"
  by (simp add: prev_alloc_bit_def PREV_BLOCK_ALLOCATED_def)

theorem update_header_decode:
  assumes "mult16 sz"
  shows "clear_bits E (update_header E b sz a p s) b = sz
    \<and> (header (update_header E b sz a p s) b XOR magic E) AND THIS_BLOCK_ALLOCATED = (if a = 1 then 4 else 0)
    \<and> prev_alloc_bit E (update_header E b sz a p s) b = (if p = 1 then 1 else 0)
    \<and> (\<forall>q. q \<noteq> b + 8 \<longrightarrow> mem (update_header E b sz a p s) q = mem s q)"
proof -
  let ?s = "update_header E b sz a p s"
  have "(header ?s b XOR magic E) AND 2 = (if p = 1 then 2 else 0)"
    using assms by (simp add: or.assoc and_mask_or)
  from prev_alloc_bit_eq[OF this] have "prev_alloc_bit E ?s b = (if p = 1 then 1 else 0)" by simp
  then show ?thesis
    using assms by (simp add: clear_bits_strip or.assoc and_mask_or THIS_BLOCK_ALLOCATED_def mem_update_header)
qed

end
