(* ===== verification/Sf_Lists.thy ===== *)
theory Sf_Lists imports Sf_Layout begin

text \<open>
  The lists of hw3: the ten circular, doubly linked, segregated free lists with their sentinel
  blocks, and the ten singly linked quick lists with their counters (\<open>sfmm.c\<close>). Each operation is
  the sequence of row writes the C code performs; \<open>free_list\<close> and \<open>quick_list\<close> relate the memory
  to the abstract list it represents, and the lemmas show that insertion, removal and search
  implement the list operations.
\<close>

unbundle bit_operations_syntax

section \<open>Operations\<close>

definition initialize_free_lists :: "sf_env \<Rightarrow> sf_state \<Rightarrow> sf_state" where
  "initialize_free_lists E s =
     fold (\<lambda>i s. set_next (head_addr E i) (head_addr E i) (set_prev (head_addr E i) (head_addr E i) s))
       [0..<NUM_FREE_LISTS] s"

text \<open>The search loop of \<open>remove_from_free_list\<close>; nothing in the code bounds it.\<close>

partial_function (option) seek_header :: "sf_env \<Rightarrow> sf_state \<Rightarrow> 64 word \<Rightarrow> ptr \<Rightarrow> ptr option" where
  "seek_header E s actual_block_size block =
     (if header s block XOR magic E \<noteq> actual_block_size
      then seek_header E s actual_block_size (next_link s block)
      else Some block)"

definition unlink :: "ptr \<Rightarrow> sf_state \<Rightarrow> sf_state" where
  "unlink block s =
     (let temp = prev_link s block;
          s = set_next (prev_link s block) (next_link s block) s
      in set_prev (next_link s block) temp s)"

definition remove_from_free_list ::
  "sf_env \<Rightarrow> ptr \<Rightarrow> 64 word \<Rightarrow> sf_state \<Rightarrow> (ptr \<times> sf_state) outcome" where
  "remove_from_free_list E free_list_head actual_block_size s =
     (let block = next_link s free_list_head in
      if block = prev_link s free_list_head
      then (let s = set_next free_list_head free_list_head s;
                s = set_prev free_list_head free_list_head s
            in Ret (block, set_next block NULL s))
      else andThen (loop_result (seek_header E s actual_block_size block))
             (\<lambda>block. Ret (block, set_next block NULL (unlink block s))))"

partial_function (option) scan_free_list ::
  "sf_env \<Rightarrow> sf_state \<Rightarrow> ptr \<Rightarrow> 64 word \<Rightarrow> ptr \<Rightarrow> ptr option option" where
  "scan_free_list E s free_list_head needed_block_size blk =
     (if blk \<noteq> free_list_head
      then (if header s blk XOR magic E \<ge> needed_block_size then Some (Some blk)
            else scan_free_list E s free_list_head needed_block_size (next_link s blk))
      else Some None)"

text \<open>\<open>Ret (Some blk)\<close> is the return value 1 with \<open>*block\<close> and \<open>*found_block\<close> set, \<open>Ret None\<close> is -1.\<close>

definition get_from_free_list :: "sf_env \<Rightarrow> ptr \<Rightarrow> 64 word \<Rightarrow> sf_state \<Rightarrow> ptr option outcome" where
  "get_from_free_list E free_list_head needed_block_size s =
     loop_result (scan_free_list E s free_list_head needed_block_size (next_link s free_list_head))"

definition insert_to_free_list :: "sf_env \<Rightarrow> ptr \<Rightarrow> sf_state \<Rightarrow> sf_state" where
  "insert_to_free_list E block s =
     (let sz = (header s block XOR magic E) AND NOT 2;
          h = head_addr E (get_free_list_index sz)
      in if next_link s h = h
         then (let s = set_next h block s;
                   s = set_prev h block s;
                   s = set_next block h s
               in set_prev block h s)
         else (let s = set_next block (next_link s h) s;
                   s = set_prev block h s;
                   s = set_prev (next_link s block) block s
               in set_next h block s))"

definition remove_from_quick_list :: "ptr \<Rightarrow> nat \<Rightarrow> sf_state \<Rightarrow> ptr \<times> sf_state" where
  "remove_from_quick_list head index s =
     (let s = (if next_link s head = NULL
               then s\<lparr>quick_first := (quick_first s)(index := NULL)\<rparr>
               else s\<lparr>quick_first := (quick_first s)(index := next_link s head)\<rparr>)
      in (head, set_next head NULL s))"

definition insert_to_quick_list :: "ptr \<Rightarrow> nat \<Rightarrow> sf_state \<Rightarrow> sf_state" where
  "insert_to_quick_list block index s =
     (let s = set_next block (quick_first s index) s
      in s\<lparr>quick_first := (quick_first s)(index := block)\<rparr>)"

definition decrement_quick_list_counter :: "int \<Rightarrow> sf_state \<Rightarrow> sf_state" where
  "decrement_quick_list_counter index s =
     (if 0 \<le> index \<and> index \<le> 9
      then s\<lparr>quick_count := (quick_count s)(nat index := quick_count s (nat index) - 1)\<rparr>
      else s)"

definition increment_quick_list_counter :: "int \<Rightarrow> sf_state \<Rightarrow> int \<times> sf_state" where
  "increment_quick_list_counter index s =
     (if 0 \<le> index \<and> index \<le> 9
      then (if quick_count s (nat index) < 5
            then (0, s\<lparr>quick_count := (quick_count s)(nat index := quick_count s (nat index) + 1)\<rparr>)
            else (-1, s))
      else (-1, s))"

section \<open>Circular lists\<close>

fun chain :: "(ptr \<Rightarrow> ptr) \<Rightarrow> (ptr \<Rightarrow> ptr) \<Rightarrow> ptr list \<Rightarrow> bool" where
  "chain nx pv (a # b # zs) = (nx a = b \<and> pv b = a \<and> chain nx pv (b # zs))"
| "chain nx pv [a] = True"
| "chain nx pv [] = True"

lemma chain_append:
  "chain nx pv (xs @ a # ys) \<longleftrightarrow> chain nx pv (xs @ [a]) \<and> chain nx pv (a # ys)"
proof (induction xs)
  case Nil
  show ?case by simp
next
  case (Cons x xs)
  then show ?case by (cases xs) auto
qed

lemma chain_append2:
  "chain nx pv (xs @ a # b # ys) \<longleftrightarrow> chain nx pv (xs @ [a]) \<and> nx a = b \<and> pv b = a \<and> chain nx pv (b # ys)"
  by (subst chain_append) simp

lemma chain_cong:
  "(\<And>x. x \<in> set (butlast zs) \<Longrightarrow> nx' x = nx x) \<Longrightarrow> (\<And>x. x \<in> set (tl zs) \<Longrightarrow> pv' x = pv x) \<Longrightarrow>
   chain nx' pv' zs = chain nx pv zs"
proof (induction nx pv zs rule: chain.induct)
  case (1 nx pv a b zs)
  have "chain nx' pv' (b # zs) = chain nx pv (b # zs)"
  proof (rule 1(1))
    fix x assume "x \<in> set (butlast (b # zs))" then show "nx' x = nx x" using 1(2)[of x] by simp
  next
    fix x assume "x \<in> set (tl (b # zs))" then show "pv' x = pv x" using 1(3)[of x] by simp
  qed
  then show ?case using 1(2)[of a] 1(3)[of b] by simp
qed simp_all

lemma chain_insert:
  assumes "chain nx pv (h # xs @ [h])" "distinct (h # xs)" "b \<notin> set (h # xs)"
  shows "chain (nx(b := nx h, h := b)) (pv(b := h, nx h := b)) (h # (b # xs) @ [h])"
proof (cases xs)
  case Nil
  with assms show ?thesis by auto
next
  case (Cons x xs')
  let ?nx = "nx(b := nx h, h := b)" and ?pv = "pv(b := h, nx h := b)"
  from assms Cons have x: "nx h = x" "pv x = h" and c: "chain nx pv (x # xs' @ [h])" by auto
  have "chain ?nx ?pv (x # xs' @ [h]) = chain nx pv (x # xs' @ [h])"
    by (rule chain_cong) (use assms Cons x in \<open>auto simp: butlast_append\<close>)
  with c x assms Cons show ?thesis by auto
qed

lemma chain_remove:
  assumes "chain nx pv (h # pre @ b # post @ [h])" "distinct (h # pre @ b # post)"
  shows "chain (nx(pv b := nx b, b := v)) (pv(nx b := pv b)) (h # pre @ post @ [h])"
    "pv b = last (h # pre)" "nx b = hd (post @ [h])"
proof -
  obtain as a where as: "h # pre = as @ [a]" by (metis list.distinct(1) rev_exhaust)
  obtain c cs where cs: "post @ [h] = c # cs" by (cases post) auto
  let ?nx = "nx(pv b := nx b, b := v)" and ?pv = "pv(nx b := pv b)"
  have "chain nx pv (as @ a # b # c # cs)" using assms(1) as cs by (metis append.assoc append_Cons append_Nil)
  then have k: "chain nx pv (as @ [a])" "nx a = b" "pv b = a" "nx b = c" "pv c = b" "chain nx pv (c # cs)"
    by (simp_all add: chain_append2)
  have d: "distinct (as @ [a])" "distinct (c # cs)" "b \<notin> set (as @ [a])" "b \<notin> set (c # cs)"
      "set (as @ [a]) \<inter> set (butlast (c # cs)) = {}" "set (tl (as @ [a])) \<inter> set (c # cs) = {}"
    unfolding as[symmetric] cs[symmetric] using assms(2) by auto
  have "chain ?nx ?pv (as @ [a]) = chain nx pv (as @ [a])"
  proof (rule chain_cong)
    fix x assume "x \<in> set (butlast (as @ [a]))"
    then show "?nx x = nx x" using d k by auto
  next
    fix x assume "x \<in> set (tl (as @ [a]))"
    then show "?pv x = pv x" using d k by auto
  qed
  moreover have "chain ?nx ?pv (c # cs) = chain nx pv (c # cs)"
  proof (rule chain_cong)
    fix x assume x: "x \<in> set (butlast (c # cs))"
    then have "x \<noteq> b" using d by (meson in_set_butlastD)
    with x show "?nx x = nx x" using d k by auto
  next
    fix x assume "x \<in> set (tl (c # cs))"
    then show "?pv x = pv x" using d k by auto
  qed
  moreover have "a \<noteq> b" "c \<noteq> b" using d by auto
  ultimately have "chain ?nx ?pv (as @ a # c # cs)" using k by (simp add: chain_append2)
  moreover have "as @ a # c # cs = h # pre @ post @ [h]" using as cs by (metis append.assoc append_Cons append_Nil)
  ultimately show "chain ?nx ?pv (h # pre @ post @ [h])" by simp
  show "pv b = last (h # pre)" "nx b = hd (post @ [h])" using k as cs by simp_all
qed

lemma chain_hd: "chain nx pv (h # xs @ [k]) \<Longrightarrow> nx h = hd (xs @ [k])"
  by (cases xs) auto

lemma chain_last: "chain nx pv (h # xs @ [k]) \<Longrightarrow> pv k = last (h # xs)"
proof (induction xs rule: rev_induct)
  case (snoc x xs)
  then have "chain nx pv ((h # xs) @ x # k # [])" by simp
  then show ?case unfolding chain_append2 by simp
qed auto
section \<open>The lists a memory represents\<close>

definition free_list :: "sf_env \<Rightarrow> sf_state \<Rightarrow> nat \<Rightarrow> ptr list \<Rightarrow> bool" where
  "free_list E s i xs \<longleftrightarrow>
     chain (next_link s) (prev_link s) (head_addr E i # xs @ [head_addr E i]) \<and>
     distinct (head_addr E i # xs) \<and> (\<forall>x\<in>set (head_addr E i # xs). mult16 x)"

definition pools :: "sf_env \<Rightarrow> sf_state \<Rightarrow> (nat \<Rightarrow> ptr list) \<Rightarrow> bool" where
  "pools E s L \<longleftrightarrow> (\<forall>i<NUM_FREE_LISTS. free_list E s i (L i)) \<and>
     (\<forall>i<NUM_FREE_LISTS. \<forall>j<NUM_FREE_LISTS. i \<noteq> j \<longrightarrow>
        set (head_addr E i # L i) \<inter> set (head_addr E j # L j) = {})"

definition unlisted :: "sf_env \<Rightarrow> (nat \<Rightarrow> ptr list) \<Rightarrow> ptr \<Rightarrow> bool" where
  "unlisted E L b \<longleftrightarrow> mult16 b \<and> (\<forall>i<NUM_FREE_LISTS. b \<notin> set (head_addr E i # L i))"

lemma get_free_list_index_less [simp]: "get_free_list_index sz < NUM_FREE_LISTS"
  by (simp add: get_free_list_index_def NUM_FREE_LISTS_def)

lemma free_list_cong:
  assumes "free_list E s i xs" "\<And>x. x \<in> set (head_addr E i # xs) \<Longrightarrow> next_link s' x = next_link s x"
    "\<And>x. x \<in> set (head_addr E i # xs) \<Longrightarrow> prev_link s' x = prev_link s x"
  shows "free_list E s' i xs"
proof -
  let ?h = "head_addr E i"
  have "chain (next_link s') (prev_link s') (?h # xs @ [?h]) = chain (next_link s) (prev_link s) (?h # xs @ [?h])"
    by (rule chain_cong) (use assms(2,3) in \<open>auto simp: butlast_append\<close>)
  with assms(1) show ?thesis by (simp add: free_list_def)
qed

lemma free_list_next: "free_list E s i xs \<Longrightarrow> next_link s (head_addr E i) = hd (xs @ [head_addr E i])"
  by (auto simp: free_list_def dest: chain_hd)

lemma free_list_prev: "free_list E s i xs \<Longrightarrow> prev_link s (head_addr E i) = last (head_addr E i # xs)"
  by (auto simp: free_list_def dest: chain_last)

lemma free_list_next_in: "free_list E s i xs \<Longrightarrow> next_link s (head_addr E i) \<in> set (head_addr E i # xs)"
  by (simp add: free_list_next) (cases xs; simp)

lemma free_list_empty_iff: "free_list E s i xs \<Longrightarrow>
   (prev_link s (head_addr E i) = head_addr E i \<and> next_link s (head_addr E i) = head_addr E i) \<longleftrightarrow> xs = []"
  using free_list_next[of E s i xs] by (cases xs) (auto simp: free_list_def)

subsection \<open>Insertion\<close>

lemma insert_links:
  assumes "mult16 b" "mult16 h" "mult16 (next_link s h)" "b \<noteq> h" "mult16 a"
    and h: "h = head_addr E (get_free_list_index ((header s b XOR magic E) AND NOT 2))"
  shows "next_link (insert_to_free_list E b s) a = ((next_link s)(b := next_link s h, h := b)) a"
    "prev_link (insert_to_free_list E b s) a = ((prev_link s)(b := h, next_link s h := b)) a"
  using assms unfolding insert_to_free_list_def Let_def h[symmetric]
  by (auto simp: get_set_other)

lemma insert_frame:
  assumes h: "h = head_addr E (get_free_list_index ((header s b XOR magic E) AND NOT 2))"
    and q: "q \<notin> {b + 16, b + 24, h + 16, h + 24, next_link s h + 24}"
  shows "mem (insert_to_free_list E b s) q = mem s q"
  using q unfolding insert_to_free_list_def Let_def h[symmetric]
  by (auto simp: set_next_def set_prev_def write_row_def next_link_def)

lemma insert_only_mem: "\<exists>m. insert_to_free_list E b s = s\<lparr>mem := m\<rparr>"
  by (auto simp: insert_to_free_list_def Let_def set_next_def set_prev_def write_row_def)

theorem insert_to_free_list_pools:
  assumes P: "pools E s L" and u: "unlisted E L b"
    and i: "i = get_free_list_index ((header s b XOR magic E) AND NOT 2)"
  shows "pools E (insert_to_free_list E b s) (L(i := b # L i))"
proof -
  let ?s = "insert_to_free_list E b s" and ?h = "head_addr E i"
  have i10: "i < NUM_FREE_LISTS" by (simp add: i)
  have fl: "free_list E s i (L i)" using P i10 by (simp add: pools_def)
  have mh: "mult16 ?h" and mb: "mult16 b" and bh: "b \<noteq> ?h" and bl: "b \<notin> set (?h # L i)"
    using fl u i10 by (auto simp: free_list_def unlisted_def)
  have nin: "next_link s ?h \<in> set (?h # L i)" using free_list_next_in[OF fl] .
  then have mn: "mult16 (next_link s ?h)" using fl by (auto simp: free_list_def)
  note links = insert_links[OF mb mh mn bh _ arg_cong[OF i, of "head_addr E"]]
  have "free_list E ?s i (b # L i)"
  proof -
    have "chain (next_link ?s) (prev_link ?s) (?h # (b # L i) @ [?h]) =
      chain ((next_link s)(b := next_link s ?h, ?h := b)) ((prev_link s)(b := ?h, next_link s ?h := b)) (?h # (b # L i) @ [?h])"
    proof (rule chain_cong)
      fix x assume "x \<in> set (butlast (?h # (b # L i) @ [?h]))"
      then have "x \<in> set (?h # b # L i)" by (auto dest: in_set_butlastD)
      then have "mult16 x" using fl mb by (auto simp: free_list_def)
      then show "next_link ?s x = ((next_link s)(b := next_link s ?h, ?h := b)) x" by (rule links)
    next
      fix x assume "x \<in> set (tl (?h # (b # L i) @ [?h]))"
      then have "mult16 x" using fl mb by (auto simp: free_list_def)
      then show "prev_link ?s x = ((prev_link s)(b := ?h, next_link s ?h := b)) x" by (rule links)
    qed
    moreover have "chain ((next_link s)(b := next_link s ?h, ?h := b)) ((prev_link s)(b := ?h, next_link s ?h := b)) (?h # (b # L i) @ [?h])"
      by (rule chain_insert) (use fl bl in \<open>auto simp: free_list_def\<close>)
    ultimately have "chain (next_link ?s) (prev_link ?s) (?h # (b # L i) @ [?h])" by (simp only:)
    moreover have "distinct (?h # b # L i)" "\<forall>x\<in>set (?h # b # L i). mult16 x"
      using fl bl mb by (auto simp: free_list_def)
    ultimately show ?thesis unfolding free_list_def by blast
  qed
  moreover have "free_list E ?s j (L j)" if "j < NUM_FREE_LISTS" "j \<noteq> i" for j
  proof (rule free_list_cong)
    show "free_list E s j (L j)" using P that by (simp add: pools_def)
    fix x assume x: "x \<in> set (head_addr E j # L j)"
    then have "mult16 x" using P that by (auto simp: pools_def free_list_def)
    moreover have "x \<notin> set (?h # L i)" using P that x i10 unfolding pools_def by blast
    moreover have "x \<noteq> b" using u that x by (auto simp: unlisted_def)
    ultimately show "next_link ?s x = next_link s x" "prev_link ?s x = prev_link s x"
      using nin by (auto simp: links)
  qed
  ultimately show ?thesis
    using P u i10 unfolding pools_def unlisted_def by auto
qed

subsection \<open>Removal\<close>

definition remove_state :: "ptr \<Rightarrow> sf_state \<Rightarrow> sf_state" where
  "remove_state b s = set_next b NULL (set_prev (next_link s b) (prev_link s b)
      (set_next (prev_link s b) (next_link s b) s))"

lemma seek_header_first:
  "chain (next_link s) pv (pre @ b # rest) \<Longrightarrow> header s b XOR magic E = sz \<Longrightarrow>
   \<forall>x\<in>set pre. header s x XOR magic E \<noteq> sz \<Longrightarrow> seek_header E s sz (hd (pre @ [b])) = Some b"
proof (induction pre)
  case Nil
  then show ?case by (subst seek_header.simps) simp
next
  case (Cons x pre)
  have nx: "next_link s x = hd (pre @ [b])" using Cons.prems(1) by (cases pre) auto
  have "chain (next_link s) pv (pre @ b # rest)" using Cons.prems(1) by (cases pre) auto
  with Cons have "seek_header E s sz (hd (pre @ [b])) = Some b" by simp
  with Cons.prems nx show ?case by (subst seek_header.simps) simp
qed

lemma scan_free_list_find:
  "chain (next_link s) pv (xs @ [h]) \<Longrightarrow> h \<notin> set xs \<Longrightarrow>
   scan_free_list E s h n (hd (xs @ [h])) = Some (find (\<lambda>x. n \<le> header s x XOR magic E) xs)"
proof (induction xs)
  case Nil
  then show ?case by (subst scan_free_list.simps) simp
next
  case (Cons x xs)
  have nx: "next_link s x = hd (xs @ [h])" using Cons.prems(1) by (cases xs) auto
  have "chain (next_link s) pv (xs @ [h])" using Cons.prems(1) by (cases xs) auto
  with Cons have "scan_free_list E s h n (hd (xs @ [h])) = Some (find (\<lambda>x. n \<le> header s x XOR magic E) xs)" by simp
  with Cons.prems nx show ?case by (subst scan_free_list.simps) auto
qed

theorem get_from_free_list_first_fit:
  assumes "free_list E s i xs"
  shows "get_from_free_list E (head_addr E i) needed s =
    Ret (find (\<lambda>x. needed \<le> header s x XOR magic E) xs)"
proof -
  let ?h = "head_addr E i"
  have "chain (next_link s) (prev_link s) (xs @ [?h])" "?h \<notin> set xs"
    using assms by (cases xs; auto simp: free_list_def)+
  from scan_free_list_find[OF this] show ?thesis
    by (simp add: get_from_free_list_def free_list_next[OF assms])
qed

lemma remove_links:
  assumes "mult16 b" "mult16 (prev_link s b)" "mult16 (next_link s b)" "mult16 a" "prev_link s b \<noteq> b"
  shows "next_link (remove_state b s) a = ((next_link s)(prev_link s b := next_link s b, b := NULL)) a"
    "prev_link (remove_state b s) a = ((prev_link s)(next_link s b := prev_link s b)) a"
  using assms by (auto simp: remove_state_def get_set_other)

lemma remove_frame:
  "q \<notin> {prev_link s b + 16, next_link s b + 24, b + 16} \<Longrightarrow> mem (remove_state b s) q = mem s q"
  by (auto simp: remove_state_def set_next_def set_prev_def write_row_def)

lemma remove_only_mem: "\<exists>m. remove_state b s = s\<lparr>mem := m\<rparr>"
  by (auto simp: remove_state_def Let_def set_next_def set_prev_def write_row_def)

lemma remove_from_free_list_first:
  assumes fl: "free_list E s i (pre @ b # post)"
    and m: "pre @ post = [] \<or> header s b XOR magic E = sz \<and> (\<forall>x\<in>set pre. header s x XOR magic E \<noteq> sz)"
  shows "remove_from_free_list E (head_addr E i) sz s = Ret (b, remove_state b s)"
proof -
  let ?h = "head_addr E i"
  have ch: "chain (next_link s) (prev_link s) (?h # pre @ b # post @ [?h])" and d: "distinct (?h # pre @ b # post)"
    and al: "\<forall>x\<in>set (?h # pre @ b # post). mult16 x" using fl by (auto simp: free_list_def)
  note nb = chain_remove(2,3)[OF ch d]
  have n: "next_link s ?h = hd (pre @ [b])" using free_list_next[OF fl] by (cases pre) auto
  have p: "prev_link s ?h = last (b # post)" using free_list_prev[OF fl] by simp
  show ?thesis
  proof (cases "pre @ post = []")
    case True
    then have "next_link s ?h = b" "prev_link s ?h = b" "prev_link s b = ?h" "next_link s b = ?h"
      using n p nb by auto
    then show ?thesis by (simp add: remove_from_free_list_def Let_def remove_state_def)
  next
    case False
    then have ne: "hd (pre @ [b]) \<noteq> last (b # post)" using d by (cases pre; cases post rule: rev_cases) auto
    have "chain (next_link s) (prev_link s) (pre @ b # post @ [?h])" using ch by (cases pre) auto
    then have "seek_header E s sz (hd (pre @ [b])) = Some b"
      using m False by (intro seek_header_first) auto
    moreover have "prev_link s b \<noteq> b" using nb d by (cases pre rule: rev_cases) auto
    ultimately show ?thesis using ne n p al
      by (simp add: remove_from_free_list_def Let_def remove_state_def unlink_def)
  qed
qed

theorem remove_from_free_list_pools:
  assumes P: "pools E s L" and i: "i < NUM_FREE_LISTS" and L: "L i = pre @ b # post"
    and m: "pre @ post = [] \<or> header s b XOR magic E = sz \<and> (\<forall>x\<in>set pre. header s x XOR magic E \<noteq> sz)"
  shows "remove_from_free_list E (head_addr E i) sz s = Ret (b, remove_state b s) \<and>
    pools E (remove_state b s) (L(i := pre @ post)) \<and> unlisted E (L(i := pre @ post)) b"
proof -
  let ?s = "remove_state b s" and ?h = "head_addr E i"
  have fl: "free_list E s i (pre @ b # post)" using P i L unfolding pools_def by metis
  then have ch: "chain (next_link s) (prev_link s) (?h # pre @ b # post @ [?h])" and d: "distinct (?h # pre @ b # post)"
    and al: "\<forall>x\<in>set (?h # pre @ b # post). mult16 x" by (auto simp: free_list_def)
  note nb = chain_remove(2,3)[OF ch d]
  have nin: "prev_link s b \<in> set (?h # pre)" "next_link s b \<in> set (post @ [?h])"
    unfolding nb by (rule last_in_set, simp) (rule hd_in_set, simp)
  then have mm: "mult16 b" "mult16 (prev_link s b)" "mult16 (next_link s b)" "prev_link s b \<noteq> b" using al d by auto
  note links = remove_links[OF mm(1-3) _ mm(4)]
  have "free_list E ?s i (pre @ post)"
  proof -
    have "chain (next_link ?s) (prev_link ?s) (?h # pre @ post @ [?h]) =
      chain ((next_link s)(prev_link s b := next_link s b, b := NULL)) ((prev_link s)(next_link s b := prev_link s b)) (?h # pre @ post @ [?h])"
    proof (rule chain_cong)
      fix x assume "x \<in> set (butlast (?h # pre @ post @ [?h]))"
      then have "x \<in> set (?h # pre @ b # post)" by (auto dest: in_set_butlastD)
      then have "mult16 x" using al by blast
      then show "next_link ?s x = ((next_link s)(prev_link s b := next_link s b, b := NULL)) x" by (rule links)
    next
      fix x assume "x \<in> set (tl (?h # pre @ post @ [?h]))"
      then have "mult16 x" using al by auto
      then show "prev_link ?s x = ((prev_link s)(next_link s b := prev_link s b)) x" by (rule links)
    qed
    with chain_remove(1)[OF ch d, of NULL]
    have "chain (next_link ?s) (prev_link ?s) (?h # (pre @ post) @ [?h])" by simp
    moreover have "distinct (?h # pre @ post)" "\<forall>x\<in>set (?h # pre @ post). mult16 x" using d al by auto
    ultimately show ?thesis unfolding free_list_def by blast
  qed
  moreover have "free_list E ?s j (L j)" if "j < NUM_FREE_LISTS" "j \<noteq> i" for j
  proof (rule free_list_cong)
    show "free_list E s j (L j)" using P that by (simp add: pools_def)
    fix x assume x: "x \<in> set (head_addr E j # L j)"
    then have "mult16 x" using P that by (auto simp: pools_def free_list_def)
    moreover have "x \<notin> set (?h # L i)" using P that x i unfolding pools_def by blast
    ultimately show "next_link ?s x = next_link s x" "prev_link ?s x = prev_link s x"
      using nin L by (auto simp: links)
  qed
  moreover have sub: "set (head_addr E j # (L(i := pre @ post)) j) \<subseteq> set (head_addr E j # L j)" for j using L by auto
  have "set (head_addr E k # (L(i := pre @ post)) k) \<inter> set (head_addr E j # (L(i := pre @ post)) j) = {}"
    if "k < NUM_FREE_LISTS" "j < NUM_FREE_LISTS" "k \<noteq> j" for k j
  proof -
    have "set (head_addr E k # L k) \<inter> set (head_addr E j # L j) = {}" using P that unfolding pools_def by blast
    with sub[of k] sub[of j] show ?thesis by blast
  qed
  ultimately have "pools E ?s (L(i := pre @ post))"
    unfolding pools_def by (simp del: set_simps)
  moreover have "unlisted E (L(i := pre @ post)) b"
    unfolding unlisted_def
  proof (intro conjI allI impI)
    fix j assume j: "j < NUM_FREE_LISTS"
    show "b \<notin> set (head_addr E j # (L(i := pre @ post)) j)"
    proof (cases "j = i")
      case False
      have "b \<in> set (?h # L i)" using L by simp
      moreover have "set (?h # L i) \<inter> set (head_addr E j # L j) = {}"
        using P i j False unfolding pools_def by blast
      ultimately show ?thesis using sub[of j] by blast
    qed (use d in auto)
  qed (use mm in simp)
  ultimately show ?thesis using remove_from_free_list_first[OF fl m] by blast
qed
text \<open>
  The search of \<open>sf_malloc\<close> and the removal that follows it agree: removing a block with the header
  of the block the first-fit search found takes out that very block.
\<close>

theorem search_then_remove:
  assumes P: "pools E s L" and i: "i < NUM_FREE_LISTS"
    and g: "get_from_free_list E (head_addr E i) needed s = Ret (Some b)"
  shows "\<exists>pre post. L i = pre @ b # post \<and>
    needed \<le> header s b XOR magic E \<and> (\<forall>x\<in>set pre. header s x XOR magic E < needed) \<and>
    remove_from_free_list E (head_addr E i) (header s b XOR magic E) s = Ret (b, remove_state b s) \<and>
    pools E (remove_state b s) (L(i := pre @ post))"
proof -
  let ?fit = "\<lambda>x. needed \<le> header s x XOR magic E"
  have fl: "free_list E s i (L i)" using P i by (simp add: pools_def)
  have f: "find ?fit (L i) = Some b" using g get_from_free_list_first_fit[OF fl] by simp
  then have b: "?fit b" "\<exists>x\<in>set (L i). ?fit x" by (auto simp: find_Some_iff)
  then obtain pre c post where L: "L i = pre @ c # post" "?fit c" "\<forall>x\<in>set pre. \<not> ?fit x"
    using first_match_split[of "L i" ?fit] by blast
  have "find ?fit (pre @ c # post) = Some c" using L(2,3) by (induction pre) auto
  with f L have "c = b" by simp
  with L have "L i = pre @ b # post" "\<forall>x\<in>set pre. header s x XOR magic E < needed" by auto
  moreover from this b(1) have "pre @ post = [] \<or> header s b XOR magic E = header s b XOR magic E \<and>
      (\<forall>x\<in>set pre. header s x XOR magic E \<noteq> header s b XOR magic E)" by fastforce
  ultimately show ?thesis
    using remove_from_free_list_pools[OF P i] b(1) by blast
qed

section \<open>The sentinels\<close>

lemma head_addr_inj:
  assumes "i < NUM_FREE_LISTS" "j < NUM_FREE_LISTS" "head_addr E i = head_addr E j"
  shows "i = j"
proof -
  have "unat (32 * of_nat k :: 64 word) = 32 * k" if "k < 10" for k
    using that by (simp add: unat_word_ariths unat_of_nat)
  with assms show ?thesis unfolding head_addr_def NUM_FREE_LISTS_def by (metis add_left_cancel mult_left_cancel zero_neq_numeral)
qed

lemma mult16_head_addr: "mult16 (free_heads E) \<Longrightarrow> mult16 (head_addr E i)"
proof -
  assume h: "mult16 (free_heads E)"
  have "mult16 (32 * of_nat i :: 64 word)"
  proof (induction i)
    case (Suc i)
    have "32 * of_nat (Suc i) = 32 * of_nat i + (32 :: 64 word)" by (simp add: algebra_simps)
    then show ?case using Suc mult16_add_iff[of 32 "32 * of_nat i"] by (simp add: add.commute)
  qed simp
  with h show ?thesis by (simp add: head_addr_def mult16_add_iff)
qed

theorem initialize_free_lists_pools:
  assumes "mult16 (free_heads E)"
  shows "pools E (initialize_free_lists E s) (\<lambda>i. [])"
proof -
  note al = mult16_head_addr[OF assms]
  let ?f = "\<lambda>i s. set_next (head_addr E i) (head_addr E i) (set_prev (head_addr E i) (head_addr E i) s)"
  have "\<forall>i<n. next_link (fold ?f [0..<n] s) (head_addr E i) = head_addr E i \<and>
      prev_link (fold ?f [0..<n] s) (head_addr E i) = head_addr E i" if "n \<le> NUM_FREE_LISTS" for n
    using that
  proof (induction n)
    case (Suc n)
    show ?case
    proof (intro allI impI)
      fix i assume i: "i < Suc n"
      show "next_link (fold ?f [0..<Suc n] s) (head_addr E i) = head_addr E i \<and>
        prev_link (fold ?f [0..<Suc n] s) (head_addr E i) = head_addr E i"
        using Suc i by (cases "i = n") (auto simp: get_set_other al less_Suc_eq)
    qed
  qed simp
  from this[of NUM_FREE_LISTS] have "\<forall>i<NUM_FREE_LISTS. free_list E (initialize_free_lists E s) i []"
    using al by (auto simp: free_list_def initialize_free_lists_def)
  moreover have "head_addr E i \<noteq> head_addr E j"
    if "i < NUM_FREE_LISTS" "j < NUM_FREE_LISTS" "i \<noteq> j" for i j using head_addr_inj that by blast
  ultimately show ?thesis by (simp add: pools_def)
qed

section \<open>Quick lists\<close>

text \<open>
  The contract of a last-in, first-out list: what \<open>sf_malloc\<close> and \<open>sf_free\<close> rely on when they put
  freed blocks aside and take them back.
\<close>

locale lifo =
  fixes rep :: "'s \<Rightarrow> 'i \<Rightarrow> 'b list \<Rightarrow> bool"
    and push :: "'b \<Rightarrow> 'i \<Rightarrow> 's \<Rightarrow> 's"
    and pop :: "'i \<Rightarrow> 's \<Rightarrow> 'b \<times> 's"
    and fresh :: "'b \<Rightarrow> 'b list \<Rightarrow> bool"
  assumes push_rep: "rep s i xs \<Longrightarrow> fresh b xs \<Longrightarrow> rep (push b i s) i (b # xs)"
    and pop_rep: "rep s i (b # xs) \<Longrightarrow> fst (pop i s) = b \<and> rep (snd (pop i s)) i xs"
begin

primrec drain :: "nat \<Rightarrow> 'i \<Rightarrow> 's \<Rightarrow> 'b list \<times> 's" where
  "drain 0 i s = ([], s)"
| "drain (Suc n) i s = (let (b, s1) = pop i s; (bs, s2) = drain n i s1 in (b # bs, s2))"

lemma pop_push:
  "rep s i xs \<Longrightarrow> fresh b xs \<Longrightarrow> fst (pop i (push b i s)) = b \<and> rep (snd (pop i (push b i s))) i xs"
  using push_rep pop_rep by blast

lemma drain_all: "rep s i xs \<Longrightarrow> fst (drain (length xs) i s) = xs \<and> rep (snd (drain (length xs) i s)) i []"
proof (induction xs arbitrary: s)
  case (Cons b xs)
  from pop_rep[OF Cons.prems] Cons.IH[of "snd (pop i s)"] show ?case
    by (simp add: Let_def split_beta)
qed simp

lemma drain_push:
  assumes "rep s i xs" "fresh b xs"
  shows "fst (drain (Suc (length xs)) i (push b i s)) = b # xs"
  using drain_all[OF push_rep[OF assms]] by simp

end

fun slist :: "(ptr \<Rightarrow> ptr) \<Rightarrow> ptr \<Rightarrow> ptr list \<Rightarrow> bool" where
  "slist nx p [] = (p = NULL)"
| "slist nx p (x # xs) = (p = x \<and> x \<noteq> NULL \<and> slist nx (nx x) xs)"

definition quick_list :: "sf_state \<Rightarrow> nat \<Rightarrow> ptr list \<Rightarrow> bool" where
  "quick_list s i xs \<longleftrightarrow> slist (next_link s) (quick_first s i) xs \<and> distinct xs"

definition quick_fresh :: "ptr \<Rightarrow> ptr list \<Rightarrow> bool" where
  "quick_fresh b xs \<longleftrightarrow> b \<noteq> NULL \<and> b \<notin> set xs"

definition pop_quick :: "nat \<Rightarrow> sf_state \<Rightarrow> ptr \<times> sf_state" where
  "pop_quick i s = remove_from_quick_list (quick_first s i) i s"

lemma slist_cong: "(\<And>x. x \<in> set xs \<Longrightarrow> nx' x = nx x) \<Longrightarrow> slist nx' p xs = slist nx p xs"
  by (induction xs arbitrary: p) auto

lemma next_link_set_next: "next_link (set_next b v s) = (next_link s)(b := v)"
  by (auto simp: fun_eq_iff)

lemma next_link_quick_first [simp]: "next_link (s\<lparr>quick_first := q\<rparr>) = next_link s"
  by (auto simp: next_link_def)

lemma slist_fun_upd: "b \<notin> set xs \<Longrightarrow> slist (nx(b := v)) p xs = slist nx p xs"
  by (rule slist_cong) auto

lemma quick_push:
  "quick_list s i xs \<Longrightarrow> quick_fresh b xs \<Longrightarrow> quick_list (insert_to_quick_list b i s) i (b # xs)"
  by (auto simp: quick_list_def quick_fresh_def insert_to_quick_list_def Let_def next_link_set_next slist_fun_upd)

lemma quick_pop:
  assumes "quick_list s i (b # xs)"
  shows "fst (pop_quick i s) = b \<and> quick_list (snd (pop_quick i s)) i xs"
  using assms by (cases xs)
    (auto simp: quick_list_def pop_quick_def remove_from_quick_list_def Let_def next_link_set_next slist_fun_upd)

interpretation quick: lifo quick_list insert_to_quick_list pop_quick quick_fresh
  by unfold_locales (auto simp: quick_push quick_pop)

theorem quick_list_reuse:
  assumes "quick_list s i xs" "quick_fresh b xs"
  shows "fst (pop_quick i (insert_to_quick_list b i s)) = b
    \<and> quick_list (snd (pop_quick i (insert_to_quick_list b i s))) i xs"
  using assms by (rule quick.pop_push)

text \<open>A counter never leaves the range \<open>0..QUICK_LIST_MAX\<close>, and is raised exactly when it is below the maximum.\<close>

definition counters_ok :: "sf_state \<Rightarrow> bool" where
  "counters_ok s \<longleftrightarrow> (\<forall>i<NUM_QUICK_LISTS. 0 \<le> quick_count s i \<and> quick_count s i \<le> int QUICK_LIST_MAX)"

theorem increment_quick_list_counter_ok:
  assumes "counters_ok s" "0 \<le> index" "index < int NUM_QUICK_LISTS"
  shows "case increment_quick_list_counter index s of (r, s') \<Rightarrow> counters_ok s' \<and>
    (if quick_count s (nat index) < int QUICK_LIST_MAX
     then r = 0 \<and> quick_count s' (nat index) = quick_count s (nat index) + 1
     else r = -1 \<and> s' = s)"
  using assms by (auto simp: increment_quick_list_counter_def counters_ok_def NUM_QUICK_LISTS_def QUICK_LIST_MAX_def)

end
