(* ===== verification/Sf_Blocks.thy ===== *)
theory Sf_Blocks imports Sf_Lists begin

text \<open>
  Headers and footers beside the lists of hw3 (\<open>sfmm.c\<close>): which writes to a header or a footer leave
  the free lists intact, and which headers and footers survive an insertion or a removal. The
  allocator's operations on whole blocks rest on these frame lemmas.
\<close>

unbundle bit_operations_syntax


section \<open>Headers and footers beside the lists\<close>

definition clear_of :: "sf_env \<Rightarrow> (nat \<Rightarrow> ptr list) \<Rightarrow> ptr \<Rightarrow> bool" where
  "clear_of E L a \<longleftrightarrow> (\<forall>i<NUM_FREE_LISTS. a - 16 \<notin> set (head_addr E i # L i))"

text \<open>
  The block at \<open>b\<close> of \<open>sz\<close> bytes does not share storage with another listed block or a sentinel.
\<close>

definition block_apart :: "sf_env \<Rightarrow> (nat \<Rightarrow> ptr list) \<Rightarrow> ptr \<Rightarrow> 64 word \<Rightarrow> bool" where
  "block_apart E L b sz \<longleftrightarrow> 16 \<le> unat b \<and> unat b + unat sz < 2 ^ 64 \<and>
     (\<forall>i<NUM_FREE_LISTS. \<forall>x\<in>set (head_addr E i # L i).
        x = b \<or> unat x + 32 \<le> unat b \<or> unat b + unat sz \<le> unat x)"

lemma pools_cong:
  assumes "pools E s L"
    "\<And>i x. i < NUM_FREE_LISTS \<Longrightarrow> x \<in> set (head_addr E i # L i) \<Longrightarrow>
       next_link s' x = next_link s x \<and> prev_link s' x = prev_link s x"
  shows "pools E s' L"
  using assms(1) free_list_cong[of E s _ _ s'] assms(2) unfolding pools_def by blast

lemma pools_mult16: "pools E s L \<Longrightarrow> i < NUM_FREE_LISTS \<Longrightarrow> x \<in> set (head_addr E i # L i) \<Longrightarrow> mult16 x"
  by (auto simp: pools_def free_list_def)

lemma prev_link_set_header: "x \<noteq> b - 16 \<Longrightarrow> prev_link (set_header b v s) x = prev_link s x"
proof -
  assume "x \<noteq> b - 16"
  moreover have "x = b - 16" if "x + 24 = b + 8"
  proof -
    have "x = (x + 24) - 24" by simp
    also have "\<dots> = b - 16" unfolding that by simp
    finally show ?thesis .
  qed
  ultimately show ?thesis by (auto simp: field_defs)
qed

lemma pools_set_header:
  assumes "pools E s L" "mult16 b" "clear_of E L b"
  shows "pools E (set_header b v s) L"
proof (rule pools_cong[OF assms(1)])
  fix i x assume *: "i < NUM_FREE_LISTS" "x \<in> set (head_addr E i # L i)"
  then have "mult16 x" "x \<noteq> b - 16" using assms pools_mult16 unfolding clear_of_def by blast+
  then show "next_link (set_header b v s) x = next_link s x \<and> prev_link (set_header b v s) x = prev_link s x"
    using assms(2) by (simp add: get_set_other prev_link_set_header)
qed

lemma pools_set_prev_footer:
  assumes "pools E s L" "mult16 b" "clear_of E L b"
  shows "pools E (set_prev_footer b v s) L"
proof (rule pools_cong[OF assms(1)])
  fix i x assume *: "i < NUM_FREE_LISTS" "x \<in> set (head_addr E i # L i)"
  then have x: "mult16 x" "x \<noteq> b - 16" using assms pools_mult16 unfolding clear_of_def by blast+
  then have "x + 16 \<noteq> b" by (metis add_diff_cancel_right')
  then show "next_link (set_prev_footer b v s) x = next_link s x \<and>
    prev_link (set_prev_footer b v s) x = prev_link s x"
    using x assms(2) by (simp add: get_set_other) (simp add: field_defs)
qed

lemma pools_quick [simp]:
  "pools E (s\<lparr>quick_first := q\<rparr>) L = pools E s L" "pools E (s\<lparr>quick_count := c\<rparr>) L = pools E s L"
  "pools E (s\<lparr>last_block_allocated := l\<rparr>) L = pools E s L" "pools E (s\<lparr>mem_end := e\<rparr>) L = pools E s L"
  by (simp_all add: pools_def free_list_def next_link_def[abs_def] prev_link_def[abs_def])

lemma unat_add_no_wrap: "unat (b::64 word) + unat d < 2 ^ 64 \<Longrightarrow> unat (b + d) = unat b + unat d"
  by (simp add: unat_word_ariths)

lemma block_apart_inside:
  assumes "block_apart E L b sz" "mult16 d" "unat d \<le> unat sz" "d = 0 \<or> 32 \<le> unat d"
  shows "clear_of E L (b + d)"
  unfolding clear_of_def
proof (intro allI impI notI)
  fix i assume i: "i < NUM_FREE_LISTS" and x: "b + d - 16 \<in> set (head_addr E i # L i)"
  let ?x = "b + d - 16"
  have b: "16 \<le> unat b" "unat b + unat sz < 2 ^ 64" using assms(1) by (auto simp: block_apart_def)
  then have "unat (b + d) = unat b + unat d" using assms(3) by (intro unat_add_no_wrap) simp
  moreover from this b have "unat ?x = unat (b + d) - 16"
    by (subst unat_sub) (simp_all add: word_le_nat_alt)
  ultimately have ux: "unat ?x = unat b + unat d - 16" by simp
  have "?x = b \<or> unat ?x + 32 \<le> unat b \<or> unat b + unat sz \<le> unat ?x"
    using assms(1) i x unfolding block_apart_def by blast
  moreover have "?x \<noteq> b" using ux assms(4) b by auto
  ultimately show False using ux assms(3,4) b by auto
qed

lemma block_apart_unlisted:
  assumes "block_apart E L b sz" "mult16 b" "mult16 d" "0 < unat d" "unat d < unat sz"
  shows "unlisted E L (b + d)"
  unfolding unlisted_def
proof (intro conjI allI impI notI)
  show "mult16 (b + d)" using assms by (simp add: mult16_add_iff)
  fix i assume i: "i < NUM_FREE_LISTS" and x: "b + d \<in> set (head_addr E i # L i)"
  have ux: "unat (b + d) = unat b + unat d" using assms by (intro unat_add_no_wrap) (simp add: block_apart_def)
  have "b + d = b \<or> unat (b + d) + 32 \<le> unat b \<or> unat b + unat sz \<le> unat (b + d)"
    using assms(1) i x unfolding block_apart_def by blast
  moreover have "b + d \<noteq> b" using assms(4) by auto
  ultimately show False using ux assms(4,5) by auto
qed

text \<open>Status bits and size do not carry into each other.\<close>

lemma or_2_eq_add:
  assumes "mult16 sz"
  shows "sz OR 2 = sz + 2"
proof -
  have "\<not> bit sz n \<or> \<not> bit (2::64 word) n" for n
    using bit_mult16[OF assms, of n] bit_2_word[of n] by auto
  then show ?thesis by (subst disjunctive_add) auto
qed

lemma or_2_minus: "mult16 sz \<Longrightarrow> mult16 n \<Longrightarrow> (sz OR 2) - n = (sz - n) OR 2"
proof -
  assume "mult16 sz" "mult16 n"
  moreover from this have "mult16 (sz - n)" using mult16_add_iff[of n "sz - n"] by simp
  ultimately show ?thesis by (simp add: or_2_eq_add)
qed

lemma header_insert:
  assumes "mult16 x" "mult16 b" "pools E s L" "clear_of E L x" "x \<noteq> b + 16"
  shows "header (insert_to_free_list E b s) x = header s x"
proof -
  define h where "h = head_addr E (get_free_list_index ((header s b XOR magic E) AND NOT 2))"
  have fl: "free_list E s (get_free_list_index ((header s b XOR magic E) AND NOT 2))
      (L (get_free_list_index ((header s b XOR magic E) AND NOT 2)))"
    using assms(3) by (simp add: pools_def)
  have nin: "next_link s h \<in> set (h # L (get_free_list_index ((header s b XOR magic E) AND NOT 2)))"
    using free_list_next_in[OF fl] by (simp add: h_def)
  have mh: "mult16 h" using fl by (simp add: h_def free_list_def)
  have "x - 16 \<noteq> h" "x - 16 \<noteq> next_link s h"
    using assms(4) nin get_free_list_index_less unfolding clear_of_def h_def by (metis list.set_intros(1))+
  then have "x + 8 \<noteq> h + 24" "x + 8 \<noteq> next_link s h + 24" by (auto simp: algebra_simps)
  moreover have "x + 8 \<noteq> b + 24" using assms(5) by (auto simp: algebra_simps)
  moreover have "x + 8 \<noteq> b + 16" "x + 8 \<noteq> h + 16" using mult16_neq assms(1,2) mh by blast+
  ultimately show ?thesis unfolding header_def by (intro insert_frame[OF h_def]) simp
qed


lemma header_update_header_other: "x \<noteq> b \<Longrightarrow> header (update_header E b sz a p s) x = header s x"
  by (simp add: update_header_def Let_def)

lemma plus_8_neq_24: "x - 16 \<noteq> (y::64 word) \<Longrightarrow> x + 8 \<noteq> y + 24"
proof
  assume "x - 16 \<noteq> y" "x + 8 = y + 24"
  moreover from this(2) have "x + 8 - 24 = y" by simp
  ultimately show False by simp
qed

text \<open>The header of a removed block survives its removal.\<close>

lemma header_remove:
  assumes "pools E s L" "i < NUM_FREE_LISTS" "L i = pre @ b # post" "clear_of E L x" "mult16 x"
  shows "header (remove_state b s) x = header s x"
proof -
  have fl: "free_list E s i (pre @ b # post)" using assms(1,2) unfolding pools_def assms(3)[symmetric] by simp
  then have ch: "chain (next_link s) (prev_link s) (head_addr E i # pre @ b # post @ [head_addr E i])"
    and d: "distinct (head_addr E i # pre @ b # post)" unfolding free_list_def by simp_all
  note nb = chain_remove(2,3)[OF ch d]
  have "next_link s b \<in> set (post @ [head_addr E i])" unfolding nb by (rule hd_in_set) simp
  moreover have "prev_link s b \<in> set (head_addr E i # pre)" unfolding nb by (rule last_in_set) simp
  ultimately have n: "next_link s b \<in> set (head_addr E i # L i)" "prev_link s b \<in> set (head_addr E i # L i)"
      and bL: "b \<in> set (head_addr E i # L i)"
    unfolding assms(3) by auto
  have "x - 16 \<noteq> next_link s b" using assms(2,4) n(1) unfolding clear_of_def by metis
  then have "x + 8 \<noteq> next_link s b + 24" by (rule plus_8_neq_24)
  moreover have "x + 8 \<noteq> prev_link s b + 16" "x + 8 \<noteq> b + 16"
    using mult16_neq(2)[OF assms(5) pools_mult16[OF assms(1,2) n(2)]]
      mult16_neq(2)[OF assms(5) pools_mult16[OF assms(1,2) bL]] by simp_all
  ultimately show ?thesis unfolding header_def by (intro remove_frame) simp
qed

lemma clear_of_subset: "clear_of E L a \<Longrightarrow> (\<And>i. set (L' i) \<subseteq> set (L i)) \<Longrightarrow> clear_of E L' a"
  unfolding clear_of_def by (auto simp: subset_iff)

lemma prev_footer_insert:
  assumes "mult16 x" "mult16 b" "pools E s L" "clear_of E L x" "x \<noteq> b + 16"
  shows "prev_footer (insert_to_free_list E b s) x = prev_footer s x"
proof -
  define h where "h = head_addr E (get_free_list_index ((header s b XOR magic E) AND NOT 2))"
  have fl: "free_list E s (get_free_list_index ((header s b XOR magic E) AND NOT 2))
      (L (get_free_list_index ((header s b XOR magic E) AND NOT 2)))"
    using assms(3) by (simp add: pools_def)
  have nin: "next_link s h \<in> set (h # L (get_free_list_index ((header s b XOR magic E) AND NOT 2)))"
    using free_list_next_in[OF fl] by (simp add: h_def)
  have mh: "mult16 h" "mult16 (next_link s h)" using fl nin by (auto simp: h_def free_list_def)
  have "x - 16 \<noteq> h"
    using assms(4) get_free_list_index_less unfolding clear_of_def h_def by (metis list.set_intros(1))
  then have "x \<noteq> h + 16" by (auto simp: algebra_simps)
  moreover have "x \<noteq> b + 24" "x \<noteq> h + 24" "x \<noteq> next_link s h + 24"
    using mult16_neq(7)[OF assms(1,2)] mult16_neq(7)[OF assms(1) mh(1)] mult16_neq(7)[OF assms(1) mh(2)] by simp_all
  ultimately show ?thesis using assms(5) unfolding prev_footer_def by (intro insert_frame[OF h_def]) simp
qed

lemma prev_footer_remove:
  assumes "pools E s L" "i < NUM_FREE_LISTS" "L i = pre @ b # post" "clear_of E L x" "mult16 x"
  shows "prev_footer (remove_state b s) x = prev_footer s x"
proof -
  have fl: "free_list E s i (pre @ b # post)" using assms(1,2) unfolding pools_def assms(3)[symmetric] by simp
  then have ch: "chain (next_link s) (prev_link s) (head_addr E i # pre @ b # post @ [head_addr E i])"
    and d: "distinct (head_addr E i # pre @ b # post)" unfolding free_list_def by simp_all
  note nb = chain_remove(2,3)[OF ch d]
  have "next_link s b \<in> set (post @ [head_addr E i])" unfolding nb by (rule hd_in_set) simp
  moreover have "prev_link s b \<in> set (head_addr E i # pre)" unfolding nb by (rule last_in_set) simp
  ultimately have n: "next_link s b \<in> set (head_addr E i # L i)" "prev_link s b \<in> set (head_addr E i # L i)"
      and bL: "b \<in> set (head_addr E i # L i)"
    unfolding assms(3) by auto
  have "x - 16 \<noteq> prev_link s b" "x - 16 \<noteq> b" using assms(2,4) n(2) bL unfolding clear_of_def by metis+
  then have "x \<noteq> prev_link s b + 16" "x \<noteq> b + 16" by auto
  moreover have "x \<noteq> next_link s b + 24" using mult16_neq(7)[OF assms(5) pools_mult16[OF assms(1,2) n(1)]] .
  ultimately show ?thesis unfolding prev_footer_def by (intro remove_frame) simp
qed

theorem insert_remove_roundtrip:
  assumes P: "pools E s L" and ul: "unlisted E L b" and h: "mult16 b" "clear_of E L b"
    and i: "i = get_free_list_index ((header s b XOR magic E) AND NOT 2)"
  shows "\<exists>s'. remove_from_free_list E (head_addr E i) (header s b XOR magic E) (insert_to_free_list E b s) = Ret (b, s') \<and>
    pools E s' L \<and> header s' b = header s b"
proof -
  let ?s = "insert_to_free_list E b s"
  have hb: "header ?s b = header s b" by (rule header_insert[OF h(1) h(1) P h(2)]) simp
  have P1: "pools E ?s (L(i := [] @ b # L i))" using insert_to_free_list_pools[OF P ul i] by simp
  have i10: "i < NUM_FREE_LISTS" by (simp add: i)
  have "b - 16 \<noteq> b" by simp
  then have cl: "clear_of E (L(i := [] @ b # L i)) b" using h(2) by (auto simp: clear_of_def)
  have "(L(i := [] @ b # L i))(i := [] @ L i) = L" by simp
  then show ?thesis
    using remove_from_free_list_pools[OF P1 i10, of "[]" b "L i" "header s b XOR magic E"]
      header_remove[OF P1 i10, of "[]" b "L i" b] cl h(1) hb by simp
qed

end
