(* ===== verification/Sf_Malloc.thy ===== *)
theory Sf_Malloc imports Sf_Blocks begin

text \<open>
  \<open>sf_malloc\<close> of hw3 with its helpers: taking a block from a quick list, allocating a free block whole
  or splitting it, the first page, the first-fit search over the size classes, and the loop that
  grows the heap page by page.
\<close>

unbundle bit_operations_syntax

section \<open>Operations\<close>

definition allocate_no_splitting ::
  "sf_env \<Rightarrow> nat \<Rightarrow> 64 word \<Rightarrow> sf_state \<Rightarrow> (ptr \<times> sf_state) outcome" where
  "allocate_no_splitting E index actual_block_size s =
     andThen (remove_from_free_list E (head_addr E index) actual_block_size s) (\<lambda>(block, s).
       let s = update_header E block actual_block_size 1 (prev_alloc_bit E s block) s;
           nxt = block + strip_bits (header s block XOR magic E)
       in if check_last_block E s nxt = 0
          then Ret (block, update_header E nxt (header s nxt XOR magic E) 0 1 s)
          else Ret (block, s\<lparr>last_block_allocated := 1\<rparr>))"

definition allocate_splitting ::
  "sf_env \<Rightarrow> nat \<Rightarrow> 64 word \<Rightarrow> 64 word \<Rightarrow> sf_state \<Rightarrow> (ptr \<times> sf_state) outcome" where
  "allocate_splitting E index actual_block_size needed_block_size s =
     andThen (remove_from_free_list E (head_addr E index) actual_block_size s) (\<lambda>(block, s).
       let s = update_header E block needed_block_size 1 (prev_alloc_bit E s block) s;
           new_free_block = block + strip_bits (header s block XOR magic E);
           s = update_header E new_free_block (actual_block_size - needed_block_size) 0 1 s;
           s = add_footer E new_free_block s;
           s = insert_to_free_list E new_free_block s
       in Ret (block, s))"

definition quick_list_allocate :: "sf_env \<Rightarrow> int \<Rightarrow> 64 word \<Rightarrow> sf_state \<Rightarrow> ptr \<times> sf_state" where
  "quick_list_allocate E index needed_block_size s =
     (let (block, s) = remove_from_quick_list (quick_first s (nat index)) (nat index) s;
          s = decrement_quick_list_counter index s;
          s = update_header E block needed_block_size 1 (prev_alloc_bit E s block) s;
          nxt = block + strip_bits (header s block XOR magic E)
      in if check_last_block E s nxt = 0
         then (block, update_header E nxt (header s nxt XOR magic E) 0 1 s)
         else (block, s\<lparr>last_block_allocated := 1\<rparr>))"

text \<open>The first call: one page becomes a single free block of 4080 bytes in free list 7.\<close>

definition first_page :: "sf_env \<Rightarrow> sf_state \<Rightarrow> sf_state outcome" where
  "first_page E s =
     (case sf_mem_grow E s of (start, s) \<Rightarrow>
        if start = NULL then Stuck Null_deref
        else
          (let s = set_prev_footer start (0 XOR magic E) s;
               s = set_header start (4080 XOR magic E) s;
               s = add_footer E start s;
               s = initialize_free_lists E s;
               h = head_addr E 7;
               s = set_next start h s;
               s = set_prev start h s;
               s = set_next h start s;
               s = set_prev h start s
           in Ret s))"

text \<open>The loop over the size classes; the result is the class and the block found in it.\<close>

fun search_free_lists ::
  "sf_env \<Rightarrow> 64 word \<Rightarrow> nat list \<Rightarrow> sf_state \<Rightarrow> (nat \<times> ptr) option outcome" where
  "search_free_lists E needed_block_size [] s = Ret None"
| "search_free_lists E needed_block_size (i # is) s =
     (if prev_link s (head_addr E i) = head_addr E i \<and> next_link s (head_addr E i) = head_addr E i
      then search_free_lists E needed_block_size is s
      else andThen (get_from_free_list E (head_addr E i) needed_block_size s) (\<lambda>r.
        case r of Some block \<Rightarrow> Ret (Some (i, block))
        | None \<Rightarrow> search_free_lists E needed_block_size is s))"

definition allocate_from ::
  "sf_env \<Rightarrow> nat \<Rightarrow> 64 word \<Rightarrow> 64 word \<Rightarrow> sf_state \<Rightarrow> (ptr \<times> sf_state) outcome" where
  "allocate_from E index actual_block_size needed_block_size s =
     andThen (if actual_block_size - needed_block_size < 32
              then allocate_no_splitting E index actual_block_size s
              else allocate_splitting E index actual_block_size needed_block_size s)
       (\<lambda>(block, s). Ret (payload block, s))"

text \<open>One page more: the new block, coalesced with the last block if that one is believed to be free.\<close>

definition add_page :: "sf_env \<Rightarrow> ptr \<Rightarrow> sf_state \<Rightarrow> (ptr \<times> sf_state) outcome" where
  "add_page E expand s =
     (let new_block = expand - 16;
          s = set_header new_block (4096 XOR magic E) s;
          s = add_footer E new_block s
      in if last_block_allocated s \<noteq> 0
         then (let h = (header s new_block XOR magic E) OR PREV_BLOCK_ALLOCATED
               in Ret (new_block, (set_header new_block (h XOR magic E) s)\<lparr>last_block_allocated := 0\<rparr>))
         else (let f = prev_footer s new_block XOR magic E
               in andThen (remove_from_free_list E (head_addr E (get_free_list_index f)) f s)
                    (\<lambda>(combined, s).
                       let h = (header s combined XOR magic E) + (header s new_block XOR magic E);
                           s = set_header combined (h XOR magic E) s;
                           s = add_footer E combined s;
                           s = insert_to_free_list E combined s
                       in Ret (combined, s))))"

partial_function (option) grow_loop ::
  "sf_env \<Rightarrow> 64 word \<Rightarrow> sf_state \<Rightarrow> (ptr \<times> sf_state) outcome option" where
  "grow_loop E needed_block_size s =
     (case sf_mem_grow E s of (expand, s) \<Rightarrow>
        if expand = NULL then Some (Ret (NULL, s\<lparr>sf_errno := ENOMEM\<rparr>))
        else case add_page E expand s of
               Stuck e \<Rightarrow> Some (Stuck e)
             | Ret (new_block, s) \<Rightarrow>
                 (let actual_block_size = get_block_size_from_header E s new_block in
                  if needed_block_size > actual_block_size then grow_loop E needed_block_size s
                  else Some (allocate_from E (get_free_list_index actual_block_size)
                               actual_block_size needed_block_size s)))"

definition sf_malloc :: "sf_env \<Rightarrow> 64 word \<Rightarrow> sf_state \<Rightarrow> (ptr \<times> sf_state) outcome" where
  "sf_malloc E sz s =
     (if sz = 0 then Ret (NULL, s)
      else andThen (if mem_start E = mem_end s then first_page E s else Ret s) (\<lambda>s.
        let needed_block_size = get_aligned_block sz;
            quick_index = get_quick_list_index needed_block_size
        in if quick_index \<noteq> -1 \<and> quick_first s (nat quick_index) \<noteq> NULL
           then (case quick_list_allocate E quick_index needed_block_size s of
                   (block, s) \<Rightarrow> Ret (payload block, s))
           else andThen (search_free_lists E needed_block_size
                           [get_free_list_index needed_block_size ..< NUM_FREE_LISTS] s) (\<lambda>r.
             case r of
               Some (i, block) \<Rightarrow>
                 allocate_from E i (get_block_size_from_header E s block) needed_block_size s
             | None \<Rightarrow>
                 (case grow_loop E needed_block_size s of
                    None \<Rightarrow> Stuck Diverges
                  | Some r \<Rightarrow> r))))"

section \<open>Splitting a block\<close>

lemma allocate_splitting_spec:
  assumes P: "pools E s L" and i: "i < NUM_FREE_LISTS" and L: "L i = pre @ b # post"
    and m: "pre @ post = [] \<or> (\<forall>x\<in>set pre. header s x \<noteq> header s b)"
    and hdr: "header s b XOR magic E = sz OR p" "p = 0 \<or> p = 2"
    and al: "mult16 sz" "mult16 n" and le: "32 \<le> unat n" "unat n + 32 \<le> unat sz"
    and apart: "block_apart E L b sz"
  shows "\<exists>s'. allocate_splitting E i (sz OR p) n s = Ret (b, s') \<and>
    header s' b XOR magic E = n OR 4 OR p \<and>
    header s' (b + n) XOR magic E = (sz - n) OR 2 \<and>
    prev_footer s' (b + sz) = header s' (b + n) \<and>
    pools E s' (let L' = L(i := pre @ post); j = get_free_list_index (sz - n)
                in L'(j := (b + n) # L' j)) \<and>
    (\<forall>x. mult16 x \<and> clear_of E L x \<and> x \<notin> {b, b + n, b + n + 16} \<longrightarrow> header s' x = header s x) \<and>
    (\<forall>x. mult16 x \<and> clear_of E L x \<and> x \<notin> {b + sz, b + n + 16} \<longrightarrow> prev_footer s' x = prev_footer s x) \<and>
    quick_first s' = quick_first s \<and> quick_count s' = quick_count s \<and> mem_end s' = mem_end s \<and>
    last_block_allocated s' = last_block_allocated s \<and> sf_errno s' = sf_errno s"
proof -
  define r where "r = b + n"
  define L' where "L' = L(i := pre @ post)"
  define s1 where "s1 = remove_state b s"
  define s2 where "s2 = update_header E b n 1 (prev_alloc_bit E s1 b) s1"
  define s3 where "s3 = update_header E r ((sz OR p) - n) 0 1 s2"
  define s4 where "s4 = add_footer E r s3"
  define s5 where "s5 = insert_to_free_list E r s4"
  have un: "unat n \<le> unat sz" "unat n < unat sz" "n \<noteq> 0" using le by auto
  have usz: "unat (sz - n) = unat sz - unat n" using un by (simp add: unat_sub word_le_nat_alt)
  have mb: "mult16 b" using pools_mult16[OF P i] L by simp
  have mr: "mult16 r" "mult16 (b + sz)" "mult16 (sz - n)"
    using mb al mult16_add_iff[of n "sz - n"] by (simp_all add: r_def mult16_add_iff)
  have cl: "clear_of E L b" "clear_of E L r" "clear_of E L (b + sz)"
    using block_apart_inside[OF apart, of 0] block_apart_inside[OF apart al(2)]
      block_apart_inside[OF apart al(1)] un le by (simp_all add: r_def)
  have sub: "set (L' k) \<subseteq> set (L k)" for k using L by (auto simp: L'_def)
  note cl' = cl[THEN clear_of_subset, of L', OF sub]
  have ul: "unlisted E L r" unfolding r_def by (rule block_apart_unlisted[OF apart mb]) (use al un le in auto)
  have ne: "r \<noteq> b" "b \<noteq> r + 16" "r \<noteq> b + sz" "b + sz \<noteq> r + 16"
  proof -
    have "b = r + 16 \<Longrightarrow> n + 16 = 0" by (simp add: r_def add.assoc)
    moreover have "unat (n + 16) = unat n + 16"
      using le apart unfolding block_apart_def by (intro trans[OF unat_add_no_wrap]) auto
    ultimately show "b \<noteq> r + 16" by auto
    have "b + sz = r + 16 \<Longrightarrow> sz - n = 16" by (simp add: r_def algebra_simps)
    then show "b + sz \<noteq> r + 16" using usz le by auto
  qed (use un in \<open>auto simp: r_def\<close>)
  have R: "remove_from_free_list E (head_addr E i) (sz OR p) s = Ret (b, s1)"
    and P1: "pools E s1 L'"
  proof -
    have "pre @ post = [] \<or> header s b XOR magic E = (sz OR p) \<and> (\<forall>x\<in>set pre. header s x XOR magic E \<noteq> sz OR p)"
      using m hdr(1) by (metis word_xor_cancel)
    from remove_from_free_list_pools[OF P i L this]
    show "remove_from_free_list E (head_addr E i) (sz OR p) s = Ret (b, s1)" "pools E s1 L'"
      by (auto simp: s1_def L'_def)
  qed
  have h1: "header s1 b = header s b" unfolding s1_def by (rule header_remove[OF P i L cl(1) mb])
  have pb: "prev_alloc_bit E s1 b = (if p = 2 then 1 else 0)"
    using hdr(2) by (rule disjE) (simp_all add: prev_alloc_bit_eq[OF refl] h1 hdr(1) and_mask_or[OF al(1)])
  have h2: "header s2 b XOR magic E = n OR 4 OR p"
    using hdr(2) by (auto simp: s2_def pb or.assoc)
  have st: "strip_bits (n OR 4 OR p) = n" using hdr(2) al by (auto simp: or.assoc)
  have P2: "pools E s2 L'" using pools_set_header[OF P1 mb cl'(1)] by (simp add: s2_def update_header_def Let_def)
  have df: "(sz OR p) - n = (sz - n) OR p" using hdr(2) al or_2_minus by auto
  have h3: "header s3 r XOR magic E = (sz - n) OR 2" "header s3 b = header s2 b"
    using hdr(2) ne by (auto simp: s3_def df or.assoc update_header_def PREV_BLOCK_ALLOCATED_def)
  have P3: "pools E s3 L'" using pools_set_header[OF P2 mr(1) cl'(2)] by (simp add: s3_def update_header_def Let_def)
  have s4: "s4 = set_prev_footer (b + sz) (header s3 r) s3"
    using mr by (simp add: s4_def add_footer_def h3(1)) (simp add: r_def)
  have P4: "pools E s4 L'" unfolding s4 by (rule pools_set_prev_footer[OF P3 mr(2) cl'(3)])
  have h4: "header s4 x = header s3 x" if "mult16 x" for x
    unfolding s4 by (rule get_set_other(6)[OF that mr(2)])
  have ix: "(header s4 r XOR magic E) AND NOT 2 = sz - n" unfolding h4[OF mr(1)] h3(1) by (rule and_not_2_or(3)[OF mr(3)])
  have ul': "unlisted E L' r" using ul sub unfolding unlisted_def by (auto simp: subset_iff)
  have P5: "pools E s5 (L'(get_free_list_index (sz - n) := r # L' (get_free_list_index (sz - n))))"
    unfolding s5_def by (rule insert_to_free_list_pools[OF P4 ul']) (simp only: ix)
  have h5: "header s5 x = header s4 x" if "mult16 x" "clear_of E L' x" "x \<noteq> r + 16" for x
    unfolding s5_def by (rule header_insert[OF that(1) mr(1) P4 that(2,3)])
  have "header s5 b XOR magic E = n OR 4 OR p" using h5[OF mb cl'(1) ne(2)] h4[OF mb] h3(2) h2 by simp
  moreover have hr: "header s5 r = header s3 r"
    using h5[OF mr(1) cl'(2)] h4[OF mr(1)] by simp
  moreover have "prev_footer s5 (b + sz) = header s3 r"
    unfolding s5_def by (subst prev_footer_insert[OF mr(2,1) P4 cl'(3) ne(4)]) (simp add: s4)
  moreover have "header s5 x = header s x" if x: "mult16 x" "clear_of E L x" "x \<notin> {b, r, r + 16}" for x
  proof -
    have "header s5 x = header s3 x" using h5[OF x(1) clear_of_subset[OF x(2) sub]] h4[OF x(1)] x(3) by simp
    also have "\<dots> = header s1 x" using x(3) by (simp add: s3_def s2_def header_update_header_other)
    also have "\<dots> = header s x" unfolding s1_def by (rule header_remove[OF P i L x(2,1)])
    finally show ?thesis .
  qed
  moreover have "prev_footer s5 x = prev_footer s x" if x: "mult16 x" "clear_of E L x" "x \<notin> {b + sz, r + 16}" for x
  proof -
    have "prev_footer s5 x = prev_footer s4 x"
      unfolding s5_def using x(3) prev_footer_insert[OF x(1) mr(1) P4 clear_of_subset[OF x(2) sub]] by simp
    also have "\<dots> = prev_footer s1 x"
      using x(1,3) mb mr(1) by (simp add: s4 s3_def s2_def update_header_def Let_def get_set_other(8))
    also have "\<dots> = prev_footer s x" unfolding s1_def by (rule prev_footer_remove[OF P i L x(2,1)])
    finally show ?thesis .
  qed
  moreover have "allocate_splitting E i (sz OR p) n s = Ret (b, s5)"
    unfolding allocate_splitting_def R andThen_simps prod.case Let_def s2_def[symmetric] h2 st
      r_def[symmetric] s3_def[symmetric] s4_def[symmetric] s5_def[symmetric] ..
  moreover have "\<exists>m. s5 = s\<lparr>mem := m\<rparr>"
  proof -
    have "\<exists>m. s1 = s\<lparr>mem := m\<rparr>" unfolding s1_def by (rule remove_only_mem)
    then have "\<exists>m. s4 = s\<lparr>mem := m\<rparr>" unfolding s4 s3_def s2_def
      by (auto simp: update_header_def set_header_def set_prev_footer_def write_row_def Let_def)
    moreover have "\<exists>m. s5 = s4\<lparr>mem := m\<rparr>" unfolding s5_def by (rule insert_only_mem)
    ultimately show ?thesis by auto
  qed
  ultimately show ?thesis using P5 h3(1)
    unfolding L'_def[symmetric] Let_def r_def[symmetric] by (intro exI[of _ s5]) auto
qed

section \<open>The first page\<close>

lemma initialize_frame:
  assumes "\<forall>i<NUM_FREE_LISTS. q \<noteq> head_addr E i + 16 \<and> q \<noteq> head_addr E i + 24"
  shows "mem (initialize_free_lists E s) q = mem s q"
proof -
  let ?f = "\<lambda>i s. set_next (head_addr E i) (head_addr E i) (set_prev (head_addr E i) (head_addr E i) s)"
  have "mem (fold ?f xs s) q = mem s q" if "\<forall>i\<in>set xs. i < NUM_FREE_LISTS" for xs
    using that assms by (induction xs arbitrary: s) (simp_all add: set_next_def set_prev_def write_row_def)
  from this[of "[0..<NUM_FREE_LISTS]"] show ?thesis by (simp add: initialize_free_lists_def)
qed

lemma initialize_only_mem: "\<exists>m. initialize_free_lists E s = s\<lparr>mem := m\<rparr>"
proof -
  have "\<exists>m. fold (\<lambda>i s. set_next (head_addr E i) (head_addr E i) (set_prev (head_addr E i) (head_addr E i) s)) xs s
    = s\<lparr>mem := m\<rparr>" for xs
  proof (induction xs arbitrary: s)
    case (Cons i xs)
    from Cons.IH[of "set_next (head_addr E i) (head_addr E i) (set_prev (head_addr E i) (head_addr E i) s)"]
    show ?case by (auto simp: set_next_def set_prev_def write_row_def)
  next
    case Nil
    show ?case by (auto intro: exI[of _ "mem s"])
  qed
  then show ?thesis by (simp add: initialize_free_lists_def)
qed

lemma initialize_header:
  assumes "mult16 x" "mult16 (free_heads E)" "clear_of E L x"
  shows "header (initialize_free_lists E s) x = header s x"
    "prev_footer (initialize_free_lists E s) x = prev_footer s x"
proof -
  have al: "mult16 (head_addr E i)" for i by (rule mult16_head_addr[OF assms(2)])
  have ne: "x - 16 \<noteq> head_addr E i" if "i < NUM_FREE_LISTS" for i using assms(3) that by (auto simp: clear_of_def)
  have ne': "x \<noteq> head_addr E i + 16" if "i < NUM_FREE_LISTS" for i
    using ne[OF that] by (metis add_diff_cancel_right')
  show "header (initialize_free_lists E s) x = header s x"
    unfolding header_def by (rule initialize_frame) (simp add: mult16_neq(2)[OF assms(1) al] plus_8_neq_24[OF ne])
  show "prev_footer (initialize_free_lists E s) x = prev_footer s x"
    unfolding prev_footer_def by (rule initialize_frame) (simp add: mult16_neq(7)[OF assms(1) al] ne')
qed

lemma first_insert:
  assumes "next_link s h = h" "h = head_addr E (get_free_list_index ((header s b XOR magic E) AND NOT 2))"
    "mult16 h" "mult16 b" "h \<noteq> b"
  shows "set_prev h b (set_next h b (set_prev b h (set_next b h s))) = insert_to_free_list E b s"
proof -
  define m where "m = mem s"
  have "b + 16 \<noteq> h + 24" "h + 16 \<noteq> b + 24" "b + 24 \<noteq> h + 16" "h + 24 \<noteq> b + 16" "b \<noteq> h"
    using mult16_neq(4)[OF assms(4,3)] mult16_neq(4)[OF assms(3,4)] assms(5) by simp_all
  then have "m(b + 16 := h, b + 24 := h, h + 16 := b, h + 24 := b) = m(h + 16 := b, h + 24 := b, b + 16 := h, b + 24 := h)"
    by (simp add: fun_upd_twist)
  then show ?thesis
    unfolding insert_to_free_list_def Let_def assms(2)[symmetric] if_P[OF assms(1)]
    by (simp add: set_next_def set_prev_def write_row_def m_def)
qed

text \<open>A page of the heap that does not overlap the sentinels.\<close>

definition page_apart :: "sf_env \<Rightarrow> ptr \<Rightarrow> bool" where
  "page_apart E st \<longleftrightarrow> mult16 st \<and> mult16 (free_heads E) \<and> 16 \<le> unat st \<and> unat st + 4096 < 2 ^ 64 \<and>
     (\<forall>i<NUM_FREE_LISTS. unat (head_addr E i) + 32 \<le> unat st \<or> unat st + 4096 \<le> unat (head_addr E i))"

lemma page_apart_block: "page_apart E st \<Longrightarrow> block_apart E (\<lambda>i. []) st 4080"
  by (auto simp: page_apart_def block_apart_def)

lemma page_apart_unlisted: "page_apart E st \<Longrightarrow> unlisted E (\<lambda>i. []) st"
  by (fastforce simp: page_apart_def unlisted_def)

lemma first_page_spec:
  assumes g: "sf_mem_grow E s = (st, s1)" and pa: "page_apart E st"
  shows "\<exists>m. first_page E s = Ret (s1\<lparr>mem := m\<rparr>) \<and> pools E (s1\<lparr>mem := m\<rparr>) ((\<lambda>i. [])(7 := [st])) \<and>
    header (s1\<lparr>mem := m\<rparr>) st XOR magic E = 4080 \<and>
    prev_footer (s1\<lparr>mem := m\<rparr>) (st + 4080) = header (s1\<lparr>mem := m\<rparr>) st \<and>
    prev_footer (s1\<lparr>mem := m\<rparr>) st XOR magic E = 0"
proof -
  define s2 where "s2 = set_header st (4080 XOR magic E) (set_prev_footer st (0 XOR magic E) s1)"
  define s3 where "s3 = initialize_free_lists E (add_footer E st s2)"
  define s4 where "s4 = insert_to_free_list E st s3"
  let ?h = "head_addr E 7"
  have al: "mult16 st" "mult16 (free_heads E)" and nz: "st \<noteq> NULL"
    using pa by (auto simp: page_apart_def)
  note apart = page_apart_block[OF pa] and ul = page_apart_unlisted[OF pa]
  have m40: "mult16 4080" by (simp add: mult16_def)
  have s2f: "add_footer E st s2 = set_prev_footer (st + 4080) (4080 XOR magic E) s2"
    by (simp add: add_footer_def s2_def strip_bits_or(1)[OF m40])
  have cl: "clear_of E (\<lambda>i. []) st" "clear_of E (\<lambda>i. []) (st + 4080)"
    using block_apart_inside[OF apart, of 0] block_apart_inside[OF apart m40] by simp_all
  have ms: "mult16 (st + 4080)" using al(1) m40 by (simp add: mult16_add_iff)
  have P3: "pools E s3 (\<lambda>i. [])" unfolding s3_def by (rule initialize_free_lists_pools[OF al(2)])
  have h3: "header s3 st = 4080 XOR magic E"
    unfolding s3_def initialize_header(1)[OF al cl(1)] s2f get_set_other(6)[OF al(1) ms] by (simp add: s2_def)
  have f3: "prev_footer s3 st = 0 XOR magic E" "prev_footer s3 (st + 4080) = 4080 XOR magic E"
    unfolding s3_def initialize_header(2)[OF al cl(1)] initialize_header(2)[OF ms al(2) cl(2)] s2f
    by (simp_all add: s2_def get_set_other(8)[OF al(1) al(1)])
  have ix: "get_free_list_index ((header s3 st XOR magic E) AND NOT 2) = 7"
    by (simp add: h3 get_free_list_index_def)
  have N: "7 < NUM_FREE_LISTS" by (simp add: NUM_FREE_LISTS_def)
  have fl: "free_list E s3 7 []" using P3 N by (simp add: pools_def)
  have "?h \<noteq> st" using ul N by (auto simp: unlisted_def)
  then have s4': "set_prev ?h st (set_next ?h st (set_prev st ?h (set_next st ?h s3))) = s4"
    unfolding s4_def using fl al(1) by (intro first_insert) (simp_all only: ix, simp_all add: free_list_def)
  have "first_page E s = Ret s4"
    by (simp add: first_page_def g nz Let_def s4'[symmetric] s3_def s2_def)
  moreover have "pools E s4 ((\<lambda>i. [])(7 := [st]))"
    unfolding s4_def by (rule insert_to_free_list_pools[OF P3 ul]) (simp only: ix)
  moreover have "st \<noteq> st + 16" "st + 4080 \<noteq> st + 16" by simp_all
  then have "header s4 st = header s3 st" "prev_footer s4 st = prev_footer s3 st"
      "prev_footer s4 (st + 4080) = prev_footer s3 (st + 4080)"
    unfolding s4_def using header_insert[OF al(1) al(1) P3 cl(1)] prev_footer_insert[OF al(1) al(1) P3 cl(1)]
      prev_footer_insert[OF ms al(1) P3 cl(2)] by simp_all
  moreover have "\<exists>m. s4 = s1\<lparr>mem := m\<rparr>"
  proof -
    obtain m where "s3 = (add_footer E st s2)\<lparr>mem := m\<rparr>" using initialize_only_mem s3_def by blast
    then have "s3 = s1\<lparr>mem := m\<rparr>" unfolding s2f by (simp add: s2_def set_header_def set_prev_footer_def write_row_def)
    moreover obtain m' where "s4 = s3\<lparr>mem := m'\<rparr>" using insert_only_mem s4_def by blast
    ultimately show ?thesis by auto
  qed
  ultimately show ?thesis using h3 f3 by auto
qed

section \<open>The search\<close>

abbreviation fits :: "sf_env \<Rightarrow> sf_state \<Rightarrow> 64 word \<Rightarrow> ptr \<Rightarrow> bool" where
  "fits E s n b \<equiv> n \<le> header s b XOR magic E"

lemma search_free_lists_none:
  assumes "pools E s L" "\<forall>i\<in>set is. i < NUM_FREE_LISTS" "\<forall>i\<in>set is. \<forall>b\<in>set (L i). \<not> fits E s n b"
  shows "search_free_lists E n is s = Ret None"
  using assms(2,3)
proof (induction "is")
  case (Cons i "is")
  have fl: "free_list E s i (L i)" using assms(1) Cons.prems by (simp add: pools_def)
  have "get_from_free_list E (head_addr E i) n s = Ret None"
    using Cons.prems unfolding get_from_free_list_first_fit[OF fl] by (auto simp: find_None_iff)
  with Cons show ?case by simp
qed simp

lemma search_free_lists_skip:
  assumes "pools E s L" "\<forall>i\<in>set is. i < NUM_FREE_LISTS" "\<forall>i\<in>set is. \<forall>b\<in>set (L i). \<not> fits E s n b"
  shows "search_free_lists E n (is @ js) s = search_free_lists E n js s"
  using assms(2,3)
proof (induction "is")
  case (Cons i "is")
  have fl: "free_list E s i (L i)" using assms(1) Cons.prems by (simp add: pools_def)
  have "get_from_free_list E (head_addr E i) n s = Ret None"
    using Cons.prems unfolding get_from_free_list_first_fit[OF fl] by (auto simp: find_None_iff)
  with Cons show ?case by simp
qed simp

lemma find_first: "P b \<Longrightarrow> \<forall>x\<in>set pre. \<not> P x \<Longrightarrow> find P (pre @ b # post) = Some b"
  by (induction pre) auto

lemma search_free_lists_first_fit:
  assumes P: "pools E s L" and i: "lo \<le> i" "i < NUM_FREE_LISTS" and L: "L i = pre @ b # post"
    and fit: "fits E s n b" "\<forall>x\<in>set pre. \<not> fits E s n x"
    and less: "\<forall>j. lo \<le> j \<and> j < i \<longrightarrow> (\<forall>x\<in>set (L j). \<not> fits E s n x)"
  shows "search_free_lists E n [lo ..< NUM_FREE_LISTS] s = Ret (Some (i, b))"
proof -
  have fl: "free_list E s i (L i)" using P i by (simp add: pools_def)
  have ne: "\<not> (prev_link s (head_addr E i) = head_addr E i \<and> next_link s (head_addr E i) = head_addr E i)"
    using free_list_empty_iff[OF fl] L by simp
  have "get_from_free_list E (head_addr E i) n s = Ret (Some b)"
    unfolding get_from_free_list_first_fit[OF fl] L using find_first[of "fits E s n" b pre post] fit by simp
  with ne have "search_free_lists E n (i # [Suc i ..< NUM_FREE_LISTS]) s = Ret (Some (i, b))"
    unfolding search_free_lists.simps by (subst if_not_P) simp_all
  moreover have "[lo ..< NUM_FREE_LISTS] = [lo ..< i] @ i # [Suc i ..< NUM_FREE_LISTS]"
    using i upt_add_eq_append[of lo i "NUM_FREE_LISTS - i"] by (simp add: upt_conv_Cons)
  ultimately show ?thesis using search_free_lists_skip[OF P, of "[lo ..< i]"] less i by auto
qed

section \<open>Whole calls of \<open>sf_malloc\<close>\<close>

definition no_quick :: "sf_state \<Rightarrow> 64 word \<Rightarrow> bool" where
  "no_quick s n \<longleftrightarrow> (let q = get_quick_list_index n in q = -1 \<or> quick_first s (nat q) = NULL)"

definition first_use :: "sf_env \<Rightarrow> sf_state \<Rightarrow> sf_state outcome" where
  "first_use E s = (if mem_start E = mem_end s then first_page E s else Ret s)"

lemma sf_malloc_search:
  assumes "sz \<noteq> 0" "first_use E s0 = Ret s" "no_quick s (get_aligned_block sz)"
  shows "sf_malloc E sz s0 =
    andThen (search_free_lists E (get_aligned_block sz) [get_free_list_index (get_aligned_block sz) ..< NUM_FREE_LISTS] s)
      (\<lambda>r. case r of
         Some (i, block) \<Rightarrow> allocate_from E i (header s block XOR magic E) (get_aligned_block sz) s
       | None \<Rightarrow> (case grow_loop E (get_aligned_block sz) s of None \<Rightarrow> Stuck Diverges | Some r \<Rightarrow> r))"
  using assms(1,3) unfolding sf_malloc_def first_use_def[symmetric] assms(2) Let_def no_quick_def
  by (elim disjE) (simp_all add: get_block_size_from_header_def)

theorem sf_malloc_zero: "sf_malloc E 0 s = Ret (NULL, s)"
  by (simp add: sf_malloc_def)

theorem sf_malloc_out_of_memory:
  assumes "sz \<noteq> 0" "mem_start E \<noteq> mem_end s" "no_quick s (get_aligned_block sz)" "pools E s L"
    "\<forall>i<NUM_FREE_LISTS. \<forall>b\<in>set (L i). \<not> fits E s (get_aligned_block sz) b"
    "sf_mem_grow E s = (NULL, s)"
  shows "sf_malloc E sz s = Ret (NULL, s\<lparr>sf_errno := ENOMEM\<rparr>)"
proof -
  have "search_free_lists E (get_aligned_block sz) [get_free_list_index (get_aligned_block sz) ..< NUM_FREE_LISTS] s = Ret None"
    by (rule search_free_lists_none[OF assms(4)]) (use assms(5) in auto)
  moreover have "grow_loop E (get_aligned_block sz) s = Some (Ret (NULL, s\<lparr>sf_errno := ENOMEM\<rparr>))"
    by (subst grow_loop.simps) (simp add: assms(6))
  ultimately show ?thesis 
    by (simp add: sf_malloc_search[OF assms(1) _ assms(3)] first_use_def assms(2))
qed


text \<open>The status bit of the predecessor does not decide whether a block is split.\<close>

lemma split_decision:
  assumes "mult16 bs" "mult16 n" "p = 0 \<or> p = 2" "unat n + 32 \<le> unat bs" "unat bs + 16 < 2 ^ 64"
  shows "n \<le> bs OR p" "\<not> (bs OR p) - n < 32"
proof -
  have u: "unat (bs OR p) = unat bs + unat p" "unat p \<le> 2"
    using assms(1,3,5) by (auto simp: or_2_eq_add unat_add_no_wrap)
  then show "n \<le> bs OR p" using assms(4) by (simp add: word_le_nat_alt)
  then have "unat ((bs OR p) - n) = unat bs + unat p - unat n" by (simp add: unat_sub u)
  then show "\<not> (bs OR p) - n < 32" using assms(4) by (simp add: word_less_nat_alt)
qed

lemma aligned_facts:
  assumes "unat sz < 2 ^ 64 - 23"
  shows "mult16 (get_aligned_block sz)" "32 \<le> unat (get_aligned_block sz)"
  using get_aligned_block_unat[OF assms] unfolding mult16_unat Let_def dvd_eq_mod_eq_0
  by (simp_all split: if_splits) presburger?

definition split_result :: "sf_env \<Rightarrow> sf_state \<Rightarrow> (nat \<Rightarrow> ptr list) \<Rightarrow> (nat \<Rightarrow> ptr list) \<Rightarrow>
    ptr \<Rightarrow> 64 word \<Rightarrow> 64 word \<Rightarrow> 64 word \<Rightarrow> sf_state \<Rightarrow> bool" where
  "split_result E s L L' b bs p n s' \<longleftrightarrow>
    header s' b XOR magic E = n OR 4 OR p \<and>
    header s' (b + n) XOR magic E = (bs - n) OR 2 \<and>
    prev_footer s' (b + bs) = header s' (b + n) \<and>
    pools E s' (L'(get_free_list_index (bs - n) := (b + n) # L' (get_free_list_index (bs - n)))) \<and>
    (\<forall>x. mult16 x \<and> clear_of E L x \<and> x \<notin> {b, b + n, b + n + 16} \<longrightarrow> header s' x = header s x) \<and>
    (\<forall>x. mult16 x \<and> clear_of E L x \<and> x \<notin> {b + bs, b + n + 16} \<longrightarrow> prev_footer s' x = prev_footer s x) \<and>
    quick_first s' = quick_first s \<and> quick_count s' = quick_count s \<and> mem_end s' = mem_end s \<and>
    last_block_allocated s' = last_block_allocated s \<and> sf_errno s' = sf_errno s"

lemma sf_malloc_found:
  assumes P: "pools E s L" and i: "get_free_list_index (get_aligned_block sz) \<le> i" "i < NUM_FREE_LISTS"
    and L: "L i = pre @ b # post" and hdr: "header s b XOR magic E = bs OR p" "p = 0 \<or> p = 2"
    and al: "mult16 bs" and le: "unat (get_aligned_block sz) + 32 \<le> unat bs" and apart: "block_apart E L b bs"
    and first: "\<forall>x\<in>set pre. \<not> fits E s (get_aligned_block sz) x"
      "\<forall>j. get_free_list_index (get_aligned_block sz) \<le> j \<and> j < i \<longrightarrow> (\<forall>x\<in>set (L j). \<not> fits E s (get_aligned_block sz) x)"
    and req: "sz \<noteq> 0" "unat sz < 2 ^ 64 - 23" "no_quick s (get_aligned_block sz)" and u: "first_use E s0 = Ret s"
  shows "\<exists>s'. sf_malloc E sz s0 = Ret (payload b, s') \<and>
    split_result E s L (L(i := pre @ post)) b bs p (get_aligned_block sz) s'"
proof -
  let ?n = "get_aligned_block sz"
  have "unat bs + 16 < 2 ^ 64" using apart by (auto simp: block_apart_def)
  note dec = split_decision[OF al aligned_facts(1)[OF req(2)] hdr(2) le this]
  have fit: "fits E s ?n b" using dec(1) hdr(1) by simp
  have "header s x \<noteq> header s b" if "x \<in> set pre" for x using first(1) fit that by force
  then obtain s' where s': "allocate_splitting E i (bs OR p) ?n s = Ret (b, s')"
      "split_result E s L (L(i := pre @ post)) b bs p ?n s'"
    using allocate_splitting_spec[OF P i(2) L _ hdr al aligned_facts[OF req(2)] le apart]
    unfolding split_result_def Let_def by auto
  have "allocate_from E i (bs OR p) ?n s = Ret (payload b, s')"
    using dec(2) s'(1) by (simp add: allocate_from_def)
  then have "sf_malloc E sz s0 = Ret (payload b, s')"
    unfolding sf_malloc_search[OF req(1) u req(3)] search_free_lists_first_fit[OF P i L fit first(1,2)]
    by (simp add: hdr(1))
  with s'(2) show ?thesis by blast
qed

text \<open>
  C1: On an initialised heap whose quick list for the request is empty, sf_malloc returns the
  payload of the first block that fits in the lowest size class that has one; the block gets
  the aligned request size, the remainder becomes a free block with footer at the head of its
  own class, all other headers and the globals are unchanged.
\<close>

theorem sf_malloc_first_fit:
  assumes "pools E s L" and "get_free_list_index (get_aligned_block sz) \<le> i" "i < NUM_FREE_LISTS"
    and "L i = pre @ b # post" and "header s b XOR magic E = bs OR p" "p = 0 \<or> p = 2"
    and "mult16 bs" and "unat (get_aligned_block sz) + 32 \<le> unat bs" and "block_apart E L b bs"
    and "\<forall>x\<in>set pre. \<not> fits E s (get_aligned_block sz) x"
      "\<forall>j. get_free_list_index (get_aligned_block sz) \<le> j \<and> j < i \<longrightarrow> (\<forall>x\<in>set (L j). \<not> fits E s (get_aligned_block sz) x)"
    and "sz \<noteq> 0" "unat sz < 2 ^ 64 - 23" "no_quick s (get_aligned_block sz)" and "mem_start E \<noteq> mem_end s"
  shows "\<exists>s'. sf_malloc E sz s = Ret (payload b, s') \<and>
    split_result E s L (L(i := pre @ post)) b bs p (get_aligned_block sz) s'"
  by (rule sf_malloc_found[OF assms(1-14)]) (simp add: first_use_def assms(15))

text \<open>The first call on an untouched heap.\<close>

theorem sf_malloc_first_call:
  assumes "mem_start E = mem_end s" "sf_mem_grow E s = (mem_start E, s\<lparr>mem_end := mem_end s + PAGE_SZ\<rparr>)"
    "page_apart E (mem_start E)" "no_quick s (get_aligned_block sz)" "sz \<noteq> 0" "unat sz \<le> 4040"
  shows "\<exists>s' s1. sf_malloc E sz s = Ret (payload (mem_start E), s') \<and>
    first_page E s = Ret s1 \<and> mem_end s1 = mem_end s + PAGE_SZ \<and>
    split_result E s1 ((\<lambda>i. [])(7 := [mem_start E])) (\<lambda>i. []) (mem_start E) 4080 0 (get_aligned_block sz) s'"
proof -
  let ?n = "get_aligned_block sz" and ?L = "(\<lambda>i. [])(7 := [mem_start E])"
  obtain m where fp: "first_page E s = Ret (s\<lparr>mem_end := mem_end s + PAGE_SZ, mem := m\<rparr>)"
      "pools E (s\<lparr>mem_end := mem_end s + PAGE_SZ, mem := m\<rparr>) ?L"
      "header (s\<lparr>mem_end := mem_end s + PAGE_SZ, mem := m\<rparr>) (mem_start E) XOR magic E = 4080"
    using first_page_spec[OF assms(2,3)] by auto
  let ?s1 = "s\<lparr>mem_end := mem_end s + PAGE_SZ, mem := m\<rparr>"
  have n: "unat ?n + 32 \<le> 4080" "unat sz < 2 ^ 64 - 23"
    using get_aligned_block_unat[of sz] assms(6) unfolding Let_def by (auto split: if_splits) presburger
  have "block_apart E ?L (mem_start E) 4080"
    using assms(3) by (auto simp: page_apart_def block_apart_def)
  moreover have "get_free_list_index ?n \<le> 7"
    using n(1) aligned_facts(2)[OF n(2)] unfolding get_free_list_index_unat Let_def by (auto split: if_splits)
  moreover have "no_quick ?s1 ?n" using assms(4) by (simp add: no_quick_def)
  moreover have "first_use E s = Ret ?s1" using assms(1) fp(1) by (simp add: first_use_def)
  ultimately obtain s' where "sf_malloc E sz s = Ret (payload (mem_start E), s')"
      "split_result E ?s1 ?L (?L(7 := [])) (mem_start E) 4080 0 ?n s'"
    using sf_malloc_found[OF fp(2), of sz 7 "[]" "mem_start E" "[]" 4080 0 s] fp(3) n assms(5)
    by (auto simp: NUM_FREE_LISTS_def mult16_def)
  moreover have "((\<lambda>i::nat. [])(7 := [mem_start E]))(7 := []) = (\<lambda>i. [] :: ptr list)" by auto
  ultimately show ?thesis using fp(1) by auto
qed

lemma quick_list_cong:
  assumes "quick_list s i xs" "quick_first s' i = quick_first s i"
    "\<And>x. x \<in> set xs \<Longrightarrow> next_link s' x = next_link s x"
  shows "quick_list s' i xs"
  using assms slist_cong[of xs "next_link s'" "next_link s"] by (simp add: quick_list_def)

lemma update_header_frame [simp]:
  "mem_end (update_header E b sz a p s) = mem_end s" "quick_first (update_header E b sz a p s) = quick_first s"
  "quick_count (update_header E b sz a p s) = quick_count s"
  "last_block_allocated (update_header E b sz a p s) = last_block_allocated s"
  "sf_errno (update_header E b sz a p s) = sf_errno s"
  by (simp_all add: update_header_def Let_def)

lemma next_link_update_header:
  "mult16 x \<Longrightarrow> mult16 b \<Longrightarrow> next_link (update_header E b sz a p s) x = next_link s x"
  by (simp add: update_header_def Let_def get_set_other)

lemma field_quick [simp]:
  "header (s\<lparr>quick_first := q\<rparr>) x = header s x" "header (s\<lparr>quick_count := c\<rparr>) x = header s x"
  "header (s\<lparr>last_block_allocated := l\<rparr>) x = header s x"
  "next_link (s\<lparr>quick_count := c\<rparr>) x = next_link s x" "next_link (s\<lparr>last_block_allocated := l\<rparr>) x = next_link s x"
  by (simp_all add: header_def next_link_def)

lemma prev_alloc_bit_cases:
  "header s b XOR magic E = bs OR p \<Longrightarrow> p = 4 \<or> p = 6 \<Longrightarrow> mult16 bs \<Longrightarrow>
   prev_alloc_bit E s b = (if p = 6 then 1 else 0)"
  by (elim disjE) (simp_all add: prev_alloc_bit_eq[OF refl] and_mask_or)

text \<open>A request of a quick size takes the block freed last.\<close>

theorem sf_malloc_quick:
  assumes "sz \<noteq> 0" "mem_start E \<noteq> mem_end s" and n: "n = get_aligned_block sz" "mult16 n" "n \<noteq> 0"
    and q: "get_quick_list_index n = int q" "quick_list s q (b # bs)" "\<forall>x\<in>set (b # bs). mult16 x"
    and h: "header s b XOR magic E = n OR p" "p = 4 \<or> p = 6"
  shows "\<exists>s'. sf_malloc E sz s = Ret (payload b, s') \<and> quick_list s' q bs \<and>
    quick_count s' q = quick_count s q - 1 \<and> header s' b = header s b"
proof -
  define s1 where "s1 = snd (pop_quick q s)"
  define s2 where "s2 = decrement_quick_list_counter (int q) s1"
  define s3 where "s3 = update_header E b n 1 (prev_alloc_bit E s2 b) s2"
  define s4 where "s4 = (if check_last_block E s3 (b + n) = 0
      then update_header E (b + n) (header s3 (b + n) XOR magic E) 0 1 s3 else s3\<lparr>last_block_allocated := 1\<rparr>)"
  have q9: "q \<le> 9" using q(1) by (simp add: get_quick_list_index_def split: if_splits)
  have b: "quick_first s q = b" "b \<noteq> NULL" "b \<notin> set bs" using q(2) by (auto simp: quick_list_def)
  have mb: "mult16 b" using q(3) by simp
  have p1: "pop_quick q s = (b, s1)" "quick_list s1 q bs"
    using quick_pop[OF q(2)] by (simp_all add: s1_def prod_eq_iff)
  have h1: "header s1 b = header s b"
    unfolding s1_def pop_quick_def remove_from_quick_list_def Let_def b(1)
    by (simp add: get_set_other(5)[OF mb mb])
  have c1: "quick_count s1 = quick_count s"
    unfolding s1_def pop_quick_def remove_from_quick_list_def Let_def by simp
  have s2: "s2 = s1\<lparr>quick_count := (quick_count s1)(q := quick_count s1 q - 1)\<rparr>"
    unfolding s2_def decrement_quick_list_counter_def using q9 by simp
  have h3: "header s3 b = header s b"
  proof -
    have "header s2 b XOR magic E = n OR p" by (simp add: s2 h1 h)
    note pb = prev_alloc_bit_cases[OF this h(2) n(2)]
    have "header s3 b = (n OR p) XOR magic E" using h(2) by (auto simp: s3_def pb or.assoc)
    then show ?thesis by (metis h(1) word_xor_cancel)
  qed
  have st: "strip_bits (header s3 b XOR magic E) = n" using h n(2) by (auto simp: h3)
  have "quick_list_allocate E (int q) n s = (b, s4)"
    unfolding quick_list_allocate_def nat_int b(1) using p1(1)
    by (simp add: pop_quick_def b(1) Let_def s2_def[symmetric] s3_def[symmetric] st strip_bits_or[OF n(2)] s4_def)
  then have "sf_malloc E sz s = Ret (payload b, s4)"
    using assms(1,2) q(1) b n(1) by (simp add: sf_malloc_def Let_def)
  moreover have "quick_list s4 q bs"
  proof (rule quick_list_cong[OF p1(2)])
    show "quick_first s4 q = quick_first s1 q" by (simp add: s4_def s3_def s2)
    fix x assume "x \<in> set bs"
    then have "mult16 x" using q(3) by simp
    then show "next_link s4 x = next_link s1 x"
      using mb n(2) by (simp add: s4_def s3_def s2 next_link_update_header mult16_add_iff)
  qed
  moreover have "header s4 b = header s b"
    using n(3) by (simp add: s4_def header_update_header_other h3)
  moreover have "quick_count s4 q = quick_count s q - 1" by (simp add: s4_def s3_def s2 c1)
  ultimately show ?thesis by blast
qed

end
