(* ===== verification/Sf_Free.thy ===== *)
theory Sf_Free imports Sf_Malloc begin

text \<open>
  \<open>sf_free\<close> and \<open>sf_realloc\<close> of hw3 (\<open>sfmm.c\<close>) with the validation of the client's pointer, coalescing
  with the neighbours, and the flush of a full quick list.
\<close>

unbundle bit_operations_syntax

section \<open>Operations\<close>

definition validate_pointer :: "sf_env \<Rightarrow> sf_state \<Rightarrow> ptr \<Rightarrow> int" where
  "validate_pointer E s pp =
     (if pp = NULL then -1
      else if pp AND 15 \<noteq> 0 then -1
      else
        (let pp = pp - 16; block = pp in
         if pp < mem_start E then -1
         else
           (let hdr = header s block XOR magic E in
            if hdr AND THIS_BLOCK_ALLOCATED = 0 then -1
            else
              (let hdr = hdr AND NOT 2; hdr = hdr AND NOT 4 in
               if hdr < 32 then -1
               else if hdr mod 16 \<noteq> 0 then -1
               else
                 (let temp = pp + hdr in
                  if temp > mem_end s then -1
                  else if pp \<noteq> mem_start E
                  then
                    (let prev_alloc = uint ((header s block XOR magic E) AND PREV_BLOCK_ALLOCATED);
                         prev_block_header_alloc_bit =
                           uint ((prev_footer s block XOR magic E) AND THIS_BLOCK_ALLOCATED)
                     in if prev_alloc = 0 \<and> prev_block_header_alloc_bit = 1 then -1 else 0)
                  else 0)))))"

definition coalesce :: "sf_env \<Rightarrow> ptr \<Rightarrow> sf_state \<Rightarrow> (ptr \<times> sf_state) outcome" where
  "coalesce E block s =
     (let prev_alloc = prev_alloc_bit E s block;
          next_alloc = get_next_block_alloc_bit E s block;
          next_alloc = (if next_alloc = -1 then 1 else next_alloc);
          prev_alloc = (if prev_footer s block XOR magic E = 0 then 1 else prev_alloc)
      in if prev_alloc = 0 \<and> next_alloc = 0
         then
           (let prev_size = (prev_footer s block XOR magic E) AND NOT 2;
                nxt = get_next_block E s block;
                next_size = clear_bits E s nxt;
                combined_size = prev_size + (header s block XOR magic E) + next_size
            in andThen (remove_from_free_list E (head_addr E (get_free_list_index prev_size))
                          (prev_footer s block XOR magic E) s) (\<lambda>(combined, s).
               andThen (remove_from_free_list E (head_addr E (get_free_list_index next_size))
                          (header s (get_next_block E s block) XOR magic E) s) (\<lambda>(_, s).
                 let s = set_header combined (combined_size XOR magic E) s
                 in Ret (combined, add_footer E combined s))))
         else if prev_alloc = 0 \<and> next_alloc \<noteq> 0
         then
           (let prev_size = (prev_footer s block XOR magic E) AND NOT 2;
                combined_size = prev_size + (header s block XOR magic E)
            in andThen (remove_from_free_list E (head_addr E (get_free_list_index prev_size))
                          (prev_footer s block XOR magic E) s) (\<lambda>(combined, s).
                 let s = set_header combined (combined_size XOR magic E) s
                 in Ret (combined, add_footer E combined s)))
         else if prev_alloc \<noteq> 0 \<and> next_alloc = 0
         then
           (let nxt = get_next_block E s block;
                next_size = clear_bits E s nxt;
                combined_size = (header s block XOR magic E) + next_size
            in andThen (remove_from_free_list E (head_addr E (get_free_list_index next_size))
                          (header s (get_next_block E s block) XOR magic E) s) (\<lambda>(_, s).
                 let s = set_header block (combined_size XOR magic E) s
                 in Ret (block, add_footer E block s)))
         else Ret (block, s))"

text \<open>One block of the quick list that is being flushed.\<close>

definition flush_one :: "sf_env \<Rightarrow> nat \<Rightarrow> sf_state \<Rightarrow> sf_state outcome" where
  "flush_one E index s =
     (case remove_from_quick_list (quick_first s index) index s of (temp, s) \<Rightarrow>
        (let temp_size = clear_bits E s temp;
             s = update_header E temp temp_size 0 (prev_alloc_bit E s temp) s;
             s = add_footer E temp s;
             s = clear_prev_alloc_in_next_block E temp s
         in andThen (coalesce E temp s) (\<lambda>(temp, s).
              Ret (insert_to_free_list E temp (clear_prev_alloc_in_next_block E temp s)))))"

partial_function (option) flush_quick_list ::
  "sf_env \<Rightarrow> nat \<Rightarrow> sf_state \<Rightarrow> sf_state outcome option" where
  "flush_quick_list E index s =
     (if quick_first s index \<noteq> NULL
      then (case flush_one E index s of
              Ret s \<Rightarrow> flush_quick_list E index s
            | Stuck e \<Rightarrow> Some (Stuck e))
      else Some (Ret s))"

definition free_main :: "sf_env \<Rightarrow> ptr \<Rightarrow> 64 word \<Rightarrow> sf_state \<Rightarrow> sf_state outcome" where
  "free_main E block sz s =
     (let s = update_header E block sz 0 (prev_alloc_bit E s block) s;
          s = add_footer E block s;
          s = clear_prev_alloc_in_next_block E block s
      in andThen (coalesce E block s) (\<lambda>(block, s).
           let s = insert_to_free_list E block s
           in Ret (clear_prev_alloc_in_next_block E block s)))"

definition sf_free :: "sf_env \<Rightarrow> ptr \<Rightarrow> sf_state \<Rightarrow> sf_state outcome" where
  "sf_free E pp s =
     (if validate_pointer E s pp \<noteq> 0 then Stuck Abort_called
      else
        (let block = pp - 16;
             sz = header s block XOR magic E;
             sz = sz AND NOT 2;
             sz = sz AND NOT 4;
             index = fit_in_quick_list sz
         in if index \<noteq> -1
            then (case increment_quick_list_counter index s of (full, s) \<Rightarrow>
                    if full = 0 then Ret (insert_to_quick_list block (nat index) s)
                    else (case flush_quick_list E (nat index) s of
                            None \<Rightarrow> Stuck Diverges
                          | Some r \<Rightarrow> andThen r (\<lambda>s. Ret (insert_to_quick_list block (nat index) s))))
            else free_main E block sz s))"

text \<open>\<open>memcpy\<close> of whole rows.\<close>

definition copy_rows :: "ptr \<Rightarrow> ptr \<Rightarrow> nat \<Rightarrow> sf_state \<Rightarrow> sf_state" where
  "copy_rows dst src n s =
     s\<lparr>mem := fold (\<lambda>i m. m(dst + 8 * of_nat i := mem s (src + 8 * of_nat i))) [0..<n] (mem s)\<rparr>"

definition realloc_larger ::
  "sf_env \<Rightarrow> ptr \<Rightarrow> 64 word \<Rightarrow> 64 word \<Rightarrow> sf_state \<Rightarrow> (ptr \<times> sf_state) outcome" where
  "realloc_larger E pp rsize actual_block_size s =
     andThen (sf_malloc E rsize s) (\<lambda>(temp, s).
       if temp = NULL then Ret (NULL, s)
       else
         (let new_block = temp - 16;
              s = copy_rows (payload new_block) (payload pp) (unat (actual_block_size - 8) div 8) s
          in andThen (sf_free E (pp + 16) s) (\<lambda>s. Ret (payload new_block, s))))"

definition realloc_split ::
  "sf_env \<Rightarrow> ptr \<Rightarrow> 64 word \<Rightarrow> 64 word \<Rightarrow> sf_state \<Rightarrow> (ptr \<times> sf_state) outcome" where
  "realloc_split E block actual_block_size smaller_header s =
     (let s = update_header E block smaller_header 1 (prev_alloc_bit E s block) s;
          new_block = block + smaller_header;
          s = update_header E new_block (actual_block_size - smaller_header) 0 1 s
      in if get_next_block_alloc_bit E s new_block = 0
         then
           (let nxt = get_next_block E s new_block;
                next_size = strip_bits (header s nxt XOR magic E);
                combined_size = (actual_block_size - smaller_header) + next_size
            in andThen (remove_from_free_list E (head_addr E (get_free_list_index next_size))
                          (header s nxt XOR magic E) s) (\<lambda>(_, s).
                 let s = update_header E new_block combined_size 0 1 s;
                     s = add_footer E new_block s;
                     s = insert_to_free_list E new_block s
                 in Ret (payload block, s)))
         else Ret (payload block, s))"

definition sf_realloc :: "sf_env \<Rightarrow> ptr \<Rightarrow> 64 word \<Rightarrow> sf_state \<Rightarrow> (ptr \<times> sf_state) outcome" where
  "sf_realloc E pp rsize s =
     (if validate_pointer E s pp \<noteq> 0 then Stuck Abort_called
      else
        (let pp = pp - 16 in
         if rsize = 0 then andThen (sf_free E (pp + 16) s) (\<lambda>s. Ret (NULL, s))
         else
           (let block = pp;
                actual_block_size = strip_bits (header s block XOR magic E)
            in if rsize > actual_block_size then realloc_larger E pp rsize actual_block_size s
               else
                 (let smaller_header = get_aligned_block rsize in
                  if actual_block_size - smaller_header < 32 then Ret (payload block, s)
                  else realloc_split E block actual_block_size smaller_header s))))"

section \<open>Validation\<close>

text \<open>What a pointer must satisfy to be accepted.\<close>

definition client_pointer :: "sf_env \<Rightarrow> sf_state \<Rightarrow> ptr \<Rightarrow> bool" where
  "client_pointer E s pp \<longleftrightarrow> pp \<noteq> NULL \<and> mult16 pp \<and> mem_start E \<le> pp - 16 \<and>
     (header s (pp - 16) XOR magic E) AND 4 \<noteq> 0 \<and>
     32 \<le> strip_bits (header s (pp - 16) XOR magic E) \<and>
     mult16 (strip_bits (header s (pp - 16) XOR magic E)) \<and>
     (pp - 16) + strip_bits (header s (pp - 16) XOR magic E) \<le> mem_end s"

lemma and_15_mult16: "(x::64 word) AND 15 = 0 \<longleftrightarrow> mult16 x"
proof -
  have "x AND mask 4 = take_bit 4 x" by (simp add: take_bit_eq_mask)
  moreover have "mask 4 = (15::64 word)" by (simp add: mask_eq_exp_minus_1)
  ultimately show ?thesis by (simp add: mult16_def)
qed

lemma mod_16_mult16: "(x::64 word) mod 16 = 0 \<longleftrightarrow> mult16 x"
  by (simp add: mult16_unat word_unat_eq_iff unat_mod dvd_eq_mod_eq_0)

lemma strip_bits_commute: "(h AND NOT 2) AND NOT 4 = strip_bits h"
  by (simp only: strip_bits_def and.assoc and.commute and.left_commute)

lemma uint_and_4_neq_1: "uint ((x::64 word) AND 4) \<noteq> 1"
proof
  assume "uint (x AND 4) = 1"
  then have "x AND 4 = 1" by (metis word_uint_eq_iff uint_1)
  then have "bit (x AND 4) 0" by simp
  then show False by (simp only: bit_and_iff bit_4_word) simp
qed

lemma validate_pointer_iff: "validate_pointer E s pp = 0 \<longleftrightarrow> client_pointer E s pp"
  unfolding validate_pointer_def client_pointer_def Let_def and_15_mult16 mod_16_mult16 strip_bits_commute
    THIS_BLOCK_ALLOCATED_def
  using uint_and_4_neq_1 by (auto simp: not_less[symmetric] simp del: not_less)

lemma validate_pointer_range: "validate_pointer E s pp \<in> {0, -1}"
  by (simp add: validate_pointer_def Let_def)

text \<open>Nothing behind the validation aborts: the lists may only be walked for ever.\<close>

lemma andThen_no_abort:
  "m \<noteq> Stuck Abort_called \<Longrightarrow> (\<And>x. m = Ret x \<Longrightarrow> f x \<noteq> Stuck Abort_called) \<Longrightarrow> andThen m f \<noteq> Stuck Abort_called"
  by (cases m) auto

lemma loop_result_no_abort: "loop_result r \<noteq> Stuck Abort_called"
  by (cases r) simp_all

lemma remove_no_abort: "remove_from_free_list E h n s \<noteq> Stuck Abort_called"
  unfolding remove_from_free_list_def Let_def by (simp add: andThen_no_abort loop_result_no_abort)

lemma coalesce_no_abort: "coalesce E b s \<noteq> Stuck Abort_called"
  unfolding coalesce_def Let_def by (simp add: andThen_no_abort remove_no_abort split: prod.splits)

lemma flush_one_no_abort: "flush_one E i s \<noteq> Stuck Abort_called"
  unfolding flush_one_def Let_def by (simp add: andThen_no_abort coalesce_no_abort split: prod.splits)

lemma flush_quick_list_no_abort:
  assumes "flush_quick_list E i s = Some r"
  shows "r \<noteq> Stuck Abort_called"
proof (rule flush_quick_list.raw_induct[where P = "\<lambda>E i s r. r \<noteq> Stuck Abort_called", OF _ assms])
  fix f and E and i and s and r :: "sf_state outcome"
  assume ih: "\<And>E i s r. f E i s = Some r \<Longrightarrow> r \<noteq> Stuck Abort_called"
    and r: "(if quick_first s i \<noteq> NULL then case flush_one E i s of Ret s \<Rightarrow> f E i s | Stuck e \<Rightarrow> Some (Stuck e) else Some (Ret s)) = Some r"
  show "r \<noteq> Stuck Abort_called"
    using r flush_one_no_abort[of E i s] ih by (cases "flush_one E i s") (auto split: if_splits)
qed

lemma free_main_no_abort: "free_main E b n s \<noteq> Stuck Abort_called"
  unfolding free_main_def Let_def by (simp add: andThen_no_abort coalesce_no_abort split: prod.splits)

lemma sf_free_aborts_iff: "sf_free E pp s = Stuck Abort_called \<longleftrightarrow> \<not> client_pointer E s pp"
proof (cases "client_pointer E s pp")
  case True
  then have v: "validate_pointer E s pp = 0" by (simp add: validate_pointer_iff)
  have "sf_free E pp s \<noteq> Stuck Abort_called"
    unfolding sf_free_def Let_def v
    by (auto simp: free_main_no_abort andThen_no_abort split: prod.splits option.splits dest: flush_quick_list_no_abort)
  then show ?thesis using True by simp
next
  case False
  then show ?thesis using validate_pointer_iff[of E s pp] by (simp add: sf_free_def)
qed

lemma sf_realloc_aborts:
  "if client_pointer E s pp then validate_pointer E s pp = 0 else sf_realloc E pp rsize s = Stuck Abort_called"
  using validate_pointer_iff[of E s pp] by (simp add: sf_realloc_def)

text \<open>
  C36: sf_free aborts exactly for the pointers that are null, misaligned, below the heap, not
  marked allocated, of a size under 32 or not a multiple of 16, or reaching past the heap;
  sf_realloc aborts for each of these too (where its documentation promises EINVAL), and every
  other pointer passes the validation: the test against the footer of the predecessor never
  rejects anything.
\<close>

theorem invalid_pointer_aborts:
  "(sf_free E pp s = Stuck Abort_called \<longleftrightarrow> \<not> client_pointer E s pp) \<and>
   (if client_pointer E s pp then validate_pointer E s pp = 0 else sf_realloc E pp rsize s = Stuck Abort_called)"
  using sf_free_aborts_iff sf_realloc_aborts by blast

section \<open>Blocks of a quick size\<close>

lemma sf_free_quick_state:
  assumes c: "client_pointer E s (payload b)" and n: "strip_bits (header s b XOR magic E) = n"
    and q: "get_quick_list_index n = int q" and cnt: "0 \<le> quick_count s q" "quick_count s q < 5"
  shows "sf_free E (payload b) s = Ret (insert_to_quick_list b q
     (s\<lparr>quick_count := (quick_count s)(q := quick_count s q + 1)\<rparr>))"
proof -
  have "q \<le> 9" using q by (simp add: get_quick_list_index_def split: if_splits)
  moreover have "fit_in_quick_list n = int q" using q by (simp add: fit_in_quick_list_def get_quick_list_index_def)
  moreover have "payload b - 16 = b" by (simp add: payload_def)
  ultimately show ?thesis
    using cnt(2) c unfolding sf_free_def Let_def strip_bits_commute validate_pointer_iff[symmetric]
    by (simp add: n increment_quick_list_counter_def)
qed

text \<open>
  C25: Freeing a block of a quick size with room in its quick list writes only the first
  payload row and pushes the block; the next request of that size gets the same block back and
  the list and its counter are as before.
\<close>

theorem free_then_malloc_reuses:
  assumes c: "client_pointer E s (payload b)" and n: "n = get_aligned_block sz"
    and h: "header s b XOR magic E = n OR p" "p = 4 \<or> p = 6"
    and q: "get_quick_list_index n = int q" and cnt: "0 \<le> quick_count s q" "quick_count s q < 5"
    and ql: "quick_list s q bs" "quick_fresh b bs" "\<forall>x\<in>set bs. mult16 x"
    and sz: "sz \<noteq> 0" "mem_start E \<noteq> mem_end s"
  shows "\<exists>s1 s2. sf_free E (payload b) s = Ret s1 \<and> quick_list s1 q (b # bs) \<and>
    quick_count s1 q = quick_count s q + 1 \<and> (\<forall>a. a \<noteq> payload b \<longrightarrow> mem s1 a = mem s a) \<and>
    sf_malloc E sz s1 = Ret (payload b, s2) \<and> quick_list s2 q bs \<and> quick_count s2 q = quick_count s q"
proof -
  define s1 where "s1 = insert_to_quick_list b q (s\<lparr>quick_count := (quick_count s)(q := quick_count s q + 1)\<rparr>)"
  have n16: "mult16 n" "n \<noteq> 0"
    using q by (auto simp: get_quick_list_index_def mult16_def split: if_splits)
  have st: "strip_bits (header s b XOR magic E) = n" using h n16 by auto
  have f: "sf_free E (payload b) s = Ret s1" unfolding s1_def by (rule sf_free_quick_state[OF c st q cnt])
  have mb: "mult16 b" using c by (simp add: client_pointer_def payload_def mult16_add_iff)
  have "quick_list (s\<lparr>quick_count := (quick_count s)(q := quick_count s q + 1)\<rparr>) q bs"
    by (rule quick_list_cong[OF ql(1)]) simp_all
  from quick.push_rep[OF this ql(2)] have ql1: "quick_list s1 q (b # bs)" by (simp add: s1_def)
  have "header s1 b = header s b" by (simp add: s1_def insert_to_quick_list_def get_set_other(5)[OF mb mb])
  then have h1: "header s1 b XOR magic E = n OR p" using h by simp
  have me: "mem_start E \<noteq> mem_end s1" using sz by (simp add: s1_def insert_to_quick_list_def)
  have "quick_count s1 q = quick_count s q + 1" "\<forall>a. a \<noteq> payload b \<longrightarrow> mem s1 a = mem s a"
    by (simp_all add: s1_def insert_to_quick_list_def set_next_def write_row_def payload_def)
  moreover obtain s2 where "sf_malloc E sz s1 = Ret (payload b, s2)" "quick_list s2 q bs"
      "quick_count s2 q = quick_count s1 q - 1"
    using sf_malloc_quick[OF sz(1) me n n16 q ql1 _ h1 h(2)] ql(3) mb by auto
  ultimately show ?thesis using f ql1 by auto
qed

section \<open>Freeing a large block\<close>

lemma add_footer_eq:
  assumes "header s b XOR magic E = n OR q" "mult16 n" "q \<in> {0, 2, 4, 6}"
  shows "add_footer E b s = set_prev_footer (b + n) (header s b) s"
  using assms by (auto simp: add_footer_def)

lemma clear_prev_allocated:
  assumes "header s b XOR magic E = n OR q" "mult16 n" "q \<in> {0, 2, 4, 6}"
    and "header s (b + n) XOR magic E = hs OR r" "mult16 hs" "r \<in> {4, 6}"
  shows "clear_prev_alloc_in_next_block E b s = set_header (b + n) ((hs OR 4) XOR magic E) s"
proof -
  have "strip_bits (n OR q) = n" using assms(2,3) by auto
  moreover have "(hs OR r) AND NOT 2 = hs OR 4" using assms(5,6) and_not_2_or by blast
  ultimately show ?thesis
    unfolding clear_prev_alloc_in_next_block_def Let_def assms(1) assms(4) THIS_BLOCK_ALLOCATED_def
    by (simp only: assms(4) and_mask_or[OF assms(5)]) simp
qed

lemma clear_prev_free:
  assumes "header s b XOR magic E = n OR q" "mult16 n" "q \<in> {0, 2, 4, 6}"
    and "header s (b + n) XOR magic E = m OR r" "mult16 m" "r \<in> {0, 2}"
  shows "clear_prev_alloc_in_next_block E b s =
    set_prev_footer (b + n + m) (m XOR magic E) (set_header (b + n) (m XOR magic E) s)"
proof -
  have "strip_bits (n OR q) = n" using assms(2,3) by auto
  moreover have "(m OR r) AND NOT 2 = m" using assms(5,6) and_not_2_or by auto
  ultimately show ?thesis
    unfolding clear_prev_alloc_in_next_block_def Let_def THIS_BLOCK_ALLOCATED_def
    by (simp only: assms(1,4) and_mask_or[OF assms(5)]) (simp add: add_footer_def assms(5))
qed

lemma coalesce_none:
  assumes "header s b XOR magic E = n OR 2" "mult16 n"
    and "header s (b + n) XOR magic E = hs OR 4" "mult16 hs" "b + n \<le> mem_end s"
  shows "coalesce E b s = Ret (b, s)"
proof -
  have "get_next_block E s b = b + n" using assms(1,2) by (simp add: get_next_block_def)
  then have "get_next_block_alloc_bit E s b = 1"
    using assms(3-5) by (simp add: get_next_block_alloc_bit_def Let_def THIS_BLOCK_ALLOCATED_def and_mask_or)
  moreover have "prev_alloc_bit E s b = 1"
    using assms(1,2) by (simp add: prev_alloc_bit_eq[OF refl] and_mask_or)
  ultimately show ?thesis by (simp add: coalesce_def)
qed

text \<open>
  A block whose predecessor is taken for allocated: its header says so, or the footer before it decodes
  to 0, as at the start of the heap.
\<close>

definition no_free_before :: "sf_env \<Rightarrow> sf_state \<Rightarrow> ptr \<Rightarrow> 64 word \<Rightarrow> bool" where
  "no_free_before E s b q \<longleftrightarrow> q = 2 \<or> q = 0 \<and> prev_footer s b XOR magic E = 0"

lemma no_free_before_2 [simp]: "no_free_before E s b 2"
  by (simp add: no_free_before_def)

lemma coalesce_next:
  assumes "header s b XOR magic E = n OR q" "mult16 n" and q: "no_free_before E s b q"
    and "header s (b + n) XOR magic E = m" "mult16 m" "b + n \<le> mem_end s"
    and P: "pools E s L" and L: "L (get_free_list_index m) = pre @ (b + n) # post"
    and u: "pre @ post = [] \<or> (\<forall>x\<in>set pre. header s x \<noteq> header s (b + n))"
  shows "coalesce E b s = Ret (b, add_footer E b (set_header b (((n + m) OR q) XOR magic E) (remove_state (b + n) s)))"
    "pools E (remove_state (b + n) s) (L(get_free_list_index m := pre @ post))"
    "unlisted E (L(get_free_list_index m := pre @ post)) (b + n)"
proof -
  have "strip_bits (n OR q) = n" using q assms(2) by (auto simp: no_free_before_def)
  then have nx: "get_next_block E s b = b + n" using assms(1) by (simp add: get_next_block_def)
  then have "get_next_block_alloc_bit E s b = 0"
    using assms(4-6) by (simp add: get_next_block_alloc_bit_def Let_def THIS_BLOCK_ALLOCATED_def and_mask_or)
  moreover have "(if prev_footer s b XOR magic E = 0 then 1 else prev_alloc_bit E s b) = 1"
    using q assms(1,2) by (auto simp: no_free_before_def prev_alloc_bit_eq[OF refl] and_mask_or)
  moreover have c: "clear_bits E s (b + n) = m" using assms(4,5) by (simp add: clear_bits_strip)
  moreover have "pre @ post = [] \<or> header s (b + n) XOR magic E = m \<and> (\<forall>x\<in>set pre. header s x XOR magic E \<noteq> m)"
    using u assms(4) by (metis word_xor_cancel)
  note r = remove_from_free_list_pools[OF P _ L this]
  moreover have "mult16 (n + m)" using assms(2,5) by (simp add: mult16_add_iff)
  then have "(n OR q) + m = (n + m) OR q" using assms(2) q by (auto simp: or_2_eq_add no_free_before_def)
  ultimately show "coalesce E b s = Ret (b, add_footer E b (set_header b (((n + m) OR q) XOR magic E) (remove_state (b + n) s)))"
    by (simp add: coalesce_def nx assms(1,4))
  show "pools E (remove_state (b + n) s) (L(get_free_list_index m := pre @ post))"
    "unlisted E (L(get_free_list_index m := pre @ post)) (b + n)" using r by simp_all
qed

lemma sf_free_large:
  assumes c: "client_pointer E s (payload b)" and h: "header s b XOR magic E = n OR p" "mult16 n" "p \<in> {4, 6}"
    and big: "get_quick_list_index n = -1"
  shows "sf_free E (payload b) s = free_main E b n s"
proof -
  have "strip_bits (n OR p) = n" using h by auto
  moreover have "fit_in_quick_list n = -1" using big by (simp add: fit_in_quick_list_def get_quick_list_index_def)
  moreover have "payload b - 16 = b" by (simp add: payload_def)
  ultimately show ?thesis
    using c unfolding sf_free_def Let_def strip_bits_commute validate_pointer_iff[symmetric] by (simp add: h(1))
qed

lemma insert_freed:
  assumes P: "pools E s L" "unlisted E L b" and h: "header s b XOR magic E = k OR 2" "mult16 k"
    and nx: "header s (b + k) XOR magic E = hs OR 4" "mult16 hs"
    and al: "mult16 b" "clear_of E L b" "clear_of E L (b + k)" "b + k \<noteq> b + 16"
  defines "t \<equiv> insert_to_free_list E b s"
  shows "pools E t (L(get_free_list_index k := b # L (get_free_list_index k)))"
    "header t b = header s b" "header t (b + k) = header s (b + k)" "prev_footer t (b + k) = prev_footer s (b + k)"
    "clear_prev_alloc_in_next_block E b t = t"
proof -
  have mk: "mult16 (b + k)" using al(1) h(2) by (simp add: mult16_add_iff)
  have ix: "(header s b XOR magic E) AND NOT 2 = k" unfolding h(1) by (rule and_not_2_or(3)[OF h(2)])
  show "pools E t (L(get_free_list_index k := b # L (get_free_list_index k)))"
    unfolding t_def by (rule insert_to_free_list_pools[OF P]) (simp only: ix)
  show b: "header t b = header s b" and n: "header t (b + k) = header s (b + k)"
    and "prev_footer t (b + k) = prev_footer s (b + k)"
    unfolding t_def using header_insert[OF al(1,1) P(1) al(2)] header_insert[OF mk al(1) P(1) al(3,4)]
      prev_footer_insert[OF mk al(1) P(1) al(3,4)] by simp_all
  have "(hs OR 4) XOR magic E = header t (b + k)" by (metis n nx(1) word_xor_cancel)
  then have "set_header (b + k) ((hs OR 4) XOR magic E) t = t" by (simp add: set_header_def write_row_def header_def)
  then show "clear_prev_alloc_in_next_block E b t = t"
    by (subst clear_prev_allocated[where n = k and q = 2 and hs = hs and r = 4]) (use h nx in \<open>simp_all add: b n\<close>)
qed

text \<open>The common shape of a call that frees a large block whose predecessor is allocated.\<close>

lemma free_main_run:
  assumes "header s b XOR magic E = n OR 6" "mult16 n"
    and "clear_prev_alloc_in_next_block E b (add_footer E b (update_header E b n 0 1 s)) = s1"
    and "coalesce E b s1 = Ret (b, s2)" "clear_prev_alloc_in_next_block E b (insert_to_free_list E b s2) = insert_to_free_list E b s2"
  shows "free_main E b n s = Ret (insert_to_free_list E b s2)"
proof -
  have "prev_alloc_bit E s b = 1" using assms(1,2) by (simp add: prev_alloc_bit_eq[OF refl] and_mask_or)
  then show ?thesis using assms(3-5) by (simp add: free_main_def Let_def)
qed

lemma freed_header:
  assumes "mult16 b" "mult16 n"
  shows "header (update_header E b n 0 1 s) b XOR magic E = n OR 2"
    "add_footer E b (update_header E b n 0 1 s)
      = set_prev_footer (b + n) (header (update_header E b n 0 1 s) b) (update_header E b n 0 1 s)"
    "mult16 x \<Longrightarrow> x \<noteq> b \<Longrightarrow> header (add_footer E b (update_header E b n 0 1 s)) x = header s x"
    "header (add_footer E b (update_header E b n 0 1 s)) b = header (update_header E b n 0 1 s) b"
proof -
  show h: "header (update_header E b n 0 1 s) b XOR magic E = n OR 2" by simp
  show a: "add_footer E b (update_header E b n 0 1 s)
    = set_prev_footer (b + n) (header (update_header E b n 0 1 s) b) (update_header E b n 0 1 s)"
    using add_footer_eq[OF h assms(2)] by simp
  have mn: "mult16 (b + n)" using assms by (simp add: mult16_add_iff)
  show "mult16 x \<Longrightarrow> x \<noteq> b \<Longrightarrow> header (add_footer E b (update_header E b n 0 1 s)) x = header s x"
    "header (add_footer E b (update_header E b n 0 1 s)) b = header (update_header E b n 0 1 s) b"
    by (simp_all add: a get_set_other(6) mn assms header_update_header_other)
qed

theorem free_no_coalesce:
  assumes P: "pools E s L" and ul: "unlisted E L b" and c: "client_pointer E s (payload b)"
    and h: "header s b XOR magic E = n OR 6" "mult16 n" "32 \<le> unat n" "get_quick_list_index n = -1"
    and nx: "header s (b + n) XOR magic E = hs OR 6" "mult16 hs" "clear_of E L b" "clear_of E L (b + n)"
  shows "\<exists>s'. sf_free E (payload b) s = Ret s' \<and>
    pools E s' (L(get_free_list_index n := b # L (get_free_list_index n))) \<and>
    header s' b XOR magic E = n OR 2 \<and> prev_footer s' (b + n) = header s' b \<and>
    header s' (b + n) XOR magic E = hs OR 4"
proof -
  define s1 where "s1 = update_header E b n 0 1 s"
  define s3 where "s3 = set_header (b + n) ((hs OR 4) XOR magic E) (set_prev_footer (b + n) (header s1 b) s1)"
  have mb: "mult16 b" using c by (simp add: client_pointer_def payload_def mult16_add_iff)
  have mn: "mult16 (b + n)" using mb h(2) by (simp add: mult16_add_iff)
  have n0: "n \<noteq> 0" "b + n \<noteq> b + 16" using h(3) by auto
  note f = freed_header[OF mb h(2), where E = E and s = s, folded s1_def]
  have a3: "clear_prev_alloc_in_next_block E b (add_footer E b s1) = s3"
    unfolding s3_def f(2)[symmetric]
    by (rule clear_prev_allocated[where n = n and q = 2 and r = 6]) (use f h(2) nx mn n0 in simp_all)
  have h3: "header s3 b = header s1 b" "header s3 (b + n) XOR magic E = hs OR 4" "prev_footer s3 (b + n) = header s1 b"
    using f(4) n0 unfolding f(2) by (simp_all add: s3_def get_set_other(8)[OF mn mn])
  have "b + n \<le> mem_end s3"
    using c h unfolding client_pointer_def by (simp add: payload_def s3_def s1_def)
  then have a4: "coalesce E b s3 = Ret (b, s3)"
    by (rule coalesce_none[OF f(1)[folded h3(1)] h(2) h3(2) nx(2)])
  have P3: "pools E s3 L"
    unfolding s3_def s1_def update_header_def Let_def
    by (intro pools_set_header pools_set_prev_footer P mb mn nx(3,4))
  note ins = insert_freed[OF P3 ul f(1)[folded h3(1)] h(2) h3(2) nx(2) mb nx(3,4) n0(2)]
  have "sf_free E (payload b) s = Ret (insert_to_free_list E b s3)"
    using sf_free_large[OF c h(1,2) _ h(4)] free_main_run[OF h(1,2) a3[unfolded s1_def] a4 ins(5)] by simp
  then show ?thesis using ins h3 f(1) by simp
qed

lemma coalesce_next_pools:
  assumes h: "header s b XOR magic E = n OR q" "mult16 n" "no_free_before E s b q"
    "header s (b + n) XOR magic E = m" "mult16 m" "b + n \<le> mem_end s"
    and P: "pools E s L" "unlisted E L b" and L: "L (get_free_list_index m) = pre @ (b + n) # post"
    and u: "pre @ post = [] \<or> (\<forall>x\<in>set pre. header s x \<noteq> header s (b + n))"
    and al: "mult16 b" "b + n + m \<noteq> b" "n + m \<noteq> 0" and cl: "clear_of E L b" "clear_of E L (b + n + m)"
  obtains t where "coalesce E b s = Ret (b, t)" "pools E t (L(get_free_list_index m := pre @ post))"
    "unlisted E (L(get_free_list_index m := pre @ post)) b"
    "clear_of E (L(get_free_list_index m := pre @ post)) b" "clear_of E (L(get_free_list_index m := pre @ post)) (b + n + m)"
    "header t b XOR magic E = (n + m) OR q" "prev_footer t (b + n + m) = header t b"
    "\<forall>x. mult16 x \<and> clear_of E L x \<and> x \<noteq> b \<longrightarrow> header t x = header s x"
    "\<forall>x. mult16 x \<and> clear_of E L x \<and> x \<noteq> b + n + m \<longrightarrow> prev_footer t x = prev_footer s x"
    "t = s\<lparr>mem := mem t\<rparr>"
proof -
  define L' where "L' = L(get_free_list_index m := pre @ post)"
  define s1 where "s1 = remove_state (b + n) s"
  define s2 where "s2 = set_header b (((n + m) OR q) XOR magic E) s1"
  define t where "t = set_prev_footer (b + n + m) (header s2 b) s2"
  note co = coalesce_next[OF h P(1) L u, folded L'_def s1_def]
  have mnm: "mult16 (n + m)" "mult16 (b + n + m)" using al(1) h(2,5) by (simp_all add: mult16_add_iff)
  have sub: "set (L' k) \<subseteq> set (L k)" for k using L by (auto simp: L'_def)
  note cl' = cl[THEN clear_of_subset, of L', OF sub]
  have h2: "header s2 b XOR magic E = (n + m) OR q" by (simp add: s2_def)
  have "q \<in> {0, 2, 4, 6}" using h(3) by (auto simp: no_free_before_def)
  then have "coalesce E b s = Ret (b, t)"
    using co(1) add_footer_eq[OF h2 mnm(1)] by (simp add: t_def s2_def add.assoc)
  moreover have "pools E t L'"
    unfolding t_def s2_def by (intro pools_set_header pools_set_prev_footer co(2) al mnm cl')
  moreover have "unlisted E L' b" using P(2) sub unfolding unlisted_def by (auto simp: subset_iff)
  moreover have tb: "header t b = header s2 b" "prev_footer t (b + n + m) = header s2 b"
    by (simp_all add: t_def get_set_other(6) al mnm)
  moreover have "header t x = header s x" if x: "mult16 x" "clear_of E L x" "x \<noteq> b" for x
    using header_remove[OF P(1) _ L x(2,1)] x(3) by (simp add: t_def get_set_other(6)[OF x(1)] mnm s2_def s1_def)
  moreover have "prev_footer t x = prev_footer s x" if x: "mult16 x" "clear_of E L x" "x \<noteq> b + n + m" for x
    using prev_footer_remove[OF P(1) _ L x(2,1)] x(3) al(1) by (simp add: t_def s2_def get_set_other(8)[OF x(1)] s1_def)
  moreover obtain m1 where "s1 = s\<lparr>mem := m1\<rparr>" using remove_only_mem unfolding s1_def by blast
  then have "t = s\<lparr>mem := mem t\<rparr>" by (simp add: t_def s2_def set_header_def set_prev_footer_def write_row_def)
  ultimately show ?thesis using that cl' h2 unfolding L'_def by simp
qed

lemma listed_before:
  assumes P: "pools E s L" and L: "L (get_free_list_index m) = pre @ y # post" and x: "x \<in> set pre"
  shows "mult16 x" "x \<noteq> y"
proof -
  have i: "get_free_list_index m < NUM_FREE_LISTS" by simp
  show "mult16 x" using pools_mult16[OF P i, of x] x L by simp
  have "distinct (pre @ y # post)" using P i unfolding pools_def free_list_def L[symmetric] by simp
  then show "x \<noteq> y" using x by auto
qed

text \<open>
  C14: On a well-formed heap, freeing a large block whose predecessor is allocated and whose
  successor is free takes the successor out of its list and puts one block of the combined
  size, with matching footer, into the list of its class. The list is searched by the size in
  the header, so the theorem asks that the successor is alone in its list or that no block
  before it has the same header; and the block behind the successor must carry the mark of an
  allocated block with a free predecessor, as it has while the successor is free.
\<close>

theorem free_merges_with_next:
  assumes P: "pools E s L" and ul: "unlisted E L b" and c: "client_pointer E s (payload b)"
    and h: "header s b XOR magic E = n OR 6" "mult16 n" "32 \<le> unat n" "get_quick_list_index n = -1"
    and nx: "header s (b + n) XOR magic E = m OR 2" "mult16 m" "32 \<le> unat m"
    and nn: "header s (b + n + m) XOR magic E = hs OR 4" "mult16 hs"
    and L: "L (get_free_list_index m) = pre @ (b + n) # post"
      "pre @ post = [] \<or> (\<forall>x\<in>set pre. header s x XOR magic E \<noteq> m \<and> x \<noteq> b)"
    and cl: "clear_of E L b" "clear_of E L (b + n)" "clear_of E L (b + n + m)"
    and nw: "unat n + unat m < 2 ^ 64"
  shows "\<exists>s'. sf_free E (payload b) s = Ret s' \<and>
    (let L' = L(get_free_list_index m := pre @ post) in
      pools E s' (L'(get_free_list_index (n + m) := b # L' (get_free_list_index (n + m))))) \<and>
    header s' b XOR magic E = (n + m) OR 2 \<and> prev_footer s' (b + (n + m)) = header s' b"
proof -
  define s1 where "s1 = update_header E b n 0 1 s"
  define s3 where "s3 = set_prev_footer (b + n + m) (m XOR magic E) (set_header (b + n) (m XOR magic E) (add_footer E b s1))"
  have mb: "mult16 b" using c by (simp add: client_pointer_def payload_def mult16_add_iff)
  have mn: "mult16 (b + n)" "mult16 (b + n + m)" using mb h(2) nx(2) by (simp_all add: mult16_add_iff)
  have mnm: "mult16 (n + m)" using h(2) nx(2) by (simp add: mult16_add_iff)
  have unm: "unat (n + m) = unat n + unat m" using nw by (rule unat_add_no_wrap)
  have "n + m \<noteq> 0" "n + m \<noteq> 16" using unm h(3) by (auto dest: arg_cong[where f = unat])
  then have ne: "n \<noteq> 0" "m \<noteq> 0" "b + n + m \<noteq> b" "b + (n + m) \<noteq> b + 16" "n + m \<noteq> 0"
    using h(3) nx(3) by (auto simp: add.assoc)
  note f = freed_header[OF mb h(2), where E = E and s = s, folded s1_def]
  have a3: "clear_prev_alloc_in_next_block E b (add_footer E b s1) = s3"
    unfolding s3_def by (rule clear_prev_free[where q = 2 and r = 2]) (use f h(2) nx mn ne in simp_all)
  have h3: "header s3 x = (if x = b + n then m XOR magic E else header (add_footer E b s1) x)" if "mult16 x" for x
    using that by (simp add: s3_def get_set_other(6) mn)
  have h3b: "header s3 b XOR magic E = n OR 2" "header s3 (b + n) XOR magic E = m"
    "header s3 (b + n + m) XOR magic E = hs OR 4"
    using mb mn ne f(1,4) f(3)[OF mn(2)] nn(1) by (simp_all add: h3)
  have P3: "pools E s3 L"
    unfolding s3_def f(2) unfolding s1_def update_header_def Let_def
    by (intro pools_set_header pools_set_prev_footer P mb mn cl)
  have me: "b + n \<le> mem_end s3"
    using c h unfolding client_pointer_def f(2) by (simp add: payload_def s3_def f(2)) (simp add: s1_def)
  have u3: "pre @ post = [] \<or> (\<forall>x\<in>set pre. header s3 x \<noteq> header s3 (b + n))"
  proof (rule disjE[OF L(2)])
    assume a: "\<forall>x\<in>set pre. header s x XOR magic E \<noteq> m \<and> x \<noteq> b"
    have "header s3 x \<noteq> header s3 (b + n)" if x: "x \<in> set pre" for x
      using listed_before[OF P L(1) x] a x mn(1) f(3)[of x] by (auto simp: h3)
    then show ?thesis by blast
  qed simp
  obtain t where t': "coalesce E b s3 = Ret (b, t)" "pools E t (L(get_free_list_index m := pre @ post))"
    "unlisted E (L(get_free_list_index m := pre @ post)) b"
    "clear_of E (L(get_free_list_index m := pre @ post)) b" "clear_of E (L(get_free_list_index m := pre @ post)) (b + n + m)"
    "header t b XOR magic E = (n + m) OR 2" "prev_footer t (b + n + m) = header t b"
    "\<forall>x. mult16 x \<and> clear_of E L x \<and> x \<noteq> b \<longrightarrow> header t x = header s3 x"
    "\<forall>x. mult16 x \<and> clear_of E L x \<and> x \<noteq> b + n + m \<longrightarrow> prev_footer t x = prev_footer s3 x"
    "t = s3\<lparr>mem := mem t\<rparr>"
    by (rule coalesce_next_pools[OF h3b(1) h(2) no_free_before_2 h3b(2) nx(2) me P3 ul L(1) u3 mb ne(3,5) cl(1,3)])
  have "header t (b + n + m) XOR magic E = hs OR 4" using t'(8) mn(2) cl(3) ne(3) h3b(3) by simp
  note t = t'(1-7)[unfolded add.assoc] this[unfolded add.assoc]
  note ins = insert_freed[OF t(2,3,6) mnm t(8) nn(2) mb t(4,5) ne(4)]
  have "sf_free E (payload b) s = Ret (insert_to_free_list E b t)"
    using sf_free_large[OF c h(1,2) _ h(4)] free_main_run[OF h(1,2) a3[unfolded s1_def] t(1) ins(5)] by simp
  then show ?thesis using ins t(6,7) unfolding Let_def by simp
qed

section \<open>Reallocation\<close>

lemma payload_minus [simp]: "payload b - 16 = b"
  by (simp add: payload_def)

lemma sf_realloc_valid:
  assumes "client_pointer E s (payload b)" "rsize \<noteq> 0" "strip_bits (header s b XOR magic E) = n" "rsize \<le> n"
  shows "sf_realloc E (payload b) rsize s =
    (if n - get_aligned_block rsize < 32 then Ret (payload b, s) else realloc_split E b n (get_aligned_block rsize) s)"
proof -
  have "\<not> n < rsize" using assms(4) by simp
  with assms(1-3) validate_pointer_iff[of E s "payload b"] show ?thesis
    by (simp add: sf_realloc_def Let_def)
qed

theorem realloc_in_place:
  assumes "client_pointer E s (payload b)" "rsize \<noteq> 0" "strip_bits (header s b XOR magic E) = n" "rsize \<le> n"
    "unat (get_aligned_block rsize) \<le> unat n" "unat n < unat (get_aligned_block rsize) + 32"
  shows "sf_realloc E (payload b) rsize s = Ret (payload b, s)"
proof -
  have "unat (n - get_aligned_block rsize) = unat n - unat (get_aligned_block rsize)"
    using assms(5) by (simp add: unat_sub word_le_nat_alt)
  then have "n - get_aligned_block rsize < 32" using assms(5,6) by (simp add: word_less_nat_alt)
  then show ?thesis by (simp add: sf_realloc_valid[OF assms(1-4)])
qed

lemma realloc_split_next_allocated:
  assumes h: "header s b XOR magic E = n OR 6" "mult16 n" and k: "mult16 k" "k \<noteq> 0" "k \<noteq> n"
    and nx: "header s (b + n) XOR magic E = hs OR 6" "mult16 hs" "b + n \<le> mem_end s" "n \<noteq> 0"
  shows "realloc_split E b n k s = Ret (payload b, update_header E (b + k) (n - k) 0 1 (update_header E b k 1 1 s))"
proof -
  have pb: "prev_alloc_bit E s b = 1" using h by (simp add: prev_alloc_bit_eq[OF refl] and_mask_or)
  define s2 where "s2 = update_header E (b + k) (n - k) 0 1 (update_header E b k 1 1 s)"
  have "mult16 (n - k)" using h(2) k(1) mult16_add_iff[of k "n - k"] by simp
  then have nb: "get_next_block E s2 (b + k) = b + n" by (simp add: get_next_block_def s2_def)
  have me: "mem_end s2 = mem_end s" by (simp add: s2_def)
  have "header s2 (b + n) = header s (b + n)"
    using k nx(4) by (simp add: s2_def header_update_header_other)
  then have "get_next_block_alloc_bit E s2 (b + k) = 1"
    using nx unfolding get_next_block_alloc_bit_def nb Let_def THIS_BLOCK_ALLOCATED_def
    by (simp add: and_mask_or me)
  then show ?thesis by (simp add: realloc_split_def pb s2_def[symmetric] Let_def)
qed

text \<open>
  Shrinking a block whose successor is allocated: the remainder gets the header of a free block, but
  it is put into no free list.
\<close>

theorem realloc_shrink_remainder_unlisted:
  assumes c: "client_pointer E s (payload b)" and h: "header s b XOR magic E = n OR 6" "mult16 n"
    and nx: "header s (b + n) XOR magic E = hs OR 6" "mult16 hs" "n \<noteq> 0"
    and r: "rsize \<noteq> 0" "rsize \<le> n" "unat rsize < 2 ^ 64 - 23" "unat (get_aligned_block rsize) + 32 \<le> unat n"
    and P: "pools E s L" and cl: "clear_of E L b" "clear_of E L (b + get_aligned_block rsize)"
  shows "\<exists>s'. sf_realloc E (payload b) rsize s = Ret (payload b, s') \<and>
    header s' b XOR magic E = get_aligned_block rsize OR 6 \<and>
    header s' (b + get_aligned_block rsize) XOR magic E = (n - get_aligned_block rsize) OR 2 \<and> pools E s' L"
proof -
  let ?k = "get_aligned_block rsize"
  define s' where "s' = update_header E (b + ?k) (n - ?k) 0 1 (update_header E b ?k 1 1 s)"
  note k = aligned_facts[OF r(3)]
  have k0: "?k \<noteq> 0" using k(2) by (metis unat_0 not_numeral_le_zero)
  have kn: "?k \<noteq> n" using r(4) by (metis add_le_same_cancel1 not_numeral_le_zero)
  have me: "b + n \<le> mem_end s" using c h unfolding client_pointer_def by simp
  have mb: "mult16 b" "mult16 (b + ?k)" using c k by (simp_all add: client_pointer_def payload_def mult16_add_iff)
  have "unat (n - ?k) = unat n - unat ?k" using r(4) by (simp add: unat_sub word_le_nat_alt)
  then have "\<not> n - ?k < 32" using r(4) by (simp add: word_less_nat_alt)
  moreover have "strip_bits (header s b XOR magic E) = n" using h by simp
  ultimately have "sf_realloc E (payload b) rsize s = realloc_split E b n ?k s"
    by (simp add: sf_realloc_valid[OF c r(1) _ r(2)])
  then have "sf_realloc E (payload b) rsize s = Ret (payload b, s')"
    using realloc_split_next_allocated[OF h k(1) k0 kn nx(1,2) me nx(3)] by (simp add: s'_def)
  moreover have "header s' b XOR magic E = ?k OR 6"
    using k0 by (simp add: s'_def header_update_header_other or.assoc)
  moreover have "header s' (b + ?k) XOR magic E = (n - ?k) OR 2" by (simp add: s'_def)
  moreover have "pools E s' L"
    unfolding s'_def update_header_def Let_def by (intro pools_set_header P mb cl)
  ultimately show ?thesis by blast
qed

text \<open>
  The request is compared with the size of the block, not with the room in its payload: a request
  between the two makes the size difference wrap around, and the block is enlarged in place over
  its allocated successor.
\<close>

text \<open>
  C37: A request between 25 and 32 bytes for a 32-byte block with an allocated successor
  enlarges the block in place to 48 bytes and overwrites a payload row of the successor.
\<close>

theorem realloc_overlaps_neighbour:
  assumes c: "client_pointer E s (payload b)" and h: "header s b XOR magic E = 32 OR 6"
    and nx: "header s (b + 32) XOR magic E = hs OR 6" "mult16 hs"
    and r: "24 < unat rsize" "unat rsize \<le> 32"
  shows "\<exists>s'. sf_realloc E (payload b) rsize s = Ret (payload b, s') \<and>
    header s' b XOR magic E = 48 OR 6 \<and> mem s' (payload (b + 32) + 8) = (((- 16) OR 2) XOR magic E)"
proof -
  define s' where "s' = update_header E (b + 48) (- 16) 0 1 (update_header E b 48 1 1 s)"
  have "unat (get_aligned_block rsize) = 48"
  proof -
    obtain m where m: "unat rsize = m" by blast
    have "unat rsize < 2 ^ 64 - 23" using r by simp
    from get_aligned_block_unat[OF this]
    have g: "unat (get_aligned_block rsize) = (if (m + 8) mod 16 \<noteq> 0 then m + 8 + (16 - (m + 8) mod 16) else m + 8)"
      using r unfolding Let_def m by simp
    have "m = 25 \<or> m = 26 \<or> m = 27 \<or> m = 28 \<or> m = 29 \<or> m = 30 \<or> m = 31 \<or> m = 32"
      using r unfolding m by linarith
    then show ?thesis unfolding g by (elim disjE) simp_all
  qed
  then have k: "get_aligned_block rsize = 48" by (simp add: word_unat_eq_iff)
  have m: "mult16 48" "mult16 32" by (simp_all add: mult16_def)
  have st: "strip_bits (header s b XOR magic E) = 32" unfolding h by (rule strip_bits_or(4)[OF m(2)])
  have me: "b + 32 \<le> mem_end s" using c st unfolding client_pointer_def by simp
  have "rsize \<noteq> 0" "rsize \<le> 32" using r by (auto simp: word_le_nat_alt)
  from sf_realloc_valid[OF c this(1) st this(2)]
  have "sf_realloc E (payload b) rsize s = realloc_split E b 32 48 s" by (simp add: k)
  also have "\<dots> = Ret (payload b, s')"
    using realloc_split_next_allocated[OF h m(2,1) _ _ nx me] by (simp add: s'_def)
  finally have "sf_realloc E (payload b) rsize s = Ret (payload b, s')" .
  moreover have "header s' b XOR magic E = 48 OR 6"
    unfolding s'_def by (subst header_update_header_other) simp_all
  moreover have "payload (b + 32) + 8 = (b + 48) + 8" by (simp add: payload_def)
  then have "mem s' (payload (b + 32) + 8) = header s' (b + 48)" unfolding header_def by (rule arg_cong)
  then have "mem s' (payload (b + 32) + 8) = (((- 16) OR 2) XOR magic E)" by (simp add: s'_def)
  ultimately show ?thesis by blast
qed

end
