(* ===== verification/Sf_Runs.thy ===== *)
theory Sf_Runs imports Sf_Free begin

text \<open>
  Sequences of calls on the hw3 allocator: a request that takes a free block whole, a run of requests
  that is served from one free block, and the demonstration program \<open>main.c\<close>.
\<close>

unbundle bit_operations_syntax

section \<open>Taking a block whole\<close>

text \<open>
  What an exact fit leaves: the block is allocated with its full size, and the row after it, unless it
  is taken for the last one of the heap, records that its predecessor is allocated.
\<close>

definition whole_result :: "sf_env \<Rightarrow> sf_state \<Rightarrow> (nat \<Rightarrow> ptr list) \<Rightarrow> (nat \<Rightarrow> ptr list) \<Rightarrow>
    ptr \<Rightarrow> 64 word \<Rightarrow> 64 word \<Rightarrow> sf_state \<Rightarrow> bool" where
  "whole_result E s L L' b bs p s' \<longleftrightarrow>
    header s' b XOR magic E = bs OR 4 OR p \<and> pools E s' L' \<and>
    (if b + bs + strip_bits (header s (b + bs) XOR magic E) = mem_end s - 16
     then header s' (b + bs) = header s (b + bs) \<and> last_block_allocated s' = 1
     else header s' (b + bs) XOR magic E = (header s (b + bs) XOR magic E) OR 2 \<and>
       last_block_allocated s' = last_block_allocated s) \<and>
    (\<forall>x. mult16 x \<and> clear_of E L x \<and> x \<notin> {b, b + bs} \<longrightarrow> header s' x = header s x) \<and>
    (\<forall>x. mult16 x \<and> clear_of E L x \<longrightarrow> prev_footer s' x = prev_footer s x) \<and>
    quick_first s' = quick_first s \<and> quick_count s' = quick_count s \<and> mem_end s' = mem_end s \<and> sf_errno s' = sf_errno s"

lemma allocate_no_splitting_spec:
  assumes P: "pools E s L" and i: "i < NUM_FREE_LISTS" and L: "L i = pre @ b # post"
    and m: "pre @ post = [] \<or> (\<forall>x\<in>set pre. header s x \<noteq> header s b)"
    and hdr: "header s b XOR magic E = bs OR p" "p = 0 \<or> p = 2"
    and al: "mult16 bs" and le: "32 \<le> unat bs" and apart: "block_apart E L b bs"
  shows "\<exists>s'. allocate_no_splitting E i (bs OR p) s = Ret (b, s') \<and> whole_result E s L (L(i := pre @ post)) b bs p s'"
proof -
  define L' where "L' = L(i := pre @ post)"
  define s1 where "s1 = remove_state b s"
  define s2 where "s2 = update_header E b (bs OR p) 1 (prev_alloc_bit E s1 b) s1"
  let ?r = "b + bs"
  have mb: "mult16 b" using pools_mult16[OF P i] L by simp
  have mr: "mult16 ?r" using mb al by (simp add: mult16_add_iff)
  have cl: "clear_of E L b" "clear_of E L ?r"
    using block_apart_inside[OF apart, of 0] block_apart_inside[OF apart al] le by simp_all
  have sub: "set (L' k) \<subseteq> set (L k)" for k using L by (auto simp: L'_def)
  note cl' = cl[THEN clear_of_subset, of L', OF sub]
  have ne: "?r \<noteq> b" using le by auto
  have R: "remove_from_free_list E (head_addr E i) (bs OR p) s = Ret (b, s1)" and P1: "pools E s1 L'"
  proof -
    have "pre @ post = [] \<or> header s b XOR magic E = (bs OR p) \<and> (\<forall>x\<in>set pre. header s x XOR magic E \<noteq> bs OR p)"
      using m hdr(1) by (metis word_xor_cancel)
    from remove_from_free_list_pools[OF P i L this]
    show "remove_from_free_list E (head_addr E i) (bs OR p) s = Ret (b, s1)" "pools E s1 L'"
      by (auto simp: s1_def L'_def)
  qed
  have h1: "header s1 x = header s x" if "clear_of E L x" "mult16 x" for x
    unfolding s1_def by (rule header_remove[OF P i L that])
  have pb: "prev_alloc_bit E s1 b = (if p = 2 then 1 else 0)"
    using hdr(2) by (rule disjE) (simp_all add: prev_alloc_bit_eq[OF refl] h1[OF cl(1) mb] hdr(1) and_mask_or[OF al])
  have h2: "header s2 b XOR magic E = bs OR 4 OR p"
    using hdr(2) by (auto simp: s2_def pb or.assoc or.left_commute)
  have h2x: "header s2 x = header s x" if "clear_of E L x" "mult16 x" "x \<noteq> b" for x
    using that by (simp add: s2_def header_update_header_other h1)
  have st: "strip_bits (bs OR 4 OR p) = bs" using hdr(2) al by (auto simp: or.assoc)
  have P2: "pools E s2 L'" using pools_set_header[OF P1 mb cl'(1)] by (simp add: s2_def update_header_def Let_def)
  obtain m1 where "s1 = s\<lparr>mem := m1\<rparr>" using remove_only_mem unfolding s1_def by blast
  then obtain m2 where m2: "s2 = s\<lparr>mem := m2\<rparr>"
    by (auto simp: s2_def update_header_def set_header_def write_row_def Let_def)
  define s3 where "s3 = update_header E ?r (header s2 ?r XOR magic E) 0 1 s2"
  have run: "allocate_no_splitting E i (bs OR p) s =
      (if check_last_block E s2 ?r = 0 then Ret (b, s3) else Ret (b, s2\<lparr>last_block_allocated := 1\<rparr>))"
    unfolding allocate_no_splitting_def R andThen_simps prod.case Let_def s2_def[symmetric] h2 st s3_def[symmetric] ..
  have last: "check_last_block E s2 ?r = (if b + bs + strip_bits (header s ?r XOR magic E) = mem_end s - 16 then 1 else 0)"
    unfolding check_last_block_def h2x[OF cl(2) mr ne] by (simp add: m2)
  have P3: "pools E s3 L'" using pools_set_header[OF P2 mr cl'(2)] by (simp add: s3_def update_header_def Let_def)
  have h3: "header s3 ?r XOR magic E = (header s ?r XOR magic E) OR 2" "header s3 b = header s2 b"
    using h2x[OF cl(2) mr ne] ne by (simp_all add: s3_def header_update_header_other)
  have f3: "header s3 x = header s x" if "clear_of E L x" "mult16 x" "x \<notin> {b, ?r}" for x
    using that h2x[of x] by (simp add: s3_def header_update_header_other)
  have p1: "prev_footer s1 x = prev_footer s x" if "clear_of E L x" "mult16 x" for x
    unfolding s1_def by (rule prev_footer_remove[OF P i L that])
  have p2: "prev_footer s2 x = prev_footer s x" "prev_footer s3 x = prev_footer s x" if "clear_of E L x" "mult16 x" for x
    using p1[OF that] that(2) mb mr by (simp_all add: s3_def s2_def update_header_def Let_def get_set_other(8))
  show ?thesis
  proof (cases "b + bs + strip_bits (header s ?r XOR magic E) = mem_end s - 16")
    case True
    let ?t = "s2\<lparr>last_block_allocated := 1\<rparr>"
    have "allocate_no_splitting E i (bs OR p) s = Ret (b, ?t)" using run last True by simp
    moreover have "whole_result E s L L' b bs p ?t"
      unfolding whole_result_def using True h2 P2 h2x cl mr ne p2(1) by (auto simp: m2 prev_footer_def)
    ultimately show ?thesis unfolding L'_def by blast
  next
    case False
    have "allocate_no_splitting E i (bs OR p) s = Ret (b, s3)" using run last False by simp
    moreover have "whole_result E s L L' b bs p s3"
      unfolding whole_result_def using False h2 h3 P3 f3 p2(2)
      by (auto simp: s3_def m2 update_header_def set_header_def write_row_def Let_def)
    ultimately show ?thesis unfolding L'_def by blast
  qed
qed

lemma whole_decision:
  assumes "mult16 bs" "mult16 n" "p = 0 \<or> p = 2" "unat n \<le> unat bs" "unat bs < unat n + 32" "unat bs + 16 < 2 ^ 64"
  shows "n \<le> bs OR p" "(bs OR p) - n < 32"
proof -
  have u: "unat (bs OR p) = unat bs + unat p" "unat p \<le> 2"
    using assms(1,3,6) by (auto simp: or_2_eq_add unat_add_no_wrap)
  then show le: "n \<le> bs OR p" using assms(4) by (simp add: word_le_nat_alt)
  obtain k l where kl: "unat bs = 16 * k" "unat n = 16 * l" using assms(1,2) unfolding mult16_unat by (auto elim!: dvdE)
  then have "k < l + 2" using assms(5) by simp
  then have "unat bs \<le> unat n + 16" unfolding kl by simp
  moreover have "unat ((bs OR p) - n) = unat bs + unat p - unat n" using le by (simp add: unat_sub u)
  ultimately show "(bs OR p) - n < 32" using u(2) by (simp add: word_less_nat_alt)
qed

lemma sf_malloc_whole:
  assumes P: "pools E s L" and i: "get_free_list_index (get_aligned_block sz) \<le> i" "i < NUM_FREE_LISTS"
    and L: "L i = pre @ b # post" and hdr: "header s b XOR magic E = bs OR p" "p = 0 \<or> p = 2"
    and al: "mult16 bs" and le: "unat (get_aligned_block sz) \<le> unat bs" "unat bs < unat (get_aligned_block sz) + 32"
    and apart: "block_apart E L b bs" "unat bs + 16 < 2 ^ 64"
    and first: "\<forall>x\<in>set pre. \<not> fits E s (get_aligned_block sz) x"
      "\<forall>j. get_free_list_index (get_aligned_block sz) \<le> j \<and> j < i \<longrightarrow> (\<forall>x\<in>set (L j). \<not> fits E s (get_aligned_block sz) x)"
    and req: "sz \<noteq> 0" "unat sz < 2 ^ 64 - 23" "no_quick s (get_aligned_block sz)" and u: "first_use E s0 = Ret s"
  shows "\<exists>s'. sf_malloc E sz s0 = Ret (payload b, s') \<and> whole_result E s L (L(i := pre @ post)) b bs p s'"
proof -
  let ?n = "get_aligned_block sz"
  note dec = whole_decision[OF al aligned_facts(1)[OF req(2)] hdr(2) le apart(2)]
  have fit: "fits E s ?n b" using dec(1) hdr(1) by simp
  have pre: "header s x \<noteq> header s b" if "x \<in> set pre" for x using first(1) fit that by force
  have "32 \<le> unat bs" using aligned_facts(2)[OF req(2)] le(1) by simp
  then obtain s' where s': "allocate_no_splitting E i (bs OR p) s = Ret (b, s')"
      "whole_result E s L (L(i := pre @ post)) b bs p s'"
    using allocate_no_splitting_spec[OF P i(2) L _ hdr al _ apart(1)] pre by blast
  have "allocate_from E i (bs OR p) ?n s = Ret (payload b, s')"
    using dec(2) s'(1) by (simp add: allocate_from_def)
  then have "sf_malloc E sz s0 = Ret (payload b, s')"
    unfolding sf_malloc_search[OF req(1) u req(3)] search_free_lists_first_fit[OF P i L fit first(1,2)]
    by (simp add: hdr(1))
  with s'(2) show ?thesis by blast
qed

text \<open>
  C23: On an initialised heap whose quick list for the request is empty, when the first block
  that fits leaves less than a minimal block, sf_malloc hands it out whole: it keeps its size,
  leaves the free lists, and the row after it is told that its predecessor is allocated,
  unless that row is taken for the end of the heap; all other headers are unchanged.
\<close>

theorem sf_malloc_exact_fit:
  assumes "pools E s L" and "get_free_list_index (get_aligned_block sz) \<le> i" "i < NUM_FREE_LISTS"
    and "L i = pre @ b # post" and "header s b XOR magic E = bs OR p" "p = 0 \<or> p = 2"
    and "mult16 bs" and "unat (get_aligned_block sz) \<le> unat bs" "unat bs < unat (get_aligned_block sz) + 32"
    and "block_apart E L b bs" "unat bs + 16 < 2 ^ 64"
    and "\<forall>x\<in>set pre. \<not> fits E s (get_aligned_block sz) x"
      "\<forall>j. get_free_list_index (get_aligned_block sz) \<le> j \<and> j < i \<longrightarrow> (\<forall>x\<in>set (L j). \<not> fits E s (get_aligned_block sz) x)"
    and "sz \<noteq> 0" "unat sz < 2 ^ 64 - 23" "no_quick s (get_aligned_block sz)" and "mem_start E \<noteq> mem_end s"
  shows "\<exists>s'. sf_malloc E sz s = Ret (payload b, s') \<and> whole_result E s L (L(i := pre @ post)) b bs p s'"
  by (rule sf_malloc_whole[OF assms(1-16)]) (simp add: first_use_def assms(17))

section \<open>A run of requests served from one block\<close>

fun mallocs :: "sf_env \<Rightarrow> 64 word list \<Rightarrow> sf_state \<Rightarrow> (ptr list \<times> sf_state) outcome" where
  "mallocs E [] s = Ret ([], s)"
| "mallocs E (sz # szs) s =
     andThen (sf_malloc E sz s) (\<lambda>(p, s). andThen (mallocs E szs s) (\<lambda>(ps, s). Ret (p # ps, s)))"

text \<open>The blocks one after another from \<open>b\<close>, and the bytes they take.\<close>

fun placed :: "ptr \<Rightarrow> 64 word list \<Rightarrow> ptr list" where
  "placed b [] = []"
| "placed b (sz # szs) = b # placed (b + get_aligned_block sz) szs"

definition taken :: "64 word list \<Rightarrow> nat" where
  "taken szs = sum_list (map (\<lambda>sz. unat (get_aligned_block sz)) szs)"

lemma taken_simps [simp]: "taken [] = 0" "taken (sz # szs) = unat (get_aligned_block sz) + taken szs"
  by (simp_all add: taken_def)

text \<open>A heap whose free memory is one block of \<open>bs\<close> bytes at \<open>b\<close>, clear of the sentinels.\<close>

definition only :: "ptr \<Rightarrow> 64 word \<Rightarrow> nat \<Rightarrow> ptr list" where
  "only b bs = (\<lambda>i. [])(get_free_list_index bs := [b])"

definition one_block :: "sf_env \<Rightarrow> sf_state \<Rightarrow> ptr \<Rightarrow> 64 word \<Rightarrow> 64 word \<Rightarrow> bool" where
  "one_block E s b bs p \<longleftrightarrow> pools E s (only b bs) \<and> header s b XOR magic E = bs OR p \<and> (p = 0 \<or> p = 2) \<and>
     mult16 bs \<and> block_apart E (\<lambda>i. []) b bs \<and> (\<forall>i. quick_first s i = NULL) \<and> mem_start E \<noteq> mem_end s"

text \<open>A row before \<open>b\<close> that is not in a sentinel.\<close>

definition settled :: "sf_env \<Rightarrow> ptr \<Rightarrow> ptr \<Rightarrow> bool" where
  "settled E b x \<longleftrightarrow> mult16 x \<and> clear_of E (\<lambda>i. []) x \<and> unat x + 32 \<le> unat b"

lemma only_apart: "block_apart E (\<lambda>i. []) b bs \<Longrightarrow> block_apart E (only b bs) b bs"
  unfolding block_apart_def only_def by (auto split: if_splits)

lemma settled_clear: "settled E b x \<Longrightarrow> 16 \<le> unat x \<Longrightarrow> clear_of E (only b bs) x"
proof -
  assume s: "settled E b x" "16 \<le> unat x"
  have "x - 16 \<noteq> b"
  proof
    assume b: "x - 16 = b"
    have "(16::64 word) \<le> x" using s(2) by (simp add: word_le_nat_alt)
    then have "unat b = unat x - 16" unfolding b[symmetric] by (simp add: unat_sub)
    moreover have "unat x + 32 \<le> unat b" using s by (simp add: settled_def)
    ultimately show False by linarith
  qed
  then show ?thesis using s by (auto simp: settled_def clear_of_def only_def)
qed

lemma only_after:
  assumes "block_apart E (\<lambda>i. []) b bs" "32 \<le> unat n" "unat n \<le> unat bs"
  shows "unat (b + n) = unat b + unat n" "unat (bs - n) = unat bs - unat n" "block_apart E (\<lambda>i. []) (b + n) (bs - n)"
proof -
  have b: "16 \<le> unat b" "unat b + unat bs < 2 ^ 64" using assms(1) by (auto simp: block_apart_def)
  show u: "unat (b + n) = unat b + unat n" using b assms(3) by (intro unat_add_no_wrap) simp
  show d: "unat (bs - n) = unat bs - unat n" using assms(3) by (simp add: unat_sub word_le_nat_alt)
  show "block_apart E (\<lambda>i. []) (b + n) (bs - n)"
    using assms b unfolding block_apart_def u d by fastforce
qed

lemma malloc_step:
  assumes "one_block E s b bs p" "sz \<noteq> 0" "unat sz < 2 ^ 64 - 23" "unat (get_aligned_block sz) + 32 \<le> unat bs"
  shows "\<exists>s'. sf_malloc E sz s = Ret (payload b, s') \<and> header s' b XOR magic E = get_aligned_block sz OR 4 OR p \<and>
    one_block E s' (b + get_aligned_block sz) (bs - get_aligned_block sz) 2 \<and>
    (\<forall>x. settled E b x \<and> 16 \<le> unat x \<longrightarrow> header s' x = header s x) \<and>
    (\<forall>x. (settled E b x \<or> x = b) \<and> 16 \<le> unat x \<longrightarrow> prev_footer s' x = prev_footer s x) \<and>
    header s' (b + bs) = header s (b + bs) \<and> mem_end s' = mem_end s"
proof -
  let ?n = "get_aligned_block sz" and ?i = "get_free_list_index bs"
  note o = assms(1)[unfolded one_block_def] and n = aligned_facts[OF assms(3)]
  have ap: "block_apart E (\<lambda>i. []) b bs" using o by blast
  have i: "get_free_list_index ?n \<le> ?i" "?i < NUM_FREE_LISTS"
    using get_free_list_index_mono[OF n(2), of bs] assms(4) by simp_all
  have L: "only b bs ?i = [] @ b # []" by (simp add: only_def)
  have nq: "no_quick s ?n" using o by (simp add: no_quick_def Let_def)
  have fu: "first_use E s = Ret s" using o by (simp add: first_use_def)
  have none: "\<forall>j. get_free_list_index ?n \<le> j \<and> j < ?i \<longrightarrow> (\<forall>x\<in>set (only b bs j). \<not> fits E s ?n x)"
    by (simp add: only_def)
  have h: "header s b XOR magic E = bs OR p" "p = 0 \<or> p = 2" and P: "pools E s (only b bs)" and m: "mult16 bs"
    using o by blast+
  obtain s' where run: "sf_malloc E sz s = Ret (payload b, s')"
    and r: "split_result E s (only b bs) ((only b bs)(?i := [] @ [])) b bs p ?n s'"
    using sf_malloc_found[OF P i L h m assms(4) only_apart[OF ap] _ none assms(2,3) nq fu] by auto
  note af = only_after[OF ap n(2)] 
  have le: "unat ?n \<le> unat bs" using assms(4) by simp
  have mt: "(only b bs)(?i := [] @ []) = (\<lambda>i. [])" by (auto simp: only_def)
  have ob: "one_block E s' (b + ?n) (bs - ?n) 2"
    using r o af(3)[OF le] n(1) mult16_add_iff[of ?n "bs - ?n"] unfolding split_result_def mt one_block_def
    by (auto simp: only_def)
  have b: "unat b + unat bs < 2 ^ 64" "16 \<le> unat b" using ap by (simp_all add: block_apart_def)
  have u: "unat (b + ?n + 16) = unat b + unat ?n + 16" "unat (b + bs) = unat b + unat bs"
    using af(1)[OF le] b assms(4) by (subst unat_add_no_wrap; simp)+
  have mb: "mult16 b" using pools_mult16[OF P i(2), of b] by (simp add: only_def)
  have out: "x \<notin> {b, b + ?n, b + ?n + 16, b + bs}" if "unat x < unat b" for x
    using that af(1)[OF le] u by auto
  have fr: "header s' x = header s x \<and> prev_footer s' x = prev_footer s x" if x: "settled E b x" "16 \<le> unat x" for x
  proof -
    have ux: "unat x < unat b" "mult16 x" using x by (simp_all add: settled_def)
    then show ?thesis using r settled_clear[OF x, of bs] out[OF ux(1)] unfolding split_result_def by blast
  qed
  note cl = block_apart_inside[OF only_apart[OF ap]]
  have "b \<notin> {b + bs, b + ?n + 16}" using assms(4) n(2) by (simp only: word_unat_eq_iff insert_iff empty_iff u) simp
  then have fb: "prev_footer s' b = prev_footer s b"
    using r cl[of 0] mb unfolding split_result_def by simp
  have "b + bs \<notin> {b, b + ?n, b + ?n + 16}" using assms(4) n(2)
    by (simp only: word_unat_eq_iff insert_iff empty_iff u af(1)[OF le]) simp
  moreover have "clear_of E (only b bs) (b + bs)" "mult16 (b + bs)" using cl[OF m] assms(4) mb m by (simp_all add: mult16_add_iff)
  ultimately have "header s' (b + bs) = header s (b + bs)" using r unfolding split_result_def by blast
  moreover have "mem_end s' = mem_end s" "header s' b XOR magic E = ?n OR 4 OR p" using r by (simp_all add: split_result_def)
  ultimately show ?thesis using run ob fr fb by blast
qed

lemma settled_mono: "settled E b x \<Longrightarrow> unat b \<le> unat b' \<Longrightarrow> settled E b' x"
  by (auto simp: settled_def)

lemma mallocs_run:
  assumes "one_block E s b bs p" "list_all (\<lambda>sz. sz \<noteq> 0 \<and> unat sz < 2 ^ 64 - 23) szs" "taken szs + 32 \<le> unat bs"
  shows "\<exists>s'. mallocs E szs s = Ret (map payload (placed b szs), s') \<and>
    (\<exists>b' bs' p'. one_block E s' b' bs' p' \<and> unat b' = unat b + taken szs \<and> unat bs' = unat bs - taken szs) \<and>
    list_all2 (\<lambda>x sz. header s' x XOR magic E \<in> {get_aligned_block sz OR 4, get_aligned_block sz OR 6}) (placed b szs) szs \<and>
    (\<forall>x. settled E b x \<and> 16 \<le> unat x \<longrightarrow> header s' x = header s x)"
  using assms
proof (induction szs arbitrary: s b bs p)
  case Nil
  have "\<exists>b' bs' p'. one_block E s b' bs' p' \<and> unat b' = unat b + taken [] \<and> unat bs' = unat bs - taken []"
    using Nil(1) by (intro exI[of _ b] exI[of _ bs] exI[of _ p]) simp
  then show ?case by simp
next
  case (Cons sz szs)
  let ?n = "get_aligned_block sz"
  have sz: "sz \<noteq> 0" "unat sz < 2 ^ 64 - 23" "unat ?n + 32 \<le> unat bs" using Cons.prems by auto
  obtain s1 where s1: "sf_malloc E sz s = Ret (payload b, s1)" "header s1 b XOR magic E = ?n OR 4 OR p"
    "one_block E s1 (b + ?n) (bs - ?n) 2" "\<forall>x. settled E b x \<and> 16 \<le> unat x \<longrightarrow> header s1 x = header s x"
    using malloc_step[OF Cons.prems(1) sz] by blast
  have ap: "block_apart E (\<lambda>i. []) b bs" "p = 0 \<or> p = 2" using Cons.prems(1) by (auto simp: one_block_def)
  have le: "unat ?n \<le> unat bs" using sz(3) by simp
  note n = aligned_facts[OF sz(2)] and af = only_after[OF ap(1) aligned_facts(2)[OF sz(2)] le]
  have "taken szs + 32 \<le> unat (bs - ?n)" using Cons.prems(3) af(2) by simp
  then obtain s' b' bs' p' where s': "mallocs E szs s1 = Ret (map payload (placed (b + ?n) szs), s')"
    "one_block E s' b' bs' p'" "unat b' = unat (b + ?n) + taken szs" "unat bs' = unat (bs - ?n) - taken szs"
    "list_all2 (\<lambda>x sz. header s' x XOR magic E \<in> {get_aligned_block sz OR 4, get_aligned_block sz OR 6}) (placed (b + ?n) szs) szs"
    "\<forall>x. settled E (b + ?n) x \<and> 16 \<le> unat x \<longrightarrow> header s' x = header s1 x"
    using Cons.IH[OF s1(3)] Cons.prems(2) by auto
  have mb: "mult16 b" "clear_of E (\<lambda>i. []) b" "16 \<le> unat b"
  proof -
    have "pools E s (only b bs)" using Cons.prems(1) by (simp add: one_block_def)
    from pools_mult16[OF this, of "get_free_list_index bs" b] show "mult16 b" by (simp add: only_def)
    show "clear_of E (\<lambda>i. []) b" using block_apart_inside[OF ap(1), of 0] by simp
    show "16 \<le> unat b" using ap(1) by (simp add: block_apart_def)
  qed
  have "settled E (b + ?n) b" using mb n(2) af(1) by (simp add: settled_def)
  then have hb: "header s' b XOR magic E = ?n OR 4 OR p" using s'(6) mb(3) s1(2) by simp
  have fr: "header s' x = header s x" if "settled E b x" "16 \<le> unat x" for x
    using s'(6) s1(4) that settled_mono[OF that(1), of "b + ?n"] af(1) by simp
  have run: "mallocs E (sz # szs) s = Ret (map payload (placed b (sz # szs)), s')" by (simp add: s1(1) s'(1))
  have hd: "header s' b XOR magic E \<in> {?n OR 4, ?n OR 6}" using hb ap(2) by (auto simp: or.assoc)
  have "unat b' = unat b + taken (sz # szs)" "unat bs' = unat bs - taken (sz # szs)" using s'(3,4) af by simp_all
  then show ?case using run s'(2,5) hd fr by (intro exI[of _ s'] conjI) auto
qed

text \<open>The payload of a block has room for the request before the header of the next block.\<close>

lemma aligned_room: "unat sz < 2 ^ 64 - 23 \<Longrightarrow> unat sz + 8 \<le> unat (get_aligned_block sz)"
  using get_aligned_block_unat[of sz] by (auto simp: Let_def split: if_splits)

lemma placed_length [simp]: "length (placed b szs) = length szs"
  by (induction szs arbitrary: b) simp_all

text \<open>Regions in ascending order, each ending before the header row of the next one.\<close>

definition apart_regions :: "(ptr \<times> 64 word) list \<Rightarrow> bool" where
  "apart_regions rs \<longleftrightarrow> sorted_wrt (\<lambda>(p, n) (q, m). unat p + unat n + 8 \<le> unat q) rs"

lemma payload_unat: "unat b + 16 < 2 ^ 64 \<Longrightarrow> unat (payload b) = unat b + 16"
  unfolding payload_def by (subst unat_add_no_wrap) simp_all

lemma placed_regions:
  "unat b + taken szs + 16 < 2 ^ 64 \<Longrightarrow> list_all (\<lambda>sz. unat sz < 2 ^ 64 - 23) szs \<Longrightarrow>
   apart_regions (zip (map payload (placed b szs)) szs) \<and>
   list_all (\<lambda>(p, n). unat b + 16 \<le> unat p \<and> unat p + unat n \<le> unat b + taken szs + 8) (zip (map payload (placed b szs)) szs)"
proof (induction szs arbitrary: b)
  case Nil
  then show ?case by (simp add: apart_regions_def)
next
  case (Cons sz szs)
  let ?n = "get_aligned_block sz" and ?rs = "zip (map payload (placed (b + get_aligned_block sz) szs)) szs"
  have u: "unat (b + ?n) = unat b + unat ?n" using Cons.prems(1) by (intro unat_add_no_wrap) simp
  have p: "unat (payload b) = unat b + 16" using Cons.prems(1) by (intro payload_unat) simp
  have room: "unat sz + 8 \<le> unat ?n" using Cons.prems(2) by (intro aligned_room) simp
  have ih: "apart_regions ?rs"
    "list_all (\<lambda>(p, n). unat (b + ?n) + 16 \<le> unat p \<and> unat p + unat n \<le> unat (b + ?n) + taken szs + 8) ?rs"
    using Cons.IH[of "b + ?n"] Cons.prems u by auto
  have "list_all (\<lambda>(q, m). unat (payload b) + unat sz + 8 \<le> unat q) ?rs"
    by (rule list.pred_mono_strong[OF ih(2)]) (use p room u in auto)
  then have "apart_regions ((payload b, sz) # ?rs)" using ih(1) by (auto simp: apart_regions_def list_all_iff)
  moreover have "list_all (\<lambda>(p, n). unat b + 16 \<le> unat p \<and> unat p + unat n \<le> unat b + taken (sz # szs) + 8) ?rs"
    by (rule list.pred_mono_strong[OF ih(2)]) (use u in auto)
  ultimately show ?case using p room by simp
qed

lemma first_page_one_block:
  assumes "mem_start E = mem_end s" "sf_mem_grow E s = (mem_start E, s\<lparr>mem_end := mem_end s + PAGE_SZ\<rparr>)"
    "page_apart E (mem_start E)" "\<forall>i. quick_first s i = NULL"
  shows "\<exists>s1. first_page E s = Ret s1 \<and> one_block E s1 (mem_start E) 4080 0"
proof -
  obtain m where m: "first_page E s = Ret (s\<lparr>mem_end := mem_end s + PAGE_SZ, mem := m\<rparr>)"
      "pools E (s\<lparr>mem_end := mem_end s + PAGE_SZ, mem := m\<rparr>) ((\<lambda>i. [])(7 := [mem_start E]))"
      "header (s\<lparr>mem_end := mem_end s + PAGE_SZ, mem := m\<rparr>) (mem_start E) XOR magic E = 4080"
    using first_page_spec[OF assms(2,3)] by auto
  have c: "get_free_list_index 4080 = 7" by (simp add: get_free_list_index_def)
  have o: "only (mem_start E) 4080 = (\<lambda>i. [])(7 := [mem_start E])" unfolding only_def c ..
  have "block_apart E (\<lambda>i. []) (mem_start E) 4080" by (rule page_apart_block[OF assms(3)])
  then have "one_block E (s\<lparr>mem_end := mem_end s + PAGE_SZ, mem := m\<rparr>) (mem_start E) 4080 0"
    unfolding one_block_def o using m(2,3) assms(1,4) by (simp add: mult16_def PAGE_SZ_def)
  with m(1) show ?thesis by blast
qed

lemma mallocs_first_page:
  assumes "mem_start E = mem_end s" "first_page E s = Ret s1" "mem_start E \<noteq> mem_end s1" "szs \<noteq> []" "list_all (\<lambda>sz. sz \<noteq> 0) szs"
  shows "mallocs E szs s = mallocs E szs s1"
proof -
  obtain sz r where szs: "szs = sz # r" using assms(4) by (cases szs) auto
  have "sf_malloc E sz s = sf_malloc E sz s1" using assms szs by (simp add: sf_malloc_def)
  then show ?thesis by (simp add: szs)
qed

text \<open>
  C5: On an untouched heap any sequence of requests that fits into the first page is served
  without failure from that page: the regions handed out lie one after another inside it, each
  large enough for its request and ending before the header row of the next, every block keeps
  the header of its size, and the free memory is again one block.
\<close>

theorem mallocs_disjoint:
  assumes "mem_start E = mem_end s" "sf_mem_grow E s = (mem_start E, s\<lparr>mem_end := mem_end s + PAGE_SZ\<rparr>)"
    "page_apart E (mem_start E)" "\<forall>i. quick_first s i = NULL"
    and "szs \<noteq> []" "list_all (\<lambda>sz. sz \<noteq> 0 \<and> unat sz < 2 ^ 64 - 23) szs" "taken szs + 32 \<le> 4080"
  shows "\<exists>ps s'. mallocs E szs s = Ret (ps, s') \<and> length ps = length szs \<and> apart_regions (zip ps szs) \<and>
    list_all (\<lambda>(p, n). unat (mem_start E) + 16 \<le> unat p \<and> unat p + unat n \<le> unat (mem_start E) + taken szs + 8) (zip ps szs) \<and>
    list_all2 (\<lambda>p sz. header s' (p - 16) XOR magic E \<in> {get_aligned_block sz OR 4, get_aligned_block sz OR 6}) ps szs \<and>
    (\<exists>b bs p. one_block E s' b bs p \<and> unat b = unat (mem_start E) + taken szs \<and> unat bs = 4080 - taken szs)"
proof -
  let ?st = "mem_start E"
  obtain s1 where s1: "first_page E s = Ret s1" "one_block E s1 ?st 4080 0"
    using first_page_one_block[OF assms(1-4)] by blast
  have eq: "mallocs E szs s = mallocs E szs s1"
    using s1(2) assms(6) by (intro mallocs_first_page[OF assms(1) s1(1) _ assms(5)]) (auto simp: one_block_def list_all_iff)
  have le: "taken szs + 32 \<le> unat (4080 :: 64 word)" using assms(7) by simp
  obtain s' where s': "mallocs E szs s1 = Ret (map payload (placed ?st szs), s')"
    "\<exists>b bs p. one_block E s' b bs p \<and> unat b = unat ?st + taken szs \<and> unat bs = unat (4080 :: 64 word) - taken szs"
    "list_all2 (\<lambda>x sz. header s' x XOR magic E \<in> {get_aligned_block sz OR 4, get_aligned_block sz OR 6}) (placed ?st szs) szs"
    using mallocs_run[OF s1(2) assms(6) le] by blast
  have "unat ?st + taken szs + 16 < 2 ^ 64" using assms(3,7) by (simp add: page_apart_def)
  moreover have "list_all (\<lambda>sz. unat sz < 2 ^ 64 - 23) szs" using assms(6) by (auto simp: list_all_iff)
  ultimately have reg: "apart_regions (zip (map payload (placed ?st szs)) szs)"
    "list_all (\<lambda>(p, n). unat ?st + 16 \<le> unat p \<and> unat p + unat n \<le> unat ?st + taken szs + 8) (zip (map payload (placed ?st szs)) szs)"
    using placed_regions by blast+
  have hd: "list_all2 (\<lambda>p sz. header s' (p - 16) XOR magic E \<in> {get_aligned_block sz OR 4, get_aligned_block sz OR 6})
      (map payload (placed ?st szs)) szs"
    using s'(3) by (simp add: list_all2_map1 payload_def)
  show ?thesis unfolding eq s'(1) using reg hd s'(2) by (intro exI[of _ "map payload (placed ?st szs)"] exI[of _ s']) simp
qed

section \<open>The demonstration program\<close>

text \<open>The bits of the \<open>double\<close> 5.55, and \<open>main\<close>: its exit status, what it prints, the state.\<close>

definition FIVE_55 :: "64 word" where "FIVE_55 = 0x4016333333333333"

definition sf_main :: "sf_env \<Rightarrow> sf_state \<Rightarrow> (int \<times> 64 word \<times> sf_state) outcome" where
  "sf_main E s =
     andThen (sf_malloc E (4080 - 16) s) (\<lambda>(p, s).
       if p = NULL then Stuck Null_deref
       else
         (let s = write_row p FIVE_55 s; printed = mem s p in
          andThen (sf_free E p s) (\<lambda>s. Ret (0, printed, s))))"

text \<open>A flag kept through clearing the other one.\<close>

lemma and_4_keeps:
  assumes "(g::64 word) AND 4 \<noteq> 0"
  shows "(g OR 2) AND 4 \<noteq> 0" "(g AND NOT 2) AND 4 \<noteq> 0" "drop_bit 2 ((g AND NOT 2) AND 4) \<noteq> 0"
proof -
  have b: "bit g 2"
  proof (rule ccontr)
    assume "\<not> bit g 2"
    have "\<not> bit (g AND 4) n" for n
      using \<open>\<not> bit g 2\<close> unfolding bit_and_iff bit_4_word by metis
    then have "g AND 4 = 0" by (intro bit_word_eqI) simp
    then show False using assms by simp
  qed
  have 2: "\<not> bit (2::64 word) 2" "bit (4::64 word) 2" by (simp_all add: bit_2_word bit_4_word)
  show "(g OR 2) AND 4 \<noteq> 0" using b 2 bit_and_iff[of "g OR 2" 4 2] by (auto simp: bit_or_iff)
  have k: "bit ((g AND NOT 2) AND 4) 2" using b 2 by (simp add: bit_and_iff bit_not_iff)
  then show "(g AND NOT 2) AND 4 \<noteq> 0" by auto
  have "bit (drop_bit 2 ((g AND NOT 2) AND 4)) 0" using k by (simp only: bit_drop_bit_eq comp_def add_0_right)
  then show "drop_bit 2 ((g AND NOT 2) AND 4) \<noteq> 0" by auto
qed

lemma free_single:
  assumes "pools E s (\<lambda>i. [])" "page_apart E st" "st = mem_start E" "mem_end s = st + 4096"
    and "header s st XOR magic E = 4080 OR 4" "prev_footer s st XOR magic E = 0"
    and "(header s (st + 4080) XOR magic E) AND 4 \<noteq> 0" "\<forall>i. quick_first s i = NULL"
  shows "\<exists>s'. sf_free E (payload st) s = Ret s' \<and> one_block E s' st 4080 0"
proof -
  define u where "u = update_header E st 4080 0 0 s"
  define v where "v = set_prev_footer (st + 4080) (header u st) u"
  define h where "h = (header s (st + 4080) XOR magic E) AND NOT 2"
  define w where "w = set_header (st + 4080) (h XOR magic E) v"
  define x where "x = insert_to_free_list E st w"
  define y where "y = set_header (st + 4080) (h XOR magic E) x"
  have st: "mult16 st" "16 \<le> unat st" "unat st + 4096 < 2 ^ 64" using assms(2) by (auto simp: page_apart_def)
  have m40: "mult16 (4080::64 word)" by (simp add: mult16_def)
  have mr: "mult16 (st + 4080)" using st(1) m40 by (simp add: mult16_add_iff)
  have cl: "clear_of E (\<lambda>i. []) st" "clear_of E (\<lambda>i. []) (st + 4080)"
    using block_apart_inside[OF page_apart_block[OF assms(2)], of 0] block_apart_inside[OF page_apart_block[OF assms(2)] m40] by simp_all
  have h4: "h AND 4 \<noteq> 0" "drop_bit 2 (h AND 4) \<noteq> 0"
    unfolding h_def by (rule and_4_keeps(2,3)[OF assms(7)])+
  have hu: "header u st XOR magic E = 4080 OR 0" by (simp add: u_def)
  have hur: "header u (st + 4080) = header s (st + 4080)" by (simp add: u_def header_update_header_other)
  have v: "add_footer E st u = v" unfolding v_def by (rule add_footer_eq[OF hu m40]) simp
  have hv: "header v z = header u z" if "mult16 z" for z unfolding v_def by (rule get_set_other(6)[OF that mr])
  have w: "clear_prev_alloc_in_next_block E st v = w"
  proof -
    have "strip_bits (header v st XOR magic E) = 4080" unfolding hv[OF st(1)] hu by (simp add: m40)
    then show ?thesis
      unfolding clear_prev_alloc_in_next_block_def Let_def
      by (simp only: hv[OF mr] hur h_def[symmetric] w_def[symmetric] THIS_BLOCK_ALLOCATED_def if_not_P[OF h4(2)])
  qed
  have hw: "header w st XOR magic E = 4080" "header w (st + 4080) XOR magic E = h"
    using hv[OF st(1)] hu by (simp_all add: w_def)
  have pw: "prev_footer w st XOR magic E = 0"
    using assms(6) get_set_other(8)[OF st(1) mr] get_set_other(8)[OF st(1) st(1)]
    by (simp add: w_def v_def u_def update_header_def Let_def)
  have fw: "mem_end w = st + 4096" "quick_first w = quick_first s" using assms(4) by (simp_all add: w_def v_def u_def)
  have "st + 4080 \<le> st + 4096"
    using st(3) by (simp add: word_le_nat_alt unat_add_no_wrap)
  then have "\<not> get_next_block E w st > mem_end w" by (simp add: get_next_block_def hw(1) m40 fw)
  then have na: "get_next_block_alloc_bit E w st = uint (drop_bit 2 (h AND 4))"
    by (simp add: get_next_block_alloc_bit_def Let_def get_next_block_def hw m40 THIS_BLOCK_ALLOCATED_def)
  have "uint (drop_bit 2 (h AND 4)) \<noteq> 0" using h4(2) by (simp add: word_uint_eq_iff)
  moreover have "uint (drop_bit 2 (h AND 4)) \<noteq> -1" using uint_nonnegative[of "drop_bit 2 (h AND 4)"] by linarith
  ultimately have co: "coalesce E st w = Ret (st, w)" by (simp add: coalesce_def na pw Let_def)
  have P0: "pools E w (\<lambda>i. [])"
    unfolding w_def v_def u_def update_header_def Let_def
    by (intro pools_set_header pools_set_prev_footer assms(1) st(1) mr cl)
  have ul: "unlisted E (\<lambda>i. []) st" by (rule page_apart_unlisted[OF assms(2)])
  have ix: "get_free_list_index ((header w st XOR magic E) AND NOT 2) = get_free_list_index 4080"
    unfolding hw(1) by (simp add: and_not_2_or(1)[OF m40])
  have Px: "pools E x (only st 4080)"
    unfolding x_def only_def by (rule insert_to_free_list_pools[OF P0 ul]) (simp only: ix)
  have "st \<noteq> st + 16" "st + 4080 \<noteq> st + 16" by simp_all
  then have hx: "header x st XOR magic E = 4080" "header x (st + 4080) XOR magic E = h"
    unfolding x_def using header_insert[OF st(1) st(1) P0 cl(1)] header_insert[OF mr st(1) P0 cl(2)] hw by simp_all
  have hh: "h AND NOT 2 = h" by (simp add: h_def and.assoc)
  have y: "clear_prev_alloc_in_next_block E st x = y"
  proof -
    have "strip_bits (header x st XOR magic E) = 4080" unfolding hx(1) by (simp add: m40)
    then show ?thesis
      unfolding clear_prev_alloc_in_next_block_def Let_def
      by (simp only: hx(2) hh y_def[symmetric] THIS_BLOCK_ALLOCATED_def if_not_P[OF h4(2)])
  qed
  have only: "clear_of E (only st 4080) (st + 4080)"
    by (rule block_apart_inside[OF only_apart[OF page_apart_block[OF assms(2)]] m40]) simp_all
  have ob: "one_block E y st 4080 0"
  proof -
    have "pools E y (only st 4080)" unfolding y_def by (rule pools_set_header[OF Px mr only])
    moreover have "header y st XOR magic E = 4080" by (simp add: y_def hx)
    moreover obtain m where "x = w\<lparr>mem := m\<rparr>" unfolding x_def using insert_only_mem by blast
    then have "quick_first y = quick_first s" "mem_end y = st + 4096" using fw by (simp_all add: y_def)
    ultimately show ?thesis using page_apart_block[OF assms(2)] assms(3,8) by (simp add: one_block_def m40)
  qed
  have "payload st \<noteq> NULL" "mult16 (payload st)"
    using payload_unat[of st] st by (auto simp: payload_def mult16_add_iff)
  moreover have "st + 4080 \<le> mem_end s" using \<open>st + 4080 \<le> st + 4096\<close> assms(4) by simp
  moreover have "strip_bits (4084::64 word) = 4080" using strip_bits_or(2)[OF m40] by simp
  ultimately have "client_pointer E s (payload st)"
    by (simp add: client_pointer_def assms(3)[symmetric] assms(5) m40)
  then have "sf_free E (payload st) s = free_main E st 4080 s"
    by (rule sf_free_large[where p = 4]) (simp_all add: assms(5) m40 get_quick_list_index_def)
  moreover have "prev_alloc_bit E s st = 0" by (simp add: prev_alloc_bit_eq[OF refl] assms(5) and_mask_or m40)
  then have "free_main E st 4080 s = Ret y"
    unfolding free_main_def Let_def by (simp add: u_def[symmetric] v w co x_def[symmetric] y)
  ultimately show ?thesis using ob by simp
qed

lemma write_payload:
  assumes "page_apart E st" "pools E s (\<lambda>i. [])"
  shows "pools E (write_row (payload st) v s) (\<lambda>i. [])" "mult16 x \<Longrightarrow> header (write_row (payload st) v s) x = header s x"
    "prev_footer (write_row (payload st) v s) st = prev_footer s st"
proof -
  have st: "mult16 st" using assms(1) by (simp add: page_apart_def)
  show "pools E (write_row (payload st) v s) (\<lambda>i. [])"
  proof (rule pools_cong[OF assms(2)])
    fix i x assume i: "i < NUM_FREE_LISTS" and x: "x \<in> set (head_addr E i # [])"
    then have "st \<noteq> x" using page_apart_unlisted[OF assms(1)] by (auto simp: unlisted_def)
    then have "x + 16 \<noteq> st + 16" by simp
    moreover have "x + 24 \<noteq> st + 16" by (rule mult16_neq(5)[OF pools_mult16[OF assms(2) i x] st])
    ultimately show "next_link (write_row (payload st) v s) x = next_link s x \<and> prev_link (write_row (payload st) v s) x = prev_link s x"
      by (simp add: next_link_def prev_link_def write_row_def payload_def)
  qed
  show "header (write_row (payload st) v s) x = header s x" if "mult16 x"
    using mult16_neq(2)[OF that st] by (simp add: header_def write_row_def payload_def)
  show "prev_footer (write_row (payload st) v s) st = prev_footer s st" by (simp add: prev_footer_def write_row_def payload_def)
qed

theorem driver_returns_page:
  assumes "mem_start E = mem_end s" "sf_mem_grow E s = (mem_start E, s\<lparr>mem_end := mem_end s + PAGE_SZ\<rparr>)"
    "page_apart E (mem_start E)" "\<forall>i. quick_first s i = NULL"
    and "first_page E s = Ret s1" "(header s1 (mem_start E + 4080) XOR magic E) AND 4 \<noteq> 0"
  shows "\<exists>s'. sf_main E s = Ret (0, FIVE_55, s') \<and> one_block E s' (mem_start E) 4080 0"
proof -
  let ?st = "mem_start E" and ?L = "only (mem_start E) 4080"
  have m40: "mult16 (4080::64 word)" by (simp add: mult16_def)
  obtain m where m: "s1 = s\<lparr>mem_end := mem_end s + PAGE_SZ, mem := m\<rparr>" "prev_footer s1 ?st XOR magic E = 0"
    using first_page_spec[OF assms(2,3)] assms(5) by auto
  have o: "one_block E s1 ?st 4080 0" using first_page_one_block[OF assms(1-4)] assms(5) by auto
  have me: "mem_end s1 = ?st + 4096" using m(1) assms(1) by (simp add: PAGE_SZ_def)
  have n: "get_aligned_block 4064 = 4080" by (simp add: get_aligned_block_def Let_def)
  have c: "get_free_list_index 4080 = 7" by (simp add: get_free_list_index_def)
  have P: "pools E s1 ?L" and h: "header s1 ?st XOR magic E = 4080 OR 0" using o by (simp_all add: one_block_def)
  have L: "?L 7 = [] @ ?st # []" by (simp add: only_def c)
  have mt: "?L(7 := [] @ []) = (\<lambda>i. [])" by (auto simp: only_def c)
  have fu: "first_use E s = Ret s1" using assms(1,5) by (simp add: first_use_def)
  have qf: "quick_first s1 = quick_first s" by (simp add: m(1))
  have apart: "block_apart E ?L ?st 4080" by (rule only_apart[OF page_apart_block[OF assms(3)]])
  have cl: "clear_of E ?L ?st" "clear_of E ?L (?st + 4080)"
    using block_apart_inside[OF apart, of 0] block_apart_inside[OF apart m40] by simp_all
  have mst: "mult16 ?st" using assms(3) by (simp add: page_apart_def)
  have nq: "no_quick s1 (get_aligned_block (4080 - 16))" using assms(4) by (simp add: no_quick_def Let_def qf)
  have "\<exists>s2. sf_malloc E (4080 - 16) s = Ret (payload ?st, s2) \<and> whole_result E s1 ?L (?L(7 := [] @ [])) ?st 4080 0 s2"
    by (rule sf_malloc_whole[OF P _ _ L h _ m40 _ _ apart _ _ _ _ _ nq fu])
      (simp_all add: n c NUM_FREE_LISTS_def only_def, auto)
  then obtain s2 where s2: "sf_malloc E (4080 - 16) s = Ret (payload ?st, s2)" "whole_result E s1 ?L (\<lambda>i. []) ?st 4080 0 s2"
    unfolding mt by blast
  define s3 where "s3 = write_row (payload ?st) FIVE_55 s2"
  have w: "header s2 ?st XOR magic E = 4080 OR 4 OR 0" "pools E s2 (\<lambda>i. [])" "quick_first s2 = quick_first s1" "mem_end s2 = mem_end s1"
    "prev_footer s2 ?st = prev_footer s1 ?st"
    using s2(2) cl(1) mst unfolding whole_result_def by blast+
  have g: "(header s2 (?st + 4080) XOR magic E) AND 4 \<noteq> 0"
    using s2(2) assms(6) and_4_keeps(1)[OF assms(6)] unfolding whole_result_def by (metis (no_types, lifting))
  note wp = write_payload[OF assms(3) w(2), where v = FIVE_55, folded s3_def]
  have mr: "mult16 (?st + 4080)" using mst m40 by (simp add: mult16_add_iff)
  have "\<exists>s'. sf_free E (payload ?st) s3 = Ret s' \<and> one_block E s' ?st 4080 0"
  proof (rule free_single[OF wp(1) assms(3) refl])
    show "mem_end s3 = ?st + 4096" by (simp add: s3_def w(4) me)
    show "header s3 ?st XOR magic E = 4080 OR 4" using wp(2)[OF mst] w(1) by simp
    show "prev_footer s3 ?st XOR magic E = 0" using wp(3) w(5) m(2) by simp
    show "(header s3 (?st + 4080) XOR magic E) AND 4 \<noteq> 0" unfolding wp(2)[OF mr] by (rule g)
    show "\<forall>i. quick_first s3 i = NULL" using assms(4) by (simp add: s3_def w(3) qf)
  qed
  then obtain s' where s': "sf_free E (payload ?st) s3 = Ret s'" "one_block E s' ?st 4080 0" by blast
  have "payload ?st \<noteq> NULL" using payload_unat[of ?st] assms(3) by (auto simp: page_apart_def)
  moreover have "mem s3 (payload ?st) = FIVE_55" by (simp add: s3_def write_row_def)
  ultimately have "sf_main E s = Ret (0, FIVE_55, s')"
    unfolding sf_main_def s2(1) andThen_simps prod.case Let_def s3_def[symmetric] by (simp add: s'(1))
  then show ?thesis using s'(2) by blast
qed

end
