(* ===== verification/Sf_Stack.thy ===== *)
theory Sf_Stack imports Sf_Runs begin

text \<open>
  Freeing in the reverse order of the requests: a heap whose blocks lie on a stack below one free
  block, the call that frees the topmost block, and the run that gives the whole page back whatever
  the client has written into its regions.
\<close>

unbundle bit_operations_syntax

section \<open>The topmost block\<close>

lemma only_mem_changed:
  assumes "t = s\<lparr>mem := mem t\<rparr>"
  shows "mem_end t = mem_end s" "quick_first t = quick_first s"
  using assms[THEN arg_cong[where f = mem_end]] assms[THEN arg_cong[where f = quick_first]] by simp_all

lemma only_mem_trans: "t = s\<lparr>mem := mem t\<rparr> \<Longrightarrow> u = t\<lparr>mem := mem u\<rparr> \<Longrightarrow> u = s\<lparr>mem := mem u\<rparr>"
  by (cases s; cases t; cases u) simp

lemma only_self [simp]: "only b bs (get_free_list_index bs) = [] @ b # []"
  "(only b bs)(get_free_list_index bs := [] @ []) = (\<lambda>i. [])"
  by (auto simp: only_def)

text \<open>The row after the free block, the end of the stack, counts as allocated.\<close>

definition ends_allocated :: "sf_env \<Rightarrow> sf_state \<Rightarrow> ptr \<Rightarrow> bool" where
  "ends_allocated E s x \<longleftrightarrow> (header s x XOR magic E) AND 4 \<noteq> 0"

lemma clear_prev_flag:
  assumes "strip_bits (header s b XOR magic E) = n" and g: "ends_allocated E s (b + n)"
  shows "clear_prev_alloc_in_next_block E b s = set_header (b + n) (((header s (b + n) XOR magic E) AND NOT 2) XOR magic E) s"
proof -
  have "drop_bit 2 (((header s (b + n) XOR magic E) AND NOT 2) AND 4) \<noteq> 0"
    using g unfolding ends_allocated_def by (rule and_4_keeps(3))
  then show ?thesis
    unfolding clear_prev_alloc_in_next_block_def Let_def assms(1) THIS_BLOCK_ALLOCATED_def by (simp only: assms if_False)
qed

text \<open>An allocated block of \<open>n\<close> bytes at \<open>b\<close>, followed by all the free memory, \<open>m\<close> bytes.\<close>

definition on_top :: "sf_env \<Rightarrow> sf_state \<Rightarrow> ptr \<Rightarrow> 64 word \<Rightarrow> 64 word \<Rightarrow> 64 word \<Rightarrow> bool" where
  "on_top E s b n q m \<longleftrightarrow> one_block E s (b + n) m 2 \<and> header s b XOR magic E = n OR 4 OR q \<and> mult16 n \<and> 32 \<le> unat n \<and>
     no_free_before E s b q \<and> unlisted E (\<lambda>i. []) b \<and> ends_allocated E s (b + n + m) \<and>
     block_apart E (\<lambda>i. []) b (n + m) \<and> unat n + unat m < 2 ^ 64 \<and> 32 \<le> unat m"

lemma on_top_places:
  assumes "on_top E s b n q m"
  shows "unat (n + m) = unat n + unat m" "unat (b + n) = unat b + unat n" "unat (b + n + m) = unat b + unat n + unat m"
    "16 \<le> unat b" "unat b + unat n + unat m < 2 ^ 64" "unat (b + 16) = unat b + 16" "32 \<le> unat n" "32 \<le> unat m"
proof -
  have o: "block_apart E (\<lambda>i. []) b (n + m)" "unat n + unat m < 2 ^ 64" "32 \<le> unat n" "32 \<le> unat m"
    using assms by (simp_all add: on_top_def)
  show un: "unat (n + m) = unat n + unat m" using o(2) by (rule unat_add_no_wrap)
  show b: "16 \<le> unat b" "unat b + unat n + unat m < 2 ^ 64" using o(1) un by (simp_all add: block_apart_def)
  then show ua: "unat (b + n) = unat b + unat n" by (intro unat_add_no_wrap) simp
  show "unat (b + n + m) = unat b + unat n + unat m" using b ua by (subst unat_add_no_wrap) simp_all
  show "unat (b + 16) = unat b + 16" using b o(3) by (subst unat_add_no_wrap) simp_all
qed (use assms in \<open>simp_all add: on_top_def\<close>)

lemma on_top_apart:
  assumes "on_top E s b n q m"
  shows "mult16 b" "mult16 n" "mult16 m" "mult16 (n + m)" "mult16 (b + n)" "mult16 (b + n + m)"
    "b \<noteq> b + n" "b + n + m \<noteq> b" "b + n + m \<noteq> b + n" "n + m \<noteq> 0" "b + n + m \<noteq> b + 16"
    "clear_of E (\<lambda>i. []) b" "clear_of E (\<lambda>i. []) (b + n + m)" "clear_of E (only b (n + m)) (b + n + m)"
    "clear_of E (only (b + n) m) b" "clear_of E (only (b + n) m) (b + n)" "clear_of E (only (b + n) m) (b + n + m)"
    "unlisted E (only (b + n) m) b"
proof -
  note u = on_top_places[OF assms]
  have o: "block_apart E (\<lambda>i. []) b (n + m)" "unlisted E (\<lambda>i. []) b" "block_apart E (\<lambda>i. []) (b + n) m"
    using assms by (simp_all add: on_top_def one_block_def)
  show m: "mult16 b" "mult16 n" "mult16 m" using assms by (simp_all add: on_top_def unlisted_def one_block_def)
  then show mm: "mult16 (n + m)" "mult16 (b + n)" "mult16 (b + n + m)" by (simp_all add: mult16_add_iff)
  show ne: "b \<noteq> b + n" "b + n + m \<noteq> b" "b + n + m \<noteq> b + n" "n + m \<noteq> 0" "b + n + m \<noteq> b + 16"
    using u(7,8) unfolding word_unat_eq_iff u by simp_all
  show c: "clear_of E (\<lambda>i. []) b" "clear_of E (\<lambda>i. []) (b + n + m)" "clear_of E (only b (n + m)) (b + n + m)"
    using block_apart_inside[OF o(1), of 0] block_apart_inside[OF o(1) mm(1)] block_apart_inside[OF only_apart[OF o(1)] mm(1)]
      u by (simp_all add: add.assoc)
  have "settled E (b + n) b" using m(1) c(1) u by (simp add: settled_def)
  then show "clear_of E (only (b + n) m) b" using u(4) by (rule settled_clear)
  show "clear_of E (only (b + n) m) (b + n)" "clear_of E (only (b + n) m) (b + n + m)"
    using block_apart_inside[OF only_apart[OF o(3)], of 0] block_apart_inside[OF only_apart[OF o(3)] m(3)] u(8) by simp_all
  show "unlisted E (only (b + n) m) b" using o(2) ne(1) by (auto simp: unlisted_def only_def)
qed

text \<open>The block marked as free, its footer written, and the free successor told.\<close>

lemma on_top_marked:
  assumes top: "on_top E s b n q m"
  obtains w where "clear_prev_alloc_in_next_block E b (add_footer E b (update_header E b n 0 (prev_alloc_bit E s b) s)) = w"
    "pools E w (only (b + n) m)" "header w b XOR magic E = n OR q" "header w (b + n) XOR magic E = m"
    "no_free_before E w b q"
    "\<forall>x. mult16 x \<and> x \<notin> {b, b + n} \<longrightarrow> header w x = header s x"
    "\<forall>x. mult16 x \<and> x \<notin> {b + n, b + n + m} \<longrightarrow> prev_footer w x = prev_footer s x"
    "w = s\<lparr>mem := mem w\<rparr>"
proof -
  define u where "u = update_header E b n 0 (if q = 2 then 1 else 0) s"
  define v where "v = set_prev_footer (b + n) (header u b) u"
  define w where "w = set_prev_footer (b + n + m) (m XOR magic E) (set_header (b + n) (m XOR magic E) v)"
  note ap = on_top_apart[OF top]
  have o: "pools E s (only (b + n) m)" "header s (b + n) XOR magic E = m OR 2" "header s b XOR magic E = n OR 4 OR q"
    "no_free_before E s b q"
    using top by (simp_all add: on_top_def one_block_def)
  then have q: "q = 0 \<or> q = 2" "q \<in> {0, 2, 4, 6}" by (auto simp: no_free_before_def)
  have "(header s b XOR magic E) AND 2 = q" using q(1) ap(2) by (auto simp: o(3) and_mask_or or.assoc)
  then have "prev_alloc_bit E s b = (if q = 2 then 1 else 0)" using q(1) prev_alloc_bit_eq[of s b E q] by auto
  then have u: "update_header E b n 0 (prev_alloc_bit E s b) s = u" by (simp add: u_def)
  have hu: "header u b XOR magic E = n OR q" using q(1) by (auto simp: u_def)
  have v: "add_footer E b u = v" unfolding v_def by (rule add_footer_eq[OF hu ap(2) q(2)])
  have hv: "header v b XOR magic E = n OR q" "header v (b + n) XOR magic E = m OR 2"
    using hu o(2) ap(7) by (simp_all add: v_def get_set_other(6) ap u_def header_update_header_other)
  have w: "clear_prev_alloc_in_next_block E b v = w"
    unfolding w_def by (rule clear_prev_free[OF hv(1) ap(2) q(2) hv(2) ap(3)]) simp
  have hw: "header w x = (if x = b + n then m XOR magic E else if x = b then header u b else header s x)" if "mult16 x" for x
    using that by (simp add: w_def v_def get_set_other(6) ap u_def header_update_header_other)
  have pw: "prev_footer w x = prev_footer s x" if "mult16 x" "x \<noteq> b + n" "x \<noteq> b + n + m" for x
    using that by (simp add: w_def v_def u_def update_header_def Let_def get_set_other(8) ap)
  have "pools E w (only (b + n) m)"
    unfolding w_def v_def u_def update_header_def Let_def
    by (intro pools_set_header pools_set_prev_footer o(1) ap)
  moreover have "header w b XOR magic E = n OR q" "header w (b + n) XOR magic E = m"
    using hw[OF ap(1)] hw[OF ap(5)] hu ap(7) by simp_all
  moreover have "no_free_before E w b q" using o(4) pw[OF ap(1)] ap(7,8) by (auto simp: no_free_before_def)
  moreover have "w = s\<lparr>mem := mem w\<rparr>"
    by (simp add: w_def v_def u_def update_header_def set_header_def set_prev_footer_def write_row_def Let_def)
  ultimately show ?thesis using that[of w] u v w hw pw by simp
qed

text \<open>The combined block put into its list, and the end of the stack told.\<close>

lemma on_top_inserted:
  assumes top: "on_top E s b n q m" and P: "pools E t (\<lambda>i. [])" and h: "header t b XOR magic E = (n + m) OR q"
    and g: "header t (b + n + m) = header s (b + n + m)"
  obtains y where "clear_prev_alloc_in_next_block E b (insert_to_free_list E b t) = y"
    "pools E y (only b (n + m))" "header y b XOR magic E = (n + m) OR q" "ends_allocated E y (b + n + m)"
    "\<forall>x. settled E b x \<and> 16 \<le> unat x \<longrightarrow> header y x = header t x \<and> prev_footer y x = prev_footer t x"
    "prev_footer y b = prev_footer t b" "y = t\<lparr>mem := mem y\<rparr>"
proof -
  define x where "x = insert_to_free_list E b t"
  define y where "y = set_header (b + n + m) (((header x (b + n + m) XOR magic E) AND NOT 2) XOR magic E) x"
  note ap = on_top_apart[OF top] and u = on_top_places[OF top]
  have q: "q = 0 \<or> q = 2" and ul: "unlisted E (\<lambda>i. []) b" and ga: "ends_allocated E s (b + n + m)"
    using top by (auto simp: on_top_def no_free_before_def)
  have "(header t b XOR magic E) AND NOT 2 = n + m"
    unfolding h using q and_not_2_or(1,3)[OF ap(4)] by (elim disjE) (simp_all only: or.right_neutral)
  then have Px: "pools E x (only b (n + m))"
    unfolding x_def only_def by (intro insert_to_free_list_pools[OF P ul]) simp
  have hx: "header x z = header t z" "prev_footer x z = prev_footer t z" if "mult16 z" "clear_of E (\<lambda>i. []) z" "z \<noteq> b + 16" for z
    unfolding x_def by (rule header_insert[OF that(1) ap(1) P that(2,3)], rule prev_footer_insert[OF that(1) ap(1) P that(2,3)])
  have hxb: "header x b XOR magic E = (n + m) OR q" using hx(1)[OF ap(1,12)] h by simp
  have gx: "ends_allocated E x (b + n + m)" using ga g hx(1)[OF ap(6,13,11)] by (simp add: ends_allocated_def)
  have sb: "strip_bits (header x b XOR magic E) = n + m" using q ap(4) by (auto simp: hxb)
  have y: "clear_prev_alloc_in_next_block E b x = y"
    unfolding y_def by (simp only: clear_prev_flag[OF sb, unfolded add.assoc[symmetric], OF gx])
  obtain mm where mm: "x = t\<lparr>mem := mm\<rparr>" unfolding x_def using insert_only_mem by blast
  have "header y (b + n + m) XOR magic E = (header x (b + n + m) XOR magic E) AND NOT 2" by (simp add: y_def)
  then have ey: "ends_allocated E y (b + n + m)"
    using and_4_keeps(2)[OF gx[unfolded ends_allocated_def]] unfolding ends_allocated_def by (simp only: not_False_eq_True)
  have "header y z = header t z \<and> prev_footer y z = prev_footer t z" if z: "settled E b z" "16 \<le> unat z" for z
  proof -
    have mz: "mult16 z" "clear_of E (\<lambda>i. []) z" "unat z + 32 \<le> unat b" using z by (simp_all add: settled_def)
    have nz: "z \<noteq> b + n + m" "z \<noteq> b + 16" using mz(3) u(3,6) by auto
    then show ?thesis using hx[OF mz(1,2)] by (simp add: y_def get_set_other(8)[OF mz(1) ap(6)])
  qed
  moreover have "pools E y (only b (n + m))" unfolding y_def by (rule pools_set_header[OF Px ap(6,14)])
  moreover have "header y b XOR magic E = (n + m) OR q" using hxb ap(8) by (simp add: y_def)
  moreover have "prev_footer y b = prev_footer t b" using hx(2)[OF ap(1,12)] by (simp add: y_def get_set_other(8) ap)
  moreover have "y = t\<lparr>mem := mem y\<rparr>" by (simp add: y_def mm set_header_def write_row_def)
  ultimately show ?thesis using that y ey unfolding x_def by blast
qed

lemma sf_free_on_top:
  assumes top: "on_top E s b n q m" and big: "get_quick_list_index n = -1" and c: "mem_start E \<le> b" "b + n \<le> mem_end s"
  shows "sf_free E (payload b) s = free_main E b n s"
proof (rule sf_free_large[where p = "4 OR q"])
  note ap = on_top_apart[OF top] and u = on_top_places[OF top]
  have h: "header s b XOR magic E = n OR 4 OR q" and q: "q = 0 \<or> q = 2"
    using top by (auto simp: on_top_def no_free_before_def)
  show "header s b XOR magic E = n OR (4 OR q)" using h .
  show "mult16 n" "4 OR q \<in> {4, 6}" "get_quick_list_index n = -1" using ap(2) big q by auto
  have "strip_bits (header s b XOR magic E) = n" using q ap(2) by (auto simp: h or.assoc)
  moreover have "(header s b XOR magic E) AND 4 = 4" using q ap(2) by (auto simp: h or.assoc and_mask_or)
  moreover have "payload b \<noteq> NULL" "mult16 (payload b)"
    using payload_unat[of b] u(5,7) ap(1) by (auto simp: payload_def mult16_add_iff)
  moreover have "32 \<le> n" using u(7) by (simp add: word_le_nat_alt)
  ultimately show "client_pointer E s (payload b)" using c ap(2) by (simp add: client_pointer_def)
qed

lemma free_top:
  assumes top: "on_top E s b n q m" and big: "get_quick_list_index n = -1" and c: "mem_start E \<le> b" "b + n \<le> mem_end s"
  shows "\<exists>s'. sf_free E (payload b) s = Ret s' \<and> one_block E s' b (n + m) q \<and> ends_allocated E s' (b + n + m) \<and>
    (\<forall>x. settled E b x \<and> 16 \<le> unat x \<longrightarrow> header s' x = header s x \<and> prev_footer s' x = prev_footer s x) \<and>
    prev_footer s' b = prev_footer s b \<and> mem_end s' = mem_end s"
proof -
  note ap = on_top_apart[OF top] and u = on_top_places[OF top]
  have o: "no_free_before E s b q" "\<forall>i. quick_first s i = NULL" "mem_start E \<noteq> mem_end s" "block_apart E (\<lambda>i. []) b (n + m)"
    using top by (simp_all add: on_top_def one_block_def)
  obtain w where w: "clear_prev_alloc_in_next_block E b (add_footer E b (update_header E b n 0 (prev_alloc_bit E s b) s)) = w"
    "pools E w (only (b + n) m)" "header w b XOR magic E = n OR q" "header w (b + n) XOR magic E = m" "no_free_before E w b q"
    "\<forall>x. mult16 x \<and> x \<notin> {b, b + n} \<longrightarrow> header w x = header s x"
    "\<forall>x. mult16 x \<and> x \<notin> {b + n, b + n + m} \<longrightarrow> prev_footer w x = prev_footer s x"
    "w = s\<lparr>mem := mem w\<rparr>"
    by (rule on_top_marked[OF top])
  have cw: "b + n \<le> mem_end w" using c(2) only_mem_changed(1)[OF w(8)] by simp
  obtain t where t: "coalesce E b w = Ret (b, t)" "pools E t ((only (b + n) m)(get_free_list_index m := [] @ []))"
    "unlisted E ((only (b + n) m)(get_free_list_index m := [] @ [])) b"
    "clear_of E ((only (b + n) m)(get_free_list_index m := [] @ [])) b"
    "clear_of E ((only (b + n) m)(get_free_list_index m := [] @ [])) (b + n + m)"
    "header t b XOR magic E = (n + m) OR q" "prev_footer t (b + n + m) = header t b"
    "\<forall>x. mult16 x \<and> clear_of E (only (b + n) m) x \<and> x \<noteq> b \<longrightarrow> header t x = header w x"
    "\<forall>x. mult16 x \<and> clear_of E (only (b + n) m) x \<and> x \<noteq> b + n + m \<longrightarrow> prev_footer t x = prev_footer w x"
    "t = w\<lparr>mem := mem t\<rparr>"
    by (rule coalesce_next_pools[OF w(3) ap(2) w(5,4) ap(3) cw w(2) ap(18) only_self(1) _ ap(1,8,10,15,17)]) simp_all
  have "header t (b + n + m) = header s (b + n + m)" using t(8) w(6) ap(6,8,9,17) by simp
  then obtain y where y: "clear_prev_alloc_in_next_block E b (insert_to_free_list E b t) = y"
    "pools E y (only b (n + m))" "header y b XOR magic E = (n + m) OR q" "ends_allocated E y (b + n + m)"
    "\<forall>x. settled E b x \<and> 16 \<le> unat x \<longrightarrow> header y x = header t x \<and> prev_footer y x = prev_footer t x"
    "prev_footer y b = prev_footer t b" "y = t\<lparr>mem := mem y\<rparr>"
    by (rule on_top_inserted[OF top t(2)[unfolded only_self(2)] t(6)])
  have gl: "y = s\<lparr>mem := mem y\<rparr>" by (rule only_mem_trans[OF only_mem_trans[OF w(8) t(10)] y(7)])
  have "sf_free E (payload b) s = Ret y"
    unfolding sf_free_on_top[OF assms] free_main_def w(1) Let_def t(1) andThen_simps prod.case y(1) ..
  moreover have "mem_end y = mem_end s" "quick_first y = quick_first s"
    using only_mem_changed[OF gl] .
  moreover from this have "one_block E y b (n + m) q"
    using y(2,3) o ap(4) by (auto simp: one_block_def no_free_before_def)
  moreover have "header y x = header s x \<and> prev_footer y x = prev_footer s x" if x: "settled E b x" "16 \<le> unat x" for x
  proof -
    have "unat x < unat b" "mult16 x" using x by (simp_all add: settled_def)
    moreover from this have "x \<notin> {b, b + n, b + n + m}" using u(2,3) by auto
    moreover have "clear_of E (only (b + n) m) x" by (rule settled_clear[OF settled_mono[OF x(1)] x(2)]) (simp add: u(2))
    ultimately show ?thesis using y(5) t(8,9) w(6,7) x by simp
  qed
  moreover have "prev_footer y b = prev_footer s b" using y(6) t(9) w(7) ap(1,7,8,15) by auto
  ultimately show ?thesis using y(4) by blast
qed

section \<open>The blocks on the stack\<close>

text \<open>
  The blocks of \<open>szs\<close> one after another from \<open>b\<close>, all allocated, and the free block of \<open>rest\<close> bytes
  after them; \<open>q\<close> is the flag for the predecessor in the first header.
\<close>

fun stacked :: "sf_env \<Rightarrow> sf_state \<Rightarrow> ptr \<Rightarrow> 64 word \<Rightarrow> 64 word list \<Rightarrow> 64 word \<Rightarrow> bool" where
  "stacked E s b q [] rest = one_block E s b rest q"
| "stacked E s b q (sz # szs) rest =
     (header s b XOR magic E = get_aligned_block sz OR 4 OR q \<and> stacked E s (b + get_aligned_block sz) 2 szs rest)"

fun frees :: "sf_env \<Rightarrow> ptr list \<Rightarrow> sf_state \<Rightarrow> sf_state outcome" where
  "frees E [] s = Ret s"
| "frees E (p # ps) s = andThen (sf_free E p s) (frees E ps)"

lemma frees_append: "frees E (ps @ qs) s = andThen (frees E ps s) (frees E qs)"
  by (induction ps arbitrary: s) (simp_all add: andThen_def split: outcome.splits)

definition large_request :: "64 word \<Rightarrow> bool" where
  "large_request sz \<longleftrightarrow> sz \<noteq> 0 \<and> unat sz < 2 ^ 64 - 23 \<and> get_quick_list_index (get_aligned_block sz) = -1"

lemma free_stack:
  assumes "stacked E s b q szs rest" "list_all large_request szs" "no_free_before E s b q" "unlisted E (\<lambda>i. []) b"
    and "block_apart E (\<lambda>i. []) b tot" "unat tot = taken szs + unat rest" "32 \<le> unat rest"
    and "ends_allocated E s (b + tot)" "mem_start E \<le> b" "b + tot \<le> mem_end s"
  shows "\<exists>s'. frees E (rev (map payload (placed b szs))) s = Ret s' \<and> one_block E s' b tot q \<and> ends_allocated E s' (b + tot) \<and>
    (\<forall>x. settled E b x \<and> 16 \<le> unat x \<longrightarrow> header s' x = header s x \<and> prev_footer s' x = prev_footer s x) \<and>
    prev_footer s' b = prev_footer s b \<and> mem_end s' = mem_end s"
  using assms
proof (induction szs arbitrary: b q tot)
  case Nil
  then have "tot = rest" by (simp add: word_unat_eq_iff)
  then show ?case using Nil by simp
next
  case (Cons sz szs)
  let ?n = "get_aligned_block sz"
  let ?m = "tot - ?n"
  have sz: "unat sz < 2 ^ 64 - 23" "get_quick_list_index ?n = -1" using Cons.prems(2) by (simp_all add: large_request_def)
  note n = aligned_facts[OF sz(1)]
  have st: "header s b XOR magic E = ?n OR 4 OR q" "stacked E s (b + ?n) 2 szs rest" using Cons.prems(1) by simp_all
  have le: "unat ?n \<le> unat tot" and lt: "unat ?n < unat tot" using Cons.prems(6,7) by simp_all
  note af = only_after[OF Cons.prems(5) n(2) le]
  have tm: "unat ?m = taken szs + unat rest" using af(2) Cons.prems(6) by simp
  have mb: "mult16 b" using Cons.prems(4) by (simp add: unlisted_def)
  have ul: "unlisted E (\<lambda>i. []) (b + ?n)"
    by (rule block_apart_unlisted[OF Cons.prems(5) mb n(1) _ lt]) (use n(2) in simp)
  have ba: "16 \<le> unat b" "unat b + unat tot < 2 ^ 64" using Cons.prems(5) by (simp_all add: block_apart_def)
  have ub: "unat (b + tot) = unat b + unat tot" using ba by (intro unat_add_no_wrap)
  have "b \<le> b + ?n" "b + ?n \<le> b + tot" using af(1) le ub by (simp_all add: word_le_nat_alt)
  then have c: "mem_start E \<le> b + ?n" "b + ?n \<le> mem_end s" using Cons.prems(9,10) by (meson order_trans)+
  have e: "b + ?n + ?m = b + tot" by simp
  obtain s1 where s1: "frees E (rev (map payload (placed (b + ?n) szs))) s = Ret s1" "one_block E s1 (b + ?n) ?m 2"
    "ends_allocated E s1 (b + tot)"
    "\<forall>x. settled E (b + ?n) x \<and> 16 \<le> unat x \<longrightarrow> header s1 x = header s x \<and> prev_footer s1 x = prev_footer s x"
    "mem_end s1 = mem_end s"
    using Cons.IH[OF st(2) _ no_free_before_2 ul af(3) tm Cons.prems(7) _ c(1)] Cons.prems(2,8,10) unfolding e by auto
  have cl: "clear_of E (\<lambda>i. []) b" using block_apart_inside[OF Cons.prems(5), of 0] by simp
  have sb: "settled E (b + ?n) b" using mb cl af(1) n(2) by (simp add: settled_def)
  have "on_top E s1 b ?n q ?m"
    unfolding on_top_def e using s1(2,3,4) sb ba(1) st(1) n Cons.prems(3,4,5,7) tm af(2) le ba(2)
    by (auto simp: no_free_before_def)
  from free_top[OF this sz(2) Cons.prems(9)] c(2) s1(5)
  obtain s2 where s2: "sf_free E (payload b) s1 = Ret s2" "one_block E s2 b tot q" "ends_allocated E s2 (b + tot)"
    "\<forall>x. settled E b x \<and> 16 \<le> unat x \<longrightarrow> header s2 x = header s1 x \<and> prev_footer s2 x = prev_footer s1 x"
    "prev_footer s2 b = prev_footer s1 b" "mem_end s2 = mem_end s"
    unfolding e by auto
  have "settled E (b + ?n) x" if "settled E b x" for x using settled_mono[OF that] af(1) by simp
  moreover have "frees E (rev (map payload (placed b (sz # szs)))) s = Ret s2" by (simp add: frees_append s1(1) s2(1))
  ultimately show ?case using s2 s1(4) sb ba(1) by simp
qed

lemma mallocs_stack:
  assumes "one_block E s b bs p" "list_all large_request szs" "taken szs + 32 \<le> unat bs"
  shows "\<exists>s' rest. mallocs E szs s = Ret (map payload (placed b szs), s') \<and> stacked E s' b p szs rest \<and>
    unat bs = taken szs + unat rest \<and> header s' (b + bs) = header s (b + bs) \<and> mem_end s' = mem_end s \<and>
    (\<forall>x. settled E b x \<and> 16 \<le> unat x \<longrightarrow> header s' x = header s x) \<and>
    (\<forall>x. (settled E b x \<or> x = b) \<and> 16 \<le> unat x \<longrightarrow> prev_footer s' x = prev_footer s x)"
  using assms
proof (induction szs arbitrary: s b bs p)
  case Nil
  then show ?case by (intro exI[of _ s] exI[of _ bs]) simp
next
  case (Cons sz szs)
  let ?n = "get_aligned_block sz"
  have sz: "sz \<noteq> 0" "unat sz < 2 ^ 64 - 23" "unat ?n + 32 \<le> unat bs"
    using Cons.prems(2,3) by (auto simp: large_request_def)
  obtain s1 where s1: "sf_malloc E sz s = Ret (payload b, s1)" "header s1 b XOR magic E = ?n OR 4 OR p"
    "one_block E s1 (b + ?n) (bs - ?n) 2" "\<forall>x. settled E b x \<and> 16 \<le> unat x \<longrightarrow> header s1 x = header s x"
    "\<forall>x. (settled E b x \<or> x = b) \<and> 16 \<le> unat x \<longrightarrow> prev_footer s1 x = prev_footer s x"
    "header s1 (b + bs) = header s (b + bs)" "mem_end s1 = mem_end s"
    using malloc_step[OF Cons.prems(1) sz] by blast
  have o: "pools E s (only b bs)" "block_apart E (\<lambda>i. []) b bs" using Cons.prems(1) by (simp_all add: one_block_def)
  have le: "unat ?n \<le> unat bs" using sz(3) by simp
  note n = aligned_facts[OF sz(2)] and af = only_after[OF o(2) aligned_facts(2)[OF sz(2)] le]
  have e: "b + ?n + (bs - ?n) = b + bs" by simp
  have "taken szs + 32 \<le> unat (bs - ?n)" "list_all large_request szs" using Cons.prems(2,3) af(2) by simp_all
  from Cons.IH[OF s1(3) this(2,1)] obtain s' rest where s': "mallocs E szs s1 = Ret (map payload (placed (b + ?n) szs), s')"
    "stacked E s' (b + ?n) 2 szs rest" "unat (bs - ?n) = taken szs + unat rest"
    "header s' (b + bs) = header s1 (b + bs)" "mem_end s' = mem_end s1"
    "\<forall>x. settled E (b + ?n) x \<and> 16 \<le> unat x \<longrightarrow> header s' x = header s1 x"
    "\<forall>x. (settled E (b + ?n) x \<or> x = b + ?n) \<and> 16 \<le> unat x \<longrightarrow> prev_footer s' x = prev_footer s1 x"
    unfolding e by blast
  have "mult16 b" using pools_mult16[OF o(1), of "get_free_list_index bs" b] by (simp add: only_def)
  moreover have cl: "clear_of E (\<lambda>i. []) b" "16 \<le> unat b"
    using block_apart_inside[OF o(2), of 0] o(2) by (simp_all add: block_apart_def)
  ultimately have sb: "settled E (b + ?n) b" using af(1) n(2) by (simp add: settled_def)
  have up: "settled E (b + ?n) x" if "settled E b x" for x using settled_mono[OF that] af(1) by simp
  have "mallocs E (sz # szs) s = Ret (map payload (placed b (sz # szs)), s')" by (simp add: s1(1) s'(1))
  moreover have "stacked E s' b p (sz # szs) rest" using s'(2,6) sb cl(2) s1(2) by simp
  moreover have "unat bs = taken (sz # szs) + unat rest" using s'(3) af(2) le by simp
  ultimately show ?case using s1(4-7) s'(4-7) sb up by (intro exI[of _ s'] exI[of _ rest]) auto
qed

section \<open>The client's writes\<close>

text \<open>Whether a row starts inside one of the regions, and the memory after the client has filled them.\<close>

definition in_regions :: "(ptr \<times> 64 word) list \<Rightarrow> ptr \<Rightarrow> bool" where
  "in_regions rs a \<longleftrightarrow> list_ex (\<lambda>(p, n). unat p \<le> unat a \<and> unat a < unat p + unat n) rs"

definition scribble :: "(ptr \<times> 64 word) list \<Rightarrow> (ptr \<Rightarrow> 64 word) \<Rightarrow> sf_state \<Rightarrow> sf_state" where
  "scribble rs f s = s\<lparr>mem := \<lambda>a. if in_regions rs a then f a else mem s a\<rparr>"

fun after :: "ptr \<Rightarrow> 64 word list \<Rightarrow> ptr" where
  "after b [] = b"
| "after b (sz # szs) = after (b + get_aligned_block sz) szs"

lemma after_unat: "unat b + taken szs < 2 ^ 64 \<Longrightarrow> unat (after b szs) = unat b + taken szs"
proof (induction szs arbitrary: b)
  case (Cons sz szs)
  then have "unat (b + get_aligned_block sz) = unat b + unat (get_aligned_block sz)" by (intro unat_add_no_wrap) simp
  then show ?case using Cons.IH[of "b + get_aligned_block sz"] Cons.prems by simp
qed simp

lemma stacked_cong:
  assumes "stacked E s b q szs rest" "\<forall>x\<in>set (placed b szs). header t x = header s x"
    and "\<And>p. one_block E s (after b szs) rest p \<Longrightarrow> one_block E t (after b szs) rest p"
  shows "stacked E t b q szs rest"
  using assms by (induction szs arbitrary: b q) simp_all

lemma placed_headers:
  assumes "x \<in> set (placed b szs)" "unat b + taken szs + 16 < 2 ^ 64" "list_all (\<lambda>sz. unat sz < 2 ^ 64 - 23) szs"
  shows "\<not> in_regions (zip (map payload (placed b szs)) szs) (x + 8) \<and> unat b \<le> unat x \<and> unat (x + 8) = unat x + 8"
  using assms
proof (induction szs arbitrary: b)
  case (Cons sz szs)
  let ?n = "get_aligned_block sz" and ?rs = "zip (map payload (placed (b + get_aligned_block sz) szs)) szs"
  have u: "unat (b + ?n) = unat b + unat ?n" using Cons.prems(2) by (intro unat_add_no_wrap) simp
  have p: "unat (payload b) = unat b + 16" using Cons.prems(2) by (intro payload_unat) simp
  have room: "unat sz + 8 \<le> unat ?n" using Cons.prems(3) by (intro aligned_room) simp
  have ih: "list_all (\<lambda>(p, n). unat (b + ?n) + 16 \<le> unat p) ?rs"
    using placed_regions[of "b + ?n" szs] Cons.prems(2,3) u by (auto simp: list_all_iff)
  have u8: "unat (b + 8) = unat b + 8" using Cons.prems(2) by (subst unat_add_no_wrap) simp_all
  show ?case
  proof (cases "x = b")
    case True
    then show ?thesis using ih p u u8 by (auto simp: in_regions_def list_ex_iff list_all_iff)
  next
    case False
    then have "\<not> in_regions ?rs (x + 8) \<and> unat (b + ?n) \<le> unat x \<and> unat (x + 8) = unat x + 8"
      using Cons.IH[of "b + ?n"] Cons.prems u by auto
    then show ?thesis using p u room by (auto simp: in_regions_def)
  qed
qed simp

text \<open>Rows below the first payload and from the last header on are not touched.\<close>

lemma scribble_outside:
  assumes "unat b + taken szs + 16 < 2 ^ 64" "list_all (\<lambda>sz. unat sz < 2 ^ 64 - 23) szs"
    and "unat a < unat b + 16 \<or> unat b + taken szs + 8 \<le> unat a"
  shows "mem (scribble (zip (map payload (placed b szs)) szs) f s) a = mem s a"
  using placed_regions[OF assms(1,2)] assms(3)
  by (fastforce simp: scribble_def in_regions_def list_ex_iff list_all_iff)

lemma head_rows_outside:
  assumes "unat h + 32 \<le> B \<or> C \<le> unat (h::ptr)" "16 \<le> B" "d \<le> (24::64 word)"
  shows "unat (h + d) < B + 16 \<or> C \<le> unat (h + d)"
proof (cases "unat h + unat d < 2 ^ 64")
  case True
  moreover have "unat d \<le> 24" using assms(3) by (simp add: word_le_nat_alt)
  ultimately show ?thesis using assms(1) by (auto simp: unat_add_no_wrap)
next
  case False
  moreover have "unat d \<le> 24" using assms(3) by (simp add: word_le_nat_alt)
  moreover have "unat h < 2 ^ 64" using unsigned_less[of h] by simp
  ultimately have "unat (h + d) < 24" unfolding unat_word_ariths by (auto simp: mod_if)
  then show ?thesis using assms(2) by simp
qed

lemma scribble_stacked:
  fixes f :: "ptr \<Rightarrow> 64 word"
  assumes "stacked E s b q szs rest" "block_apart E (\<lambda>i. []) b tot" "unat tot = taken szs + unat rest" "32 \<le> unat rest"
    and "list_all (\<lambda>sz. unat sz < 2 ^ 64 - 23) szs" "unlisted E (\<lambda>i. []) b"
  defines "t \<equiv> scribble (zip (map payload (placed b szs)) szs) f s"
  shows "stacked E t b q szs rest" "header t (b + tot) = header s (b + tot)" "prev_footer t b = prev_footer s b"
proof -
  have b: "16 \<le> unat b" "unat b + taken szs + unat rest < 2 ^ 64" using assms(2,3) by (simp_all add: block_apart_def)
  then have fit: "unat b + taken szs + 16 < 2 ^ 64" using assms(4) by simp
  note out = scribble_outside[OF fit assms(5), where s = s and f = f, folded t_def]
  have ua: "unat (after b szs) = unat b + taken szs" using b by (intro after_unat) simp
  have row: "mem t (after b szs + d) = mem s (after b szs + d)" if "8 \<le> unat d" "unat d < 32" for d
    using that b assms(4) ua by (intro out) (subst (2) unat_add_no_wrap, simp_all)
  have ob: "one_block E t (after b szs) rest p" if o: "one_block E s (after b szs) rest p" for p
  proof -
    have "pools E t (only (after b szs) rest)"
    proof (rule pools_cong)
      show "pools E s (only (after b szs) rest)" using o by (simp add: one_block_def)
      fix i x assume x: "i < NUM_FREE_LISTS" "x \<in> set (head_addr E i # only (after b szs) rest i)"
      have "mem t (x + d) = mem s (x + d)" if d: "d = 16 \<or> d = 24" for d
      proof (cases "x = after b szs")
        case True
        then show ?thesis using row[of d] d by auto
      next
        case False
        then have "x = head_addr E i" using x by (auto simp: only_def split: if_splits)
        then have "unat x + 32 \<le> unat b \<or> unat b + unat tot \<le> unat x " using assms(2,6) x(1) unfolding block_apart_def unlisted_def by auto
        moreover have "d \<le> 24" using d by auto
        ultimately have "unat (x + d) < unat b + 16 \<or> unat b + unat tot \<le> unat (x + d)"
          using head_rows_outside b(1) by blast
        then show ?thesis using assms(3,4) by (intro out) linarith
      qed
      then show "next_link t x = next_link s x \<and> prev_link t x = prev_link s x"
        by (simp add: next_link_def prev_link_def)
    qed
    moreover have "header t (after b szs) = header s (after b szs)" using row[of 8] by (simp add: header_def)
    moreover have "mem_end t = mem_end s" "quick_first t = quick_first s" by (simp_all add: t_def scribble_def)
    ultimately show ?thesis using o by (simp add: one_block_def)
  qed
  have "header t x = header s x" if "x \<in> set (placed b szs)" for x
    using placed_headers[OF that fit assms(5)] by (simp add: header_def t_def scribble_def)
  then show "stacked E t b q szs rest" using stacked_cong[OF assms(1)] ob by blast
  have ut: "unat (b + tot) = unat b + unat tot" using b assms(3) by (intro unat_add_no_wrap) simp
  show "header t (b + tot) = header s (b + tot)" unfolding header_def
    using head_rows_outside[of "b + tot" "unat b" "unat b + unat tot" 8] ut b(1) assms(3,4)
    by (intro out) auto
  show "prev_footer t b = prev_footer s b" unfolding prev_footer_def by (intro out) simp
qed

section \<open>Rounds of requests and releases\<close>

text \<open>The heap with its first page given back: one free block, and nothing known to be free around it.\<close>

definition page_idle :: "sf_env \<Rightarrow> sf_state \<Rightarrow> bool" where
  "page_idle E s \<longleftrightarrow> one_block E s (mem_start E) 4080 0 \<and> prev_footer s (mem_start E) XOR magic E = 0 \<and>
     ends_allocated E s (mem_start E + 4080) \<and> mem_end s = mem_start E + 4096"

text \<open>A client that makes its requests, fills its regions, and frees them in the reverse order.\<close>

definition sf_round :: "sf_env \<Rightarrow> (ptr \<Rightarrow> 64 word) \<Rightarrow> 64 word list \<Rightarrow> sf_state \<Rightarrow> sf_state outcome" where
  "sf_round E f szs s =
     andThen (mallocs E szs s) (\<lambda>(ps, s). frees E (rev ps) (scribble (zip ps szs) f s))"

fun rounds :: "sf_env \<Rightarrow> (ptr \<Rightarrow> 64 word) \<Rightarrow> 64 word list list \<Rightarrow> sf_state \<Rightarrow> sf_state outcome" where
  "rounds E f [] s = Ret s"
| "rounds E f (szs # rest) s = andThen (sf_round E f szs s) (rounds E f rest)"

definition round_fits :: "64 word list \<Rightarrow> bool" where
  "round_fits szs \<longleftrightarrow> list_all large_request szs \<and> taken szs + 32 \<le> 4080"

lemma page_round:
  assumes idle: "page_idle E s" and pa: "page_apart E (mem_start E)" and fits: "round_fits szs"
  shows "\<exists>s'. sf_round E f szs s = Ret s' \<and> page_idle E s'"
proof -
  let ?st = "mem_start E"
  have l: "list_all large_request szs" "list_all (\<lambda>sz. unat sz < 2 ^ 64 - 23) szs" "taken szs + 32 \<le> unat (4080 :: 64 word)"
    using fits by (auto simp: round_fits_def large_request_def list_all_iff)
  have i: "one_block E s ?st 4080 0" "prev_footer s ?st XOR magic E = 0" "ends_allocated E s (?st + 4080)"
    "mem_end s = ?st + 4096" using idle by (simp_all add: page_idle_def)
  have st: "16 \<le> unat ?st" "unat ?st + 4096 < 2 ^ 64" using pa by (simp_all add: page_apart_def)
  note ap = page_apart_block[OF pa] and ul = page_apart_unlisted[OF pa]
  obtain s1 rest where s1: "mallocs E szs s = Ret (map payload (placed ?st szs), s1)" "stacked E s1 ?st 0 szs rest"
    "unat (4080 :: 64 word) = taken szs + unat rest" "header s1 (?st + 4080) = header s (?st + 4080)"
    "mem_end s1 = mem_end s" "prev_footer s1 ?st = prev_footer s ?st"
    using mallocs_stack[OF i(1) l(1,3)] st(1) by blast
  have r: "32 \<le> unat rest" using l(3) s1(3) by simp
  define t where "t = scribble (zip (map payload (placed ?st szs)) szs) f s1"
  note t = scribble_stacked[OF s1(2) ap s1(3) r l(2) ul, where f = f, folded t_def]
  have nf: "no_free_before E t ?st 0" using t(3) s1(6) i(2) by (simp add: no_free_before_def)
  have e: "ends_allocated E t (?st + 4080)" using t(2) s1(4) i(3) by (simp add: ends_allocated_def)
  have me: "mem_end t = ?st + 4096" using s1(5) i(4) by (simp add: t_def scribble_def)
  have "?st + 4080 \<le> mem_end t" using st(2) unfolding me by (simp add: word_le_nat_alt unat_add_no_wrap)
  from free_stack[OF t(1) l(1) nf ul ap s1(3) r e order_refl this]
  obtain s2 where "frees E (rev (map payload (placed ?st szs))) t = Ret s2" "one_block E s2 ?st 4080 0"
    "ends_allocated E s2 (?st + 4080)" "prev_footer s2 ?st = prev_footer t ?st" "mem_end s2 = mem_end t"
    by blast
  moreover from this have "page_idle E s2" using nf me by (simp add: page_idle_def no_free_before_def)
  ultimately show ?thesis by (simp add: sf_round_def s1(1) t_def)
qed

lemma page_rounds:
  assumes "page_idle E s" "page_apart E (mem_start E)" "list_all round_fits rs"
  shows "\<exists>s'. rounds E f rs s = Ret s' \<and> page_idle E s'"
  using assms
proof (induction rs arbitrary: s)
  case (Cons szs rs)
  obtain s1 where s1: "sf_round E f szs s = Ret s1" "page_idle E s1"
    using page_round[OF Cons.prems(1,2), of szs f] Cons.prems(3) by auto
  then show ?case using Cons.IH[OF s1(2) Cons.prems(2)] Cons.prems(3) by simp
qed simp

lemma first_page_idle:
  assumes "mem_start E = mem_end s" "sf_mem_grow E s = (mem_start E, s\<lparr>mem_end := mem_end s + PAGE_SZ\<rparr>)"
    "page_apart E (mem_start E)" "\<forall>i. quick_first s i = NULL"
    and "first_page E s = Ret s1" "ends_allocated E s1 (mem_start E + 4080)"
  shows "page_idle E s1"
proof -
  obtain m where m: "s1 = s\<lparr>mem_end := mem_end s + PAGE_SZ, mem := m\<rparr>" "prev_footer s1 (mem_start E) XOR magic E = 0"
    using first_page_spec[OF assms(2,3)] assms(5) by auto
  have "one_block E s1 (mem_start E) 4080 0" using first_page_one_block[OF assms(1-4)] assms(5) by auto
  then show ?thesis using m assms(1,6) by (simp add: page_idle_def PAGE_SZ_def)
qed

text \<open>
  C3: On an untouched heap whose page ends with the mark of an allocated block, any number of
  rounds in which a client makes requests of non-quick sizes that fit into the page, fills
  every row of the regions it got with anything, and frees them in the reverse order, runs
  without failure; after each the heap is one free block of 4080 bytes again and has not
  grown.
\<close>

theorem rounds_return_page:
  assumes "mem_start E = mem_end s" "sf_mem_grow E s = (mem_start E, s\<lparr>mem_end := mem_end s + PAGE_SZ\<rparr>)"
    "page_apart E (mem_start E)" "\<forall>i. quick_first s i = NULL"
    and "first_page E s = Ret s1" "ends_allocated E s1 (mem_start E + 4080)"
    and "szs \<noteq> []" "list_all round_fits (szs # rs)"
  shows "\<exists>s'. rounds E f (szs # rs) s = Ret s' \<and> one_block E s' (mem_start E) 4080 0 \<and> mem_end s' = mem_start E + 4096"
proof -
  have i: "page_idle E s1" by (rule first_page_idle[OF assms(1-6)])
  have "mallocs E szs s = mallocs E szs s1"
    using i assms(8) by (intro mallocs_first_page[OF assms(1,5) _ assms(7)])
      (auto simp: page_idle_def one_block_def round_fits_def large_request_def list_all_iff)
  then have "rounds E f (szs # rs) s = rounds E f (szs # rs) s1" by (simp add: sf_round_def)
  with page_rounds[OF i assms(3,8), of f] show ?thesis by (auto simp: page_idle_def)
qed

end
