(* ===== verification/Sf_Examples.thy ===== *)
theory Sf_Examples imports Sf_Stack begin

text \<open>
  A concrete allocator (a magic number, a heap at 4096, sentinels at 1048576) on which the theorems of
  the hw3 theories are instantiated.
\<close>

unbundle bit_operations_syntax

section \<open>A concrete allocator\<close>

definition demo_grow :: "sf_state \<Rightarrow> ptr \<times> sf_state" where
  "demo_grow s = (if mem_end s = 4096 then (4096, s\<lparr>mem_end := mem_end s + PAGE_SZ\<rparr>) else (NULL, s))"

definition demo_env :: sf_env where
  "demo_env = \<lparr>magic = 3735928559, mem_start = 4096, free_heads = 1048576, sf_mem_grow = demo_grow\<rparr>"

definition raw_state :: "(ptr \<Rightarrow> 64 word) \<Rightarrow> sf_state" where
  "raw_state m = \<lparr>mem = m, mem_end = 8192, quick_first = (\<lambda>i. NULL), quick_count = (\<lambda>i. 0),
     last_block_allocated = 0, sf_errno = 0\<rparr>"

definition demo_state :: "(ptr \<Rightarrow> 64 word) \<Rightarrow> sf_state" where
  "demo_state m = initialize_free_lists demo_env (raw_state m)"

lemma demo_env_simps [simp]:
  "magic demo_env = 3735928559" "mem_start demo_env = 4096" "free_heads demo_env = 1048576"
  "sf_mem_grow demo_env = demo_grow"
  by (simp_all add: demo_env_def)

lemma all_lists: "(\<forall>i<NUM_FREE_LISTS. P i) \<longleftrightarrow>
   P 0 \<and> P 1 \<and> P 2 \<and> P 3 \<and> P 4 \<and> P 5 \<and> P 6 \<and> P 7 \<and> P 8 \<and> P 9"
  unfolding NUM_FREE_LISTS_def by (simp add: eval_nat_numeral All_less_Suc) blast

lemma demo_heads [simp]:
  "head_addr demo_env 0 = 1048576" "head_addr demo_env 1 = 1048608" "head_addr demo_env 2 = 1048640"
  "head_addr demo_env (Suc 0) = 1048608"
  "head_addr demo_env 3 = 1048672" "head_addr demo_env 4 = 1048704" "head_addr demo_env 5 = 1048736"
  "head_addr demo_env 6 = 1048768" "head_addr demo_env 7 = 1048800" "head_addr demo_env 8 = 1048832"
  "head_addr demo_env 9 = 1048864"
  by (simp_all add: head_addr_def)

lemma demo_pools: "pools demo_env (demo_state m) (\<lambda>i. [])"
  unfolding demo_state_def by (rule initialize_free_lists_pools) (simp add: mult16_def)

lemma demo_clear: "clear_of demo_env (\<lambda>i. []) x \<longleftrightarrow> (\<forall>i<NUM_FREE_LISTS. x - 16 \<noteq> head_addr demo_env i)"
  by (simp add: clear_of_def)

lemma demo_header:
  "mult16 x \<Longrightarrow> clear_of demo_env (\<lambda>i. []) x \<Longrightarrow> header (demo_state m) x = m (x + 8)"
  unfolding demo_state_def
  by (subst initialize_header(1)[of x]) (simp_all add: mult16_def header_def raw_state_def)

lemma demo_fields [simp]: "mem_end (demo_state m) = 8192" "quick_first (demo_state m) i = NULL"
  "quick_count (demo_state m) i = 0"
proof -
  obtain m' where "demo_state m = (raw_state m)\<lparr>mem := m'\<rparr>"
    using initialize_only_mem unfolding demo_state_def by blast
  then show "mem_end (demo_state m) = 8192" "quick_first (demo_state m) i = NULL" "quick_count (demo_state m) i = 0"
    by (simp_all add: raw_state_def)
qed

lemma get_aligned_block_least_witness:
  "16 dvd unat (get_aligned_block 100) \<and> 32 \<le> unat (get_aligned_block 100) \<and>
   unat (100::64 word) + 8 \<le> unat (get_aligned_block 100) \<and> unat (get_aligned_block 100) \<le> 112"
  using get_aligned_block_least[of 100] by simp

lemma sf_malloc_out_of_memory_witness:
  "sf_malloc demo_env 5000 (demo_state (\<lambda>a. 0)) = Ret (NULL, (demo_state (\<lambda>a. 0))\<lparr>sf_errno := ENOMEM\<rparr>)"
  by (rule sf_malloc_out_of_memory[OF _ _ _ demo_pools]) (simp_all add: no_quick_def demo_grow_def)

lemma sf_malloc_first_call_witness:
  "\<exists>s' s1. sf_malloc demo_env 100 ((raw_state (\<lambda>a. 0))\<lparr>mem_end := 4096\<rparr>) = Ret (payload 4096, s') \<and>
    first_page demo_env ((raw_state (\<lambda>a. 0))\<lparr>mem_end := 4096\<rparr>) = Ret s1 \<and> mem_end s1 = 4096 + PAGE_SZ \<and>
    split_result demo_env s1 ((\<lambda>i. [])(7 := [4096])) (\<lambda>i. []) 4096 4080 0 (get_aligned_block 100) s'"
  using sf_malloc_first_call[of demo_env "(raw_state (\<lambda>a. 0))\<lparr>mem_end := 4096\<rparr>" 100]
  by (simp add: demo_grow_def page_apart_def mult16_def all_lists no_quick_def raw_state_def)

text \<open>Rows of three adjacent blocks at 4096, 4352 and 4480.\<close>

definition demo_rows :: "64 word \<Rightarrow> 64 word \<Rightarrow> 64 word \<Rightarrow> ptr \<Rightarrow> 64 word" where
  "demo_rows h1 h2 h3 = (\<lambda>a. 0)(4104 := h1 XOR 3735928559, 4360 := h2 XOR 3735928559, 4488 := h3 XOR 3735928559)"

lemma demo_row_headers [simp]:
  "header (demo_state (demo_rows h1 h2 h3)) 4096 = h1 XOR 3735928559"
  "header (demo_state (demo_rows h1 h2 h3)) 4352 = h2 XOR 3735928559"
  "header (demo_state (demo_rows h1 h2 h3)) 4480 = h3 XOR 3735928559"
  by (subst demo_header; simp add: mult16_def demo_clear all_lists demo_rows_def)+

lemma demo_unlisted: "mult16 b \<Longrightarrow> \<forall>i<NUM_FREE_LISTS. b \<noteq> head_addr demo_env i \<Longrightarrow> unlisted demo_env (\<lambda>i. []) b"
  by (simp add: unlisted_def)

text \<open>The same rows with the block at 4352 in its free list.\<close>

definition demo_listed :: "ptr \<Rightarrow> 64 word \<Rightarrow> 64 word \<Rightarrow> 64 word \<Rightarrow> sf_state" where
  "demo_listed b h1 h2 h3 = insert_to_free_list demo_env b (demo_state (demo_rows h1 h2 h3))"

lemma demo_listed_pools:
  assumes "mult16 b" "\<forall>i<NUM_FREE_LISTS. b \<noteq> head_addr demo_env i"
    "i = get_free_list_index ((header (demo_state (demo_rows h1 h2 h3)) b XOR magic demo_env) AND NOT 2)"
  shows "pools demo_env (demo_listed b h1 h2 h3) ((\<lambda>i. [])(i := [b]))"
  using insert_to_free_list_pools[OF demo_pools demo_unlisted[OF assms(1,2)] assms(3)]
  by (simp add: demo_listed_def)

lemma demo_listed_header:
  assumes "mult16 x" "mult16 b" "\<forall>i<NUM_FREE_LISTS. x - 16 \<noteq> head_addr demo_env i" "x \<noteq> b + 16"
  shows "header (demo_listed b h1 h2 h3) x = header (demo_state (demo_rows h1 h2 h3)) x"
  unfolding demo_listed_def by (rule header_insert[OF assms(1,2) demo_pools _ assms(4)]) (simp add: demo_clear assms(3))

lemma demo_listed_fields [simp]:
  "mem_end (demo_listed b h1 h2 h3) = 8192" "quick_first (demo_listed b h1 h2 h3) i = NULL"
  "quick_count (demo_listed b h1 h2 h3) i = 0"
proof -
  obtain m where "demo_listed b h1 h2 h3 = (demo_state (demo_rows h1 h2 h3))\<lparr>mem := m\<rparr>"
    using insert_only_mem unfolding demo_listed_def by blast
  then show "mem_end (demo_listed b h1 h2 h3) = 8192" "quick_first (demo_listed b h1 h2 h3) i = NULL"
    "quick_count (demo_listed b h1 h2 h3) i = 0" using demo_fields by simp_all
qed

lemma m16: "mult16 (w::64 word) \<longleftrightarrow> unat w mod 16 = 0"
  by (simp add: mult16_unat dvd_eq_mod_eq_0)

lemma strip_eval: "strip_bits (262::64 word) = 256" "strip_bits (38::64 word) = 32" "strip_bits (134::64 word) = 128"
  by (simp_all add: strip_bits_def)

lemma free_then_malloc_reuses_witness:
  "\<exists>s1 s2. sf_free demo_env (payload 4096) (demo_state (demo_rows 38 0 0)) = Ret s1 \<and> quick_list s1 0 [4096] \<and>
    quick_count s1 0 = quick_count (demo_state (demo_rows 38 0 0)) 0 + 1 \<and>
    sf_malloc demo_env 20 s1 = Ret (payload 4096, s2) \<and> quick_list s2 0 [] \<and>
    quick_count s2 0 = quick_count (demo_state (demo_rows 38 0 0)) 0"
proof -
  have "\<exists>s1 s2. sf_free demo_env (payload 4096) (demo_state (demo_rows 38 0 0)) = Ret s1 \<and> quick_list s1 0 [4096] \<and>
    quick_count s1 0 = quick_count (demo_state (demo_rows 38 0 0)) 0 + 1 \<and>
    (\<forall>a. a \<noteq> payload 4096 \<longrightarrow> mem s1 a = mem (demo_state (demo_rows 38 0 0)) a) \<and>
    sf_malloc demo_env 20 s1 = Ret (payload 4096, s2) \<and> quick_list s2 0 [] \<and>
    quick_count s2 0 = quick_count (demo_state (demo_rows 38 0 0)) 0"
    by (rule free_then_malloc_reuses[where n = 32 and p = 6])
      (simp_all add: client_pointer_def payload_def m16 strip_eval get_aligned_block_def get_quick_list_index_def
        quick_list_def quick_fresh_def)
  then show ?thesis by blast
qed

lemma free_no_coalesce_witness:
  "\<exists>s'. sf_free demo_env (payload 4096) (demo_state (demo_rows 262 134 0)) = Ret s' \<and>
    pools demo_env s' ((\<lambda>i. [])(get_free_list_index 256 := [4096])) \<and>
    header s' 4096 XOR magic demo_env = 256 OR 2 \<and> prev_footer s' (4096 + 256) = header s' 4096 \<and>
    header s' (4096 + 256) XOR magic demo_env = 128 OR 4"
  by (rule free_no_coalesce[OF demo_pools, where n = 256 and hs = 128])
    (simp_all add: client_pointer_def payload_def m16 strip_eval get_quick_list_index_def unlisted_def clear_of_def all_lists)

lemma free_merges_with_next_witness:
  "\<exists>s'. sf_free demo_env (payload 4096) (demo_listed 4352 262 130 36) = Ret s' \<and>
    (let L' = ((\<lambda>i. [])(2 := [4352]))(get_free_list_index 128 := []) in
      pools demo_env s' (L'(get_free_list_index (256 + 128) := 4096 # L' (get_free_list_index (256 + 128))))) \<and>
    header s' 4096 XOR magic demo_env = (256 + 128) OR 2 \<and> prev_footer s' (4096 + (256 + 128)) = header s' 4096"
proof -
  have P: "pools demo_env (demo_listed 4352 262 130 36) ((\<lambda>i. [])(2 := [4352]))"
    by (rule demo_listed_pools) (simp_all add: m16 all_lists get_free_list_index_def)
  have h: "header (demo_listed 4352 262 130 36) 4096 = 262 XOR 3735928559"
    "header (demo_listed 4352 262 130 36) 4352 = 130 XOR 3735928559"
    "header (demo_listed 4352 262 130 36) 4480 = 36 XOR 3735928559"
    by (subst demo_listed_header; simp add: m16 all_lists)+
  show ?thesis
    by (rule free_merges_with_next[OF P, where hs = 32 and pre = "[]" and post = "[]", simplified append_Nil])
      (simp_all add: client_pointer_def payload_def m16 strip_eval get_quick_list_index_def unlisted_def clear_of_def
        all_lists h get_free_list_index_def)
qed

lemma pools_free_list: "pools E s L \<Longrightarrow> i < NUM_FREE_LISTS \<Longrightarrow> free_list E s i (L i)"
  by (simp add: pools_def)

lemma insert_remove_roundtrip_witness:
  "\<exists>s'. remove_from_free_list demo_env (head_addr demo_env 3) (header (demo_state (demo_rows 258 0 0)) 4096 XOR magic demo_env)
      (insert_to_free_list demo_env 4096 (demo_state (demo_rows 258 0 0))) = Ret (4096, s') \<and>
    pools demo_env s' (\<lambda>i. []) \<and> header s' 4096 = header (demo_state (demo_rows 258 0 0)) 4096"
  by (rule insert_remove_roundtrip[OF demo_pools])
    (simp_all add: m16 demo_clear unlisted_def all_lists get_free_list_index_def)

lemma sf_malloc_first_fit_witness:
  "\<exists>s'. sf_malloc demo_env 100 (demo_listed 4352 0 1024 0) = Ret (payload 4352, s') \<and>
    split_result demo_env (demo_listed 4352 0 1024 0) ((\<lambda>i. [])(5 := [4352])) (((\<lambda>i. [])(5 := [4352]))(5 := [] @ []))
      4352 1024 0 (get_aligned_block 100) s'"
proof -
  have P: "pools demo_env (demo_listed 4352 0 1024 0) ((\<lambda>i. [])(5 := [4352]))"
    by (rule demo_listed_pools) (simp_all add: m16 all_lists get_free_list_index_def)
  have h: "header (demo_listed 4352 0 1024 0) 4352 = 1024 XOR 3735928559"
    by (subst demo_listed_header; simp add: m16 all_lists)
  show ?thesis
    by (rule sf_malloc_first_fit[OF P])
      (simp_all add: h m16 get_aligned_block_def get_free_list_index_def NUM_FREE_LISTS_def no_quick_def
        block_apart_def all_lists[unfolded NUM_FREE_LISTS_def])
qed

lemma search_then_remove_witness:
  "\<exists>pre post. ((\<lambda>i. [])((5::nat) := [4352])) 5 = pre @ 4352 # post \<and>
    1000 \<le> header (demo_listed 4352 0 1024 0) 4352 XOR magic demo_env \<and>
    (\<forall>x\<in>set pre. header (demo_listed 4352 0 1024 0) x XOR magic demo_env < 1000) \<and>
    remove_from_free_list demo_env (head_addr demo_env 5) (header (demo_listed 4352 0 1024 0) 4352 XOR magic demo_env)
      (demo_listed 4352 0 1024 0) = Ret (4352, remove_state 4352 (demo_listed 4352 0 1024 0)) \<and>
    pools demo_env (remove_state 4352 (demo_listed 4352 0 1024 0)) (((\<lambda>i. [])(5 := [4352]))(5 := pre @ post))"
proof -
  have P: "pools demo_env (demo_listed 4352 0 1024 0) ((\<lambda>i. [])(5 := [4352]))"
    by (rule demo_listed_pools) (simp_all add: m16 all_lists get_free_list_index_def)
  moreover have "5 < NUM_FREE_LISTS" by (simp add: NUM_FREE_LISTS_def)
  ultimately have "free_list demo_env (demo_listed 4352 0 1024 0) 5 (((\<lambda>i. [])((5::nat) := [4352])) 5)"
    by (rule pools_free_list)
  then have fl: "free_list demo_env (demo_listed 4352 0 1024 0) 5 [4352]" by simp
  have h: "header (demo_listed 4352 0 1024 0) 4352 = 1024 XOR 3735928559"
    by (subst demo_listed_header; simp add: m16 all_lists)
  have "get_from_free_list demo_env (head_addr demo_env 5) 1000 (demo_listed 4352 0 1024 0) = Ret (Some 4352)"
    unfolding get_from_free_list_first_fit[OF fl] by (simp add: h)
  then show ?thesis by (rule search_then_remove[OF P, rotated]) (simp add: NUM_FREE_LISTS_def)
qed

lemma get_free_list_index_class_witness:
  "(5::nat) < NUM_FREE_LISTS \<and> 32 * 2 ^ 4 < unat (1000::64 word) \<and> unat (1000::64 word) \<le> 32 * 2 ^ 5"
  using get_free_list_index_class[of 1000 5] by (simp add: get_free_list_index_def)

lemma update_header_decode_witness:
  "clear_bits demo_env (update_header demo_env 4096 64 1 1 (demo_state (\<lambda>a. 0))) 4096 = 64
    \<and> prev_alloc_bit demo_env (update_header demo_env 4096 64 1 1 (demo_state (\<lambda>a. 0))) 4096 = 1
    \<and> mem (update_header demo_env 4096 64 1 1 (demo_state (\<lambda>a. 0))) 4096 = mem (demo_state (\<lambda>a. 0)) 4096"
  using update_header_decode[of 64 demo_env 4096 1 1 "demo_state (\<lambda>a. 0)"] by (simp add: m16)

lemma quick_list_reuse_witness:
  "fst (pop_quick 2 (insert_to_quick_list 4096 2 (demo_state (\<lambda>a. 0)))) = 4096
    \<and> quick_list (snd (pop_quick 2 (insert_to_quick_list 4096 2 (demo_state (\<lambda>a. 0))))) 2 []"
  by (rule quick_list_reuse) (simp_all add: quick_list_def quick_fresh_def)

lemma increment_quick_list_counter_ok_witness:
  "case increment_quick_list_counter 3 (demo_state (\<lambda>a. 0)) of (r, s') \<Rightarrow> counters_ok s' \<and>
    (if quick_count (demo_state (\<lambda>a. 0)) (nat 3) < int QUICK_LIST_MAX
     then r = 0 \<and> quick_count s' (nat 3) = quick_count (demo_state (\<lambda>a. 0)) (nat 3) + 1
     else r = -1 \<and> s' = demo_state (\<lambda>a. 0))"
  by (rule increment_quick_list_counter_ok) (simp_all add: counters_ok_def NUM_QUICK_LISTS_def)

lemma invalid_pointer_aborts_witness:
  "sf_free demo_env 4097 (demo_state (\<lambda>a. 0)) = Stuck Abort_called \<and>
   sf_realloc demo_env 4097 10 (demo_state (\<lambda>a. 0)) = Stuck Abort_called"
  using invalid_pointer_aborts[of demo_env 4097 "demo_state (\<lambda>a. 0)" 10] by (simp add: client_pointer_def m16)

lemma realloc_in_place_witness:
  "sf_realloc demo_env (payload 4096) 240 (demo_state (demo_rows 262 134 0)) = Ret (payload 4096, demo_state (demo_rows 262 134 0))"
  by (rule realloc_in_place[where n = 256])
    (simp_all add: client_pointer_def payload_def m16 strip_eval get_aligned_block_def)

lemma realloc_shrink_remainder_unlisted_witness:
  "\<exists>s'. sf_realloc demo_env (payload 4096) 50 (demo_state (demo_rows 262 134 0)) = Ret (payload 4096, s') \<and>
    header s' 4096 XOR magic demo_env = get_aligned_block 50 OR 6 \<and>
    header s' (4096 + get_aligned_block 50) XOR magic demo_env = (256 - get_aligned_block 50) OR 2 \<and>
    pools demo_env s' (\<lambda>i. [])"
  by (rule realloc_shrink_remainder_unlisted[OF _ _ _ _ _ _ _ _ _ _ demo_pools, where n = 256 and hs = 128])
    (simp_all add: client_pointer_def payload_def m16 strip_eval get_aligned_block_def clear_of_def all_lists)

lemma realloc_overlaps_neighbour_witness:
  "\<exists>s'. sf_realloc demo_env (payload 4320) 30 (demo_state ((\<lambda>a. 0)(4328 := 38 XOR 3735928559, 4360 := 134 XOR 3735928559)))
      = Ret (payload 4320, s') \<and>
    header s' 4320 XOR magic demo_env = 48 OR 6 \<and> mem s' (payload (4320 + 32) + 8) = (((- 16) OR 2) XOR magic demo_env)"
proof -
  have "header (demo_state ((\<lambda>a. 0)(4328 := 38 XOR 3735928559, 4360 := 134 XOR 3735928559))) 4320 = 38 XOR 3735928559"
    "header (demo_state ((\<lambda>a. 0)(4328 := 38 XOR 3735928559, 4360 := 134 XOR 3735928559))) 4352 = 134 XOR 3735928559"
    by (subst demo_header; simp add: m16 demo_clear all_lists)+
  then show ?thesis
    by (intro realloc_overlaps_neighbour[where hs = 128])
      (simp_all add: client_pointer_def payload_def m16 strip_eval)
qed

section \<open>Runs of requests\<close>

definition fresh_heap :: sf_state where
  "fresh_heap = (raw_state (\<lambda>a. 0))\<lparr>mem_end := 4096\<rparr>"

lemma fresh_heap_facts:
  "mem_start demo_env = mem_end fresh_heap"
  "sf_mem_grow demo_env fresh_heap = (mem_start demo_env, fresh_heap\<lparr>mem_end := mem_end fresh_heap + PAGE_SZ\<rparr>)"
  "page_apart demo_env (mem_start demo_env)" "\<forall>i. quick_first fresh_heap i = NULL"
  by (simp_all add: fresh_heap_def raw_state_def demo_grow_def page_apart_def mult16_def all_lists)

lemma get_aligned_block_eval: "get_aligned_block 100 = 112" "get_aligned_block 1 = 32" "get_aligned_block 3000 = 3008"
  by (simp_all add: get_aligned_block_def Let_def)

lemma mallocs_disjoint_witness:
  "\<exists>ps s'. mallocs demo_env [100, 1, 3000, 100] fresh_heap = Ret (ps, s') \<and> length ps = 4 \<and>
    apart_regions (zip ps [100, 1, 3000, 100])"
  using mallocs_disjoint[OF fresh_heap_facts, of "[100, 1, 3000, 100]"] by (auto simp: get_aligned_block_eval)

lemma fresh_first_page: "\<exists>s1. first_page demo_env fresh_heap = Ret s1 \<and> mem s1 8184 = 0"
  unfolding first_page_def fresh_heap_facts(2) prod.case Let_def
  by (simp add: set_next_def set_prev_def set_header_def set_prev_footer_def add_footer_def write_row_def header_def
      strip_bits_def fresh_heap_def raw_state_def initialize_frame all_lists)

lemma driver_returns_page_witness:
  "\<exists>s'. sf_main demo_env fresh_heap = Ret (0, FIVE_55, s') \<and> one_block demo_env s' 4096 4080 0"
proof -
  obtain s1 where s1: "first_page demo_env fresh_heap = Ret s1" "mem s1 8184 = 0" using fresh_first_page by blast
  have "(header s1 (mem_start demo_env + 4080) XOR magic demo_env) AND 4 \<noteq> 0" by (simp add: header_def s1(2))
  from driver_returns_page[OF fresh_heap_facts s1(1) this] show ?thesis by simp
qed

lemma sf_malloc_exact_fit_witness:
  "\<exists>s'. sf_malloc demo_env 112 (demo_listed 4352 0 128 0) = Ret (payload 4352, s') \<and>
    whole_result demo_env (demo_listed 4352 0 128 0) ((\<lambda>i. [])(2 := [4352])) ((\<lambda>i. [])(2 := [4352], 2 := [] @ [])) 4352 128 0 s'"
proof -
  have n: "get_aligned_block 112 = 128" by (simp add: get_aligned_block_def Let_def)
  have P: "pools demo_env (demo_listed 4352 0 128 0) ((\<lambda>i. [])(2 := [4352]))"
    by (rule demo_listed_pools) (simp_all add: m16 all_lists get_free_list_index_def)
  have h: "header (demo_listed 4352 0 128 0) 4352 XOR magic demo_env = 128 OR 0"
    by (subst demo_listed_header) (simp_all add: m16 all_lists)
  show ?thesis
    by (rule sf_malloc_exact_fit[OF P _ _ _ h, where pre = "[]" and post = "[]" and i = 2])
      (simp_all add: n get_free_list_index_def all_lists m16 no_quick_def block_apart_def, simp_all add: NUM_FREE_LISTS_def, auto)
qed

lemma rounds_return_page_witness:
  "\<exists>s'. rounds demo_env (\<lambda>a. 7) [[200, 300, 1000], [3000, 500]] fresh_heap = Ret s' \<and>
    one_block demo_env s' 4096 4080 0 \<and> mem_end s' = 8192"
proof -
  obtain s1 where s1: "first_page demo_env fresh_heap = Ret s1" "mem s1 8184 = 0" using fresh_first_page by blast
  have e: "ends_allocated demo_env s1 (mem_start demo_env + 4080)" by (simp add: ends_allocated_def header_def s1(2))
  have "list_all round_fits [[200, 300, 1000], [3000, 500]]"
    by (simp add: round_fits_def large_request_def get_aligned_block_def get_quick_list_index_def Let_def)
  from rounds_return_page[OF fresh_heap_facts s1(1) e _ this] show ?thesis by simp
qed

end
