(* ===== verification/Bytes.thy ===== *)
theory Bytes imports Prelude begin

text \<open>
  Integers as bytes, in memory order on a little-endian host and in network order, and the contract of
  a fixed-width encoding that the packet headers of hw5 and the audio files of hw1 share.
\<close>

unbundle bit_operations_syntax

section \<open>Fixed-width encodings\<close>

locale codec =
  fixes width :: nat
    and enc :: "'a \<Rightarrow> u8 list"
    and dec :: "u8 list \<Rightarrow> 'a"
  assumes enc_length: "length (enc x) = width"
    and dec_enc: "dec (enc x) = x"
begin

lemma dec_prefix: "dec (take width (enc x @ rest)) = x" "drop width (enc x @ rest) = rest"
  by (simp_all add: enc_length dec_enc)

lemma enc_inj: "enc x = enc y \<longleftrightarrow> x = y"
  using dec_enc by metis

primrec dec_list :: "nat \<Rightarrow> u8 list \<Rightarrow> 'a list" where
  "dec_list 0 bs = []"
| "dec_list (Suc n) bs = dec (take width bs) # dec_list n (drop width bs)"

lemma dec_list_concat: "dec_list (length xs) (concat (map enc xs) @ rest) = xs"
  by (induction xs) (simp_all add: enc_length dec_enc)

lemma concat_length: "length (concat (map enc xs)) = width * length xs"
  by (induction xs) (simp_all add: enc_length)

end

section \<open>Byte orders\<close>

definition u16_le :: "u16 \<Rightarrow> u8 list" where
  "u16_le w = [ucast w, ucast (drop_bit 8 w)]"

definition u16_of_le :: "u8 list \<Rightarrow> u16" where
  "u16_of_le bs = ucast (bs ! 0) OR push_bit 8 (ucast (bs ! 1))"

definition u32_le :: "u32 \<Rightarrow> u8 list" where
  "u32_le w = [ucast w, ucast (drop_bit 8 w), ucast (drop_bit 16 w), ucast (drop_bit 24 w)]"

definition u32_of_le :: "u8 list \<Rightarrow> u32" where
  "u32_of_le bs = ucast (bs ! 0) OR push_bit 8 (ucast (bs ! 1)) OR push_bit 16 (ucast (bs ! 2))
     OR push_bit 24 (ucast (bs ! 3))"

lemma u16_of_le_u16_le: "u16_of_le (u16_le w) = w"
proof (rule bit_word_eqI)
  fix n assume "n < LENGTH(16)"
  then have "n < 8 \<or> 8 \<le> n \<and> n < 16" by auto
  then show "bit (u16_of_le (u16_le w)) n = bit w n"
    by (auto simp: u16_of_le_def u16_le_def bit_or_iff bit_push_bit_iff bit_unsigned_iff bit_drop_bit_eq dest: bit_imp_le_length)
qed

lemma u32_of_le_u32_le: "u32_of_le (u32_le w) = w"
proof (rule bit_word_eqI)
  fix n assume "n < LENGTH(32)"
  then consider "n < 8" | "8 \<le> n" "n < 16" | "16 \<le> n" "n < 24" | "24 \<le> n" "n < 32" by fastforce
  then show "bit (u32_of_le (u32_le w)) n = bit w n"
    by cases (auto simp: u32_of_le_def u32_le_def bit_or_iff bit_push_bit_iff bit_unsigned_iff bit_drop_bit_eq dest: bit_imp_le_length)
qed

interpretation le16: codec 2 u16_le u16_of_le
  by unfold_locales (simp add: u16_le_def, rule u16_of_le_u16_le)

interpretation le32: codec 4 u32_le u32_of_le
  by unfold_locales (simp add: u32_le_def, rule u32_of_le_u32_le)

text \<open>Network order: \<open>htons\<close> and \<open>ntohs\<close> swap the bytes.\<close>

definition htons :: "u16 \<Rightarrow> u16" where
  "htons w = push_bit 8 w OR drop_bit 8 w"

definition ntohs :: "u16 \<Rightarrow> u16" where
  "ntohs w = push_bit 8 w OR drop_bit 8 w"

lemma ntohs_htons [simp]: "ntohs (htons w) = w"
proof (rule bit_word_eqI)
  fix n assume "n < LENGTH(16)"
  then have "n < 8 \<or> 8 \<le> n \<and> n < 16" by auto
  then show "bit (ntohs (htons w)) n = bit w n"
    by (auto simp: ntohs_def htons_def bit_or_iff bit_push_bit_iff bit_drop_bit_eq dest: bit_imp_le_length)
qed

definition htonl :: "u32 \<Rightarrow> u32" where
  "htonl w = push_bit 24 w OR (push_bit 8 w AND 0xFF0000) OR (drop_bit 8 w AND 0xFF00) OR drop_bit 24 w"

end
