(* ===== verification/Jeux_Protocol.thy ===== *)
theory Jeux_Protocol imports Bytes begin

text \<open>
  The packet layer of hw5: \<open>protocol.c\<close>, \<open>protocol.h\<close> and the two robust I/O routines it uses
  (\<open>rio_readn\<close>, \<open>rio_writen\<close> of \<open>csapp.c\<close>). The operating system's answers to \<open>read\<close> and \<open>write\<close> are
  a plan: each entry is a return value and whether \<open>errno\<close> is \<open>EINTR\<close> after it; once the plan is used
  up, every call transfers all it can.
\<close>

unbundle bit_operations_syntax

record net =
  inbox :: "int \<Rightarrow> u8 list"
  outbox :: "int \<Rightarrow> u8 list"
  read_plan :: "(int \<times> bool) list"
  write_plan :: "(int \<times> bool) list"

section \<open>Robust input and output\<close>

fun readn_loop ::
  "(int \<times> bool) list \<Rightarrow> nat \<Rightarrow> u8 list \<Rightarrow> u8 list \<Rightarrow> bool \<times> u8 list \<times> u8 list \<times> (int \<times> bool) list" where
  "readn_loop plan 0 inp got = (True, got, inp, plan)"
| "readn_loop [] nleft inp got = (True, got @ take nleft inp, drop nleft inp, [])"
| "readn_loop ((nread, eintr) # plan) nleft inp got =
     (if nread < 0
      then (if eintr then readn_loop plan nleft inp got else (False, got, inp, plan))
      else
        (let k = min (nat nread) (min nleft (length inp)) in
         if k = 0 then (True, got, inp, plan)
         else readn_loop plan (nleft - k) (drop k inp) (got @ take k inp)))"

definition rio_readn :: "int \<Rightarrow> nat \<Rightarrow> net \<Rightarrow> int \<times> u8 list \<times> net" where
  "rio_readn fd n s =
     (case readn_loop (read_plan s) n (inbox s fd) [] of (ok, got, rest, plan) \<Rightarrow>
        (if ok then int (length got) else -1, got, s\<lparr>inbox := (inbox s)(fd := rest), read_plan := plan\<rparr>))"

fun writen_loop ::
  "(int \<times> bool) list \<Rightarrow> nat \<Rightarrow> u8 list \<Rightarrow> u8 list \<Rightarrow> bool \<times> u8 list \<times> (int \<times> bool) list" where
  "writen_loop plan 0 buf out = (True, out, plan)"
| "writen_loop [] nleft buf out = (True, out @ take nleft buf, [])"
| "writen_loop ((nwritten, eintr) # plan) nleft buf out =
     (if nwritten \<le> 0
      then (if eintr then writen_loop plan nleft buf out else (False, out, plan))
      else
        (let k = min (nat nwritten) nleft
         in writen_loop plan (nleft - k) (drop k buf) (out @ take k buf)))"

definition rio_writen :: "int \<Rightarrow> u8 list \<Rightarrow> nat \<Rightarrow> net \<Rightarrow> int \<times> net" where
  "rio_writen fd buf n s =
     (case writen_loop (write_plan s) n buf (outbox s fd) of (ok, out, plan) \<Rightarrow>
        (if ok then int n else -1, s\<lparr>outbox := (outbox s)(fd := out), write_plan := plan\<rparr>))"

section \<open>Packets\<close>

datatype packet_type =
    JEUX_NO_PKT
  | JEUX_LOGIN_PKT | JEUX_USERS_PKT | JEUX_INVITE_PKT | JEUX_REVOKE_PKT
  | JEUX_ACCEPT_PKT | JEUX_DECLINE_PKT | JEUX_MOVE_PKT | JEUX_RESIGN_PKT
  | JEUX_ACK_PKT | JEUX_NACK_PKT
  | JEUX_INVITED_PKT | JEUX_REVOKED_PKT | JEUX_ACCEPTED_PKT | JEUX_DECLINED_PKT
  | JEUX_MOVED_PKT | JEUX_RESIGNED_PKT | JEUX_ENDED_PKT

definition packet_types :: "packet_type list" where
  "packet_types = [JEUX_NO_PKT, JEUX_LOGIN_PKT, JEUX_USERS_PKT, JEUX_INVITE_PKT, JEUX_REVOKE_PKT,
     JEUX_ACCEPT_PKT, JEUX_DECLINE_PKT, JEUX_MOVE_PKT, JEUX_RESIGN_PKT, JEUX_ACK_PKT, JEUX_NACK_PKT,
     JEUX_INVITED_PKT, JEUX_REVOKED_PKT, JEUX_ACCEPTED_PKT, JEUX_DECLINED_PKT, JEUX_MOVED_PKT,
     JEUX_RESIGNED_PKT, JEUX_ENDED_PKT]"

text \<open>The value of an enumeration constant is its position.\<close>

definition packet_code :: "packet_type \<Rightarrow> u8" where
  "packet_code t = of_nat (length (takeWhile (\<lambda>u. u \<noteq> t) packet_types))"

text \<open>
  The header as the compiler lays it out: 16 bytes with padding at offsets 3, 6 and 7. The multi-byte
  fields hold network-order values.
\<close>

record packet_header =
  ptype :: u8
  pid :: u8
  prole :: u8
  pad3 :: u8
  psize :: u16
  pad67 :: u16
  timestamp_sec :: u32
  timestamp_nsec :: u32

definition header_bytes :: "packet_header \<Rightarrow> u8 list" where
  "header_bytes h = [ptype h, pid h, prole h, pad3 h] @ u16_le (psize h) @ u16_le (pad67 h) @
     u32_le (timestamp_sec h) @ u32_le (timestamp_nsec h)"

definition header_of_bytes :: "u8 list \<Rightarrow> packet_header" where
  "header_of_bytes bs = \<lparr>ptype = bs ! 0, pid = bs ! 1, prole = bs ! 2, pad3 = bs ! 3,
     psize = u16_of_le (take 2 (drop 4 bs)), pad67 = u16_of_le (take 2 (drop 6 bs)),
     timestamp_sec = u32_of_le (take 4 (drop 8 bs)), timestamp_nsec = u32_of_le (take 4 (drop 12 bs))\<rparr>"

definition proto_send_packet :: "int \<Rightarrow> packet_header \<Rightarrow> u8 list option \<Rightarrow> net \<Rightarrow> int \<times> net" where
  "proto_send_packet fd hdr data s =
     (let payload_size = unat (ntohs (psize hdr)) in
      case rio_writen fd (header_bytes hdr) 16 s of (r, s) \<Rightarrow>
        if r < 0 then (-1, s)
        else
          (case data of
             None \<Rightarrow> (0, s)
           | Some d \<Rightarrow>
               if payload_size \<noteq> 0
               then (case rio_writen fd d payload_size s of (r, s) \<Rightarrow> if r < 0 then (-1, s) else (0, s))
               else (0, s)))"

text \<open>
  \<open>old\<close> is what the caller's header structure holds before the call, \<open>junk\<close> what \<open>malloc\<close> leaves in the
  payload buffer: a short read keeps them. The results are the return value, the header, the payload
  with its terminating zero, if one was allocated, and the state.
\<close>

definition proto_recv_packet ::
  "int \<Rightarrow> packet_header \<Rightarrow> (nat \<Rightarrow> u8) \<Rightarrow> net \<Rightarrow> int \<times> packet_header \<times> u8 list option \<times> net" where
  "proto_recv_packet fd old junk s =
     (case rio_readn fd 16 s of (r, bs, s) \<Rightarrow>
        let hdr = header_of_bytes (bs @ drop (length bs) (header_bytes old)) in
        if r \<le> 0 then (-1, hdr, None, s)
        else
          (let payload_size = unat (ntohs (psize hdr)) in
           if payload_size \<noteq> 0
           then (case rio_readn fd payload_size s of (r, d, s) \<Rightarrow>
                   let buf = d @ map junk [length d ..< payload_size] in
                   if r \<le> 0 then (-1, hdr, Some (buf @ [junk payload_size]), s)
                   else (0, hdr, Some (buf @ [0]), s))
           else (0, hdr, None, s)))"

section \<open>Encoding\<close>

lemma header_bytes_length [simp]: "length (header_bytes h) = 16"
  by (simp add: header_bytes_def u16_le_def u32_le_def)

lemma header_of_bytes_bytes: "header_of_bytes (header_bytes h) = h"
proof -
  have l: "length (u16_le w) = 2" "length (u32_le v) = 4" for w v by (simp_all add: u16_le_def u32_le_def)
  have t: "take 2 (drop 4 (header_bytes h)) = u16_le (psize h)"
    "take 2 (drop 6 (header_bytes h)) = u16_le (pad67 h)"
    "take 4 (drop 8 (header_bytes h)) = u32_le (timestamp_sec h)"
    "take 4 (drop 12 (header_bytes h)) = u32_le (timestamp_nsec h)"
    by (simp_all add: header_bytes_def u16_le_def u32_le_def eval_nat_numeral)
  have n: "header_bytes h ! 0 = ptype h" "header_bytes h ! 1 = pid h" "header_bytes h ! 2 = prole h"
    "header_bytes h ! 3 = pad3 h"
    by (simp_all add: header_bytes_def eval_nat_numeral)
  show ?thesis
    unfolding header_of_bytes_def t n u16_of_le_u16_le u32_of_le_u32_le by simp
qed

interpretation hdr: codec 16 header_bytes header_of_bytes
  by unfold_locales (simp, rule header_of_bytes_bytes)

section \<open>Chunking does not matter\<close>

definition reads_progress :: "(int \<times> bool) list \<Rightarrow> bool" where
  "reads_progress plan = list_all (\<lambda>(r, eintr). 0 < r \<or> r < 0 \<and> eintr) plan"

definition writes_progress :: "(int \<times> bool) list \<Rightarrow> bool" where
  "writes_progress plan = list_all (\<lambda>(r, eintr). 0 < r \<or> eintr) plan"

lemma readn_loop_full:
  "reads_progress plan \<Longrightarrow> nleft \<le> length inp \<Longrightarrow>
   \<exists>plan'. readn_loop plan nleft inp got = (True, got @ take nleft inp, drop nleft inp, plan') \<and> reads_progress plan'"
proof (induction plan nleft inp got rule: readn_loop.induct)
  case (3 nread eintr plan n inp got)
  show ?case
  proof (cases "nread < 0")
    case True
    with 3 show ?thesis by (auto simp: reads_progress_def)
  next
    case False
    define k where "k = min (nat nread) (min (Suc n) (length inp))"
    have pos: "0 < nread" using 3(3) False by (auto simp: reads_progress_def)
    then have k: "k \<noteq> 0" "k \<le> Suc n" using 3(4) by (auto simp: k_def)
    have "\<exists>plan'. readn_loop plan (Suc n - k) (drop k inp) (got @ take k inp) =
        (True, (got @ take k inp) @ take (Suc n - k) (drop k inp), drop (Suc n - k) (drop k inp), plan') \<and> reads_progress plan'"
      by (rule 3(2)[OF False k_def]) (use 3(3,4) k in \<open>auto simp: reads_progress_def\<close>)
    moreover have "take k inp @ take (Suc n - k) (drop k inp) = take (Suc n) inp"
      using k(2) by (metis le_add_diff_inverse take_add)
    moreover have "drop (Suc n - k) (drop k inp) = drop (Suc n) inp" using k(2) by simp
    ultimately show ?thesis using False k(1) by (simp add: k_def[symmetric] Let_def)
  qed
qed (auto simp: reads_progress_def)

lemma writen_loop_full:
  "writes_progress plan \<Longrightarrow>
   \<exists>plan'. writen_loop plan nleft buf out = (True, out @ take nleft buf, plan') \<and> writes_progress plan'"
proof (induction plan nleft buf out rule: writen_loop.induct)
  case (3 nwritten eintr plan n buf out)
  show ?case
  proof (cases "nwritten \<le> 0")
    case True
    with 3 show ?thesis by (auto simp: writes_progress_def)
  next
    case False
    define k where "k = min (nat nwritten) (Suc n)"
    have k: "k \<le> Suc n" by (simp add: k_def)
    have "\<exists>plan'. writen_loop plan (Suc n - k) (drop k buf) (out @ take k buf) =
        (True, (out @ take k buf) @ take (Suc n - k) (drop k buf), plan') \<and> writes_progress plan'"
      by (rule 3(2)[OF False k_def]) (use 3(3) in \<open>auto simp: writes_progress_def\<close>)
    moreover have "take k buf @ take (Suc n - k) (drop k buf) = take (Suc n) buf"
      using k by (metis le_add_diff_inverse take_add)
    ultimately show ?thesis using False by (simp add: k_def[symmetric] Let_def)
  qed
qed (auto simp: writes_progress_def)

lemma rio_writen_full:
  assumes "writes_progress (write_plan s)" "length buf = n"
  shows "\<exists>plan. rio_writen fd buf n s = (int n, s\<lparr>outbox := (outbox s)(fd := outbox s fd @ buf), write_plan := plan\<rparr>)
    \<and> writes_progress plan"
  using writen_loop_full[OF assms(1), of n buf "outbox s fd"] assms(2) by (auto simp: rio_writen_def)

lemma rio_readn_full:
  assumes "reads_progress (read_plan s)" "inbox s fd = bs @ rest" "length bs = n"
  shows "\<exists>plan. rio_readn fd n s = (int n, bs, s\<lparr>inbox := (inbox s)(fd := rest), read_plan := plan\<rparr>) \<and> reads_progress plan"
  using readn_loop_full[OF assms(1), of n "inbox s fd" "[]"] assms(2,3) by (auto simp: rio_readn_def)

text \<open>What a packet looks like on the wire.\<close>

definition wire :: "packet_header \<Rightarrow> u8 list option \<Rightarrow> u8 list" where
  "wire hdr data = header_bytes hdr @ (case data of None \<Rightarrow> [] | Some d \<Rightarrow> d)"

definition well_sized :: "packet_header \<Rightarrow> u8 list option \<Rightarrow> bool" where
  "well_sized hdr data \<longleftrightarrow> unat (ntohs (psize hdr)) = (case data of None \<Rightarrow> 0 | Some d \<Rightarrow> length d)"

lemma send_packet_wire:
  assumes "writes_progress (write_plan s)" "well_sized hdr data"
  shows "\<exists>plan. proto_send_packet fd hdr data s =
    (0, s\<lparr>outbox := (outbox s)(fd := outbox s fd @ wire hdr data), write_plan := plan\<rparr>) \<and> writes_progress plan"
proof -
  obtain p1 where p1: "rio_writen fd (header_bytes hdr) 16 s =
      (16, s\<lparr>outbox := (outbox s)(fd := outbox s fd @ header_bytes hdr), write_plan := p1\<rparr>)" "writes_progress p1"
    using rio_writen_full[OF assms(1), of "header_bytes hdr" 16 fd] by auto
  show ?thesis
  proof (cases data)
    case None
    then show ?thesis using p1 by (auto simp: proto_send_packet_def wire_def)
  next
    case (Some d)
    let ?s = "s\<lparr>outbox := (outbox s)(fd := outbox s fd @ header_bytes hdr), write_plan := p1\<rparr>"
    obtain p2 where "rio_writen fd d (length d) ?s = (int (length d),
        s\<lparr>outbox := (outbox s)(fd := outbox s fd @ header_bytes hdr @ d), write_plan := p2\<rparr>)" "writes_progress p2"
      using rio_writen_full[of ?s d "length d" fd] p1(2) by auto
    then show ?thesis using p1 Some assms(2)
      by (cases "d = []") (auto simp: proto_send_packet_def wire_def well_sized_def)
  qed
qed

text \<open>
  C12: A packet sent by proto_send_packet and read by proto_recv_packet, through any pattern
  of partial transfers and interrupted calls, arrives with the same header and payload (a zero
  byte appended), and both sides succeed.
\<close>

theorem packet_roundtrip:
  assumes "writes_progress (write_plan s)" "reads_progress (read_plan r)"
    and "well_sized hdr data" "data \<noteq> Some []"
    and "proto_send_packet fd hdr data s = (res, s')" "outbox s fd = []"
    and "inbox r fd' = outbox s' fd @ rest"
  shows "res = 0 \<and> (\<exists>r'. proto_recv_packet fd' old junk r =
    (0, hdr, map_option (\<lambda>d. d @ [0]) data, r') \<and> inbox r' fd' = rest)"
proof -
  obtain plan where "proto_send_packet fd hdr data s =
    (0, s\<lparr>outbox := (outbox s)(fd := wire hdr data), write_plan := plan\<rparr>)"
    using send_packet_wire[OF assms(1,3), of fd] assms(6) by auto
  then have res: "res = 0" and i: "inbox r fd' = header_bytes hdr @ (case data of None \<Rightarrow> [] | Some d \<Rightarrow> d) @ rest"
    using assms(5,7) by (auto simp: wire_def)
  obtain p1 where p1: "rio_readn fd' 16 r = (16, header_bytes hdr,
      r\<lparr>inbox := (inbox r)(fd' := (case data of None \<Rightarrow> [] | Some d \<Rightarrow> d) @ rest), read_plan := p1\<rparr>)" "reads_progress p1"
    using rio_readn_full[OF assms(2) i, of 16] by auto
  show ?thesis
  proof (cases data)
    case None
    then show ?thesis using p1 res assms(3)
      by (simp add: proto_recv_packet_def header_of_bytes_bytes well_sized_def)
  next
    case (Some d)
    let ?r = "r\<lparr>inbox := (inbox r)(fd' := d @ rest), read_plan := p1\<rparr>"
    have "inbox ?r fd' = d @ rest" "reads_progress (read_plan ?r)" using p1(2) by simp_all
    from rio_readn_full[OF this(2,1) refl] obtain p2 where
      "rio_readn fd' (length d) ?r = (int (length d), d, ?r\<lparr>inbox := (inbox ?r)(fd' := rest), read_plan := p2\<rparr>)" by blast
    moreover have "d \<noteq> []" "unat (ntohs (psize hdr)) = length d" using assms(3,4) Some by (auto simp: well_sized_def)
    ultimately show ?thesis using p1 res Some
      by (simp add: proto_recv_packet_def header_of_bytes_bytes Let_def)
  qed
qed

text \<open>A peer that closes in the middle of a header is not noticed.\<close>

theorem short_header_accepted:
  assumes "read_plan r = []" "0 < length (inbox r fd)" "length (inbox r fd) < 16"
    and "h = header_of_bytes (inbox r fd @ drop (length (inbox r fd)) (header_bytes old))" "psize h = 0"
  shows "\<exists>r'. proto_recv_packet fd old junk r = (0, h, None, r')"
proof -
  have n: "(16::nat) = Suc 15" by simp
  have "readn_loop [] 16 (inbox r fd) [] = (True, inbox r fd, [], [])"
    unfolding n readn_loop.simps using assms(3) by simp
  then have "rio_readn fd 16 r = (int (length (inbox r fd)), inbox r fd, r\<lparr>inbox := (inbox r)(fd := []), read_plan := []\<rparr>)"
    by (simp add: rio_readn_def assms(1))
  then show ?thesis using assms(2,5) by (simp add: proto_recv_packet_def assms(4)[symmetric] ntohs_def Let_def)
qed

end
