(* ===== verification/Jeux_State.thy ===== *)
theory Jeux_State imports Jeux_Protocol begin

text \<open>
  The objects of the hw5 server (\<open>player.c\<close>, \<open>invitation.c\<close>, \<open>client.c\<close>, \<open>player_registry.c\<close>,
  \<open>client_registry.c\<close>): structures with reference counts and semaphores in a heap of references, the
  two registries, the network, and what comes from outside (\<open>malloc\<close>, the clock, the game module
  behind \<open>game.h\<close>, which has no implementation under \<open>src/\<close>). An operation is a function on this state
  that may get stuck: on a null or dangling pointer, an index out of bounds, or a semaphore that is
  never posted.
\<close>

section \<open>Objects\<close>

type_synonym ref = nat

abbreviation (input) null :: ref where "null \<equiv> 0"

datatype game_role = NULL_ROLE | FIRST_PLAYER_ROLE | SECOND_PLAYER_ROLE

datatype invitation_state = INV_OPEN_STATE | INV_ACCEPTED_STATE | INV_CLOSED_STATE

record player =
  pl_count :: int
  pl_rating :: int
  pl_name :: string
  pl_mutex :: nat

record invitation =
  in_count :: int
  in_src :: ref
  in_target :: ref
  in_state :: invitation_state
  in_game :: ref
  in_src_role :: game_role
  in_target_role :: game_role
  in_mutex :: nat

record client =
  cl_count :: int
  cl_fd :: int
  cl_logged_in :: int
  cl_player :: ref
  cl_invs :: "nat \<Rightarrow> ref"
  cl_inv_count :: nat
  cl_mutex :: nat

record client_registry =
  cr_count :: nat
  cr_connections :: "nat \<Rightarrow> ref"
  cr_mutex :: nat
  cr_pin :: nat
  cr_cli :: nat

record player_registry =
  pr_count :: nat
  pr_players :: "nat \<Rightarrow> ref"
  pr_mutex :: nat

record 'g world =
  players :: "ref \<Rightarrow> player option"
  invitations :: "ref \<Rightarrow> invitation option"
  clients :: "ref \<Rightarrow> client option"
  games :: "ref \<Rightarrow> 'g option"
  creg :: client_registry
  preg :: player_registry
  next_ref :: ref
  network :: net
  ticks :: nat
  shut :: "int list"

text \<open>
  What the server does not implement: whether the \<open>n\<close>-th allocation succeeds and what bytes it leaves
  after a copied name, the clock, uninitialised padding and locals, and the operations of \<open>game.h\<close>.
\<close>

record ('g, 'm) jeux_env =
  malloc_ok :: "ref \<Rightarrow> bool"
  name_junk :: "ref \<Rightarrow> string"
  slot_junk :: "ref \<Rightarrow> nat \<Rightarrow> ref"
  clock :: "nat \<Rightarrow> u32 \<times> u32"
  pad_junk :: "nat \<Rightarrow> u8 \<times> u16"
  p1_junk :: int
  game_create :: "'g option"
  game_ref :: "'g \<Rightarrow> 'g"
  game_apply_move :: "'g \<Rightarrow> 'm \<Rightarrow> int \<times> 'g"
  game_resign :: "'g \<Rightarrow> game_role \<Rightarrow> int \<times> 'g"
  game_unparse_state :: "'g \<Rightarrow> string"
  game_is_over :: "'g \<Rightarrow> int"
  game_get_winner :: "'g \<Rightarrow> game_role"
  game_parse_move :: "'g \<Rightarrow> game_role \<Rightarrow> string \<Rightarrow> 'm option"

section \<open>Sequencing\<close>

type_synonym ('g, 'a) jx = "'g world \<Rightarrow> ('a \<times> 'g world) outcome"

definition give :: "'a \<Rightarrow> ('g, 'a) jx" where
  "give x w = Ret (x, w)"

definition stuck :: "fault \<Rightarrow> ('g, 'a) jx" where
  "stuck e w = Stuck e"

definition bind :: "('g, 'a) jx \<Rightarrow> ('a \<Rightarrow> ('g, 'b) jx) \<Rightarrow> ('g, 'b) jx" where
  "bind m f w = (case m w of Ret (x, w') \<Rightarrow> f x w' | Stuck e \<Rightarrow> Stuck e)"

definition after :: "('g, unit) jx \<Rightarrow> ('g, 'b) jx \<Rightarrow> ('g, 'b) jx" where
  "after m n = bind m (\<lambda>_. n)"

named_theorems jx_defs

declare give_def [jx_defs] stuck_def [jx_defs] bind_def [jx_defs] after_def [jx_defs]

lemma bind_assoc: "bind (bind m f) g = bind m (\<lambda>x. bind (f x) g)"
  by (auto simp: bind_def fun_eq_iff split: outcome.splits)

lemma bind_give [simp]: "bind (give x) f = f x"
  by (auto simp: bind_def give_def fun_eq_iff)

section \<open>Access to the heap\<close>

definition get_player :: "ref \<Rightarrow> ('g, player) jx" where
  "get_player r w = (if r = null then Stuck Null_deref else
     case players w r of None \<Rightarrow> Stuck Use_after_free | Some x \<Rightarrow> Ret (x, w))"

definition put_player :: "ref \<Rightarrow> player \<Rightarrow> ('g, unit) jx" where
  "put_player r x w = Ret ((), w\<lparr>players := (players w)(r \<mapsto> x)\<rparr>)"

definition get_inv :: "ref \<Rightarrow> ('g, invitation) jx" where
  "get_inv r w = (if r = null then Stuck Null_deref else
     case invitations w r of None \<Rightarrow> Stuck Use_after_free | Some x \<Rightarrow> Ret (x, w))"

definition put_inv :: "ref \<Rightarrow> invitation \<Rightarrow> ('g, unit) jx" where
  "put_inv r x w = Ret ((), w\<lparr>invitations := (invitations w)(r \<mapsto> x)\<rparr>)"

definition get_client :: "ref \<Rightarrow> ('g, client) jx" where
  "get_client r w = (if r = null then Stuck Null_deref else
     case clients w r of None \<Rightarrow> Stuck Use_after_free | Some x \<Rightarrow> Ret (x, w))"

definition put_client :: "ref \<Rightarrow> client \<Rightarrow> ('g, unit) jx" where
  "put_client r x w = Ret ((), w\<lparr>clients := (clients w)(r \<mapsto> x)\<rparr>)"

definition get_game :: "ref \<Rightarrow> ('g, 'g) jx" where
  "get_game r w = (if r = null then Stuck Null_deref else
     case games w r of None \<Rightarrow> Stuck Use_after_free | Some x \<Rightarrow> Ret (x, w))"

definition put_game :: "ref \<Rightarrow> 'g \<Rightarrow> ('g, unit) jx" where
  "put_game r x w = Ret ((), w\<lparr>games := (games w)(r \<mapsto> x)\<rparr>)"

text \<open>\<open>malloc\<close>: a fresh reference, or \<open>NULL\<close>.\<close>

definition malloc :: "('g, 'm) jeux_env \<Rightarrow> ('g, ref) jx" where
  "malloc E w = (if malloc_ok E (next_ref w) then Ret (next_ref w, w\<lparr>next_ref := next_ref w + 1\<rparr>)
     else Ret (null, w\<lparr>next_ref := next_ref w + 1\<rparr>))"

declare get_player_def [jx_defs] put_player_def [jx_defs] get_inv_def [jx_defs] put_inv_def [jx_defs]
  get_client_def [jx_defs] put_client_def [jx_defs] get_game_def [jx_defs] put_game_def [jx_defs]
  malloc_def [jx_defs]

section \<open>Semaphores\<close>

definition P_player :: "ref \<Rightarrow> ('g, unit) jx" where
  "P_player r = bind (get_player r) (\<lambda>x. if pl_mutex x = 0 then stuck Blocked
     else put_player r (x\<lparr>pl_mutex := pl_mutex x - 1\<rparr>))"

definition V_player :: "ref \<Rightarrow> ('g, unit) jx" where
  "V_player r = bind (get_player r) (\<lambda>x. put_player r (x\<lparr>pl_mutex := pl_mutex x + 1\<rparr>))"

definition P_inv :: "ref \<Rightarrow> ('g, unit) jx" where
  "P_inv r = bind (get_inv r) (\<lambda>x. if in_mutex x = 0 then stuck Blocked
     else put_inv r (x\<lparr>in_mutex := in_mutex x - 1\<rparr>))"

definition V_inv :: "ref \<Rightarrow> ('g, unit) jx" where
  "V_inv r = bind (get_inv r) (\<lambda>x. put_inv r (x\<lparr>in_mutex := in_mutex x + 1\<rparr>))"

definition P_client :: "ref \<Rightarrow> ('g, unit) jx" where
  "P_client r = bind (get_client r) (\<lambda>x. if cl_mutex x = 0 then stuck Blocked
     else put_client r (x\<lparr>cl_mutex := cl_mutex x - 1\<rparr>))"

definition V_client :: "ref \<Rightarrow> ('g, unit) jx" where
  "V_client r = bind (get_client r) (\<lambda>x. put_client r (x\<lparr>cl_mutex := cl_mutex x + 1\<rparr>))"

definition P_cr_mutex :: "('g, unit) jx" where
  "P_cr_mutex w = (if cr_mutex (creg w) = 0 then Stuck Blocked
     else Ret ((), w\<lparr>creg := (creg w)\<lparr>cr_mutex := cr_mutex (creg w) - 1\<rparr>\<rparr>))"

definition V_cr_mutex :: "('g, unit) jx" where
  "V_cr_mutex w = Ret ((), w\<lparr>creg := (creg w)\<lparr>cr_mutex := cr_mutex (creg w) + 1\<rparr>\<rparr>)"

definition P_cr_pin :: "('g, unit) jx" where
  "P_cr_pin w = (if cr_pin (creg w) = 0 then Stuck Blocked
     else Ret ((), w\<lparr>creg := (creg w)\<lparr>cr_pin := cr_pin (creg w) - 1\<rparr>\<rparr>))"

definition V_cr_pin :: "('g, unit) jx" where
  "V_cr_pin w = Ret ((), w\<lparr>creg := (creg w)\<lparr>cr_pin := cr_pin (creg w) + 1\<rparr>\<rparr>)"

definition P_cr_cli :: "('g, unit) jx" where
  "P_cr_cli w = (if cr_cli (creg w) = 0 then Stuck Blocked
     else Ret ((), w\<lparr>creg := (creg w)\<lparr>cr_cli := cr_cli (creg w) - 1\<rparr>\<rparr>))"

definition V_cr_cli :: "('g, unit) jx" where
  "V_cr_cli w = Ret ((), w\<lparr>creg := (creg w)\<lparr>cr_cli := cr_cli (creg w) + 1\<rparr>\<rparr>)"

definition P_pr_mutex :: "('g, unit) jx" where
  "P_pr_mutex w = (if pr_mutex (preg w) = 0 then Stuck Blocked
     else Ret ((), w\<lparr>preg := (preg w)\<lparr>pr_mutex := pr_mutex (preg w) - 1\<rparr>\<rparr>))"

definition V_pr_mutex :: "('g, unit) jx" where
  "V_pr_mutex w = Ret ((), w\<lparr>preg := (preg w)\<lparr>pr_mutex := pr_mutex (preg w) + 1\<rparr>\<rparr>)"

lemmas semaphore_defs = P_player_def V_player_def P_inv_def V_inv_def P_client_def V_client_def
  P_cr_mutex_def V_cr_mutex_def P_cr_pin_def V_cr_pin_def P_cr_cli_def V_cr_cli_def P_pr_mutex_def V_pr_mutex_def

declare semaphore_defs [jx_defs]

end
