(* ===== verification/Jeux_Player.thy ===== *)
theory Jeux_Player imports Complex_Main Jeux_State begin

text \<open>
  Players and the player registry of hw5 (\<open>player.c\<close>, \<open>player_registry.c\<close>).
\<close>

section \<open>Operations\<close>

definition PLAYER_INITIAL_RATING :: int where "PLAYER_INITIAL_RATING = 1500"

text \<open>
  The name is copied without its terminating zero, so that what a later \<open>strcmp\<close> reads is the name
  followed by whatever the allocated memory held.
\<close>

definition player_create :: "('g, 'm) jeux_env \<Rightarrow> string \<Rightarrow> ('g, ref) jx" where
  "player_create E name = bind (malloc E) (\<lambda>player.
     if player = null then stuck Null_deref
     else if length name > 250 then stuck Out_of_bounds
     else after (put_player player \<lparr>pl_count = 1, pl_rating = PLAYER_INITIAL_RATING,
                   pl_name = name @ name_junk E player, pl_mutex = 1\<rparr>)
            (give player))"

definition player_ref :: "ref \<Rightarrow> ('g, ref) jx" where
  "player_ref player =
     after (P_player player)
       (bind (get_player player) (\<lambda>x.
          after (put_player player (x\<lparr>pl_count := pl_count x + 1\<rparr>))
            (after (V_player player) (give player))))"

definition free_player :: "ref \<Rightarrow> ('g, unit) jx" where
  "free_player r w = Ret ((), w\<lparr>players := (players w)(r := None)\<rparr>)"

definition player_unref :: "ref \<Rightarrow> ('g, unit) jx" where
  "player_unref player = bind (get_player player) (\<lambda>x.
     if pl_count x = 0 then give ()
     else after (P_player player)
       (bind (get_player player) (\<lambda>x.
          after (put_player player (x\<lparr>pl_count := pl_count x - 1\<rparr>))
            (after (V_player player)
              (bind (get_player player) (\<lambda>x.
                 if pl_count x = 0 then free_player player else give ()))))))"

definition player_get_name :: "ref \<Rightarrow> ('g, string) jx" where
  "player_get_name player = bind (get_player player) (\<lambda>x. give (pl_name x))"

definition player_get_rating :: "ref \<Rightarrow> ('g, int) jx" where
  "player_get_rating player = bind (get_player player) (\<lambda>x. give (pl_rating x))"

text \<open>\<open>pow(10, k)\<close> and the conversion of a \<open>double\<close> to \<open>int\<close>, over the rationals.\<close>

definition pow10 :: "int \<Rightarrow> rat" where
  "pow10 k = (if 0 \<le> k then 10 ^ nat k else 1 / 10 ^ nat (- k))"

definition trunc :: "rat \<Rightarrow> int" where
  "trunc q = (if 0 \<le> q then \<lfloor>q\<rfloor> else \<lceil>q\<rceil>)"

text \<open>The expected score: the quotient in the exponent is a division of \<open>int\<close>s.\<close>

definition expected :: "int \<Rightarrow> int \<Rightarrow> rat" where
  "expected r1 r2 = 1 / (1 + pow10 (c_div (r2 - r1) 400))"

definition new_rating :: "int \<Rightarrow> int \<Rightarrow> rat \<Rightarrow> int" where
  "new_rating r s e = trunc (of_int r + 32 * (of_int s - e))"

text \<open>The scores are \<open>int\<close>s: the 0.5 of a tie is stored as 0.\<close>

definition player_post_result :: "ref \<Rightarrow> ref \<Rightarrow> int \<Rightarrow> ('g, unit) jx" where
  "player_post_result player1 player2 result =
     after (P_player player1) (after (P_player player2)
       (bind (player_get_rating player1) (\<lambda>r1. bind (player_get_rating player2) (\<lambda>r2.
          let e1 = expected r1 r2; e2 = expected r2 r1;
              set_ratings = (\<lambda>s1 s2.
                bind (get_player player1) (\<lambda>x.
                  after (put_player player1 (x\<lparr>pl_rating := new_rating r1 s1 e1\<rparr>))
                    (bind (get_player player2) (\<lambda>y.
                       put_player player2 (y\<lparr>pl_rating := new_rating r2 s2 e2\<rparr>)))))
          in after (if result = 0 then set_ratings (trunc 0.5) (trunc 0.5)
                    else if result = 1 then set_ratings 1 0
                    else if result = 2 then set_ratings 0 1
                    else give ())
               (after (V_player player1) (V_player player2))))))"

section \<open>The registry\<close>

definition preg_init :: "(nat \<Rightarrow> ref) \<Rightarrow> player_registry" where
  "preg_init junk = \<lparr>pr_count = 0, pr_players = junk, pr_mutex = 1\<rparr>"

fun preg_fini_loop :: "nat list \<Rightarrow> ('g, unit) jx" where
  "preg_fini_loop [] = give ()"
| "preg_fini_loop (i # is) = bind (\<lambda>w. Ret (pr_players (preg w) i, w)) (\<lambda>p.
     after (player_unref p) (preg_fini_loop is))"

definition preg_fini :: "('g, unit) jx" where
  "preg_fini w = preg_fini_loop [0 ..< pr_count (preg w)] w"

text \<open>The search: the first index whose player has the name.\<close>

fun preg_find :: "string \<Rightarrow> nat list \<Rightarrow> ('g, ref option) jx" where
  "preg_find name [] = give None"
| "preg_find name (i # is) = bind (\<lambda>w. Ret (pr_players (preg w) i, w)) (\<lambda>p.
     bind (player_get_name p) (\<lambda>n. if name = n then give (Some p) else preg_find name is))"

definition preg_store :: "ref \<Rightarrow> ('g, unit) jx" where
  "preg_store p w = (let n = pr_count (preg w) in
     if n \<ge> 250 then Stuck Out_of_bounds
     else Ret ((), w\<lparr>preg := (preg w)\<lparr>pr_players := (pr_players (preg w))(n := p), pr_count := n + 1\<rparr>\<rparr>))"

definition preg_register :: "('g, 'm) jeux_env \<Rightarrow> string \<Rightarrow> ('g, ref) jx" where
  "preg_register E name =
     after P_pr_mutex
       (bind (\<lambda>w. preg_find name [0 ..< pr_count (preg w)] w) (\<lambda>r.
          case r of
            Some p \<Rightarrow> bind (player_ref p) (\<lambda>_. after V_pr_mutex (give p))
          | None \<Rightarrow>
              bind (player_create E name) (\<lambda>p.
                bind (player_ref p) (\<lambda>_.
                  after (preg_store p) (after V_pr_mutex (give p))))))"

section \<open>Reference counts\<close>

definition exec :: "('g, 'a) jx \<Rightarrow> 'g world \<Rightarrow> 'g world outcome" where
  "exec m w = andThen (m w) (\<lambda>(x, w). Ret w)"

primrec repeat :: "nat \<Rightarrow> ('w \<Rightarrow> 'w outcome) \<Rightarrow> 'w \<Rightarrow> 'w outcome" where
  "repeat 0 f w = Ret w"
| "repeat (Suc n) f w = andThen (f w) (repeat n f)"

locale refcounted =
  fixes refs :: "'w \<Rightarrow> int option"
    and take_ref :: "'w \<Rightarrow> 'w outcome"
    and drop_ref :: "'w \<Rightarrow> 'w outcome"
    and usable :: "'w \<Rightarrow> bool"
  assumes take_law: "usable w \<Longrightarrow> refs w = Some c \<Longrightarrow> \<exists>w'. take_ref w = Ret w' \<and> usable w' \<and> refs w' = Some (c + 1)"
    and drop_law: "usable w \<Longrightarrow> refs w = Some c \<Longrightarrow> 1 < c \<Longrightarrow> \<exists>w'. drop_ref w = Ret w' \<and> usable w' \<and> refs w' = Some (c - 1)"
    and last_law: "usable w \<Longrightarrow> refs w = Some 1 \<Longrightarrow> \<exists>w'. drop_ref w = Ret w' \<and> refs w' = None"
begin

lemma take_n: "usable w \<Longrightarrow> refs w = Some c \<Longrightarrow>
   \<exists>w'. repeat n take_ref w = Ret w' \<and> usable w' \<and> refs w' = Some (c + int n)"
proof (induction n arbitrary: w c)
  case (Suc n)
  from take_law[OF Suc.prems] obtain w1 where w1: "take_ref w = Ret w1" "usable w1" "refs w1 = Some (c + 1)" by blast
  with Suc.IH[OF w1(2,3)] show ?case by (auto simp: algebra_simps)
qed simp

lemma drop_n: "usable w \<Longrightarrow> refs w = Some c \<Longrightarrow> int n < c \<Longrightarrow>
   \<exists>w'. repeat n drop_ref w = Ret w' \<and> usable w' \<and> refs w' = Some (c - int n)"
proof (induction n arbitrary: w c)
  case (Suc n)
  from drop_law[OF Suc.prems(1,2)] Suc.prems(3) obtain w1
    where w1: "drop_ref w = Ret w1" "usable w1" "refs w1 = Some (c - 1)" by auto
  with Suc.IH[OF w1(2,3)] Suc.prems(3) show ?case by (auto simp: algebra_simps)
qed simp

lemma repeat_Suc_end: "repeat (Suc n) f w = andThen (repeat n f w) f"
proof (induction n arbitrary: w)
  case 0
  show ?case by (cases "f w") simp_all
next
  case (Suc n)
  then show ?case by (cases "f w") simp_all
qed

lemma balanced:
  assumes "usable w" "refs w = Some c" "0 < c"
  shows "\<exists>w1 w2. repeat n take_ref w = Ret w1 \<and> repeat n drop_ref w1 = Ret w2 \<and> refs w2 = Some c \<and>
    (\<exists>w3. repeat (n + nat c) drop_ref w1 = Ret w3 \<and> refs w3 = None)"
proof -
  obtain w1 where w1: "repeat n take_ref w = Ret w1" "usable w1" "refs w1 = Some (c + int n)"
    using take_n[OF assms(1,2)] by blast
  obtain w2 where w2: "repeat n drop_ref w1 = Ret w2" "refs w2 = Some c"
    using drop_n[OF w1(2,3), of n] assms(3) by auto
  obtain k where k: "n + nat c = Suc k" "int k = c + int n - 1" using assms(3) by (cases "n + nat c") auto
  obtain v where v: "repeat k drop_ref w1 = Ret v" "usable v" "refs v = Some 1"
    using drop_n[OF w1(2,3), of k] k(2) by auto
  obtain w3 where "drop_ref v = Ret w3" "refs w3 = None" using last_law[OF v(2,3)] by blast
  then have "repeat (n + nat c) drop_ref w1 = Ret w3" "refs w3 = None"
    unfolding k(1) repeat_Suc_end by (simp_all add: v(1))
  with w1 w2 show ?thesis by blast
qed

end

lemma player_ref_eval:
  "players w p = Some x \<Longrightarrow> p \<noteq> null \<Longrightarrow> 0 < pl_mutex x \<Longrightarrow>
   player_ref p w = Ret (p, w\<lparr>players := (players w)(p \<mapsto> x\<lparr>pl_count := pl_count x + 1\<rparr>)\<rparr>)"
  by (simp add: player_ref_def jx_defs)

lemma player_unref_eval:
  "players w p = Some x \<Longrightarrow> p \<noteq> null \<Longrightarrow> 0 < pl_mutex x \<Longrightarrow> 0 < pl_count x \<Longrightarrow>
   player_unref p w = Ret ((), w\<lparr>players := (players w)(p :=
     if pl_count x = 1 then None else Some (x\<lparr>pl_count := pl_count x - 1\<rparr>))\<rparr>)"
  by (simp add: player_unref_def free_player_def jx_defs)

definition player_refs :: "ref \<Rightarrow> 'g world \<Rightarrow> int option" where
  "player_refs p w = map_option pl_count (players w p)"

definition player_usable :: "ref \<Rightarrow> 'g world \<Rightarrow> bool" where
  "player_usable p w \<longleftrightarrow> p \<noteq> null \<and> (\<forall>x. players w p = Some x \<longrightarrow> 0 < pl_mutex x)"

interpretation player_rc: refcounted "player_refs p" "exec (player_ref p)" "exec (player_unref p)" "player_usable p"
  by unfold_locales (auto simp: player_refs_def player_usable_def exec_def player_ref_eval player_unref_eval)

theorem player_refcount_balanced:
  assumes "player_usable p w" "player_refs p w = Some c" "0 < c"
  shows "\<exists>w1 w2. repeat n (exec (player_ref p)) w = Ret w1 \<and> repeat n (exec (player_unref p)) w1 = Ret w2 \<and>
    player_refs p w2 = Some c \<and> (\<exists>w3. repeat (n + nat c) (exec (player_unref p)) w1 = Ret w3 \<and> player_refs p w3 = None)"
  using assms by (rule player_rc.balanced)

section \<open>Ratings\<close>

lemma c_div_minus: "c_div (- a) b = - c_div a b"
  by (simp add: c_div_def)

lemma pow10_pos: "0 < pow10 k"
  by (simp add: pow10_def)

lemma pow10_minus: "pow10 (- k) = 1 / pow10 k"
  by (cases "k = 0") (auto simp: pow10_def)

lemma expected_range: "0 < expected r1 r2" "expected r1 r2 < 1"
  using pow10_pos[of "c_div (r2 - r1) 400"] by (simp_all add: expected_def field_simps)

lemma expected_sum: "expected r1 r2 + expected r2 r1 = 1"
proof -
  have "c_div (r1 - r2) 400 = - c_div (r2 - r1) 400" using c_div_minus[of "r2 - r1" 400] by simp
  then show ?thesis
    using pow10_pos[of "c_div (r2 - r1) 400"] by (simp add: expected_def pow10_minus field_simps)
qed

lemma trunc_pos: "0 \<le> q \<Longrightarrow> trunc q = \<lfloor>q\<rfloor>"
  by (simp add: trunc_def)

lemma post_result_eval:
  assumes "players w p1 = Some x" "players w p2 = Some y" "p1 \<noteq> null" "p2 \<noteq> null" "p1 \<noteq> p2"
    "0 < pl_mutex x" "0 < pl_mutex y"
    and s: "result = 1 \<and> s1 = 1 \<and> s2 = 0 \<or> result = 2 \<and> s1 = 0 \<and> s2 = 1 \<or> result = 0 \<and> s1 = 0 \<and> s2 = 0"
  shows "player_post_result p1 p2 result w = Ret ((), w\<lparr>players := (players w)
    (p1 \<mapsto> x\<lparr>pl_rating := new_rating (pl_rating x) s1 (expected (pl_rating x) (pl_rating y))\<rparr>,
     p2 \<mapsto> y\<lparr>pl_rating := new_rating (pl_rating y) s2 (expected (pl_rating y) (pl_rating x))\<rparr>)\<rparr>)"
proof -
  have "\<lfloor>1 / 2 :: rat\<rfloor> = 0" by (simp add: floor_eq_iff)
  then have t: "trunc 0.5 = 0" by (simp add: trunc_def)
  show ?thesis using assms unfolding player_post_result_def t
    by (elim disjE) (simp_all add: player_get_rating_def jx_defs Let_def fun_upd_twist)
qed


text \<open>The winner gains what the loser loses, up to one point of rounding.\<close>

theorem post_result_win:
  assumes "players w p1 = Some x" "players w p2 = Some y" "p1 \<noteq> null" "p2 \<noteq> null" "p1 \<noteq> p2"
    "0 < pl_mutex x" "0 < pl_mutex y" "0 \<le> pl_rating x" "32 \<le> pl_rating y"
  shows "\<exists>a b. player_post_result p1 p2 1 w =
      Ret ((), w\<lparr>players := (players w)(p1 \<mapsto> x\<lparr>pl_rating := a\<rparr>, p2 \<mapsto> y\<lparr>pl_rating := b\<rparr>)\<rparr>) \<and>
    pl_rating x \<le> a \<and> a \<le> pl_rating x + 31 \<and> pl_rating y - 32 \<le> b \<and> b < pl_rating y \<and>
    (a + b = pl_rating x + pl_rating y \<or> a + b = pl_rating x + pl_rating y - 1)"
proof -
  let ?r1 = "pl_rating x" and ?r2 = "pl_rating y"
  define d where "d = 32 * (1 - expected ?r1 ?r2)"
  have d: "0 < d" "d < 32" using expected_range[of ?r1 ?r2] by (simp_all add: d_def)
  have e: "expected ?r2 ?r1 = 1 - expected ?r1 ?r2" using expected_sum[of ?r1 ?r2] by simp
  define a where "a = \<lfloor>of_int ?r1 + d\<rfloor>"
  define b where "b = \<lfloor>of_int ?r2 - d\<rfloor>"
  have "new_rating ?r1 1 (expected ?r1 ?r2) = a"
    using d assms(8) unfolding new_rating_def a_def d_def by (subst trunc_pos) auto
  moreover have "0 \<le> (of_int ?r2 :: rat) - d" using d assms(9) by linarith
  then have "new_rating ?r2 0 (expected ?r2 ?r1) = b"
    unfolding new_rating_def b_def d_def e by (subst trunc_pos) (simp_all add: algebra_simps)
  moreover have "?r1 \<le> a \<and> a \<le> ?r1 + 31 \<and> ?r2 - 32 \<le> b \<and> b < ?r2 \<and> (a + b = ?r1 + ?r2 \<or> a + b = ?r1 + ?r2 - 1)"
    using d unfolding a_def b_def by linarith
  ultimately show ?thesis using post_result_eval[OF assms(1-7), of 1 1 0] by auto
qed

text \<open>A tie takes 32 points out of the system instead of none.\<close>

theorem post_result_tie_loses:
  assumes "players w p1 = Some x" "players w p2 = Some y" "p1 \<noteq> null" "p2 \<noteq> null" "p1 \<noteq> p2"
    "0 < pl_mutex x" "0 < pl_mutex y" "32 \<le> pl_rating x" "32 \<le> pl_rating y"
  shows "\<exists>a b. player_post_result p1 p2 0 w =
      Ret ((), w\<lparr>players := (players w)(p1 \<mapsto> x\<lparr>pl_rating := a\<rparr>, p2 \<mapsto> y\<lparr>pl_rating := b\<rparr>)\<rparr>) \<and>
    a < pl_rating x \<and> b < pl_rating y \<and>
    (a + b = pl_rating x + pl_rating y - 32 \<or> a + b = pl_rating x + pl_rating y - 33)"
proof -
  let ?r1 = "pl_rating x" and ?r2 = "pl_rating y"
  define d where "d = 32 * expected ?r1 ?r2"
  have d: "0 < d" "d < 32" using expected_range[of ?r1 ?r2] by (simp_all add: d_def)
  have e: "expected ?r2 ?r1 = 1 - expected ?r1 ?r2" using expected_sum[of ?r1 ?r2] by simp
  define a where "a = \<lfloor>of_int ?r1 - d\<rfloor>"
  define b where "b = \<lfloor>of_int ?r2 - (32 - d)\<rfloor>"
  have "0 \<le> (of_int ?r1 :: rat) - d" "0 \<le> (of_int ?r2 :: rat) - (32 - d)" using d assms(8,9) by linarith+
  then have "new_rating ?r1 0 (expected ?r1 ?r2) = a" "new_rating ?r2 0 (expected ?r2 ?r1) = b"
    unfolding new_rating_def a_def b_def d_def e by (subst trunc_pos; simp add: algebra_simps)+
  moreover have "a < ?r1 \<and> b < ?r2 \<and> (a + b = ?r1 + ?r2 - 32 \<or> a + b = ?r1 + ?r2 - 33)"
    using d unfolding a_def b_def by linarith
  ultimately show ?thesis using post_result_eval[OF assms(1-7), of 0 0 0] by auto
qed

section \<open>The player registry\<close>

text \<open>The registered players in order, and the invariant: live, unlocked players with distinct names.\<close>

definition preg_refs :: "'g world \<Rightarrow> ref list" where
  "preg_refs w = map (pr_players (preg w)) [0 ..< pr_count (preg w)]"

definition preg_names :: "'g world \<Rightarrow> string list" where
  "preg_names w = map (\<lambda>p. pl_name (the (players w p))) (preg_refs w)"

definition preg_ok :: "'g world \<Rightarrow> bool" where
  "preg_ok w \<longleftrightarrow> 0 < pr_mutex (preg w) \<and> distinct (preg_names w) \<and>
     (\<forall>p\<in>set (preg_refs w). p \<noteq> null \<and> p < next_ref w \<and> (\<exists>x. players w p = Some x \<and> 0 < pl_mutex x \<and> 0 < pl_count x))"

lemma preg_find_spec:
  "\<forall>i\<in>set is. pr_players (preg w) i \<noteq> null \<and> players w (pr_players (preg w) i) \<noteq> None \<Longrightarrow>
   preg_find name is w =
     Ret (find (\<lambda>p. name = pl_name (the (players w p))) (map (pr_players (preg w)) is), w)"
proof (induction "is")
  case Nil
  show ?case by (simp add: give_def)
next
  case (Cons i "is")
  then obtain x where "players w (pr_players (preg w) i) = Some x" by auto
  with Cons show ?case by (auto simp: jx_defs player_get_name_def)
qed

lemma preg_search:
  assumes "preg_ok w"
  shows "preg_find name [0 ..< pr_count (preg w)] w =
    Ret (find (\<lambda>p. name = pl_name (the (players w p))) (preg_refs w), w)"
  unfolding preg_refs_def
  by (rule preg_find_spec) (use assms in \<open>fastforce simp: preg_ok_def preg_refs_def\<close>)

lemma find_name: "name \<in> f ` set xs \<Longrightarrow> \<exists>p\<in>set xs. find (\<lambda>p. name = f p) xs = Some p \<and> f p = name"
  by (induction xs) auto

lemma find_no_name: "name \<notin> f ` set xs \<Longrightarrow> find (\<lambda>p. name = f p) xs = None"
  by (induction xs) auto

lemma preg_refs_players [simp]: "preg_refs (w\<lparr>players := q\<rparr>) = preg_refs w"
  by (simp add: preg_refs_def)

lemma preg_register_existing:
  assumes "preg_ok w" "name \<in> set (preg_names w)"
  shows "\<exists>p x. p \<in> set (preg_refs w) \<and> players w p = Some x \<and> pl_name x = name \<and>
    preg_register E name w = Ret (p, w\<lparr>players := (players w)(p \<mapsto> x\<lparr>pl_count := pl_count x + 1\<rparr>)\<rparr>)"
proof -
  obtain p where p: "p \<in> set (preg_refs w)" "pl_name (the (players w p)) = name"
      "find (\<lambda>p. name = pl_name (the (players w p))) (preg_refs w) = Some p"
    using find_name[of name "\<lambda>p. pl_name (the (players w p))" "preg_refs w"] assms(2) by (auto simp: preg_names_def)
  then obtain x where x: "players w p = Some x" "0 < pl_mutex x" "p \<noteq> null"
    using assms(1) by (auto simp: preg_ok_def)
  let ?w1 = "w\<lparr>preg := (preg w)\<lparr>pr_mutex := pr_mutex (preg w) - 1\<rparr>\<rparr>"
  have "preg_find name [0 ..< pr_count (preg w)] ?w1 = Ret (Some p, ?w1)"
    using preg_find_spec[of "[0 ..< pr_count (preg w)]" ?w1 name] assms(1) p(3)
    by (fastforce simp: preg_ok_def preg_refs_def)
  moreover have "0 < pr_mutex (preg w)" using assms(1) by (simp add: preg_ok_def)
  ultimately have "preg_register E name w = Ret (p, w\<lparr>players := (players w)(p \<mapsto> x\<lparr>pl_count := pl_count x + 1\<rparr>)\<rparr>)"
    using x player_ref_eval[of ?w1 p x] by (simp add: preg_register_def jx_defs)
  with p x show ?thesis by auto
qed

definition new_player :: "('g, 'm) jeux_env \<Rightarrow> string \<Rightarrow> ref \<Rightarrow> player" where
  "new_player E name p = \<lparr>pl_count = 2, pl_rating = PLAYER_INITIAL_RATING, pl_name = name @ name_junk E p, pl_mutex = 1\<rparr>"

lemma preg_register_new:
  assumes "preg_ok w" "name \<notin> set (preg_names w)" "pr_count (preg w) < 250" "malloc_ok E (next_ref w)"
    "next_ref w \<noteq> null" "length name \<le> 250"
  shows "preg_register E name w = Ret (next_ref w, w\<lparr>players := (players w)(next_ref w \<mapsto> new_player E name (next_ref w)),
    next_ref := next_ref w + 1,
    preg := (preg w)\<lparr>pr_players := (pr_players (preg w))(pr_count (preg w) := next_ref w), pr_count := pr_count (preg w) + 1\<rparr>\<rparr>)"
proof -
  let ?w1 = "w\<lparr>preg := (preg w)\<lparr>pr_mutex := pr_mutex (preg w) - 1\<rparr>\<rparr>"
  have "find (\<lambda>p. name = pl_name (the (players w p))) (preg_refs w) = None"
    using assms(2) by (intro find_no_name) (simp add: preg_names_def)
  then have "preg_find name [0 ..< pr_count (preg w)] ?w1 = Ret (None, ?w1)"
    using preg_find_spec[of "[0 ..< pr_count (preg w)]" ?w1 name] assms(1)
    by (fastforce simp: preg_ok_def preg_refs_def)
  moreover have "0 < pr_mutex (preg w)" using assms(1) by (simp add: preg_ok_def)
  ultimately show ?thesis
    using assms(3-6) by (simp add: preg_register_def player_create_def player_ref_def preg_store_def jx_defs Let_def new_player_def)
qed

lemma preg_refs_snoc:
  "preg_refs (w\<lparr>players := q, next_ref := m, preg := (preg w)\<lparr>pr_players := (pr_players (preg w))(pr_count (preg w) := p),
     pr_count := pr_count (preg w) + 1\<rparr>\<rparr>) = preg_refs w @ [p]"
  by (simp add: preg_refs_def)

theorem preg_register_spec:
  assumes ok: "preg_ok w" and room: "pr_count (preg w) < 250" "length name \<le> 250"
    and m: "malloc_ok E (next_ref w)" "name_junk E (next_ref w) = []" "next_ref w \<noteq> null"
  shows "\<exists>p w' x. preg_register E name w = Ret (p, w') \<and> preg_ok w' \<and>
    preg_names w' = (if name \<in> set (preg_names w) then preg_names w else preg_names w @ [name]) \<and>
    p \<in> set (preg_refs w') \<and> players w' p = Some x \<and> pl_name x = name \<and>
    pl_count x = (if name \<in> set (preg_names w) then pl_count (the (players w p)) + 1 else 2)"
proof (cases "name \<in> set (preg_names w)")
  case True
  from preg_register_existing[OF ok this] obtain p x where p: "p \<in> set (preg_refs w)" "players w p = Some x"
      "pl_name x = name" "preg_register E name w = Ret (p, w\<lparr>players := (players w)(p \<mapsto> x\<lparr>pl_count := pl_count x + 1\<rparr>)\<rparr>)"
    by blast
  let ?w' = "w\<lparr>players := (players w)(p \<mapsto> x\<lparr>pl_count := pl_count x + 1\<rparr>)\<rparr>"
  have "preg_names ?w' = preg_names w" using p(2) by (auto simp: preg_names_def)
  moreover from this have "preg_ok ?w'" using ok p(1,2) by (auto simp: preg_ok_def)
  ultimately show ?thesis using p True by auto
next
  case False
  let ?p = "next_ref w"
  note r = preg_register_new[OF ok False room(1) m(1,3) room(2)]
  define w' where "w' = w\<lparr>players := (players w)(?p \<mapsto> new_player E name ?p), next_ref := ?p + 1,
    preg := (preg w)\<lparr>pr_players := (pr_players (preg w))(pr_count (preg w) := ?p), pr_count := pr_count (preg w) + 1\<rparr>\<rparr>"
  have old: "q < ?p" if "q \<in> set (preg_refs w)" for q using ok that by (auto simp: preg_ok_def)
  have refs: "preg_refs w' = preg_refs w @ [?p]" unfolding w'_def by (rule preg_refs_snoc)
  have "players w' q = (if q = ?p then Some (new_player E name ?p) else players w q)" for q by (simp add: w'_def)
  then have names: "preg_names w' = preg_names w @ [name]"
    using old m(2) by (auto simp: preg_names_def refs new_player_def)
  have "pr_mutex (preg w') = pr_mutex (preg w)" "next_ref w' = ?p + 1" by (simp_all add: w'_def)
  then have "preg_ok w'"
    using ok False old m(3) unfolding preg_ok_def names refs by (fastforce simp: w'_def new_player_def)
  then show ?thesis using False r refs names m(2) by (auto simp: w'_def[symmetric]) (auto simp: w'_def new_player_def)
qed

text \<open>
  \<open>player_create\<close> copies the name without its terminator: when the memory it gets is not zero, the
  same user name is registered twice.
\<close>

theorem preg_register_duplicates:
  assumes ok: "preg_ok w" and room: "pr_count (preg w) < 249" "length name \<le> 250" "name \<notin> set (preg_names w)"
    and m: "malloc_ok E (next_ref w)" "malloc_ok E (next_ref w + 1)" "name_junk E (next_ref w) \<noteq> []" "next_ref w \<noteq> null"
    and fresh: "name @ name_junk E (next_ref w) \<notin> set (preg_names w)"
  shows "\<exists>p q w1 w2. preg_register E name w = Ret (p, w1) \<and> preg_register E name w1 = Ret (q, w2) \<and> p \<noteq> q"
proof -
  let ?p = "next_ref w"
  define w1 where "w1 = w\<lparr>players := (players w)(?p \<mapsto> new_player E name ?p), next_ref := ?p + 1,
    preg := (preg w)\<lparr>pr_players := (pr_players (preg w))(pr_count (preg w) := ?p), pr_count := pr_count (preg w) + 1\<rparr>\<rparr>"
  have r: "preg_register E name w = Ret (?p, w1)"
    unfolding w1_def by (rule preg_register_new[OF ok room(3) _ m(1,4) room(2)]) (use room(1) in simp)
  have old: "q < ?p" if "q \<in> set (preg_refs w)" for q using ok that by (auto simp: preg_ok_def)
  have refs: "preg_refs w1 = preg_refs w @ [?p]" unfolding w1_def by (rule preg_refs_snoc)
  have "players w1 q = (if q = ?p then Some (new_player E name ?p) else players w q)" for q by (simp add: w1_def)
  then have names: "preg_names w1 = preg_names w @ [name @ name_junk E ?p]"
    using old by (auto simp: preg_names_def refs new_player_def)
  have "pr_mutex (preg w1) = pr_mutex (preg w)" "next_ref w1 = ?p + 1" "pr_count (preg w1) = pr_count (preg w) + 1"
    by (simp_all add: w1_def)
  moreover from this have "preg_ok w1"
    using ok fresh old m(4) unfolding preg_ok_def names refs by (fastforce simp: w1_def new_player_def)
  ultimately have "\<exists>w2. preg_register E name w1 = Ret (next_ref w1, w2)"
    using preg_register_new[of w1 name E] room m(2,3) names by auto
  then show ?thesis using r \<open>next_ref w1 = ?p + 1\<close> by force
qed

end
