(* ===== verification/Jeux_Invitation.thy ===== *)
theory Jeux_Invitation imports Jeux_Player begin

text \<open>
  Clients as objects (\<open>client.c\<close>: creation, reference counts, accessors) and invitations
  (\<open>invitation.c\<close>) of hw5. An invitation moves from open to accepted to closed; accepting it creates
  a game.
\<close>

section \<open>Clients as objects\<close>

definition client_create :: "('g, 'm) jeux_env \<Rightarrow> int \<Rightarrow> ('g, ref) jx" where
  "client_create E fd = bind (malloc E) (\<lambda>cli.
     if cli = null then give null
     else after (put_client cli \<lparr>cl_count = 1, cl_fd = fd, cl_logged_in = 0, cl_player = null,
                   cl_invs = slot_junk E cli, cl_inv_count = 0, cl_mutex = 1\<rparr>)
            (give cli))"

definition client_ref :: "ref \<Rightarrow> ('g, ref) jx" where
  "client_ref client =
     after (P_client client)
       (bind (get_client client) (\<lambda>x.
          after (put_client client (x\<lparr>cl_count := cl_count x + 1\<rparr>))
            (after (V_client client) (give client))))"

definition free_client :: "ref \<Rightarrow> ('g, unit) jx" where
  "free_client r w = Ret ((), w\<lparr>clients := (clients w)(r := None)\<rparr>)"

definition client_unref :: "ref \<Rightarrow> ('g, unit) jx" where
  "client_unref client = bind (get_client client) (\<lambda>x.
     if cl_count x = 0 then give ()
     else after (P_client client)
       (bind (get_client client) (\<lambda>x.
          after (put_client client (x\<lparr>cl_count := cl_count x - 1\<rparr>))
            (after (V_client client)
              (bind (get_client client) (\<lambda>x.
                 if cl_count x = 0 then free_client client else give ()))))))"

definition client_get_player :: "ref \<Rightarrow> ('g, ref) jx" where
  "client_get_player client = bind (get_client client) (\<lambda>x.
     if cl_logged_in x = 0 then give null else give (cl_player x))"

definition client_get_fd :: "ref \<Rightarrow> ('g, int) jx" where
  "client_get_fd client = bind (get_client client) (\<lambda>x. give (cl_fd x))"

section \<open>Invitations\<close>

definition inv_create ::
  "('g, 'm) jeux_env \<Rightarrow> ref \<Rightarrow> ref \<Rightarrow> game_role \<Rightarrow> game_role \<Rightarrow> ('g, ref) jx" where
  "inv_create E source target source_role target_role =
     (if source = target then give null
      else bind (malloc E) (\<lambda>iv.
        if iv = null then give null
        else bind (client_ref source) (\<lambda>_. bind (client_ref target) (\<lambda>_.
          after (put_inv iv \<lparr>in_count = 1, in_src = source, in_target = target, in_state = INV_OPEN_STATE,
                   in_game = null, in_src_role = source_role, in_target_role = target_role, in_mutex = 1\<rparr>)
            (give iv)))))"

definition inv_ref :: "ref \<Rightarrow> ('g, ref) jx" where
  "inv_ref iv =
     after (P_inv iv)
       (bind (get_inv iv) (\<lambda>x.
          after (put_inv iv (x\<lparr>in_count := in_count x + 1\<rparr>))
            (after (V_inv iv) (give iv))))"

definition free_inv :: "ref \<Rightarrow> ('g, unit) jx" where
  "free_inv r w = Ret ((), w\<lparr>invitations := (invitations w)(r := None)\<rparr>)"

definition inv_unref :: "ref \<Rightarrow> ('g, unit) jx" where
  "inv_unref iv =
     (if iv = null then give ()
      else bind (get_inv iv) (\<lambda>x.
        if in_count x = 0 then give ()
        else after (P_inv iv)
          (bind (get_inv iv) (\<lambda>x.
             after (put_inv iv (x\<lparr>in_count := in_count x - 1\<rparr>))
               (after (V_inv iv)
                 (bind (get_inv iv) (\<lambda>x.
                    if in_count x = 0 then free_inv iv else give ())))))))"

definition inv_get_source :: "ref \<Rightarrow> ('g, ref) jx" where
  "inv_get_source iv = bind (get_inv iv) (\<lambda>x. give (in_src x))"

definition inv_get_target :: "ref \<Rightarrow> ('g, ref) jx" where
  "inv_get_target iv = bind (get_inv iv) (\<lambda>x. give (in_target x))"

definition inv_get_source_role :: "ref \<Rightarrow> ('g, game_role) jx" where
  "inv_get_source_role iv = bind (get_inv iv) (\<lambda>x. give (in_src_role x))"

definition inv_get_target_role :: "ref \<Rightarrow> ('g, game_role) jx" where
  "inv_get_target_role iv = bind (get_inv iv) (\<lambda>x. give (in_target_role x))"

definition inv_get_game :: "ref \<Rightarrow> ('g, ref) jx" where
  "inv_get_game iv = bind (get_inv iv) (\<lambda>x. give (in_game x))"

text \<open>The game module: \<open>game_create\<close> returns \<open>NULL\<close> when the parameter gives no game.\<close>

definition new_game :: "('g, 'm) jeux_env \<Rightarrow> ('g, ref) jx" where
  "new_game E = (case game_create E of
       None \<Rightarrow> give null
     | Some g \<Rightarrow> bind (\<lambda>w. Ret (next_ref w, w\<lparr>next_ref := next_ref w + 1\<rparr>)) (\<lambda>r.
         after (put_game r g) (give r)))"

definition resign :: "('g, 'm) jeux_env \<Rightarrow> ref \<Rightarrow> game_role \<Rightarrow> ('g, int) jx" where
  "resign E game role = bind (get_game game) (\<lambda>g.
     case game_resign E g role of (r, g') \<Rightarrow> after (put_game game g') (give r))"

definition is_over :: "('g, 'm) jeux_env \<Rightarrow> ref \<Rightarrow> ('g, int) jx" where
  "is_over E game = bind (get_game game) (\<lambda>g. give (game_is_over E g))"

definition inv_accept :: "('g, 'm) jeux_env \<Rightarrow> ref \<Rightarrow> ('g, int) jx" where
  "inv_accept E iv = bind (get_inv iv) (\<lambda>x.
     if in_state x \<noteq> INV_OPEN_STATE then give (-1)
     else after (P_inv iv)
       (bind (get_inv iv) (\<lambda>x.
          after (put_inv iv (x\<lparr>in_state := INV_ACCEPTED_STATE\<rparr>))
            (bind (new_game E) (\<lambda>g.
               bind (get_inv iv) (\<lambda>x.
                 after (put_inv iv (x\<lparr>in_game := g\<rparr>))
                   (after (V_inv iv) (give 0))))))))"

definition inv_close :: "('g, 'm) jeux_env \<Rightarrow> ref \<Rightarrow> game_role \<Rightarrow> ('g, int) jx" where
  "inv_close E iv role =
     after (P_inv iv)
       (bind (get_inv iv) (\<lambda>x.
          if in_state x = INV_OPEN_STATE \<or> in_state x = INV_ACCEPTED_STATE
          then bind (if role = NULL_ROLE \<and> in_game x \<noteq> null then is_over E (in_game x) else give 1) (\<lambda>over.
             if over = 0 then after (V_inv iv) (give (-1))
             else after (put_inv iv (x\<lparr>in_state := INV_CLOSED_STATE\<rparr>))
               (bind (if in_game x \<noteq> null then resign E (in_game x) role else give 0) (\<lambda>_.
                  after (V_inv iv) (give 0))))
          else give (-1)))"

section \<open>Behaviour\<close>

lemma client_ref_eval:
  "clients w c = Some x \<Longrightarrow> c \<noteq> null \<Longrightarrow> 0 < cl_mutex x \<Longrightarrow>
   client_ref c w = Ret (c, w\<lparr>clients := (clients w)(c \<mapsto> x\<lparr>cl_count := cl_count x + 1\<rparr>)\<rparr>)"
  by (simp add: client_ref_def jx_defs)

lemma client_unref_eval:
  "clients w c = Some x \<Longrightarrow> c \<noteq> null \<Longrightarrow> 0 < cl_mutex x \<Longrightarrow> 0 < cl_count x \<Longrightarrow>
   client_unref c w = Ret ((), w\<lparr>clients := (clients w)(c :=
     if cl_count x = 1 then None else Some (x\<lparr>cl_count := cl_count x - 1\<rparr>))\<rparr>)"
  by (simp add: client_unref_def free_client_def jx_defs)

lemma inv_ref_eval:
  "invitations w i = Some x \<Longrightarrow> i \<noteq> null \<Longrightarrow> 0 < in_mutex x \<Longrightarrow>
   inv_ref i w = Ret (i, w\<lparr>invitations := (invitations w)(i \<mapsto> x\<lparr>in_count := in_count x + 1\<rparr>)\<rparr>)"
  by (simp add: inv_ref_def jx_defs)

lemma inv_unref_eval:
  "invitations w i = Some x \<Longrightarrow> i \<noteq> null \<Longrightarrow> 0 < in_mutex x \<Longrightarrow> 0 < in_count x \<Longrightarrow>
   inv_unref i w = Ret ((), w\<lparr>invitations := (invitations w)(i :=
     if in_count x = 1 then None else Some (x\<lparr>in_count := in_count x - 1\<rparr>))\<rparr>)"
  by (simp add: inv_unref_def free_inv_def jx_defs)

definition client_refs :: "ref \<Rightarrow> 'g world \<Rightarrow> int option" where
  "client_refs c w = map_option cl_count (clients w c)"

definition client_usable :: "ref \<Rightarrow> 'g world \<Rightarrow> bool" where
  "client_usable c w \<longleftrightarrow> c \<noteq> null \<and> (\<forall>x. clients w c = Some x \<longrightarrow> 0 < cl_mutex x)"

interpretation client_rc: refcounted "client_refs c" "exec (client_ref c)" "exec (client_unref c)" "client_usable c"
  by unfold_locales (auto simp: client_refs_def client_usable_def exec_def client_ref_eval client_unref_eval)

definition inv_refs :: "ref \<Rightarrow> 'g world \<Rightarrow> int option" where
  "inv_refs i w = map_option in_count (invitations w i)"

definition inv_usable :: "ref \<Rightarrow> 'g world \<Rightarrow> bool" where
  "inv_usable i w \<longleftrightarrow> i \<noteq> null \<and> (\<forall>x. invitations w i = Some x \<longrightarrow> 0 < in_mutex x)"

interpretation inv_rc: refcounted "inv_refs i" "exec (inv_ref i)" "exec (inv_unref i)" "inv_usable i"
  by unfold_locales (auto simp: inv_refs_def inv_usable_def exec_def inv_ref_eval inv_unref_eval)

theorem inv_refcount_balanced:
  assumes "inv_usable i w" "inv_refs i w = Some c" "0 < c"
  shows "\<exists>w1 w2. repeat n (exec (inv_ref i)) w = Ret w1 \<and> repeat n (exec (inv_unref i)) w1 = Ret w2 \<and>
    inv_refs i w2 = Some c \<and> (\<exists>w3. repeat (n + nat c) (exec (inv_unref i)) w1 = Ret w3 \<and> inv_refs i w3 = None)"
  using assms by (rule inv_rc.balanced)

theorem client_refcount_balanced:
  assumes "client_usable c w" "client_refs c w = Some k" "0 < k"
  shows "\<exists>w1 w2. repeat n (exec (client_ref c)) w = Ret w1 \<and> repeat n (exec (client_unref c)) w1 = Ret w2 \<and>
    client_refs c w2 = Some k \<and> (\<exists>w3. repeat (n + nat k) (exec (client_unref c)) w1 = Ret w3 \<and> client_refs c w3 = None)"
  using assms by (rule client_rc.balanced)

section \<open>The life of an invitation\<close>

inductive inv_trans :: "invitation_state \<Rightarrow> invitation_state \<Rightarrow> bool" where
  accept: "inv_trans INV_OPEN_STATE INV_ACCEPTED_STATE"
| cancel: "inv_trans INV_OPEN_STATE INV_CLOSED_STATE"
| finish: "inv_trans INV_ACCEPTED_STATE INV_CLOSED_STATE"

inductive_cases inv_trans_closed: "inv_trans INV_CLOSED_STATE s"

lemma closed_final: "inv_trans\<^sup>*\<^sup>* INV_CLOSED_STATE s \<Longrightarrow> s = INV_CLOSED_STATE"
  by (erule converse_rtranclpE) (auto elim: inv_trans_closed)

text \<open>The states in the order of their values in the enumeration, which is the order in which they are passed.\<close>

fun stage :: "invitation_state \<Rightarrow> nat" where
  "stage INV_OPEN_STATE = 0"
| "stage INV_ACCEPTED_STATE = 1"
| "stage INV_CLOSED_STATE = 2"

lemma stage_inj: "stage s = stage t \<Longrightarrow> s = t"
  by (cases s; cases t) simp_all

instantiation invitation_state :: linorder
begin

definition less_eq_invitation_state :: "invitation_state \<Rightarrow> invitation_state \<Rightarrow> bool" where
  "less_eq_invitation_state s t \<longleftrightarrow> stage s \<le> stage t"

definition less_invitation_state :: "invitation_state \<Rightarrow> invitation_state \<Rightarrow> bool" where
  "less_invitation_state s t \<longleftrightarrow> stage s < stage t"

instance
  by standard (auto simp: less_eq_invitation_state_def less_invitation_state_def intro: stage_inj)

end

lemma inv_trans_less: "inv_trans s t \<Longrightarrow> s < t"
  by (induction rule: inv_trans.induct) (simp_all add: less_invitation_state_def)

lemma inv_trans_le: "inv_trans\<^sup>*\<^sup>* s t \<Longrightarrow> s \<le> t"
  by (induction rule: rtranclp_induct) (auto dest: inv_trans_less)

definition inv_ok :: "invitation \<Rightarrow> bool" where
  "inv_ok x \<longleftrightarrow> (in_state x = INV_OPEN_STATE \<longrightarrow> in_game x = null) \<and>
     (in_state x = INV_ACCEPTED_STATE \<longrightarrow> in_game x \<noteq> null)"

definition same_parties :: "invitation \<Rightarrow> invitation \<Rightarrow> bool" where
  "same_parties x y \<longleftrightarrow> in_src x = in_src y \<and> in_target x = in_target y \<and>
     in_src_role x = in_src_role y \<and> in_target_role x = in_target_role y \<and> in_count x = in_count y"

lemma inv_accept_open:
  assumes "invitations w i = Some x" "i \<noteq> null" "in_state x = INV_OPEN_STATE" "0 < in_mutex x" "game_create E = Some g"
  shows "inv_accept E i w = Ret (0, w\<lparr>next_ref := next_ref w + 1, games := (games w)(next_ref w \<mapsto> g),
    invitations := (invitations w)(i \<mapsto> x\<lparr>in_state := INV_ACCEPTED_STATE, in_game := next_ref w\<rparr>)\<rparr>)"
  using assms by (simp add: inv_accept_def new_game_def jx_defs)

lemma inv_accept_closed:
  assumes "invitations w i = Some x" "i \<noteq> null" "in_state x \<noteq> INV_OPEN_STATE"
  shows "inv_accept E i w = Ret (-1, w)"
  using assms by (simp add: inv_accept_def jx_defs)

lemma is_over_eval: "is_over E r w = Ret (v, w') \<Longrightarrow> w' = w \<and> (\<exists>g. games w r = Some g \<and> v = game_is_over E g)"
  by (auto simp: is_over_def jx_defs split: if_splits option.splits)

lemma resign_eval: "resign E r role w = Ret (v, w') \<Longrightarrow> \<exists>g. games w r = Some g \<and> v = fst (game_resign E g role) \<and>
   w' = w\<lparr>games := (games w)(r \<mapsto> snd (game_resign E g role))\<rparr>"
  by (auto simp: resign_def jx_defs split_beta split: if_splits option.splits)

lemma inv_close_step:
  assumes x: "invitations w i = Some x" "inv_close E i role w = Ret (v, w')"
  shows "\<exists>x'. invitations w' i = Some x' \<and> same_parties x x' \<and> in_game x' = in_game x \<and> next_ref w' = next_ref w \<and>
    (v = 0 \<and> inv_trans (in_state x) INV_CLOSED_STATE \<and> in_state x' = INV_CLOSED_STATE \<or> v = -1 \<and> in_state x' = in_state x)"
proof -
  have i: "i \<noteq> null" "0 < in_mutex x"
    using assms by (auto simp: inv_close_def jx_defs split: if_splits)
  show ?thesis
  proof (cases "in_state x = INV_CLOSED_STATE")
    case True
    then show ?thesis using assms i by (auto simp: inv_close_def jx_defs same_parties_def)
  next
    case False
    then have t: "inv_trans (in_state x) INV_CLOSED_STATE" "in_state x = INV_OPEN_STATE \<or> in_state x = INV_ACCEPTED_STATE"
      by (cases "in_state x"; simp add: inv_trans.intros)+
    let ?x = "x\<lparr>in_mutex := in_mutex x - 1\<rparr>" 
    let ?w = "w\<lparr>invitations := (invitations w)(i \<mapsto> ?x)\<rparr>"
    have c0: "inv_close E i role w =
        bind (if role = NULL_ROLE \<and> in_game x \<noteq> null then is_over E (in_game x) else give 1) (\<lambda>over.
          if over = 0 then after (V_inv i) (give (-1))
          else after (put_inv i (?x\<lparr>in_state := INV_CLOSED_STATE\<rparr>))
            (bind (if in_game x \<noteq> null then resign E (in_game x) role else give 0) (\<lambda>_. after (V_inv i) (give 0)))) ?w"
      using x(1) i t(2) by (auto simp: inv_close_def after_def bind_def P_inv_def get_inv_def put_inv_def cong: if_cong)
    have "\<exists>ov w1. (if role = NULL_ROLE \<and> in_game x \<noteq> null then is_over E (in_game x) else give 1) ?w = Ret (ov, w1)"
      using assms(2) unfolding c0 bind_def by (auto split: outcome.splits)
    then obtain ov w1 where o: "(if role = NULL_ROLE \<and> in_game x \<noteq> null then is_over E (in_game x) else give 1) ?w = Ret (ov, w1)"
      by blast
    then have w1: "w1 = ?w" by (auto dest: is_over_eval simp: give_def split: if_splits)
    show ?thesis
    proof (cases "ov = 0")
      case True
      have "inv_close E i role w = Ret (-1, w\<lparr>invitations := (invitations w)(i \<mapsto> x)\<rparr>)"
        unfolding c0 bind_def o using x(1) i w1 True by (simp add: jx_defs)
      then show ?thesis using assms(2) by (auto simp: same_parties_def)
    next
      case False
      let ?y = "?x\<lparr>in_state := INV_CLOSED_STATE\<rparr>"
      let ?w2 = "w\<lparr>invitations := (invitations w)(i \<mapsto> ?y)\<rparr>"
      have c: "inv_close E i role w =
          bind (if in_game x \<noteq> null then resign E (in_game x) role else give 0) (\<lambda>_. after (V_inv i) (give 0)) ?w2"
        unfolding c0 bind_def[of "if role = _ \<and> _ then _ else _"] o using w1 False
        by (simp add: after_def bind_def[of "put_inv _ _"] put_inv_def)
      then obtain r w3 where r: "(if in_game x \<noteq> null then resign E (in_game x) role else give 0) ?w2 = Ret (r, w3)"
        using assms(2) by (auto simp: bind_def split: outcome.splits)
      then have "invitations w3 i = Some ?y" "next_ref w3 = next_ref w"
        by (auto simp: give_def dest!: resign_eval split: if_splits)
      then show ?thesis using assms(2) i t(1) unfolding c bind_def r
        by (auto simp: jx_defs same_parties_def)
    qed
  qed
qed

lemma inv_accept_step:
  assumes "invitations w i = Some x" "inv_accept E i w = Ret (v, w')" "game_create E = Some g"
  shows "\<exists>x'. invitations w' i = Some x' \<and> same_parties x x' \<and> next_ref w \<le> next_ref w' \<and>
    (v = 0 \<and> inv_trans (in_state x) (in_state x') \<and> in_state x' = INV_ACCEPTED_STATE \<and> in_game x' = next_ref w \<or> v = -1 \<and> x' = x)"
proof -
  have i: "i \<noteq> null" using assms by (auto simp: inv_accept_def jx_defs split: if_splits)
  show ?thesis
  proof (cases "in_state x = INV_OPEN_STATE")
    case True
    then have "0 < in_mutex x" using assms i by (auto simp: inv_accept_def jx_defs split: if_splits)
    from inv_accept_open[OF assms(1) i True this assms(3)] assms(2) True show ?thesis
      by (auto simp: same_parties_def inv_trans.intros)
  next
    case False
    from inv_accept_closed[OF assms(1) i False, of E] assms(1,2) show ?thesis by (auto simp: same_parties_def)
  qed
qed

datatype inv_op = Accept | Close game_role

fun inv_run :: "('g, 'm) jeux_env \<Rightarrow> ref \<Rightarrow> inv_op list \<Rightarrow> 'g world \<Rightarrow> 'g world outcome" where
  "inv_run E i [] w = Ret w"
| "inv_run E i (Accept # ops) w = andThen (exec (inv_accept E i) w) (inv_run E i ops)"
| "inv_run E i (Close role # ops) w = andThen (exec (inv_close E i role) w) (inv_run E i ops)"

text \<open>
  Whatever is done to an invitation, its state only moves forward, its parties stay, and it has a
  game exactly from its acceptance on.
\<close>

lemma inv_run_steps:
  assumes "invitations w i = Some x" "inv_ok x" "game_create E = Some g" "0 < next_ref w" "inv_run E i ops w = Ret w'"
  shows "\<exists>x'. invitations w' i = Some x' \<and> inv_trans\<^sup>*\<^sup>* (in_state x) (in_state x') \<and> same_parties x x' \<and> inv_ok x'"
  using assms(1,2,4,5)
proof (induction ops arbitrary: w x)
  case Nil
  then show ?case by (auto simp: same_parties_def)
next
  case (Cons op ops)
  have "\<exists>w1 x1. invitations w1 i = Some x1 \<and> same_parties x x1 \<and> 0 < next_ref w1 \<and> inv_ok x1 \<and>
      inv_trans\<^sup>*\<^sup>* (in_state x) (in_state x1) \<and> inv_run E i ops w1 = Ret w'"
  proof (cases op)
    case Accept
    then obtain v w1 where w1: "inv_accept E i w = Ret (v, w1)" "inv_run E i ops w1 = Ret w'"
      using Cons.prems(4) by (auto simp: andThen_Ret_iff exec_def)
    from inv_accept_step[OF Cons.prems(1) w1(1) assms(3)] Cons.prems(2,3) w1(2) show ?thesis
      by (fastforce simp: inv_ok_def)
  next
    case (Close role)
    then obtain v w1 where w1: "inv_close E i role w = Ret (v, w1)" "inv_run E i ops w1 = Ret w'"
      using Cons.prems(4) by (auto simp: andThen_Ret_iff exec_def)
    from inv_close_step[OF Cons.prems(1) w1(1)] Cons.prems(2,3) w1(2) show ?thesis
      by (fastforce simp: inv_ok_def)
  qed
  then obtain w1 x1 where w1: "invitations w1 i = Some x1" "same_parties x x1" "0 < next_ref w1" "inv_ok x1"
      "inv_trans\<^sup>*\<^sup>* (in_state x) (in_state x1)" "inv_run E i ops w1 = Ret w'" by blast
  from Cons.IH[OF w1(1,4,3,6)] w1(2,5) show ?case by (fastforce simp: same_parties_def)
qed

text \<open>A game comes only with the acceptance of an open invitation, and is kept from then on.\<close>

lemma inv_run_game_kept:
  assumes "invitations w i = Some x" "inv_run E i ops w = Ret w'" "in_state x \<noteq> INV_OPEN_STATE" "game_create E = Some g"
  shows "\<exists>x'. invitations w' i = Some x' \<and> in_game x' = in_game x"
  using assms(1-3)
proof (induction ops arbitrary: w x)
  case (Cons op ops)
  have "\<exists>w1 x1. invitations w1 i = Some x1 \<and> in_game x1 = in_game x \<and> in_state x1 \<noteq> INV_OPEN_STATE \<and> inv_run E i ops w1 = Ret w'"
  proof (cases op)
    case Accept
    then obtain v w1 where w1: "inv_accept E i w = Ret (v, w1)" "inv_run E i ops w1 = Ret w'"
      using Cons.prems(2) by (auto simp: andThen_Ret_iff exec_def)
    have "i \<noteq> null" using w1(1) Cons.prems(1) by (auto simp: inv_accept_def jx_defs split: if_splits)
    then have "w1 = w" using w1(1) inv_accept_closed[OF Cons.prems(1) _ Cons.prems(3), of E] by simp
    then show ?thesis using Cons.prems w1(2) by blast
  next
    case (Close role)
    then obtain v w1 where w1: "inv_close E i role w = Ret (v, w1)" "inv_run E i ops w1 = Ret w'"
      using Cons.prems(2) by (auto simp: andThen_Ret_iff exec_def)
    obtain x1 where x1: "invitations w1 i = Some x1" "in_game x1 = in_game x" "in_state x1 = INV_CLOSED_STATE \<or> in_state x1 = in_state x"
      using inv_close_step[OF Cons.prems(1) w1(1)] by blast
    then have "in_state x1 \<noteq> INV_OPEN_STATE" using Cons.prems(3) by auto
    then show ?thesis using x1(1,2) w1(2) by blast
  qed
  then obtain w1 x1 where "invitations w1 i = Some x1" "in_game x1 = in_game x" "in_state x1 \<noteq> INV_OPEN_STATE" "inv_run E i ops w1 = Ret w'" by blast
  with Cons.IH show ?case by metis
qed simp

lemma inv_run_game:
  assumes x: "invitations w i = Some x" "inv_ok x" and g: "game_create E = Some g" "0 < next_ref w" and r: "inv_run E i ops w = Ret w'"
  shows "\<exists>x'. invitations w' i = Some x' \<and>
    (in_game x' \<noteq> null \<longleftrightarrow> in_game x \<noteq> null \<or> in_state x = INV_OPEN_STATE \<and> take 1 ops = [Accept])"
proof (cases "in_state x = INV_OPEN_STATE")
  case False
  then show ?thesis using inv_run_game_kept[OF x(1) r False g(1)] by auto
next
  case True
  then have n: "in_game x = null" using x(2) by (simp add: inv_ok_def)
  show ?thesis
  proof (cases ops)
    case Nil
    then show ?thesis using r x(1) n by simp
  next
    case (Cons op os)
    show ?thesis
    proof (cases op)
      case Accept
      then obtain v w1 where w1: "inv_accept E i w = Ret (v, w1)" "inv_run E i os w1 = Ret w'"
        using r Cons by (auto simp: andThen_Ret_iff exec_def)
      have i: "i \<noteq> null" "0 < in_mutex x" using w1(1) x(1) True by (auto simp: inv_accept_def jx_defs split: if_splits)
      have "invitations w1 i = Some (x\<lparr>in_state := INV_ACCEPTED_STATE, in_game := next_ref w\<rparr>)"
        using inv_accept_open[OF x(1) i(1) True i(2) g(1)] w1(1) by auto
      from inv_run_game_kept[OF this w1(2) _ g(1)] show ?thesis using True Cons Accept g(2) by auto
    next
      case (Close role)
      then obtain v w1 where w1: "inv_close E i role w = Ret (v, w1)" "inv_run E i os w1 = Ret w'"
        using r Cons by (auto simp: andThen_Ret_iff exec_def)
      have "i \<noteq> null" "0 < in_mutex x" using w1(1) x(1) by (auto simp: inv_close_def jx_defs split: if_splits)
      then have "invitations w1 i = Some (x\<lparr>in_state := INV_CLOSED_STATE\<rparr>)"
        using w1(1) x(1) True n by (cases x) (auto simp: inv_close_def jx_defs)
      from inv_run_game_kept[OF this w1(2) _ g(1)] show ?thesis using n True Cons Close by auto
    qed
  qed
qed

text \<open>
  C28: When the game can be created, any sequence of accept and close operations that returns
  moves an invitation only along open, accepted, closed; the parties and roles never change;
  and the invitation has a game exactly when it had one before or was open and the first
  operation accepts it.
\<close>

theorem inv_lifecycle:
  assumes "invitations w i = Some x" "inv_ok x" "game_create E = Some g" "0 < next_ref w" "inv_run E i ops w = Ret w'"
  shows "\<exists>x'. invitations w' i = Some x' \<and> inv_trans\<^sup>*\<^sup>* (in_state x) (in_state x') \<and> in_state x \<le> in_state x' \<and> same_parties x x' \<and> inv_ok x' \<and>
    (in_game x' \<noteq> null \<longleftrightarrow> in_game x \<noteq> null \<or> in_state x = INV_OPEN_STATE \<and> take 1 ops = [Accept])"
  using inv_run_steps[OF assms] inv_run_game[OF assms] inv_trans_le by fastforce

text \<open>Closing a closed invitation fails with its mutex held: every later operation on it waits forever.\<close>

theorem inv_close_twice_locks:
  assumes "invitations w i = Some x" "i \<noteq> null" "in_mutex x = 1" "in_state x = INV_CLOSED_STATE" "0 < in_count x"
  shows "\<exists>w'. inv_close E i role w = Ret (-1, w') \<and> inv_close E i role' w' = Stuck Blocked \<and>
    inv_ref i w' = Stuck Blocked \<and> inv_unref i w' = Stuck Blocked"
  using assms by (simp add: inv_close_def inv_ref_def inv_unref_def jx_defs)

text \<open>An invitation without a game closes; one whose game goes on is kept open for \<open>NULL_ROLE\<close>.\<close>

theorem inv_close_result:
  assumes "invitations w i = Some x" "i \<noteq> null" "in_mutex x = 1" "in_state x \<noteq> INV_CLOSED_STATE"
    "in_game x \<noteq> null \<longrightarrow> games w (in_game x) = Some g"
  shows "inv_close E i role w =
    (if in_game x = null then Ret (0, w\<lparr>invitations := (invitations w)(i \<mapsto> x\<lparr>in_state := INV_CLOSED_STATE\<rparr>)\<rparr>)
     else if role = NULL_ROLE \<and> game_is_over E g = 0 then Ret (-1, w)
     else Ret (0, w\<lparr>invitations := (invitations w)(i \<mapsto> x\<lparr>in_state := INV_CLOSED_STATE\<rparr>),
                 games := (games w)(in_game x \<mapsto> snd (game_resign E g role))\<rparr>))"
proof -
  have "in_state x = INV_OPEN_STATE \<or> in_state x = INV_ACCEPTED_STATE" using assms(4) by (cases "in_state x") auto
  moreover have "(invitations w)(i \<mapsto> x) = invitations w" using assms(1) by auto
  ultimately show ?thesis using assms
    by (cases x) (auto simp: inv_close_def is_over_def resign_def jx_defs split_beta)
qed

end
