(* ===== verification/Jeux_Registry.thy ===== *)
theory Jeux_Registry imports "HOL-Library.Multiset" Jeux_Invitation begin

text \<open>
  The client registry of hw5 (\<open>client_registry.c\<close>): at most 64 connections, guarded by a mutex and two
  counting semaphores (\<open>pin\<close> free places, \<open>cli\<close> registered clients).
\<close>

section \<open>Operations\<close>

definition MAX_CLIENTS :: nat where "MAX_CLIENTS = 64"

definition creg_init :: "(nat \<Rightarrow> ref) \<Rightarrow> client_registry" where
  "creg_init junk = \<lparr>cr_count = 0, cr_connections = junk, cr_mutex = 1, cr_pin = MAX_CLIENTS, cr_cli = 0\<rparr>"

text \<open>\<open>creg_fini\<close>: whether the registry is freed; it is kept, with a message, while clients are registered.\<close>

definition creg_fini :: "client_registry \<Rightarrow> bool" where
  "creg_fini cr = (if cr_count cr \<noteq> 0 then False else True)"

definition creg_append :: "ref \<Rightarrow> ('g, unit) jx" where
  "creg_append cli w = (let n = cr_count (creg w) in
     if n \<ge> MAX_CLIENTS then Stuck Out_of_bounds
     else Ret ((), w\<lparr>creg := (creg w)\<lparr>cr_connections := (cr_connections (creg w))(n := cli), cr_count := n + 1\<rparr>\<rparr>))"

definition creg_register :: "('g, 'm) jeux_env \<Rightarrow> int \<Rightarrow> ('g, ref) jx" where
  "creg_register E fd =
     after P_cr_pin (after P_cr_mutex (\<lambda>w.
       if cr_count (creg w) = MAX_CLIENTS then Ret (null, w)
       else bind (client_create E fd) (\<lambda>cli.
         if cli = null then give null
         else after (creg_append cli) (after V_cr_mutex (after V_cr_cli (give cli)))) w))"

text \<open>The search of \<open>creg_unregister\<close>: the first index whose connection has the descriptor.\<close>

fun creg_find_fd :: "int \<Rightarrow> nat list \<Rightarrow> ('g, nat option) jx" where
  "creg_find_fd fd [] = give None"
| "creg_find_fd fd (i # is) = bind (\<lambda>w. Ret (cr_connections (creg w) i, w)) (\<lambda>c.
     bind (client_get_fd c) (\<lambda>temp. if temp = fd then give (Some i) else creg_find_fd fd is))"

definition creg_remove_at :: "nat \<Rightarrow> ('g, unit) jx" where
  "creg_remove_at i w = (let cr = creg w; conns = cr_connections cr in
     Ret ((), w\<lparr>creg := cr\<lparr>cr_connections := conns(i := conns (cr_count cr - 1)), cr_count := cr_count cr - 1\<rparr>\<rparr>))"

definition creg_unregister :: "ref \<Rightarrow> ('g, int) jx" where
  "creg_unregister client =
     after P_cr_cli (after P_cr_mutex
       (bind (client_get_fd client) (\<lambda>cli_fd.
          bind (\<lambda>w. creg_find_fd cli_fd [0 ..< cr_count (creg w)] w) (\<lambda>r.
            case r of
              None \<Rightarrow> give (-1)
            | Some i \<Rightarrow>
                after (client_unref client)
                  (after (creg_remove_at i)
                    (after V_cr_mutex (after V_cr_pin (give 0))))))))"

fun creg_lookup_loop :: "string \<Rightarrow> nat list \<Rightarrow> ('g, ref) jx" where
  "creg_lookup_loop user [] = give null"
| "creg_lookup_loop user (i # is) = bind (\<lambda>w. Ret (cr_connections (creg w) i, w)) (\<lambda>c.
     bind (client_get_player c) (\<lambda>player.
       if player = null then creg_lookup_loop user is
       else bind (player_get_name player) (\<lambda>n.
         if n = user then give c else creg_lookup_loop user is)))"

definition creg_lookup :: "string \<Rightarrow> ('g, ref) jx" where
  "creg_lookup user w = creg_lookup_loop user [0 ..< cr_count (creg w)] w"

fun creg_all_loop :: "nat list \<Rightarrow> ref list \<Rightarrow> ('g, ref list) jx" where
  "creg_all_loop [] ps = give ps"
| "creg_all_loop (i # is) ps = bind (\<lambda>w. Ret (cr_connections (creg w) i, w)) (\<lambda>c.
     bind (client_get_player c) (\<lambda>temp.
       if temp = null then creg_all_loop is ps
       else bind (player_ref temp) (\<lambda>_. creg_all_loop is (ps @ [temp]))))"

definition creg_all_players :: "('g, ref list) jx" where
  "creg_all_players w = creg_all_loop [0 ..< cr_count (creg w)] [] w"

text \<open>The wait is a loop on the counter with the mutex held.\<close>

definition creg_wait_for_empty :: "('g, unit) jx" where
  "creg_wait_for_empty =
     after P_cr_mutex (\<lambda>w. if cr_count (creg w) > 0 then Stuck Diverges else V_cr_mutex w)"

fun creg_shutdown_loop :: "nat list \<Rightarrow> ('g, unit) jx" where
  "creg_shutdown_loop [] = give ()"
| "creg_shutdown_loop (i # is) = bind (\<lambda>w. Ret (cr_connections (creg w) i, w)) (\<lambda>c.
     bind (client_get_fd c) (\<lambda>fd.
       after (\<lambda>w. Ret ((), w\<lparr>shut := shut w @ [fd]\<rparr>)) (creg_shutdown_loop is)))"

definition creg_shutdown_all :: "('g, unit) jx" where
  "creg_shutdown_all =
     after P_cr_mutex (after (\<lambda>w. creg_shutdown_loop [0 ..< cr_count (creg w)] w) V_cr_mutex)"

section \<open>The registered clients\<close>

definition connections :: "'g world \<Rightarrow> ref list" where
  "connections w = map (cr_connections (creg w)) [0 ..< cr_count (creg w)]"

definition fd_of :: "'g world \<Rightarrow> ref \<Rightarrow> int" where
  "fd_of w c = cl_fd (the (clients w c))"

definition creg_ok :: "'g world \<Rightarrow> bool" where
  "creg_ok w \<longleftrightarrow> cr_mutex (creg w) = 1 \<and> cr_cli (creg w) = cr_count (creg w) \<and>
     cr_pin (creg w) + cr_count (creg w) = MAX_CLIENTS \<and>
     distinct (map (fd_of w) (connections w)) \<and>
     (\<forall>c\<in>set (connections w). c \<noteq> null \<and> c < next_ref w \<and>
        (\<exists>x. clients w c = Some x \<and> 0 < cl_mutex x \<and> 0 < cl_count x))"

lemma connections_snoc:
  "connections (w\<lparr>clients := q, next_ref := m, creg := (creg w)\<lparr>cr_connections := (cr_connections (creg w))(cr_count (creg w) := c),
     cr_count := cr_count (creg w) + 1, cr_pin := p, cr_cli := l\<rparr>\<rparr>) = connections w @ [c]"
  by (simp add: connections_def)

lemma creg_register_eval:
  assumes "creg_ok w" "cr_count (creg w) < MAX_CLIENTS" "malloc_ok E (next_ref w)" "next_ref w \<noteq> null"
  shows "creg_register E fd w = Ret (next_ref w, w\<lparr>clients := (clients w)(next_ref w \<mapsto>
      \<lparr>cl_count = 1, cl_fd = fd, cl_logged_in = 0, cl_player = null, cl_invs = slot_junk E (next_ref w), cl_inv_count = 0, cl_mutex = 1\<rparr>),
    next_ref := next_ref w + 1,
    creg := (creg w)\<lparr>cr_connections := (cr_connections (creg w))(cr_count (creg w) := next_ref w),
      cr_count := cr_count (creg w) + 1, cr_pin := cr_pin (creg w) - 1, cr_cli := cr_cli (creg w) + 1\<rparr>\<rparr>)"
  using assms by (cases "creg w") (auto simp: creg_register_def client_create_def creg_append_def jx_defs creg_ok_def Let_def)

lemma creg_register_correct:
  assumes ok: "creg_ok w" and room: "cr_count (creg w) < MAX_CLIENTS" and m: "malloc_ok E (next_ref w)" "next_ref w \<noteq> null"
    and fd: "\<forall>c\<in>set (connections w). fd_of w c \<noteq> fd"
  shows "\<exists>w'. creg_register E fd w = Ret (next_ref w, w') \<and> creg_ok w' \<and>
    connections w' = connections w @ [next_ref w] \<and> fd_of w' (next_ref w) = fd \<and>
    (\<forall>c. c \<noteq> next_ref w \<longrightarrow> clients w' c = clients w c)"
proof -
  define w' where "w' = w\<lparr>clients := (clients w)(next_ref w \<mapsto>
      \<lparr>cl_count = 1, cl_fd = fd, cl_logged_in = 0, cl_player = null, cl_invs = slot_junk E (next_ref w), cl_inv_count = 0, cl_mutex = 1\<rparr>),
    next_ref := next_ref w + 1,
    creg := (creg w)\<lparr>cr_connections := (cr_connections (creg w))(cr_count (creg w) := next_ref w),
      cr_count := cr_count (creg w) + 1, cr_pin := cr_pin (creg w) - 1, cr_cli := cr_cli (creg w) + 1\<rparr>\<rparr>"
  have r: "creg_register E fd w = Ret (next_ref w, w')"
    unfolding w'_def by (rule creg_register_eval[OF ok room m])
  have c: "connections w' = connections w @ [next_ref w]" unfolding w'_def by (rule connections_snoc)
  have old: "c < next_ref w" if "c \<in> set (connections w)" for c using ok that by (auto simp: creg_ok_def)
  have same: "clients w' c = clients w c" if "c \<noteq> next_ref w" for c using that by (simp add: w'_def)
  have f: "fd_of w' (next_ref w) = fd" by (simp add: w'_def fd_of_def)
  have fo: "fd_of w' c = fd_of w c" if "c \<in> set (connections w)" for c
    using old[OF that] by (simp add: fd_of_def same)
  have d: "distinct (map (fd_of w') (connections w'))"
  proof -
    have "map (fd_of w') (connections w') = map (fd_of w) (connections w) @ [fd]" by (simp add: c f fo)
    then show ?thesis using ok fd by (auto simp: creg_ok_def)
  qed
  have "\<exists>x. clients w' k = Some x \<and> 0 < cl_mutex x \<and> 0 < cl_count x" if "k \<in> set (connections w')" for k
  proof (cases "k = next_ref w")
    case False
    then show ?thesis using that ok by (auto simp: c same creg_ok_def)
  qed (simp add: w'_def)
  moreover have nx: "next_ref w' = next_ref w + 1" by (simp add: w'_def)
  have "k \<noteq> null \<and> k < next_ref w'" if "k \<in> set (connections w')" for k
    using that old[of k] ok m(2) unfolding c nx by (auto simp: creg_ok_def)
  moreover have "cr_mutex (creg w') = cr_mutex (creg w)" "cr_count (creg w') = cr_count (creg w) + 1"
      "cr_pin (creg w') = cr_pin (creg w) - 1" "cr_cli (creg w') = cr_cli (creg w) + 1" by (simp_all add: w'_def)
  ultimately have "creg_ok w'"
    using ok room d by (simp add: creg_ok_def)
  with r c f same show ?thesis by blast
qed

theorem creg_register_spec:
  assumes ok: "creg_ok w" and room: "cr_count (creg w) < MAX_CLIENTS" and m: "malloc_ok E (next_ref w)" "next_ref w \<noteq> null"
    and fd: "\<forall>c\<in>set (connections w). fd_of w c \<noteq> fd"
  shows "\<exists>w'. creg_register E fd w = Ret (next_ref w, w') \<and> creg_ok w' \<and>
    connections w' = connections w @ [next_ref w] \<and> fd_of w' (next_ref w) = fd \<and>
    (\<forall>c. c \<noteq> next_ref w \<longrightarrow> clients w' c = clients w c)"
  by (rule creg_register_correct[OF ok room m fd])

text \<open>With all places taken the call waits for a place instead of returning \<open>NULL\<close>.\<close>

theorem creg_register_full_blocks:
  assumes "creg_ok w" "cr_count (creg w) = MAX_CLIENTS"
  shows "creg_register E fd w = Stuck Blocked"
  using assms by (simp add: creg_register_def creg_ok_def jx_defs)

lemma creg_find_fd_spec:
  "\<forall>i\<in>set is. cr_connections (creg w) i \<noteq> null \<and> clients w (cr_connections (creg w) i) \<noteq> None \<Longrightarrow>
   creg_find_fd fd is w = Ret (find (\<lambda>i. fd_of w (cr_connections (creg w) i) = fd) is, w)"
proof (induction "is")
  case Nil
  show ?case by (simp add: give_def)
next
  case (Cons i "is")
  then obtain x where "clients w (cr_connections (creg w) i) = Some x" by auto
  with Cons show ?case by (auto simp: jx_defs client_get_fd_def fd_of_def)
qed

lemma remove_swap_mset:
  assumes "i < n"
  shows "mset (map (f(i := f (n - 1))) [0 ..< n - 1]) + {#f i#} = mset (map f [0 ..< n])"
proof (cases "i = n - 1")
  case True
  then have a: "map (f(i := f (n - 1))) [0 ..< n - 1] = map f [0 ..< n - 1]" by (intro map_cong) auto
  have b: "map f [0 ..< n] = map f [0 ..< n - 1] @ [f i]" using assms True by (cases n) auto
  show ?thesis unfolding a b by (simp del: mset_map mset_upt)
next
  case False
  then have i: "i < n - 1" using assms by simp
  have "mset (map (f(i := f (n - 1))) [0 ..< n - 1]) = mset ((map f [0 ..< n - 1])[i := f (n - 1)])"
    by (rule arg_cong[of _ _ mset], rule nth_equalityI) (auto simp: nth_list_update)
  also have "\<dots> = add_mset (f (n - 1)) (mset (map f [0 ..< n - 1]) - {#f i#})"
    using i by (simp add: mset_update)
  finally have "mset (map (f(i := f (n - 1))) [0 ..< n - 1]) + {#f i#} = add_mset (f (n - 1)) (mset (map f [0 ..< n - 1]))"
    using i by (auto simp: in_set_conv_nth)
  moreover have "mset (map f [0 ..< n]) = add_mset (f (n - 1)) (mset (map f [0 ..< n - 1]))"
    using assms by (cases n) auto
  ultimately show ?thesis by simp
qed

lemma P_then:
  "cr_cli (creg w) = Suc k \<Longrightarrow> cr_mutex (creg w) = 1 \<Longrightarrow>
   after P_cr_cli (after P_cr_mutex m) w = m (w\<lparr>creg := (creg w)\<lparr>cr_mutex := 0, cr_cli := k\<rparr>\<rparr>)"
  by (cases "creg w") (simp add: jx_defs)

lemma find_index_fd:
  assumes "distinct (map (\<lambda>i. g (f i)) [0 ..< n])" "c \<in> f ` {0 ..< n}"
  shows "\<exists>i<n. find (\<lambda>i. g (f i) = g c) [0 ..< n] = Some i \<and> f i = c"
proof -
  obtain i where i: "i < n" "f i = c" using assms(2) by auto
  have "find (\<lambda>i. g (f i) = g c) [0 ..< n] = Some i"
    unfolding find_Some_iff
  proof (intro exI[of _ i] conjI allI impI)
    fix j assume j: "j < i"
    show "g (f ([0 ..< n] ! j)) \<noteq> g c"
    proof
      assume "g (f ([0 ..< n] ! j)) = g c"
      then have "g (f j) = g (f i)" using i j by simp
      then show False using nth_eq_iff_index_eq[OF assms(1), of j i] i j by simp
    qed
  qed (use i in auto)
  with i show ?thesis by blast
qed

lemma creg_unregister_eval:
  assumes ok: "creg_ok w" and c: "c \<in> set (connections w)" "clients w c = Some x"
  shows "\<exists>i. i < cr_count (creg w) \<and> cr_connections (creg w) i = c \<and>
    creg_unregister c w = Ret (0, w\<lparr>clients := (clients w)(c := if cl_count x = 1 then None else Some (x\<lparr>cl_count := cl_count x - 1\<rparr>)),
      creg := (creg w)\<lparr>cr_connections := (cr_connections (creg w))(i := cr_connections (creg w) (cr_count (creg w) - 1)),
        cr_count := cr_count (creg w) - 1, cr_pin := cr_pin (creg w) + 1, cr_cli := cr_cli (creg w) - 1\<rparr>\<rparr>)"
proof -
  have d: "distinct (map (\<lambda>i. fd_of w (cr_connections (creg w) i)) [0 ..< cr_count (creg w)])"
    using ok by (simp add: creg_ok_def connections_def comp_def)
  obtain i where i: "i < cr_count (creg w)" "cr_connections (creg w) i = c"
      "find (\<lambda>i. fd_of w (cr_connections (creg w) i) = fd_of w c) [0 ..< cr_count (creg w)] = Some i"
    using find_index_fd[where g = "fd_of w" and f = "cr_connections (creg w)", OF d, of c] c(1) by (auto simp: connections_def)
  obtain k where k: "cr_cli (creg w) = Suc k" "cr_mutex (creg w) = 1"
    using ok i(1) by (cases "cr_cli (creg w)") (auto simp: creg_ok_def)
  have x: "c \<noteq> null" "0 < cl_mutex x" "0 < cl_count x" using ok c by (auto simp: creg_ok_def)
  let ?w = "w\<lparr>creg := (creg w)\<lparr>cr_mutex := 0, cr_cli := k\<rparr>\<rparr>"
  have conns: "\<forall>i\<in>set [0 ..< cr_count (creg w)]. cr_connections (creg w) i \<noteq> null \<and> clients w (cr_connections (creg w) i) \<noteq> None"
    using ok by (fastforce simp: creg_ok_def connections_def)
  have "creg_find_fd (fd_of w c) [0 ..< cr_count (creg w)] ?w = Ret (Some i, ?w)"
    using creg_find_fd_spec[of "[0 ..< cr_count (creg w)]" ?w "fd_of w c"] conns i(3) by (simp add: fd_of_def)
  moreover have "client_get_fd c ?w = Ret (fd_of w c, ?w)"
    using c x by (simp add: client_get_fd_def fd_of_def jx_defs)
  moreover have "client_unref c ?w = Ret ((), ?w\<lparr>clients := (clients w)(c := if cl_count x = 1 then None else Some (x\<lparr>cl_count := cl_count x - 1\<rparr>))\<rparr>)"
    using client_unref_eval[of ?w c x] c x by simp
  ultimately have "creg_unregister c w = Ret (0, w\<lparr>clients := (clients w)(c := if cl_count x = 1 then None else Some (x\<lparr>cl_count := cl_count x - 1\<rparr>)),
      creg := (creg w)\<lparr>cr_connections := (cr_connections (creg w))(i := cr_connections (creg w) (cr_count (creg w) - 1)),
        cr_count := cr_count (creg w) - 1, cr_pin := cr_pin (creg w) + 1, cr_cli := cr_cli (creg w) - 1\<rparr>\<rparr>)"
    unfolding creg_unregister_def P_then[OF k]
    by (cases "creg w") (use k in \<open>auto simp: bind_def after_def creg_remove_at_def Let_def V_cr_mutex_def V_cr_pin_def give_def\<close>)
  with i show ?thesis by blast
qed

lemma creg_unregister_correct:
  assumes ok: "creg_ok w" and c: "c \<in> set (connections w)" "clients w c = Some x"
  shows "\<exists>w'. creg_unregister c w = Ret (0, w') \<and> creg_ok w' \<and>
    mset (connections w) = add_mset c (mset (connections w')) \<and> next_ref w' = next_ref w \<and>
    clients w' = (clients w)(c := if cl_count x = 1 then None else Some (x\<lparr>cl_count := cl_count x - 1\<rparr>))"
proof -
  let ?n = "cr_count (creg w)" and ?f = "cr_connections (creg w)"
  let ?cl = "(clients w)(c := if cl_count x = 1 then None else Some (x\<lparr>cl_count := cl_count x - 1\<rparr>))"
  obtain i w' where i: "i < ?n" "?f i = c" and r: "creg_unregister c w = Ret (0, w')"
    and w': "w' = w\<lparr>clients := ?cl, creg := (creg w)\<lparr>cr_connections := ?f(i := ?f (?n - 1)),
        cr_count := ?n - 1, cr_pin := cr_pin (creg w) + 1, cr_cli := cr_cli (creg w) - 1\<rparr>\<rparr>"
    using creg_unregister_eval[OF assms] by blast
  have "connections w' = map (?f(i := ?f (?n - 1))) [0 ..< ?n - 1]" by (simp add: w' connections_def)
  then have m: "mset (connections w) = add_mset c (mset (connections w'))"
    using remove_swap_mset[OF i(1), of ?f] i(2) by (simp add: connections_def del: mset_map mset_upt)
  have "mset (map (fd_of w) (connections w)) = mset (map (fd_of w) (c # connections w'))"
    using arg_cong[OF m, of "image_mset (fd_of w)"] by simp
  then have d: "distinct (map (fd_of w) (c # connections w'))"
    using ok mset_eq_imp_distinct_iff unfolding creg_ok_def by blast
  have sub: "k \<in> set (connections w)" "k \<noteq> c" if "k \<in> set (connections w')" for k
    using that d arg_cong[OF m, of set_mset] by auto
  have cl: "clients w' = ?cl" by (simp add: w')
  have e: "map (fd_of w') (connections w') = map (fd_of w) (connections w')"
    using sub(2) by (auto simp: fd_of_def cl)
  have "distinct (map (fd_of w') (connections w'))" unfolding e using d by simp
  moreover have "\<exists>y. clients w' k = Some y \<and> 0 < cl_mutex y \<and> 0 < cl_count y" "k \<noteq> null \<and> k < next_ref w'"
    if "k \<in> set (connections w')" for k
    using sub[OF that] ok by (auto simp: cl creg_ok_def w')
  ultimately have "creg_ok w'" using ok i(1) by (auto simp: creg_ok_def) (auto simp: w')
  moreover have "next_ref w' = next_ref w" by (simp add: w')
  ultimately show ?thesis using r m cl by blast
qed

text \<open>
  C22: creg_unregister of a registered client removes exactly that client, closes the gap,
  gives its slot back and keeps the registry well formed.
\<close>

theorem creg_unregister_spec:
  assumes ok: "creg_ok w" and c: "c \<in> set (connections w)" "clients w c = Some x"
  shows "\<exists>w'. creg_unregister c w = Ret (0, w') \<and> creg_ok w' \<and>
    mset (connections w) = add_mset c (mset (connections w')) \<and>
    clients w' = (clients w)(c := if cl_count x = 1 then None else Some (x\<lparr>cl_count := cl_count x - 1\<rparr>))"
  using creg_unregister_correct[OF ok c] by blast

text \<open>Unregistering an unknown client fails with the registry locked for good.\<close>

theorem creg_unregister_unknown_locks:
  assumes ok: "creg_ok w" and n: "0 < cr_count (creg w)" and c: "c \<noteq> null" "clients w c = Some x"
    and un: "\<forall>d\<in>set (connections w). fd_of w d \<noteq> cl_fd x"
  shows "\<exists>w'. creg_unregister c w = Ret (-1, w') \<and> creg_register E fd w' = Stuck Blocked \<and> creg_unregister d w' = Stuck Blocked"
proof -
  obtain k where k: "cr_cli (creg w) = Suc k" "cr_mutex (creg w) = 1"
    using ok n by (cases "cr_cli (creg w)") (auto simp: creg_ok_def)
  let ?w = "w\<lparr>creg := (creg w)\<lparr>cr_mutex := 0, cr_cli := k\<rparr>\<rparr>"
  have conns: "\<forall>i\<in>set [0 ..< cr_count (creg w)]. cr_connections (creg w) i \<noteq> null \<and> clients w (cr_connections (creg w) i) \<noteq> None"
    using ok by (fastforce simp: creg_ok_def connections_def)
  have "find (\<lambda>i. fd_of w (cr_connections (creg w) i) = cl_fd x) [0 ..< cr_count (creg w)] = None"
    using un by (auto simp: find_None_iff connections_def)
  then have "creg_find_fd (cl_fd x) [0 ..< cr_count (creg w)] ?w = Ret (None, ?w)"
    using creg_find_fd_spec[of "[0 ..< cr_count (creg w)]" ?w "cl_fd x"] conns by (simp add: fd_of_def)
  moreover have "client_get_fd c ?w = Ret (cl_fd x, ?w)"
    using c by (simp add: client_get_fd_def jx_defs)
  ultimately have "creg_unregister c w = Ret (-1, ?w)"
    unfolding creg_unregister_def P_then[OF k] by (simp add: bind_def give_def)
  moreover have "creg_register E fd ?w = Stuck Blocked" "creg_unregister d ?w = Stuck Blocked"
    by (simp_all add: creg_register_def creg_unregister_def jx_defs)
  ultimately show ?thesis by blast
qed

text \<open>The user a connection is logged in as.\<close>

definition user_of :: "'g world \<Rightarrow> ref \<Rightarrow> string option" where
  "user_of w c = (case clients w c of None \<Rightarrow> None
     | Some x \<Rightarrow> if cl_logged_in x = 0 \<or> cl_player x = null then None
         else map_option pl_name (players w (cl_player x)))"

definition logins_ok :: "'g world \<Rightarrow> bool" where
  "logins_ok w \<longleftrightarrow> (\<forall>c\<in>set (connections w). \<forall>x. clients w c = Some x \<longrightarrow> cl_logged_in x \<noteq> 0 \<longrightarrow>
     cl_player x \<noteq> null \<longrightarrow> players w (cl_player x) \<noteq> None)"

definition login_ok :: "'g world \<Rightarrow> ref \<Rightarrow> bool" where
  "login_ok w c \<longleftrightarrow> c \<noteq> null \<and> (\<exists>x. clients w c = Some x \<and>
     (cl_logged_in x \<noteq> 0 \<longrightarrow> cl_player x \<noteq> null \<longrightarrow> (\<exists>p. players w (cl_player x) = Some p)))"

lemma creg_lookup_one:
  assumes "login_ok w c"
  shows "(\<exists>p n. p \<noteq> null \<and> client_get_player c w = Ret (p, w) \<and> player_get_name p w = Ret (n, w) \<and> user_of w c = Some n)
    \<or> client_get_player c w = Ret (null, w) \<and> user_of w c = None"
proof -
  obtain x where x: "c \<noteq> null" "clients w c = Some x"
    "cl_logged_in x \<noteq> 0 \<longrightarrow> cl_player x \<noteq> null \<longrightarrow> (\<exists>p. players w (cl_player x) = Some p)"
    using assms unfolding login_ok_def by blast
  show ?thesis
  proof (cases "cl_logged_in x = 0 \<or> cl_player x = null")
    case True
    then show ?thesis using x(1,2) by (auto simp: client_get_player_def user_of_def jx_defs)
  next
    case False
    then obtain p where p: "players w (cl_player x) = Some p" using x(3) by blast
    then show ?thesis using False x(1,2)
      by (simp add: client_get_player_def player_get_name_def user_of_def jx_defs)
  qed
qed

lemma creg_lookup_loop_spec:
  "\<forall>c\<in>set (map (cr_connections (creg w)) is). login_ok w c \<Longrightarrow> creg_lookup_loop user is w =
     Ret (case find (\<lambda>c. user_of w c = Some user) (map (cr_connections (creg w)) is) of None \<Rightarrow> null | Some c \<Rightarrow> c, w)"
proof (induction "is")
  case Nil
  show ?case by (simp add: give_def)
next
  case (Cons i "is")
  then have "login_ok w (cr_connections (creg w) i)" by simp
  from creg_lookup_one[OF this] Cons show ?case by (auto simp: bind_def give_def)
qed

lemma creg_lookup_live:
  assumes "\<forall>c\<in>set (connections w). login_ok w c"
  shows "creg_lookup user w =
    Ret (case find (\<lambda>c. user_of w c = Some user) (connections w) of None \<Rightarrow> null | Some c \<Rightarrow> c, w)"
  unfolding creg_lookup_def connections_def
  by (rule creg_lookup_loop_spec) (use assms in \<open>simp only: connections_def\<close>)

lemma logins_ok_live:
  assumes "creg_ok w" "logins_ok w"
  shows "\<forall>c\<in>set (connections w). login_ok w c"
proof
  fix c assume c: "c \<in> set (connections w)"
  obtain x where "c \<noteq> null" "clients w c = Some x" using assms(1) c unfolding creg_ok_def by blast
  moreover from this c assms(2) have "cl_logged_in x \<noteq> 0 \<longrightarrow> cl_player x \<noteq> null \<longrightarrow> players w (cl_player x) \<noteq> None"
    unfolding logins_ok_def by blast
  ultimately show "login_ok w c" by (auto simp: login_ok_def)
qed

lemma creg_lookup_spec:
  assumes "creg_ok w" "logins_ok w"
  shows "creg_lookup user w =
    Ret (case find (\<lambda>c. user_of w c = Some user) (connections w) of None \<Rightarrow> null | Some c \<Rightarrow> c, w)"
  by (rule creg_lookup_live[OF logins_ok_live[OF assms]])

theorem creg_lookup_finds_user:
  assumes "creg_ok w" "logins_ok w"
  shows "creg_lookup user w = Ret (r, w) \<longleftrightarrow>
    (if \<exists>c\<in>set (connections w). user_of w c = Some user
     then find (\<lambda>c. user_of w c = Some user) (connections w) = Some r else r = null)"
proof (cases "\<exists>c\<in>set (connections w). user_of w c = Some user")
  case True
  then obtain c where "find (\<lambda>c. user_of w c = Some user) (connections w) = Some c"
    by (cases "find (\<lambda>c. user_of w c = Some user) (connections w)") (auto simp: find_None_iff)
  then show ?thesis using True by (auto simp: creg_lookup_spec[OF assms])
next
  case False
  then have "find (\<lambda>c. user_of w c = Some user) (connections w) = None" by (auto simp: find_None_iff)
  then show ?thesis using False by (auto simp: creg_lookup_spec[OF assms])
qed

text \<open>The wait for an empty registry holds the mutex that every deregistration needs.\<close>

theorem wait_for_empty_deadlock:
  assumes "creg_ok w"
  shows "creg_wait_for_empty w = (if connections w = [] then Ret ((), w) else Stuck Diverges) \<and>
    (case exec P_cr_mutex w of Ret w' \<Rightarrow> creg_unregister c w' = Stuck Blocked | Stuck e \<Rightarrow> False)"
proof -
  have "connections w = [] \<longleftrightarrow> cr_count (creg w) = 0" by (simp add: connections_def)
  then show ?thesis using assms
    by (cases "creg w") (auto simp: creg_wait_for_empty_def creg_ok_def exec_def creg_unregister_def jx_defs)
qed

section \<open>Connections come and go\<close>

text \<open>
  The registry as a state machine: connections with descriptors that are not in use are registered,
  and registered clients are unregistered, in any order. A registration may find no memory.
\<close>

inductive creg_step :: "('g, 'm) jeux_env \<Rightarrow> 'g world \<Rightarrow> 'g world \<Rightarrow> bool" for E where
  connects: "\<forall>c\<in>set (connections w). fd_of w c \<noteq> fd \<Longrightarrow> creg_register E fd w = Ret (c, w') \<Longrightarrow> creg_step E w w'"
| leaves: "c \<in> set (connections w) \<Longrightarrow> creg_unregister c w = Ret (r, w') \<Longrightarrow> creg_step E w w'"

text \<open>A registration that finds no memory keeps the mutex: nobody registers or leaves any more.\<close>

lemma creg_register_no_memory:
  assumes "creg_ok w" "cr_count (creg w) < MAX_CLIENTS" "\<not> malloc_ok E (next_ref w)"
  shows "\<exists>w'. creg_register E fd w = Ret (null, w') \<and> creg_register E' fd' w' = Stuck Blocked \<and> creg_unregister d w' = Stuck Blocked"
proof -
  have "0 < cr_pin (creg w)" "cr_mutex (creg w) = 1" "cr_count (creg w) \<noteq> MAX_CLIENTS"
    using assms(1,2) by (auto simp: creg_ok_def)
  then show ?thesis using assms(3)
    by (cases "cr_cli (creg w)"; cases "creg w") (auto simp: creg_register_def client_create_def creg_unregister_def jx_defs malloc_def)
qed

lemma creg_init_ok: "creg w = creg_init junk \<Longrightarrow> creg_ok w"
  by (simp add: creg_ok_def creg_init_def connections_def)

lemma creg_ok_member:
  assumes "creg_ok w" "c \<in> set (connections w)"
  obtains x where "clients w c = Some x"
  using assms by (auto simp: creg_ok_def)

lemma creg_ok_bound: "creg_ok w \<Longrightarrow> cr_count (creg w) \<le> MAX_CLIENTS"
  by (simp add: creg_ok_def)

lemma creg_step_ok:
  assumes "creg_step E w w'" "creg_ok w" "\<forall>r. malloc_ok E r" "0 < next_ref w"
  shows "creg_ok w' \<and> 0 < next_ref w'"
  using assms(1)
proof cases
  case (connects fd c)
  then have "cr_count (creg w) \<noteq> MAX_CLIENTS" using creg_register_full_blocks[OF assms(2), of E fd] by auto
  then have room: "cr_count (creg w) < MAX_CLIENTS" using creg_ok_bound[OF assms(2)] by simp
  have m: "malloc_ok E (next_ref w)" "next_ref w \<noteq> null" using assms(3,4) by simp_all
  have "next_ref w' = next_ref w + 1" using creg_register_eval[OF assms(2) room m, of fd] connects(2) by auto
  then show ?thesis using creg_register_correct[OF assms(2) room m connects(1)] connects(2) by auto
next
  case (leaves c r)
  obtain x where "clients w c = Some x" by (rule creg_ok_member[OF assms(2) leaves(1)])
  then show ?thesis using creg_unregister_correct[OF assms(2) leaves(1)] leaves(2) assms(4) by auto
qed

lemma creg_steps_ok:
  "(creg_step E)\<^sup>*\<^sup>* w w' \<Longrightarrow> creg_ok w \<Longrightarrow> \<forall>r. malloc_ok E r \<Longrightarrow> 0 < next_ref w \<Longrightarrow> creg_ok w' \<and> 0 < next_ref w'"
  by (induction rule: rtranclp_induct) (auto dest: creg_step_ok)

lemma creg_unregister_frame:
  assumes ok: "creg_ok w" and c: "c \<in> set (connections w)"
  obtains w' where "creg_unregister c w = Ret (0, w')" "creg_ok w'" "cr_count (creg w') < MAX_CLIENTS"
    "next_ref w' = next_ref w" "\<forall>d\<in>set (connections w'). d \<in> set (connections w) \<and> fd_of w' d = fd_of w d"
proof -
  obtain x where x: "clients w c = Some x" by (rule creg_ok_member[OF ok c])
  obtain w' where w': "creg_unregister c w = Ret (0, w')" "creg_ok w'" "mset (connections w) = add_mset c (mset (connections w'))"
      "next_ref w' = next_ref w" "clients w' = (clients w)(c := if cl_count x = 1 then None else Some (x\<lparr>cl_count := cl_count x - 1\<rparr>))"
    using creg_unregister_correct[OF ok c x] by blast
  have "size (mset (connections w)) = cr_count (creg w)" "size (mset (connections w')) = cr_count (creg w')"
    by (simp_all add: connections_def)
  then have n: "cr_count (creg w') < MAX_CLIENTS" using creg_ok_bound[OF ok] w'(3) by simp
  have "distinct (connections w)" using ok by (auto simp: creg_ok_def distinct_map)
  then have "distinct (c # connections w')" using w'(3) mset_eq_imp_distinct_iff[of "connections w" "c # connections w'"] by simp
  then have "\<forall>d\<in>set (connections w'). d \<in> set (connections w) \<and> fd_of w' d = fd_of w d"
    using arg_cong[OF w'(3), of set_mset] by (auto simp: fd_of_def w'(5))
  with w' n that show ?thesis by blast
qed

text \<open>
  C39: While no allocation of a client fails, and however connections have come and gone since
  the registry was created, also when it is full, unregistering a registered client returns,
  and the next registration, of a descriptor that no registered client has, then returns a
  registered client. An allocation that fails ends this: the registration returns NULL without
  releasing the mutex, and every later registration or removal blocks.
\<close>

lemma creg_never_jams:
  assumes "(creg_step E)\<^sup>*\<^sup>* w0 w" "creg w0 = creg_init junk" "0 < next_ref w0" "\<forall>r. malloc_ok E r"
    and "c \<in> set (connections w)" "\<forall>d\<in>set (connections w). fd_of w d \<noteq> fd"
  shows "\<exists>w1. creg_unregister c w = Ret (0, w1) \<and>
    (\<exists>k w2. creg_register E fd w1 = Ret (k, w2) \<and> k \<in> set (connections w2) \<and> fd_of w2 k = fd \<and> creg_ok w2) \<and>
    (\<forall>E'. \<not> malloc_ok E' (next_ref w1) \<longrightarrow> (\<exists>w2. creg_register E' fd w1 = Ret (null, w2) \<and>
       creg_register E fd w2 = Stuck Blocked \<and> creg_unregister d w2 = Stuck Blocked))"
proof -
  have ok: "creg_ok w" "0 < next_ref w" using creg_steps_ok[OF assms(1) creg_init_ok[OF assms(2)] assms(4,3)] by simp_all
  obtain w1 where w1: "creg_unregister c w = Ret (0, w1)" "creg_ok w1" "cr_count (creg w1) < MAX_CLIENTS"
    "next_ref w1 = next_ref w" "\<forall>d\<in>set (connections w1). d \<in> set (connections w) \<and> fd_of w1 d = fd_of w d"
    by (rule creg_unregister_frame[OF ok(1) assms(5)])
  have "\<forall>d\<in>set (connections w1). fd_of w1 d \<noteq> fd" using w1(5) assms(6) by auto
  then obtain w2 where "creg_register E fd w1 = Ret (next_ref w1, w2)" "creg_ok w2"
    "connections w2 = connections w1 @ [next_ref w1]" "fd_of w2 (next_ref w1) = fd"
    using creg_register_correct[OF w1(2,3), of E fd] assms(4) ok(2) w1(4) by auto
  then have "\<exists>k w2. creg_register E fd w1 = Ret (k, w2) \<and> k \<in> set (connections w2) \<and> fd_of w2 k = fd \<and> creg_ok w2" by fastforce
  moreover have "\<exists>w2. creg_register E' fd w1 = Ret (null, w2) \<and> creg_register E fd w2 = Stuck Blocked \<and> creg_unregister d w2 = Stuck Blocked"
    if "\<not> malloc_ok E' (next_ref w1)" for E'
    using creg_register_no_memory[OF w1(2,3) that] by metis
  ultimately show ?thesis using w1(1) by blast
qed

end
