(* ===== verification/Jeux_Client.thy ===== *)
theory Jeux_Client imports Jeux_Registry begin

text \<open>
  The client operations of hw5 (\<open>client.c\<close>): login and logout, the packets sent to a client, and the
  invitation protocol between two clients (make, revoke, decline, accept, resign, move).
\<close>

section \<open>Login\<close>

definition client_login :: "ref \<Rightarrow> ref \<Rightarrow> ('g, int) jx" where
  "client_login client player = bind (get_client client) (\<lambda>x.
     bind (if cl_logged_in x = 1 then give True
           else bind (player_get_name player) (\<lambda>n. bind (creg_lookup n) (\<lambda>c. give (c \<noteq> null)))) (\<lambda>taken.
       if taken then give (-1)
       else after (P_client client)
         (bind (get_client client) (\<lambda>x. after (put_client client (x\<lparr>cl_player := player\<rparr>))
           (bind (player_ref player) (\<lambda>_. bind (get_client client) (\<lambda>x.
             after (put_client client (x\<lparr>cl_logged_in := 1\<rparr>))
               (after (V_client client) (give 0)))))))))"

section \<open>Packets\<close>

definition send :: "int \<Rightarrow> packet_header \<Rightarrow> u8 list option \<Rightarrow> ('g, int) jx" where
  "send fd hdr data w = (case proto_send_packet fd hdr data (network w) of (r, n) \<Rightarrow> Ret (r, w\<lparr>network := n\<rparr>))"

definition role_code :: "game_role \<Rightarrow> u8" where
  "role_code r = (case r of NULL_ROLE \<Rightarrow> 0 | FIRST_PLAYER_ROLE \<Rightarrow> 1 | SECOND_PLAYER_ROLE \<Rightarrow> 2)"

definition bytes_of :: "string \<Rightarrow> u8 list" where
  "bytes_of s = map of_char s"

text \<open>A header on the stack: fields, time stamps in network order, padding as it was.\<close>

definition stamp ::
  "('g, 'm) jeux_env \<Rightarrow> packet_type \<Rightarrow> nat \<Rightarrow> game_role \<Rightarrow> nat \<Rightarrow> ('g, packet_header) jx" where
  "stamp E t iid role n w = (case clock E (ticks w) of (sec, nsec) \<Rightarrow>
     Ret (\<lparr>ptype = packet_code t, pid = of_nat iid, prole = role_code role, pad3 = fst (pad_junk E (ticks w)),
            psize = (if n = 0 then 0 else htons (of_nat n)), pad67 = snd (pad_junk E (ticks w)),
            timestamp_sec = htonl sec, timestamp_nsec = htonl nsec\<rparr>, w\<lparr>ticks := ticks w + 1\<rparr>))"

definition client_send_packet :: "ref \<Rightarrow> packet_header \<Rightarrow> u8 list option \<Rightarrow> ('g, int) jx" where
  "client_send_packet player pkt data =
     after (P_client player) (bind (get_client player) (\<lambda>x. bind (send (cl_fd x) pkt data) (\<lambda>res.
       if res = -1 then after (V_client player) (give (-1))
       else after (V_client player) (give 0))))"

definition client_send_ack ::
  "('g, 'm) jeux_env \<Rightarrow> ref \<Rightarrow> u8 list option \<Rightarrow> nat \<Rightarrow> ('g, int) jx" where
  "client_send_ack E client data datalen =
     after (P_client client)
       (bind (stamp E JEUX_ACK_PKT 0 NULL_ROLE (if data = None \<or> datalen = 0 then 0 else datalen)) (\<lambda>hdr.
          bind (get_client client) (\<lambda>x. bind (send (cl_fd x) hdr data) (\<lambda>res.
            if res = -1 then after (V_client client) (give (-1))
            else after (V_client client) (give 0)))))"

definition client_send_nack :: "('g, 'm) jeux_env \<Rightarrow> ref \<Rightarrow> ('g, int) jx" where
  "client_send_nack E client =
     after (P_client client)
       (bind (stamp E JEUX_NACK_PKT 0 NULL_ROLE 0) (\<lambda>hdr.
          bind (get_client client) (\<lambda>x. bind (send (cl_fd x) hdr None) (\<lambda>res.
            if res = -1 then after (V_client client) (give (-1))
            else after (V_client client) (give 0)))))"

text \<open>A packet to the other party, under its mutex; the result of the send.\<close>

definition notify ::
  "('g, 'm) jeux_env \<Rightarrow> ref \<Rightarrow> packet_type \<Rightarrow> nat \<Rightarrow> game_role \<Rightarrow> string option \<Rightarrow> ('g, int) jx" where
  "notify E other t iid role text =
     after (P_client other)
       (bind (stamp E t iid role (case text of None \<Rightarrow> 0 | Some s \<Rightarrow> length s)) (\<lambda>hdr.
          bind (get_client other) (\<lambda>x. bind (send (cl_fd x) hdr (map_option bytes_of text)) (\<lambda>res.
            after (V_client other) (give res)))))"

section \<open>Invitation slots\<close>

text \<open>\<open>client->invs[id]\<close>: slots that were never written hold what \<open>malloc\<close> left there.\<close>

definition get_slot :: "ref \<Rightarrow> nat \<Rightarrow> ('g, ref) jx" where
  "get_slot c iid = bind (get_client c) (\<lambda>x. if iid \<ge> 150 then stuck Out_of_bounds else give (cl_invs x iid))"

definition client_add_invitation :: "ref \<Rightarrow> ref \<Rightarrow> ('g, nat) jx" where
  "client_add_invitation client iv =
     after (P_client client)
       (bind (get_client client) (\<lambda>x. let iid = cl_inv_count x in
          bind (inv_ref iv) (\<lambda>r.
            if iid \<ge> 150 then stuck Out_of_bounds
            else bind (get_client client) (\<lambda>x.
              after (put_client client (x\<lparr>cl_invs := (cl_invs x)(iid := r), cl_inv_count := cl_inv_count x + 1\<rparr>))
                (after (V_client client) (give iid))))))"

text \<open>The first slot whose invitation has the same game as \<open>iv\<close>.\<close>

fun find_same_game :: "ref \<Rightarrow> ref \<Rightarrow> nat list \<Rightarrow> ('g, nat option) jx" where
  "find_same_game client iv [] = give None"
| "find_same_game client iv (iid # ids) = bind (inv_get_game iv) (\<lambda>g.
     bind (get_slot client iid) (\<lambda>s. bind (inv_get_game s) (\<lambda>g'.
       if g = g' then give (Some iid) else find_same_game client iv ids)))"

definition client_remove_invitation :: "ref \<Rightarrow> ref \<Rightarrow> ('g, int) jx" where
  "client_remove_invitation client iv =
     after (P_client client)
       (bind (get_client client) (\<lambda>x. bind (find_same_game client iv [0 ..< cl_inv_count x]) (\<lambda>r.
          case r of
            None \<Rightarrow> after (V_client client) (give (-1))
          | Some iid \<Rightarrow> bind (get_slot client iid) (\<lambda>s.
              after (inv_unref s) (after (V_client client) (give (int iid)))))))"

text \<open>The first slot that holds the invitation itself.\<close>

fun find_slot :: "ref \<Rightarrow> ref \<Rightarrow> nat list \<Rightarrow> ('g, nat option) jx" where
  "find_slot c iv [] = give None"
| "find_slot c iv (i # is) = bind (get_slot c i) (\<lambda>s. if s = iv then give (Some i) else find_slot c iv is)"

definition search_slots :: "ref \<Rightarrow> ref \<Rightarrow> ('g, nat option) jx" where
  "search_slots c iv = bind (get_client c) (\<lambda>x. find_slot c iv [0 ..< cl_inv_count x])"

section \<open>Invitations\<close>

definition client_make_invitation ::
  "('g, 'm) jeux_env \<Rightarrow> ref \<Rightarrow> ref \<Rightarrow> game_role \<Rightarrow> game_role \<Rightarrow> ('g, int) jx" where
  "client_make_invitation E source target source_role target_role =
     bind (inv_create E source target source_role target_role) (\<lambda>iv.
       if iv = null then give (-1)
       else bind (client_add_invitation source iv) (\<lambda>source_id.
         bind (client_add_invitation target iv) (\<lambda>target_id.
           bind (get_client source) (\<lambda>x. bind (player_get_name (cl_player x)) (\<lambda>source_name.
             bind (notify E target JEUX_INVITED_PKT target_id target_role (Some source_name)) (\<lambda>res.
               if res = -1
               then bind (client_remove_invitation source iv) (\<lambda>_.
                 bind (client_remove_invitation target iv) (\<lambda>_. give (-1)))
               else give (int source_id)))))))"

text \<open>Both parties drop the invitation.\<close>

definition remove_both :: "ref \<Rightarrow> ref \<Rightarrow> ref \<Rightarrow> ('g, int) jx \<Rightarrow> ('g, int) jx" where
  "remove_both client other iv rest =
     bind (client_remove_invitation client iv) (\<lambda>r.
       if r = -1 then give (-1)
       else bind (client_remove_invitation other iv) (\<lambda>r.
         if r = -1 then give (-1) else rest))"

definition client_revoke_invitation :: "('g, 'm) jeux_env \<Rightarrow> ref \<Rightarrow> nat \<Rightarrow> ('g, int) jx" where
  "client_revoke_invitation E client iid =
     bind (get_slot client iid) (\<lambda>iv.
       if iv = null then give (-1)
       else bind (inv_get_source iv) (\<lambda>src.
         if client \<noteq> src then give (-1)
         else bind (inv_get_target iv) (\<lambda>target.
           bind (search_slots target iv) (\<lambda>r.
             case r of
               None \<Rightarrow> give (-1)
             | Some i \<Rightarrow>
                 bind (inv_get_game iv) (\<lambda>g.
                   if g \<noteq> null then give (-1)
                   else bind (inv_close E iv NULL_ROLE) (\<lambda>c.
                     if c = -1 then give (-1)
                     else bind (inv_get_target_role iv) (\<lambda>target_role.
                       remove_both client target iv
                         (bind (notify E target JEUX_REVOKED_PKT i target_role None) (\<lambda>res.
                            if res = -1 then give (-1) else give 0)))))))))"

definition client_decline_invitation :: "('g, 'm) jeux_env \<Rightarrow> ref \<Rightarrow> nat \<Rightarrow> ('g, int) jx" where
  "client_decline_invitation E client iid =
     bind (get_slot client iid) (\<lambda>iv.
       if iv = null then give (-1)
       else bind (inv_get_target iv) (\<lambda>tgt.
         if client \<noteq> tgt then give (-1)
         else bind (inv_get_source iv) (\<lambda>src.
           bind (search_slots src iv) (\<lambda>r.
             case r of
               None \<Rightarrow> give (-1)
             | Some i \<Rightarrow>
                 bind (inv_get_game iv) (\<lambda>g.
                   if g \<noteq> null then give (-1)
                   else bind (inv_close E iv NULL_ROLE) (\<lambda>c.
                     if c = -1 then give (-1)
                     else bind (inv_get_source_role iv) (\<lambda>src_role.
                       remove_both client src iv
                         (bind (notify E src JEUX_DECLINED_PKT i src_role None) (\<lambda>res.
                            if res = -1 then give (-1) else give 0)))))))))"

text \<open>The board an accepting first player is shown.\<close>

definition empty_board :: string where
  "empty_board = '' | | '' @ [CHR 0x0A] @ ''-----'' @ [CHR 0x0A] @ '' | | '' @ [CHR 0x0A] @ ''-----'' @
     [CHR 0x0A] @ '' | |'' @ [CHR 0x0A]"

text \<open>
  \<open>strp\<close> tells whether the caller passed a place for the board; the call reads through the pointer
  when it sends the packet, whether or not it is \<open>NULL\<close>.
\<close>

definition client_accept_invitation ::
  "('g, 'm) jeux_env \<Rightarrow> ref \<Rightarrow> nat \<Rightarrow> bool \<Rightarrow> ('g, int \<times> string option) jx" where
  "client_accept_invitation E client iid strp =
     bind (get_slot client iid) (\<lambda>iv. bind (inv_get_source iv) (\<lambda>src.
       bind (search_slots src iv) (\<lambda>r.
         case r of
           None \<Rightarrow> give (-1, None)
         | Some src_id \<Rightarrow>
             bind (inv_accept E iv) (\<lambda>a.
               if a = -1 then give (-1, None)
               else bind (inv_get_game iv) (\<lambda>g. bind (get_game g) (\<lambda>gm.
                 after (put_game g (game_ref E gm))
                   (after (P_client src)
                     (bind (stamp E JEUX_ACCEPTED_PKT src_id NULL_ROLE (if strp then length empty_board else 0)) (\<lambda>hdr.
                        if \<not> strp then stuck Null_deref
                        else bind (get_client src) (\<lambda>x. bind (send (cl_fd x) hdr (Some (bytes_of empty_board))) (\<lambda>res.
                          if res = -1 then after (V_client src) (give (-1, Some empty_board))
                          else after (V_client src)
                            (after (inv_unref iv) (give (0, Some empty_board))))))))))))))"

text \<open>My role, the other party and its role.\<close>

definition parties :: "ref \<Rightarrow> ref \<Rightarrow> ('g, game_role \<times> ref \<times> game_role) jx" where
  "parties client iv = bind (inv_get_source iv) (\<lambda>s.
     if s = client
     then bind (inv_get_source_role iv) (\<lambda>role. bind (inv_get_target iv) (\<lambda>other.
       bind (inv_get_target_role iv) (\<lambda>other_role. give (role, other, other_role))))
     else bind (inv_get_target_role iv) (\<lambda>role. bind (inv_get_source iv) (\<lambda>other.
       bind (inv_get_source_role iv) (\<lambda>other_role. give (role, other, other_role)))))"

definition client_resign_game :: "('g, 'm) jeux_env \<Rightarrow> ref \<Rightarrow> nat \<Rightarrow> ('g, int) jx" where
  "client_resign_game E client iid =
     bind (get_slot client iid) (\<lambda>iv. bind (inv_get_game iv) (\<lambda>game.
       if game = null then give (-1)
       else bind (parties client iv) (\<lambda>(role, other, _).
         bind (resign E game role) (\<lambda>r.
           if r = -1 then give (-1)
           else bind (inv_close E iv role) (\<lambda>c.
             if c = -1 then give (-1)
             else bind (search_slots other iv) (\<lambda>r.
               case r of
                 None \<Rightarrow> give (-1)
               | Some i \<Rightarrow>
                   remove_both client other iv
                     (bind (notify E other JEUX_RESIGNED_PKT i role None) (\<lambda>res.
                        if res = -1 then give (-1) else give 0))))))))"

section \<open>Moves\<close>

text \<open>The end of a game: both parties are told, the invitation is dropped, the result is posted.\<close>

definition finish_game ::
  "('g, 'm) jeux_env \<Rightarrow> ref \<Rightarrow> ref \<Rightarrow> ref \<Rightarrow> nat \<Rightarrow> nat \<Rightarrow> string \<Rightarrow> game_role \<Rightarrow> game_role \<Rightarrow> game_role \<Rightarrow> int \<Rightarrow> ('g, int) jx" where
  "finish_game E client other iv iid i result winner role other_role p1 =
     after (P_client other) (after (P_client client)
       (let shown = (if winner = other_role then other_role else role) in
        bind (stamp E JEUX_ENDED_PKT i shown (length result)) (\<lambda>ended_target.
        bind (get_client other) (\<lambda>y. bind (get_client client) (\<lambda>x.
          let ended_source = ended_target\<lparr>pid := of_nat iid\<rparr> in
          bind (send (cl_fd y) ended_target (Some (bytes_of result))) (\<lambda>r.
            if r = -1 then after (V_client other) (give (-1))
            else bind (send (cl_fd x) ended_source (Some (bytes_of result))) (\<lambda>r.
              if r = -1 then after (V_client client) (give (-1))
              else after (V_client other) (after (V_client client)
                (remove_both client other iv
                  (bind (get_client client) (\<lambda>x. bind (get_client other) (\<lambda>y.
                     after (if winner = FIRST_PLAYER_ROLE \<and> p1 = 1 then player_post_result (cl_player x) (cl_player y) 1
                            else if winner = SECOND_PLAYER_ROLE \<and> p1 = 1 then player_post_result (cl_player x) (cl_player y) 2
                            else if winner = FIRST_PLAYER_ROLE \<and> p1 = 2 then player_post_result (cl_player y) (cl_player x) 1
                            else if winner = SECOND_PLAYER_ROLE \<and> p1 = 2 then player_post_result (cl_player y) (cl_player x) 2
                            else player_post_result (cl_player x) (cl_player y) 0)
                       (give 0)))))))))))))"

definition client_make_move :: "('g, 'm) jeux_env \<Rightarrow> ref \<Rightarrow> nat \<Rightarrow> string \<Rightarrow> ('g, int) jx" where
  "client_make_move E client iid move =
     bind (get_slot client iid) (\<lambda>iv. bind (inv_get_game iv) (\<lambda>game.
       if game = null then give (-1)
       else bind (parties client iv) (\<lambda>(role, other, other_role).
         let p1 = (if role = FIRST_PLAYER_ROLE \<and> other_role = SECOND_PLAYER_ROLE then 1
                   else if role = SECOND_PLAYER_ROLE \<and> other_role = FIRST_PLAYER_ROLE then 2
                   else p1_junk E)
         in bind (search_slots other iv) (\<lambda>r.
           case r of
             None \<Rightarrow> give (-1)
           | Some i \<Rightarrow>
               bind (get_game game) (\<lambda>g.
                 case game_parse_move E g role move of
                   None \<Rightarrow> give (-1)
                 | Some g_move \<Rightarrow>
                     (case game_apply_move E g g_move of (a, g') \<Rightarrow>
                        after (put_game game g')
                          (if a = -1 then give (-1)
                           else bind (notify E other JEUX_MOVED_PKT i other_role (Some (game_unparse_state E g'))) (\<lambda>res.
                             if res = -1 then give (-1)
                             else if game_is_over E g' \<noteq> 0
                             then finish_game E client other iv iid i (game_unparse_state E g')
                                    (game_get_winner E g') role other_role p1
                             else give 0))))))))"

section \<open>Logout\<close>

fun logout_loop :: "('g, 'm) jeux_env \<Rightarrow> ref \<Rightarrow> nat list \<Rightarrow> ('g, int) jx" where
  "logout_loop E client [] = give 0"
| "logout_loop E client (i # is) =
     bind (get_slot client i) (\<lambda>iv. bind (inv_get_game iv) (\<lambda>game.
       bind (inv_get_source iv) (\<lambda>s.
         bind (if game \<noteq> null then bind (is_over E game) (\<lambda>ov. give (ov = 0)) else give False) (\<lambda>playing.
           bind (if s = client
                 then (if playing then client_resign_game E client i
                       else if game = null then client_revoke_invitation E client i
                       else give 0)
                 else (if playing then client_resign_game E client i
                       else if game = null then client_decline_invitation E client i
                       else give 0)) (\<lambda>r.
             if r = -1 then give (-1) else logout_loop E client is)))))"

definition client_logout :: "('g, 'm) jeux_env \<Rightarrow> ref \<Rightarrow> ('g, int) jx" where
  "client_logout E client = bind (get_client client) (\<lambda>x.
     if cl_logged_in x = 0 then give (-1)
     else after (P_client client)
       (bind (get_client client) (\<lambda>x. after (player_unref (cl_player x))
         (bind (get_client client) (\<lambda>x. after (put_client client (x\<lparr>cl_player := null, cl_logged_in := 0\<rparr>))
           (after (V_client client)
             (bind (get_client client) (\<lambda>x. logout_loop E client [0 ..< cl_inv_count x]))))))))"

section \<open>Users\<close>

definition unique_users :: "'g world \<Rightarrow> bool" where
  "unique_users w \<longleftrightarrow> (\<forall>c\<in>set (connections w). \<forall>d\<in>set (connections w).
     user_of w c \<noteq> None \<longrightarrow> user_of w c = user_of w d \<longrightarrow> c = d)"

lemma client_login_cases:
  assumes live: "\<forall>c\<in>set (connections w). login_ok w c" and c: "clients w c = Some x" "c \<noteq> null"
    and p: "players w p = Some y" "p \<noteq> null"
  shows "client_login c p w =
    (if cl_logged_in x = 1 \<or> (\<exists>d\<in>set (connections w). user_of w d = Some (pl_name y)) then Ret (-1, w)
     else if cl_mutex x = 0 \<or> pl_mutex y = 0 then Stuck Blocked
     else Ret (0, w\<lparr>clients := (clients w)(c \<mapsto> x\<lparr>cl_player := p, cl_logged_in := 1\<rparr>),
                    players := (players w)(p \<mapsto> y\<lparr>pl_count := pl_count y + 1\<rparr>)\<rparr>))"
proof -
  let ?f = "find (\<lambda>d. user_of w d = Some (pl_name y)) (connections w)"
  have n: "player_get_name p w = Ret (pl_name y, w)" using p by (simp add: player_get_name_def jx_defs)
  have l: "creg_lookup (pl_name y) w = Ret (case ?f of None \<Rightarrow> null | Some c \<Rightarrow> c, w)"
    by (rule creg_lookup_live[OF live])
  have "?f = None \<longleftrightarrow> \<not> (\<exists>d\<in>set (connections w). user_of w d = Some (pl_name y))" by (auto simp: find_None_iff)
  moreover have "d \<noteq> null" if "?f = Some d" for d
    using that live by (auto simp: find_Some_iff login_ok_def)
  ultimately have e: "(case ?f of None \<Rightarrow> null | Some c \<Rightarrow> c) \<noteq> null \<longleftrightarrow> (\<exists>d\<in>set (connections w). user_of w d = Some (pl_name y))"
    by (cases ?f) auto
  have t: "(if cl_logged_in x = 1 then give True
           else bind (player_get_name p) (\<lambda>n. bind (creg_lookup n) (\<lambda>c. give (c \<noteq> null)))) w =
      Ret (cl_logged_in x = 1 \<or> (\<exists>d\<in>set (connections w). user_of w d = Some (pl_name y)), w)"
    using n l e by (simp add: bind_def give_def)
  let ?t = "\<lambda>taken. if taken then give (-1)
       else after (P_client c)
         (bind (get_client c) (\<lambda>x. after (put_client c (x\<lparr>cl_player := p\<rparr>))
           (bind (player_ref p) (\<lambda>_. bind (get_client c) (\<lambda>x.
             after (put_client c (x\<lparr>cl_logged_in := 1\<rparr>))
               (after (V_client c) (give 0)))))))"
  have "client_login c p w = ?t (cl_logged_in x = 1 \<or> (\<exists>d\<in>set (connections w). user_of w d = Some (pl_name y))) w"
    unfolding client_login_def using t c by (simp add: bind_def[of "get_client c"] bind_def[of "if _ then _ else _"] get_client_def)
  then show ?thesis
    using c p by (cases x) (auto simp: player_ref_def jx_defs)
qed

lemma client_login_eval:
  assumes "creg_ok w" "logins_ok w" "clients w c = Some x" "c \<noteq> null" "0 < cl_mutex x"
    "players w p = Some y" "p \<noteq> null" "0 < pl_mutex y"
  shows "client_login c p w =
    (if cl_logged_in x = 1 \<or> (\<exists>d\<in>set (connections w). user_of w d = Some (pl_name y)) then Ret (-1, w)
     else Ret (0, w\<lparr>clients := (clients w)(c \<mapsto> x\<lparr>cl_player := p, cl_logged_in := 1\<rparr>),
                    players := (players w)(p \<mapsto> y\<lparr>pl_count := pl_count y + 1\<rparr>)\<rparr>))"
  using client_login_cases[OF logins_ok_live[OF assms(1,2)] assms(3,4,6,7)] assms(5,8) by simp

lemma user_of_login:
  assumes "clients w c = Some x" "players w p = Some y" "p \<noteq> null"
    and w': "w' = w\<lparr>clients := (clients w)(c \<mapsto> x\<lparr>cl_player := p, cl_logged_in := 1\<rparr>),
                    players := (players w)(p \<mapsto> y\<lparr>pl_count := pl_count y + 1\<rparr>)\<rparr>"
  shows "user_of w' d = (if d = c then Some (pl_name y) else user_of w d)"
  using assms(1-3) by (auto simp: w' user_of_def split: option.splits)

text \<open>A login succeeds exactly for a free client and a user not yet logged in, so users stay unique.\<close>

text \<open>
  C21: client_login never lets two logged-in clients of the registry share a user name.
\<close>

theorem login_keeps_users_unique:
  assumes "creg_ok w" "logins_ok w" "unique_users w" and c: "clients w c = Some x" "c \<noteq> null" "0 < cl_mutex x"
    and p: "players w p = Some y" "p \<noteq> null" "0 < pl_mutex y"
  shows "\<exists>r w'. client_login c p w = Ret (r, w') \<and> unique_users w' \<and> connections w' = connections w \<and>
    (r = 0 \<longleftrightarrow> cl_logged_in x \<noteq> 1 \<and> (\<forall>d\<in>set (connections w). user_of w d \<noteq> Some (pl_name y))) \<and>
    (if r = 0 then user_of w' c = Some (pl_name y) \<and> (\<forall>d. d \<noteq> c \<longrightarrow> user_of w' d = user_of w d) \<and>
       player_refs p w' = Some (pl_count y + 1) else w' = w)"
proof (cases "cl_logged_in x = 1 \<or> (\<exists>d\<in>set (connections w). user_of w d = Some (pl_name y))")
  case True
  then show ?thesis using client_login_eval[OF assms(1,2) c p] assms(3) by auto
next
  case False
  define w' where "w' = w\<lparr>clients := (clients w)(c \<mapsto> x\<lparr>cl_player := p, cl_logged_in := 1\<rparr>),
                    players := (players w)(p \<mapsto> y\<lparr>pl_count := pl_count y + 1\<rparr>)\<rparr>"
  have l: "client_login c p w = Ret (0, w')" using client_login_eval[OF assms(1,2) c p] False by (simp add: w'_def)
  have u: "user_of w' d = (if d = c then Some (pl_name y) else user_of w d)" for d
    by (rule user_of_login[OF c(1) p(1,2) w'_def])
  have conns: "connections w' = connections w" by (simp add: w'_def connections_def)
  have free: "\<forall>d\<in>set (connections w). user_of w d \<noteq> Some (pl_name y)" using False by blast
  have "unique_users w'"
    unfolding unique_users_def conns
  proof (intro ballI impI)
    fix a b assume ab: "a \<in> set (connections w)" "b \<in> set (connections w)" "user_of w' a \<noteq> None" "user_of w' a = user_of w' b"
    show "a = b"
    proof (cases "a = c \<or> b = c")
      case True
      then show ?thesis using ab(1,2,4) free by (auto simp: u split: if_splits)
    next
      case no: False
      then show ?thesis using ab assms(3) unfolding unique_users_def by (simp add: u)
    qed
  qed
  moreover have "player_refs p w' = Some (pl_count y + 1)" by (simp add: w'_def player_refs_def)
  ultimately show ?thesis using l conns free False u by auto
qed

section \<open>Sending\<close>

definition delivered :: "int \<Rightarrow> u8 list \<Rightarrow> net \<Rightarrow> net \<Rightarrow> bool" where
  "delivered fd bs n n' \<longleftrightarrow> outbox n' = (outbox n)(fd := outbox n fd @ bs) \<and> inbox n' = inbox n \<and>
     read_plan n' = read_plan n \<and> writes_progress (write_plan n')"

lemma send_eval:
  assumes "writes_progress (write_plan (network w))" "well_sized hdr data"
  shows "\<exists>n. send fd hdr data w = Ret (0, w\<lparr>network := n\<rparr>) \<and> delivered fd (wire hdr data) (network w) n"
  using send_packet_wire[OF assms, of fd] by (auto simp: send_def delivered_def)

definition stamped ::
  "('g, 'm) jeux_env \<Rightarrow> nat \<Rightarrow> packet_type \<Rightarrow> nat \<Rightarrow> game_role \<Rightarrow> nat \<Rightarrow> packet_header" where
  "stamped E k t i role n = \<lparr>ptype = packet_code t, pid = of_nat i, prole = role_code role, pad3 = fst (pad_junk E k),
     psize = (if n = 0 then 0 else htons (of_nat n)), pad67 = snd (pad_junk E k),
     timestamp_sec = htonl (fst (clock E k)), timestamp_nsec = htonl (snd (clock E k))\<rparr>"

lemma stamp_eval: "stamp E t i role n w = Ret (stamped E (ticks w) t i role n, w\<lparr>ticks := ticks w + 1\<rparr>)"
  by (simp add: stamp_def stamped_def split_beta)

lemma ntohs_0 [simp]: "ntohs 0 = 0"
  by (simp add: ntohs_def)

lemma stamped_well_sized:
  "length s < 2 ^ 16 \<Longrightarrow> n = length s \<Longrightarrow> well_sized (stamped E k t i role n) (Some s)"
  "well_sized (stamped E k t i role 0) None"
  by (auto simp: well_sized_def stamped_def unat_of_nat)

lemma bytes_of_length [simp]: "length (bytes_of s) = length s"
  by (simp add: bytes_of_def)

lemma notify_eval:
  assumes c: "clients w c = Some x" "c \<noteq> null" "0 < cl_mutex x"
    and n: "writes_progress (write_plan (network w))" and t: "case msg of None \<Rightarrow> True | Some s \<Rightarrow> length s < 2 ^ 16"
  shows "\<exists>n. notify E c t i role msg w = Ret (0, w\<lparr>ticks := ticks w + 1, network := n\<rparr>) \<and>
    delivered (cl_fd x) (wire (stamped E (ticks w) t i role (case msg of None \<Rightarrow> 0 | Some s \<Rightarrow> length s)) (map_option bytes_of msg))
      (network w) n"
proof -
  let ?h = "stamped E (ticks w) t i role (case msg of None \<Rightarrow> 0 | Some s \<Rightarrow> length s)"
  let ?w = "w\<lparr>clients := (clients w)(c \<mapsto> x\<lparr>cl_mutex := cl_mutex x - Suc 0\<rparr>), ticks := Suc (ticks w)\<rparr>"
  have "well_sized ?h (map_option bytes_of msg)" using t by (cases msg) (auto intro: stamped_well_sized)
  then obtain n where s: "send (cl_fd x) ?h (map_option bytes_of msg) ?w = Ret (0, ?w\<lparr>network := n\<rparr>)"
      "delivered (cl_fd x) (wire ?h (map_option bytes_of msg)) (network w) n"
    using send_eval[of ?w ?h "map_option bytes_of msg" "cl_fd x"] n by auto
  have p: "P_client c w = Ret ((), w\<lparr>clients := (clients w)(c \<mapsto> x\<lparr>cl_mutex := cl_mutex x - 1\<rparr>)\<rparr>)"
    using c by (simp add: P_client_def get_client_def put_client_def bind_def)
  have g: "get_client c ?w = Ret (x\<lparr>cl_mutex := cl_mutex x - Suc 0\<rparr>, ?w)" using c by (simp add: get_client_def)
  have v: "V_client c (?w\<lparr>network := n\<rparr>) = Ret ((), w\<lparr>ticks := ticks w + 1, network := n\<rparr>)"
    using c by (simp add: V_client_def get_client_def put_client_def bind_def fun_upd_idem)
  show ?thesis using s(2) unfolding notify_def after_def bind_def p
    by (intro exI[of _ n]) (simp add: stamp_eval g s(1) v give_def cong: if_cong)
qed

theorem client_send_ack_wire:
  assumes "clients w c = Some x" "c \<noteq> null" "0 < cl_mutex x" "writes_progress (write_plan (network w))"
    "length d < 2 ^ 16" "d \<noteq> []"
  shows "\<exists>n. client_send_ack E c (Some d) (length d) w = Ret (0, w\<lparr>ticks := ticks w + 1, network := n\<rparr>) \<and>
    delivered (cl_fd x) (header_bytes (stamped E (ticks w) JEUX_ACK_PKT 0 NULL_ROLE (length d)) @ d) (network w) n"
proof -
  let ?h = "stamped E (ticks w) JEUX_ACK_PKT 0 NULL_ROLE (length d)"
  let ?w = "w\<lparr>clients := (clients w)(c \<mapsto> x\<lparr>cl_mutex := cl_mutex x - Suc 0\<rparr>), ticks := Suc (ticks w)\<rparr>"
  obtain n where s: "send (cl_fd x) ?h (Some d) ?w = Ret (0, ?w\<lparr>network := n\<rparr>)"
      "delivered (cl_fd x) (wire ?h (Some d)) (network w) n"
    using send_eval[of ?w ?h "Some d" "cl_fd x"] stamped_well_sized(1)[OF assms(5) refl, of E "ticks w" JEUX_ACK_PKT 0 NULL_ROLE] assms(4) by auto
  have p: "P_client c w = Ret ((), w\<lparr>clients := (clients w)(c \<mapsto> x\<lparr>cl_mutex := cl_mutex x - 1\<rparr>)\<rparr>)"
    using assms by (simp add: P_client_def get_client_def put_client_def bind_def)
  have g: "get_client c ?w = Ret (x\<lparr>cl_mutex := cl_mutex x - Suc 0\<rparr>, ?w)" using assms by (simp add: get_client_def)
  have v: "V_client c (?w\<lparr>network := n\<rparr>) = Ret ((), w\<lparr>ticks := ticks w + 1, network := n\<rparr>)"
    using assms by (simp add: V_client_def get_client_def put_client_def bind_def fun_upd_idem)
  show ?thesis using s(2) assms(6) unfolding client_send_ack_def after_def bind_def p
    by (intro exI[of _ n]) (simp add: stamp_eval g s(1) v give_def wire_def cong: if_cong)
qed

section \<open>Making an invitation\<close>

lemma add_invitation_eval:
  assumes "clients w c = Some x" "c \<noteq> null" "0 < cl_mutex x" "cl_inv_count x < 150"
    "invitations w i = Some v" "i \<noteq> null" "0 < in_mutex v"
  shows "client_add_invitation c i w = Ret (cl_inv_count x,
    w\<lparr>clients := (clients w)(c \<mapsto> x\<lparr>cl_invs := (cl_invs x)(cl_inv_count x := i), cl_inv_count := cl_inv_count x + 1\<rparr>),
      invitations := (invitations w)(i \<mapsto> v\<lparr>in_count := in_count v + 1\<rparr>)\<rparr>)"
  using assms by (cases x) (simp add: client_add_invitation_def inv_ref_def jx_defs Let_def)

definition open_invitation :: "ref \<Rightarrow> ref \<Rightarrow> game_role \<Rightarrow> game_role \<Rightarrow> invitation" where
  "open_invitation s t sr tr = \<lparr>in_count = 3, in_src = s, in_target = t, in_state = INV_OPEN_STATE, in_game = null,
     in_src_role = sr, in_target_role = tr, in_mutex = 1\<rparr>"

text \<open>
  C6: client_make_invitation creates an open invitation with the given parties and roles, puts
  it in the next slot of both clients, and sends the target an INVITED packet with its slot
  number and the name of the source.
\<close>

theorem make_invitation_spec:
  assumes s: "clients w s = Some x" "s \<noteq> null" "0 < cl_mutex x" "cl_inv_count x < 150"
    and t: "clients w t = Some y" "t \<noteq> null" "0 < cl_mutex y" "cl_inv_count y < 150" "s \<noteq> t"
    and p: "players w (cl_player x) = Some q" "cl_player x \<noteq> null" "length (pl_name q) < 2 ^ 16"
    and m: "malloc_ok E (next_ref w)" "next_ref w \<noteq> null" and n: "writes_progress (write_plan (network w))"
  shows "\<exists>w'. client_make_invitation E s t sr tr w = Ret (int (cl_inv_count x), w') \<and>
    invitations w' = (invitations w)(next_ref w \<mapsto> open_invitation s t sr tr) \<and>
    clients w' = (clients w)
      (s \<mapsto> x\<lparr>cl_count := cl_count x + 1, cl_invs := (cl_invs x)(cl_inv_count x := next_ref w), cl_inv_count := cl_inv_count x + 1\<rparr>,
       t \<mapsto> y\<lparr>cl_count := cl_count y + 1, cl_invs := (cl_invs y)(cl_inv_count y := next_ref w), cl_inv_count := cl_inv_count y + 1\<rparr>) \<and>
    delivered (cl_fd y) (wire (stamped E (ticks w) JEUX_INVITED_PKT (cl_inv_count y) tr (length (pl_name q)))
        (Some (bytes_of (pl_name q)))) (network w) (network w')"
proof -
  let ?i = "next_ref w"
  let ?x = "x\<lparr>cl_count := cl_count x + 1\<rparr>" and ?y = "y\<lparr>cl_count := cl_count y + 1\<rparr>"
  let ?v = "open_invitation s t sr tr"
  let ?w1 = "w\<lparr>next_ref := ?i + 1, clients := (clients w)(s \<mapsto> ?x, t \<mapsto> ?y),
     invitations := (invitations w)(?i \<mapsto> ?v\<lparr>in_count := 1\<rparr>)\<rparr>"
  have c1: "inv_create E s t sr tr w = Ret (?i, ?w1)"
    using s t m by (simp add: inv_create_def malloc_def bind_def client_ref_eval after_def put_inv_def give_def open_invitation_def)
  let ?x2 = "?x\<lparr>cl_invs := (cl_invs x)(cl_inv_count x := ?i), cl_inv_count := cl_inv_count x + 1\<rparr>"
  let ?w2 = "?w1\<lparr>clients := (clients w)(s \<mapsto> ?x2, t \<mapsto> ?y), invitations := (invitations w)(?i \<mapsto> ?v\<lparr>in_count := 2\<rparr>)\<rparr>"
  have c2: "client_add_invitation s ?i ?w1 = Ret (cl_inv_count x, ?w2)"
    using add_invitation_eval[of ?w1 s ?x ?i "?v\<lparr>in_count := 1\<rparr>"] s t(5) m(2)
    by (simp add: open_invitation_def fun_upd_twist)
  let ?y2 = "?y\<lparr>cl_invs := (cl_invs y)(cl_inv_count y := ?i), cl_inv_count := cl_inv_count y + 1\<rparr>"
  let ?w3 = "?w2\<lparr>clients := (clients w)(s \<mapsto> ?x2, t \<mapsto> ?y2), invitations := (invitations w)(?i \<mapsto> ?v)\<rparr>"
  have c3: "client_add_invitation t ?i ?w2 = Ret (cl_inv_count y, ?w3)"
    using add_invitation_eval[of ?w2 t ?y ?i "?v\<lparr>in_count := 2\<rparr>"] t m(2)
    by (simp add: open_invitation_def)
  have g: "get_client s ?w3 = Ret (?x2, ?w3)" using s t(5) by (simp add: get_client_def)
  have nm: "player_get_name (cl_player x) ?w3 = Ret (pl_name q, ?w3)" using p by (simp add: player_get_name_def jx_defs)
  have "clients ?w3 t = Some ?y2" by simp
  from notify_eval[OF this t(2), of "Some (pl_name q)" E JEUX_INVITED_PKT "cl_inv_count y" tr] t(3) n p(3)
  obtain k where k: "notify E t JEUX_INVITED_PKT (cl_inv_count y) tr (Some (pl_name q)) ?w3 = Ret (0, ?w3\<lparr>ticks := ticks w + 1, network := k\<rparr>)"
    "delivered (cl_fd y) (wire (stamped E (ticks w) JEUX_INVITED_PKT (cl_inv_count y) tr (length (pl_name q)))
        (Some (bytes_of (pl_name q)))) (network w) k" by auto
  have "client_make_invitation E s t sr tr w = Ret (int (cl_inv_count x), ?w3\<lparr>ticks := ticks w + 1, network := k\<rparr>)"
    unfolding client_make_invitation_def bind_def c1
    using m(2) c2 c3 g nm k(1) by (simp add: give_def)
  with k(2) show ?thesis by auto
qed

section \<open>Dropping an invitation\<close>

definition slots_ok :: "'g world \<Rightarrow> client \<Rightarrow> bool" where
  "slots_ok w x \<longleftrightarrow> cl_inv_count x \<le> 150 \<and>
     (\<forall>i<cl_inv_count x. cl_invs x i \<noteq> null \<and> invitations w (cl_invs x i) \<noteq> None)"

definition game_of :: "'g world \<Rightarrow> ref \<Rightarrow> ref" where
  "game_of w iv = in_game (the (invitations w iv))"

lemma inv_get_game_eval: "invitations w iv = Some v \<Longrightarrow> iv \<noteq> null \<Longrightarrow> inv_get_game iv w = Ret (in_game v, w)"
  by (simp add: inv_get_game_def get_inv_def bind_def give_def)

lemma get_slot_eval: "clients w c = Some x \<Longrightarrow> c \<noteq> null \<Longrightarrow> i < 150 \<Longrightarrow> get_slot c i w = Ret (cl_invs x i, w)"
  by (simp add: get_slot_def get_client_def bind_def give_def)

lemma find_same_game_spec:
  assumes c: "clients w c = Some x" "c \<noteq> null" and iv: "invitations w iv = Some v" "iv \<noteq> null"
  shows "\<forall>i\<in>set is. i < 150 \<and> cl_invs x i \<noteq> null \<and> invitations w (cl_invs x i) \<noteq> None \<Longrightarrow>
   find_same_game c iv is w = Ret (find (\<lambda>i. game_of w (cl_invs x i) = in_game v) is, w)"
proof (induction "is")
  case Nil
  show ?case by (simp add: give_def)
next
  case (Cons i "is")
  then obtain u where u: "invitations w (cl_invs x i) = Some u" "cl_invs x i \<noteq> null" "i < 150" by auto
  have g: "inv_get_game (cl_invs x i) w = Ret (game_of w (cl_invs x i), w)"
    using inv_get_game_eval[OF u(1,2)] u(1) by (simp add: game_of_def)
  show ?case using Cons
    by (auto simp: bind_def give_def inv_get_game_eval[OF iv] get_slot_eval[OF c u(3)] g)
qed

lemma find_slot_spec:
  assumes c: "clients w c = Some x" "c \<noteq> null"
  shows "\<forall>i\<in>set is. i < 150 \<Longrightarrow> find_slot c iv is w = Ret (find (\<lambda>i. cl_invs x i = iv) is, w)"
  by (induction "is") (auto simp: bind_def give_def get_slot_eval[OF c])

lemma find_first_upt: "i < n \<Longrightarrow> P i \<Longrightarrow> \<forall>j<i. \<not> P j \<Longrightarrow> find P [0 ..< n] = Some i"
  unfolding find_Some_iff by (intro exI[of _ i]) auto

lemma search_slots_eval:
  assumes "clients w c = Some x" "c \<noteq> null" "cl_inv_count x \<le> 150" "i < cl_inv_count x" "cl_invs x i = iv" "\<forall>j<i. cl_invs x j \<noteq> iv"
  shows "search_slots c iv w = Ret (Some i, w)"
proof -
  have "find_slot c iv [0 ..< cl_inv_count x] w = Ret (find (\<lambda>i. cl_invs x i = iv) [0 ..< cl_inv_count x], w)"
    by (rule find_slot_spec[OF assms(1,2)]) (use assms(3) in auto)
  then show ?thesis using find_first_upt[of i "cl_inv_count x" "\<lambda>i. cl_invs x i = iv"] assms
    by (simp add: search_slots_def bind_def get_client_def)
qed

text \<open>What \<open>client_remove_invitation\<close> really drops: the first invitation with the same game.\<close>

lemma remove_invitation_eval:
  assumes c: "clients w c = Some x" "c \<noteq> null" "0 < cl_mutex x" "slots_ok w x"
    and iv: "invitations w iv = Some v" "iv \<noteq> null"
    and i: "i < cl_inv_count x" "game_of w (cl_invs x i) = in_game v" "\<forall>j<i. game_of w (cl_invs x j) \<noteq> in_game v"
    and u: "invitations w (cl_invs x i) = Some u" "0 < in_mutex u" "1 < in_count u"
  shows "client_remove_invitation c iv w =
    Ret (int i, w\<lparr>invitations := (invitations w)(cl_invs x i \<mapsto> u\<lparr>in_count := in_count u - 1\<rparr>)\<rparr>)"
proof -
  let ?x = "x\<lparr>cl_mutex := cl_mutex x - Suc 0\<rparr>"
  let ?w = "w\<lparr>clients := (clients w)(c \<mapsto> ?x)\<rparr>"
  let ?u = "u\<lparr>in_count := in_count u - 1\<rparr>"
  have p: "P_client c w = Ret ((), ?w)" using c by (simp add: P_client_def get_client_def put_client_def bind_def)
  have g: "get_client c ?w = Ret (?x, ?w)" using c by (simp add: get_client_def)
  have nz: "cl_invs x i \<noteq> null" "i < 150" using c(4) i(1) by (auto simp: slots_ok_def)
  have "find_same_game c iv [0 ..< cl_inv_count x] ?w = Ret (find (\<lambda>i. game_of ?w (cl_invs ?x i) = in_game v) [0 ..< cl_inv_count x], ?w)"
    by (rule find_same_game_spec) (use c iv in \<open>auto simp: slots_ok_def\<close>)
  also have "find (\<lambda>i. game_of ?w (cl_invs ?x i) = in_game v) [0 ..< cl_inv_count x] = Some i"
    using i by (intro find_first_upt) (auto simp: game_of_def)
  finally have f: "find_same_game c iv [0 ..< cl_inv_count x] ?w = Ret (Some i, ?w)" .
  have s: "get_slot c i ?w = Ret (cl_invs x i, ?w)" using c nz by (simp add: get_slot_def get_client_def bind_def give_def)
  have r: "inv_unref (cl_invs x i) ?w = Ret ((), ?w\<lparr>invitations := (invitations w)(cl_invs x i \<mapsto> ?u)\<rparr>)"
    using inv_unref_eval[of ?w "cl_invs x i" u] u nz by simp
  have v: "V_client c (?w\<lparr>invitations := (invitations w)(cl_invs x i \<mapsto> ?u)\<rparr>) =
      Ret ((), w\<lparr>invitations := (invitations w)(cl_invs x i \<mapsto> ?u)\<rparr>)"
    using c by (simp add: V_client_def get_client_def put_client_def bind_def fun_upd_idem)
  show ?thesis unfolding client_remove_invitation_def after_def bind_def p
    using g f s r v by (simp add: give_def)
qed

theorem remove_drops_other_invitation:
  assumes c: "clients w c = Some x" "c \<noteq> null" "0 < cl_mutex x" "slots_ok w x" "1 < cl_inv_count x"
    and ab: "cl_invs x 0 = a" "cl_invs x 1 = b" "a \<noteq> b" "invitations w a = Some u" "invitations w b = Some v"
    and o: "in_game u = null" "in_game v = null" "0 < in_mutex u" "1 < in_count u"
  shows "\<exists>w'. client_remove_invitation c b w = Ret (0, w') \<and> inv_refs a w' = Some (in_count u - 1) \<and> inv_refs b w' = inv_refs b w"
proof -
  have "b \<noteq> null" using c(4,5) ab(2) unfolding slots_ok_def by metis
  then have "client_remove_invitation c b w = Ret (int 0, w\<lparr>invitations := (invitations w)(cl_invs x 0 \<mapsto> u\<lparr>in_count := in_count u - 1\<rparr>)\<rparr>)"
    by (intro remove_invitation_eval[OF c(1-4) ab(5)]) (use assms in \<open>auto simp: game_of_def\<close>)
  then show ?thesis using ab(1,3) by (simp add: inv_refs_def)
qed

section \<open>Revoking and declining\<close>

text \<open>\<open>iv\<close> is in slot \<open>i\<close> of \<open>c\<close>, and is the first invitation there without a game.\<close>

definition holds_open :: "'g world \<Rightarrow> ref \<Rightarrow> client \<Rightarrow> ref \<Rightarrow> nat \<Rightarrow> bool" where
  "holds_open w c x iv i \<longleftrightarrow> clients w c = Some x \<and> c \<noteq> null \<and> 0 < cl_mutex x \<and> slots_ok w x \<and>
     i < cl_inv_count x \<and> cl_invs x i = iv \<and> (\<forall>j<i. game_of w (cl_invs x j) \<noteq> null)"

lemma holds_open_remove:
  assumes "holds_open w c x iv i" "invitations w iv = Some v" "in_game v = null" "0 < in_mutex v" "1 < in_count v"
  shows "client_remove_invitation c iv w = Ret (int i, w\<lparr>invitations := (invitations w)(iv \<mapsto> v\<lparr>in_count := in_count v - 1\<rparr>)\<rparr>)"
proof -
  have "iv \<noteq> null" "cl_invs x i = iv" using assms(1) by (auto simp: holds_open_def slots_ok_def)
  then show ?thesis using assms remove_invitation_eval[of w c x iv v i v] by (auto simp: holds_open_def game_of_def)
qed

lemma holds_open_update:
  "holds_open w c x iv i \<Longrightarrow> invitations w iv = Some v \<Longrightarrow> in_game v = in_game v' \<Longrightarrow>
   holds_open (w\<lparr>invitations := (invitations w)(iv \<mapsto> v')\<rparr>) c x iv i"
  by (auto simp: holds_open_def slots_ok_def game_of_def)

lemma holds_open_search:
  assumes "holds_open w c x iv i" "invitations w iv = Some v" "in_game v = null"
  shows "search_slots c iv w = Ret (Some i, w)"
  using assms by (intro search_slots_eval[of w c x]) (auto simp: holds_open_def slots_ok_def game_of_def)

lemma close_open:
  assumes "invitations w iv = Some v" "iv \<noteq> null" "in_mutex v = 1" "in_state v = INV_OPEN_STATE" "in_game v = null"
  shows "inv_close E iv NULL_ROLE w = Ret (0, w\<lparr>invitations := (invitations w)(iv \<mapsto> v\<lparr>in_state := INV_CLOSED_STATE\<rparr>)\<rparr>)"
  using assms by (cases v) (simp add: inv_close_def jx_defs)

lemma remove_both_open:
  assumes c: "holds_open w c x iv i" and t: "holds_open w t y iv j" and iv: "invitations w iv = Some v" "in_game v = null"
    "0 < in_mutex v" "2 < in_count v"
  shows "remove_both c t iv rest w = rest (w\<lparr>invitations := (invitations w)(iv \<mapsto> v\<lparr>in_count := in_count v - 2\<rparr>)\<rparr>)"
proof -
  let ?v = "v\<lparr>in_count := in_count v - 1\<rparr>"
  let ?w = "w\<lparr>invitations := (invitations w)(iv \<mapsto> ?v)\<rparr>"
  have r1: "client_remove_invitation c iv w = Ret (int i, ?w)"
    by (rule holds_open_remove[OF c iv(1-3)]) (use iv(4) in simp)
  have "holds_open ?w t y iv j" by (rule holds_open_update[OF t iv(1)]) simp
  from holds_open_remove[OF this, of ?v] iv
  have r2: "client_remove_invitation t iv ?w = Ret (int j, w\<lparr>invitations := (invitations w)(iv \<mapsto> v\<lparr>in_count := in_count v - 2\<rparr>)\<rparr>)"
    by simp
  show ?thesis by (simp add: remove_both_def bind_def r1 r2)
qed













text \<open>When no earlier slot is open, the reference dropped is the one to the invitation itself.\<close>

theorem decline_spec:
  assumes t: "holds_open w t y iv j" and s: "holds_open w s x iv i" and st: "s \<noteq> t"
    and iv: "invitations w iv = Some v" "in_src v = s" "in_target v = t" "in_state v = INV_OPEN_STATE" "in_game v = null"
      "in_mutex v = 1" "in_count v = 3"
    and n: "writes_progress (write_plan (network w))"
  shows "\<exists>n. client_decline_invitation E t j w = Ret (0, w\<lparr>invitations := (invitations w)(iv \<mapsto>
      v\<lparr>in_state := INV_CLOSED_STATE, in_count := 1\<rparr>), ticks := ticks w + 1, network := n\<rparr>) \<and>
    delivered (cl_fd x) (wire (stamped E (ticks w) JEUX_DECLINED_PKT i (in_src_role v) 0) None) (network w) n"
proof -
  let ?v1 = "v\<lparr>in_state := INV_CLOSED_STATE\<rparr>"
  let ?w1 = "w\<lparr>invitations := (invitations w)(iv \<mapsto> ?v1)\<rparr>"
  let ?w2 = "w\<lparr>invitations := (invitations w)(iv \<mapsto> v\<lparr>in_state := INV_CLOSED_STATE, in_count := 1\<rparr>)\<rparr>"
  have nz: "iv \<noteq> null" "t \<noteq> null" "j < 150" "cl_invs y j = iv" using t by (auto simp: holds_open_def slots_ok_def)
  have gs: "get_slot t j w = Ret (iv, w)" using get_slot_eval[of w t y j] t nz by (simp add: holds_open_def)
  have get: "inv_get_source iv w = Ret (s, w)" "inv_get_target iv w = Ret (t, w)" "inv_get_game iv w = Ret (null, w)"
      "inv_get_source_role iv ?w1 = Ret (in_src_role v, ?w1)"
    using iv nz by (simp_all add: inv_get_source_def inv_get_target_def inv_get_game_def inv_get_source_role_def get_inv_def bind_def give_def)
  have rb: "remove_both t s iv rest ?w1 = rest ?w2" for rest
    using remove_both_open[OF holds_open_update[OF t iv(1)] holds_open_update[OF s iv(1)], of ?v1 ?v1] iv by simp
  obtain k where k: "notify E s JEUX_DECLINED_PKT i (in_src_role v) None ?w2 = Ret (0, ?w2\<lparr>ticks := Suc (ticks w), network := k\<rparr>)"
      "delivered (cl_fd x) (wire (stamped E (ticks w) JEUX_DECLINED_PKT i (in_src_role v) 0) None) (network w) k"
    using notify_eval[of ?w2 s x None E JEUX_DECLINED_PKT i "in_src_role v"] s n by (auto simp: holds_open_def)
  have "client_decline_invitation E t j w = Ret (0, ?w2\<lparr>ticks := Suc (ticks w), network := k\<rparr>)"
    unfolding client_decline_invitation_def bind_def gs
    using nz(1) get holds_open_search[OF s iv(1,5)] close_open[OF iv(1) nz(1) iv(6,4,5), of E] rb k(1) by (simp add: give_def)
  with k(2) show ?thesis by auto
qed

section \<open>Accepting\<close>

text \<open>
  Accepting opens the game and shows the empty board to the source; without a place for the board the
  call dereferences \<open>NULL\<close>, with the invitation already accepted and the mutex of the source held.
\<close>

text \<open>
  C27: When a game can be created, client_accept_invitation of an open invitation starts the
  game, gives back the empty board and sends it to the source, under the first slot of the
  source that holds the invitation, in an ACCEPTED packet: both parties get the board whatever
  their roles, while client.h and protocol.h give it only to the one that moves first. Without
  a place for the board it dereferences a null pointer.
\<close>

theorem accept_spec:
  assumes t: "clients w t = Some y" "t \<noteq> null" "slots_ok w y" "j < cl_inv_count y" "cl_invs y j = iv"
    and s: "clients w s = Some x" "s \<noteq> null" "0 < cl_mutex x" "slots_ok w x" "i < cl_inv_count x" "cl_invs x i = iv" "\<forall>k<i. cl_invs x k \<noteq> iv"
    and iv: "invitations w iv = Some v" "in_src v = s" "in_state v = INV_OPEN_STATE" "in_game v = null" "0 < in_mutex v" "1 < in_count v"
    and g: "game_create E = Some g0" "next_ref w \<noteq> null" and n: "writes_progress (write_plan (network w))"
  shows "(\<exists>k. client_accept_invitation E t j True w = Ret ((0, Some empty_board),
      w\<lparr>next_ref := next_ref w + 1, games := (games w)(next_ref w \<mapsto> game_ref E g0),
        invitations := (invitations w)(iv \<mapsto> v\<lparr>in_state := INV_ACCEPTED_STATE, in_game := next_ref w, in_count := in_count v - 1\<rparr>),
        ticks := ticks w + 1, network := k\<rparr>) \<and>
      delivered (cl_fd x) (wire (stamped E (ticks w) JEUX_ACCEPTED_PKT i NULL_ROLE (length empty_board)) (Some (bytes_of empty_board)))
        (network w) k) \<and>
    client_accept_invitation E t j False w = Stuck Null_deref"
proof -
  let ?g = "next_ref w"
  let ?v1 = "v\<lparr>in_state := INV_ACCEPTED_STATE, in_game := ?g\<rparr>"
  let ?w1 = "w\<lparr>next_ref := Suc ?g, games := (games w)(?g \<mapsto> g0), invitations := (invitations w)(iv \<mapsto> ?v1)\<rparr>"
  let ?w2 = "w\<lparr>next_ref := Suc ?g, games := (games w)(?g \<mapsto> game_ref E g0), invitations := (invitations w)(iv \<mapsto> ?v1)\<rparr>"
  let ?x = "x\<lparr>cl_mutex := cl_mutex x - Suc 0\<rparr>"
  let ?w3 = "?w2\<lparr>clients := (clients w)(s \<mapsto> ?x), ticks := Suc (ticks w)\<rparr>"
  let ?h = "stamped E (ticks w) JEUX_ACCEPTED_PKT i NULL_ROLE (length empty_board)"
  have nz: "iv \<noteq> null" "j < 150" using t s(2) by (auto simp: slots_ok_def)
  note sx = s(1-3)
  have se: "search_slots s iv w = Ret (Some i, w)"
    by (rule search_slots_eval[OF s(1,2) _ s(5-7)]) (use s(4) in \<open>simp add: slots_ok_def\<close>)
  have gs: "get_slot t j w = Ret (iv, w)" using get_slot_eval[OF t(1,2) nz(2)] t(5) by simp
  have src: "inv_get_source iv w = Ret (s, w)" using iv nz by (simp add: inv_get_source_def get_inv_def bind_def give_def)
  have ac: "inv_accept E iv w = Ret (0, ?w1)" using inv_accept_open[OF iv(1) nz(1) iv(3,5) g(1)] by simp
  have ga: "inv_get_game iv ?w1 = Ret (?g, ?w1)" using nz by (simp add: inv_get_game_def get_inv_def bind_def give_def)
  have gg: "get_game ?g ?w1 = Ret (g0, ?w1)" using g(2) by (simp add: get_game_def)
  have pg: "put_game ?g (game_ref E g0) ?w1 = Ret ((), ?w2)" by (simp add: put_game_def)
  have p: "P_client s ?w2 = Ret ((), ?w2\<lparr>clients := (clients w)(s \<mapsto> ?x)\<rparr>)"
    using sx by (simp add: P_client_def get_client_def put_client_def bind_def)
  have gc: "get_client s ?w3 = Ret (?x, ?w3)" using sx by (simp add: get_client_def)
  have "length empty_board < 2 ^ 16" "bytes_of empty_board \<noteq> []" by (simp_all add: empty_board_def bytes_of_def)
  then have "well_sized ?h (Some (bytes_of empty_board))" by (intro stamped_well_sized) simp_all
  then obtain k where k: "send (cl_fd x) ?h (Some (bytes_of empty_board)) ?w3 = Ret (0, ?w3\<lparr>network := k\<rparr>)"
      "delivered (cl_fd x) (wire ?h (Some (bytes_of empty_board))) (network w) k"
    using send_eval[of ?w3 ?h "Some (bytes_of empty_board)" "cl_fd x"] n by auto
  have v: "V_client s (?w3\<lparr>network := k\<rparr>) = Ret ((), ?w2\<lparr>ticks := Suc (ticks w), network := k\<rparr>)"
    using sx by (simp add: V_client_def get_client_def put_client_def bind_def fun_upd_idem)
  have u: "inv_unref iv (?w2\<lparr>ticks := Suc (ticks w), network := k\<rparr>) = Ret ((), ?w2\<lparr>ticks := Suc (ticks w), network := k,
      invitations := (invitations w)(iv \<mapsto> ?v1\<lparr>in_count := in_count v - 1\<rparr>)\<rparr>)"
    using inv_unref_eval[of "?w2\<lparr>ticks := Suc (ticks w), network := k\<rparr>" iv ?v1] iv nz by simp
  have pre: "client_accept_invitation E t j strp w =
      bind (stamp E JEUX_ACCEPTED_PKT i NULL_ROLE (if strp then length empty_board else 0)) (\<lambda>hdr.
        if \<not> strp then stuck Null_deref
        else bind (get_client s) (\<lambda>x. bind (send (cl_fd x) hdr (Some (bytes_of empty_board))) (\<lambda>res.
          if res = -1 then after (V_client s) (give (-1, Some empty_board))
          else after (V_client s) (after (inv_unref iv) (give (0, Some empty_board))))))
      (?w2\<lparr>clients := (clients w)(s \<mapsto> ?x)\<rparr>)" for strp
    unfolding client_accept_invitation_def bind_def[of "get_slot _ _"] gs outcome.case prod.case
      bind_def[of "inv_get_source _"] src bind_def[of "search_slots _ _"] se option.case
      bind_def[of "inv_accept _ _"] ac bind_def[of "inv_get_game _"] bind_def[of "get_game _"] after_def
      bind_def[of "put_game _ _"] bind_def[of "P_client _"]
    by (simp add: ga gg pg p)
  have "client_accept_invitation E t j True w = Ret ((0, Some empty_board), ?w2\<lparr>ticks := Suc (ticks w), network := k,
      invitations := (invitations w)(iv \<mapsto> ?v1\<lparr>in_count := in_count v - 1\<rparr>)\<rparr>)"
    unfolding pre using gc k(1) v u by (simp add: bind_def stamp_eval after_def give_def cong: if_cong)
  moreover have "client_accept_invitation E t j False w = Stuck Null_deref"
    unfolding pre by (simp add: bind_def stamp_eval stuck_def)
  ultimately show ?thesis using k(2) by (intro conjI exI[of _ k]) simp_all
qed

end
