(* ===== verification/Jeux_Main.thy ===== *)
theory Jeux_Main imports Jeux_Client begin

text \<open>
  The frame of the hw5 server (\<open>main.c\<close>): the start up to the accept loop, and the shutdown, which is
  also what the handler of SIGHUP does. The listening socket and the accept loop are in Jeux_Server.
\<close>

text \<open>
  The shutdown wakes the service threads, and these run until \<open>creg_wait_for_empty\<close> has the mutex of the
  registry: the argument \<open>threads\<close> is what they do in that time, in particular the unregistrations they
  complete. Finalising the client registry frees it when it is empty and otherwise only prints a
  message; nothing uses it afterwards.
\<close>

definition terminate :: "('g, unit) jx \<Rightarrow> int \<Rightarrow> ('g, unit) jx" where
  "terminate threads status =
     after creg_shutdown_all
       (after threads
         (after creg_wait_for_empty
           (bind (\<lambda>w. Ret (creg_fini (creg w), w)) (\<lambda>freed.
              after preg_fini (stuck (Exit_called status))))))"

definition sighup_handler :: "('g, unit) jx \<Rightarrow> int \<Rightarrow> ('g, unit) jx" where
  "sighup_handler threads sig = terminate threads 0"

text \<open>With wrong arguments there are no service threads yet.\<close>

definition jeux_main_start :: "(nat \<Rightarrow> ref) \<Rightarrow> (nat \<Rightarrow> ref) \<Rightarrow> string list \<Rightarrow> ('g, unit) jx" where
  "jeux_main_start junk_c junk_p argv w =
     (let w = w\<lparr>creg := creg_init junk_c, preg := preg_init junk_p\<rparr>
      in if length argv \<noteq> 3 \<or> argv ! 1 \<noteq> ''-p'' then terminate (give ()) 1 w else Ret ((), w))"

section \<open>Shutting down\<close>

lemma creg_shutdown_loop_run:
  "\<forall>i\<in>set is. cr_connections (creg w) i \<noteq> null \<and> clients w (cr_connections (creg w) i) \<noteq> None \<Longrightarrow>
   creg_shutdown_loop is w = Ret ((), w\<lparr>shut := shut w @ map (\<lambda>i. fd_of w (cr_connections (creg w) i)) is\<rparr>)"
proof (induction "is" arbitrary: w)
  case Nil
  then show ?case by (simp add: give_def)
next
  case (Cons i "is")
  let ?c = "cr_connections (creg w) i"
  have "client_get_fd ?c w = Ret (fd_of w ?c, w)" using Cons.prems by (auto simp: client_get_fd_def fd_of_def jx_defs)
  then have "creg_shutdown_loop (i # is) w = creg_shutdown_loop is (w\<lparr>shut := shut w @ [fd_of w ?c]\<rparr>)"
    by (simp add: bind_def after_def)
  also have "\<dots> = Ret ((), w\<lparr>shut := shut w @ [fd_of w ?c] @ map (\<lambda>i. fd_of w (cr_connections (creg w) i)) is\<rparr>)"
    using Cons.prems by (subst Cons.IH) (simp_all add: fd_of_def)
  finally show ?case by simp
qed

lemma creg_shutdown_all_run:
  assumes "creg_ok w"
  shows "creg_shutdown_all w = Ret ((), w\<lparr>shut := shut w @ map (fd_of w) (connections w)\<rparr>)"
proof -
  let ?w = "w\<lparr>creg := (creg w)\<lparr>cr_mutex := 0\<rparr>\<rparr>"
  have m: "cr_mutex (creg w) = 1" using assms by (simp add: creg_ok_def)
  have "\<forall>i\<in>set [0 ..< cr_count (creg w)]. cr_connections (creg w) i \<noteq> null \<and> clients w (cr_connections (creg w) i) \<noteq> None"
    using assms by (fastforce simp: creg_ok_def connections_def)
  then have "creg_shutdown_loop [0 ..< cr_count (creg w)] ?w
    = Ret ((), ?w\<lparr>shut := shut ?w @ map (\<lambda>i. fd_of w (cr_connections (creg w) i)) [0 ..< cr_count (creg w)]\<rparr>)"
    using creg_shutdown_loop_run[of "[0 ..< cr_count (creg w)]" ?w] by (simp add: fd_of_def)
  then show ?thesis using m
    by (cases "creg w") (simp add: creg_shutdown_all_def after_def bind_def P_cr_mutex_def V_cr_mutex_def connections_def comp_def)
qed

lemma preg_fini_loop_run:
  "distinct (map (pr_players (preg w)) is) \<Longrightarrow>
   \<forall>i\<in>set is. pr_players (preg w) i \<noteq> null \<and> (\<exists>x. players w (pr_players (preg w) i) = Some x \<and> 0 < pl_mutex x \<and> 0 < pl_count x) \<Longrightarrow>
   \<exists>w'. preg_fini_loop is w = Ret ((), w')"
proof (induction "is" arbitrary: w)
  case Nil
  then show ?case by (simp add: give_def)
next
  case (Cons i "is")
  let ?p = "pr_players (preg w) i"
  obtain x where x: "players w ?p = Some x" "0 < pl_mutex x" "0 < pl_count x" using Cons.prems(2) by auto
  let ?w = "w\<lparr>players := (players w)(?p := if pl_count x = 1 then None else Some (x\<lparr>pl_count := pl_count x - 1\<rparr>))\<rparr>"
  have "player_unref ?p w = Ret ((), ?w)" using x Cons.prems(2) by (intro player_unref_eval) simp_all
  then have "preg_fini_loop (i # is) w = preg_fini_loop is ?w" by (simp add: bind_def after_def)
  moreover have "\<exists>w'. preg_fini_loop is ?w = Ret ((), w')"
  proof (rule Cons.IH)
    have "pr_players (preg w) k \<noteq> ?p" if "k \<in> set is" for k using Cons.prems(1) that by (metis distinct.simps(2) imageI list.map(2) set_map)
    then show "\<forall>k\<in>set is. pr_players (preg ?w) k \<noteq> null \<and>
        (\<exists>y. players ?w (pr_players (preg ?w) k) = Some y \<and> 0 < pl_mutex y \<and> 0 < pl_count y)"
      using Cons.prems(2) by auto
  qed (use Cons.prems(1) in simp)
  ultimately show ?case by simp
qed

lemma preg_fini_run:
  assumes "preg_ok w"
  obtains w' where "preg_fini w = Ret ((), w')"
proof -
  have "distinct (preg_refs w)" using assms by (auto simp: preg_ok_def preg_names_def distinct_map)
  then have "\<exists>w'. preg_fini_loop [0 ..< pr_count (preg w)] w = Ret ((), w')"
    using assms by (intro preg_fini_loop_run) (auto simp: preg_ok_def preg_refs_def)
  then show ?thesis using that by (auto simp: preg_fini_def)
qed

definition shut_down :: "'g world \<Rightarrow> 'g world" where
  "shut_down w = w\<lparr>shut := shut w @ map (fd_of w) (connections w)\<rparr>"

lemma shut_down_ok: "connections (shut_down w) = connections w" "creg_ok (shut_down w) \<longleftrightarrow> creg_ok w" "preg_ok (shut_down w) \<longleftrightarrow> preg_ok w"
  by (simp_all add: shut_down_def connections_def creg_ok_def fd_of_def preg_ok_def preg_names_def preg_refs_def cong: map_cong)

lemma terminate_run:
  assumes "creg_ok w" "threads (shut_down w) = Ret ((), w1)" "creg_ok w1" "preg_ok w1"
  shows "terminate threads status w = Stuck (if connections w1 = [] then Exit_called status else Diverges)"
proof -
  have wait: "creg_wait_for_empty w1 = (if connections w1 = [] then Ret ((), w1) else Stuck Diverges)"
    using wait_for_empty_deadlock[OF assms(3)] by simp
  obtain w' where fini: "preg_fini w1 = Ret ((), w')" by (rule preg_fini_run[OF assms(4)])
  have "terminate threads status w = (case creg_wait_for_empty w1 of Stuck e \<Rightarrow> Stuck e
    | Ret (_, w2) \<Rightarrow> (case preg_fini w2 of Stuck e \<Rightarrow> Stuck e | Ret (_, w3) \<Rightarrow> Stuck (Exit_called status)))"
    using assms(2) by (simp add: terminate_def after_def bind_def creg_shutdown_all_run[OF assms(1)] shut_down_def stuck_def split: outcome.split)
  then show ?thesis unfolding wait using fini by (cases "connections w1 = []") simp_all
qed

text \<open>All threads may have left before the wait, or none.\<close>

primrec all_leave :: "ref list \<Rightarrow> ('g, unit) jx" where
  "all_leave [] = give ()"
| "all_leave (c # cs) = bind (creg_unregister c) (\<lambda>_. all_leave cs)"

lemma all_leave_run:
  "creg_ok w \<Longrightarrow> preg_ok w \<Longrightarrow> mset (connections w) = mset cs \<Longrightarrow>
   \<exists>w1. all_leave cs w = Ret ((), w1) \<and> creg_ok w1 \<and> preg_ok w1 \<and> connections w1 = []"
proof (induction cs arbitrary: w)
  case (Cons c cs)
  have c: "c \<in> set (connections w)" using arg_cong[OF Cons.prems(3), of set_mset] by auto
  obtain x where x: "clients w c = Some x" by (rule creg_ok_member[OF Cons.prems(1) c])
  obtain w1 where w1: "creg_unregister c w = Ret (0, w1)" "creg_ok w1" "mset (connections w) = add_mset c (mset (connections w1))"
    using creg_unregister_correct[OF Cons.prems(1) c x] by blast
  have "players w1 = players w" "preg w1 = preg w" "next_ref w1 = next_ref w" using creg_unregister_eval[OF Cons.prems(1) c x] w1(1) by auto
  then have "preg_ok w1" using Cons.prems(2) by (simp add: preg_ok_def preg_names_def preg_refs_def)
  moreover have "mset (connections w1) = mset cs" using w1(3) Cons.prems(3) by simp
  ultimately show ?case using Cons.IH[OF w1(2)] w1(1) by (auto simp: bind_def)
qed (simp add: give_def)

text \<open>
  The server exits exactly when every client has unregistered before the wait takes the mutex; after that
  the wait holds the mutex that the clients need to leave.
\<close>

text \<open>
  C38: On SIGHUP the sockets of all clients are shut down, and then, whatever the service
  threads do before the main thread takes the mutex of the registry for its wait, the server
  exits exactly when they have left no client registered by that moment; with a client left
  the wait never ends, and under the mutex it holds no client can be unregistered. So it exits
  when all clients unregister in between, and hangs when none does, although client_registry.h
  promises a wait until the count is zero.
\<close>

lemma sighup_exits_iff_all_left:
  fixes w :: "'g world"
  assumes "creg_ok w" "preg_ok w"
  shows "(\<forall>threads w1. threads (shut_down w) = Ret ((), w1) \<and> creg_ok w1 \<and> preg_ok w1 \<longrightarrow>
      sighup_handler threads sig w = Stuck (if connections w1 = [] then Exit_called 0 else Diverges) \<and>
      (case exec P_cr_mutex w1 of Ret w2 \<Rightarrow> creg_unregister c w2 = Stuck Blocked | Stuck e \<Rightarrow> False)) \<and>
    sighup_handler (all_leave (connections w)) sig w = Stuck (Exit_called 0) \<and>
    (connections w \<noteq> [] \<longrightarrow> sighup_handler (give ()) sig w = Stuck Diverges)"
proof (intro conjI allI impI)
  note ok = shut_down_ok[of w]
  obtain w1 where w1: "all_leave (connections w) (shut_down w) = Ret ((), w1)" "creg_ok w1" "preg_ok w1" "connections w1 = []"
    using all_leave_run[of "shut_down w" "connections w"] assms ok by auto
  show "sighup_handler (all_leave (connections w)) sig w = Stuck (Exit_called 0)"
    using terminate_run[OF assms(1), of "all_leave (connections w)" w1] w1 by (simp add: sighup_handler_def)
  have idle: "give () (shut_down w) = Ret ((), shut_down w)" by (simp add: give_def)
  show "sighup_handler (give ()) sig w = Stuck Diverges" if "connections w \<noteq> []"
    using terminate_run[OF assms(1), of "give ()" "shut_down w"] idle ok assms that by (simp add: sighup_handler_def)
next
  fix threads :: "('g, unit) jx" and w1 assume t: "threads (shut_down w) = Ret ((), w1) \<and> creg_ok w1 \<and> preg_ok w1"
  show "sighup_handler threads sig w = Stuck (if connections w1 = [] then Exit_called 0 else Diverges)"
    using terminate_run[OF assms(1)] t by (simp add: sighup_handler_def)
  show "case exec P_cr_mutex w1 of Ret w2 \<Rightarrow> creg_unregister c w2 = Stuck Blocked | Stuck e \<Rightarrow> False"
    using wait_for_empty_deadlock[of w1 c] t by simp
qed

lemma bad_arguments_exit:
  assumes "length argv \<noteq> 3 \<or> argv ! 1 \<noteq> ''-p''"
  shows "jeux_main_start junk_c junk_p argv w = Stuck (Exit_called 1)"
proof -
  let ?w = "w\<lparr>creg := creg_init junk_c, preg := preg_init junk_p\<rparr>"
  have w: "creg_ok ?w" "preg_ok ?w" "connections ?w = []"
    by (simp_all add: creg_init_ok[of _ junk_c] preg_ok_def preg_init_def preg_names_def preg_refs_def connections_def creg_init_def)
  have "give () (shut_down ?w) = Ret ((), shut_down ?w)" by (simp add: give_def)
  with terminate_run[OF w(1), of "give ()" "shut_down ?w"] w show ?thesis using assms
    by (simp add: jeux_main_start_def shut_down_ok)
qed

end
