(* ===== verification/Csapp_Rio.thy ===== *)
theory Csapp_Rio imports Jeux_Protocol begin

text \<open>
  The buffered half of the robust I/O package of hw5 (\<open>csapp.c\<close>: \<open>rio_read\<close>, \<open>rio_readinitb\<close>,
  \<open>rio_readnb\<close>, \<open>rio_readlineb\<close>), over the same network state and plan of system call results as the
  unbuffered half in \<open>Jeux_Protocol\<close>. The contract of a source of bytes is a locale: a source hands out
  a non-empty piece of the stream that is left until the stream is used up. Both \<open>rio_read\<close> on its
  internal buffer and a \<open>read\<close> that is repeated when a signal interrupts it are such sources, and the
  loops that collect exactly \<open>n\<close> bytes or one line are right for every source. Lengths are natural
  numbers: the loops of the code count with \<open>int\<close>, so requests are below \<open>2 ^ 31\<close>.
\<close>

section \<open>Sources of bytes\<close>

text \<open>
  \<open>take n s\<close> of a source asks for at most \<open>n\<close> bytes: the result is a count or a negative value for a
  failure, the bytes, and the source after it. Whatever happens, the bytes handed out followed by what
  is left are what was left before. A live source never fails and only answers zero at the end.
\<close>

locale byte_source =
  fixes src :: "nat \<Rightarrow> 's \<Rightarrow> int \<times> u8 list \<times> 's"
    and stream :: "'s \<Rightarrow> u8 list"
    and inv :: "'s \<Rightarrow> bool"
    and live :: "'s \<Rightarrow> bool"
  assumes src_keeps: "inv s \<Longrightarrow> src n s = (r, bs, s') \<Longrightarrow>
      inv s' \<and> bs @ stream s' = stream s \<and> length bs = nat r \<and> r \<le> int n"
    and src_live: "inv s \<Longrightarrow> live s \<Longrightarrow> 0 < n \<Longrightarrow> src n s = (r, bs, s') \<Longrightarrow>
      live s' \<and> 0 \<le> r \<and> (r = 0 \<longrightarrow> stream s = [])"

text \<open>A loop that asks a source until it has \<open>n\<close> bytes, a failure or the end of the stream.\<close>

locale byte_collector = byte_source src stream inv live
  for src :: "nat \<Rightarrow> 's \<Rightarrow> int \<times> u8 list \<times> 's" and stream inv live +
  fixes loop :: "nat \<Rightarrow> u8 list \<Rightarrow> 's \<Rightarrow> bool \<times> u8 list \<times> 's"
  assumes loop_eq: "loop n got s =
     (if n = 0 then (True, got, s)
      else (case src n s of (r, bs, s') \<Rightarrow>
        if r < 0 then (False, got, s') else if r = 0 then (True, got, s')
        else loop (n - nat r) (got @ bs) s'))"
begin

lemma loop_keeps:
  "inv s \<Longrightarrow> loop n got s = (b, got', s') \<Longrightarrow>
   inv s' \<and> (\<exists>bs. got' = got @ bs \<and> bs @ stream s' = stream s \<and> length bs \<le> n)"
proof (induction n arbitrary: got s rule: less_induct)
  case (less n)
  obtain r bs s1 where src: "src n s = (r, bs, s1)" by (cases "src n s")
  note k = src_keeps[OF less.prems(1) src]
  show ?case
  proof (cases "n = 0 \<or> r \<le> 0")
    case True
    then show ?thesis using less.prems k src by (auto simp: loop_eq[of n] split: if_splits)
  next
    case False
    then have "loop (n - nat r) (got @ bs) s1 = (b, got', s')" "n - nat r < n"
      using less.prems(2) src by (auto simp: loop_eq[of n])
    from less.IH[OF this(2) _ this(1)] k obtain cs where
      "inv s'" "got' = (got @ bs) @ cs" "cs @ stream s' = stream s1" "length cs \<le> n - nat r" by auto
    then show ?thesis using k False by (intro conjI exI[of _ "bs @ cs"]) auto
  qed
qed

lemma loop_live:
  "inv s \<Longrightarrow> live s \<Longrightarrow>
   \<exists>s'. loop n got s = (True, got @ take n (stream s), s') \<and> stream s' = drop n (stream s) \<and> inv s' \<and> live s'"
proof (induction n arbitrary: got s rule: less_induct)
  case (less n)
  obtain r bs s1 where src: "src n s = (r, bs, s1)" by (cases "src n s")
  note k = src_keeps[OF less.prems(1) src] and l = src_live[OF less.prems _ src]
  consider "n = 0" | "0 < n" "r = 0" | "0 < n" "r \<noteq> 0" by auto
  then show ?case
  proof cases
    case 1
    then show ?thesis using less.prems by (simp add: loop_eq[of 0])
  next
    case 2
    then show ?thesis using k l src by (auto simp: loop_eq[of n])
  next
    case 3
    note False = 3
    have st: "stream s = bs @ stream s1" using k by simp
    have "n - nat r < n" "inv s1" "live s1" using False k l by auto
    from less.IH[OF this, of "got @ bs"] obtain s' where
      "loop (n - nat r) (got @ bs) s1 = (True, (got @ bs) @ take (n - nat r) (stream s1), s')"
      "stream s' = drop (n - nat r) (stream s1)" "inv s'" "live s'" by blast
    then show ?thesis using False k l src st by (auto simp: loop_eq[of n])
  qed
qed

end

section \<open>One call of read\<close>

text \<open>
  The next entry of the plan decides what the call does: a negative value is a failure, interrupted or
  not, any other the most it transfers. Without an entry it transfers all it can.
\<close>

definition sys_read :: "int \<Rightarrow> nat \<Rightarrow> net \<Rightarrow> (int \<times> bool) \<times> u8 list \<times> net" where
  "sys_read fd n s =
     (let give = (\<lambda>k s. ((int k, False), take k (inbox s fd), s\<lparr>inbox := (inbox s)(fd := drop k (inbox s fd))\<rparr>))
      in case read_plan s of
           [] \<Rightarrow> give (min n (length (inbox s fd))) s
         | (r, eintr) # plan \<Rightarrow>
             if r < 0 then ((-1, eintr), [], s\<lparr>read_plan := plan\<rparr>)
             else give (min (nat r) (min n (length (inbox s fd)))) (s\<lparr>read_plan := plan\<rparr>))"

section \<open>The buffered reader\<close>

definition RIO_BUFSIZE :: nat where
  "RIO_BUFSIZE = 8192"

text \<open>\<open>rio_bufptr\<close> points into \<open>rio_buf\<close>: it is the offset of the next unread byte.\<close>

record rio_t =
  rio_fd :: int
  rio_cnt :: int
  rio_bufptr :: nat
  rio_buf :: "u8 list"

definition rio_readinitb :: "int \<Rightarrow> rio_t \<Rightarrow> rio_t" where
  "rio_readinitb fd rp = rp\<lparr>rio_fd := fd, rio_cnt := 0, rio_bufptr := 0\<rparr>"

text \<open>
  The refilling loop of \<open>rio_read\<close>. The first result says how it ended: \<open>None\<close> with unread bytes in the
  buffer, \<open>Some r\<close> with an early return of \<open>r\<close>.
\<close>

function rio_refill :: "rio_t \<Rightarrow> net \<Rightarrow> int option \<times> rio_t \<times> net" where
  "rio_refill rp s =
     (if 0 < rio_cnt rp then (None, rp, s)
      else
        (case sys_read (rio_fd rp) RIO_BUFSIZE s of ((r, eintr), bs, s') \<Rightarrow>
           let rp = rp\<lparr>rio_cnt := r, rio_buf := bs @ drop (length bs) (rio_buf rp)\<rparr> in
           if r < 0 then (if eintr then rio_refill rp s' else (Some (-1), rp, s'))
           else if r = 0 then (Some 0, rp, s')
           else (None, rp\<lparr>rio_bufptr := 0\<rparr>, s')))"
  by pat_completeness auto

lemma sys_read_fails:
  "sys_read fd n s = ((r, e), bs, s') \<Longrightarrow> r < 0 \<Longrightarrow> length (read_plan s') < length (read_plan s) \<and> bs = []"
  by (auto simp: sys_read_def Let_def split: list.splits if_splits)

termination rio_refill
  by (relation "measure (\<lambda>(rp, s). length (read_plan s))") (auto dest!: sys_read_fails[OF sym])

declare rio_refill.simps [simp del]

text \<open>The bytes copied to the user's buffer are the second result.\<close>

definition rio_read :: "nat \<Rightarrow> rio_t \<Rightarrow> net \<Rightarrow> int \<times> u8 list \<times> rio_t \<times> net" where
  "rio_read n rp s =
     (case rio_refill rp s of
        (Some r, rp, s) \<Rightarrow> (r, [], rp, s)
      | (None, rp, s) \<Rightarrow>
          let cnt = (if rio_cnt rp < int n then rio_cnt rp else int n) in
          (cnt, take (nat cnt) (drop (rio_bufptr rp) (rio_buf rp)),
           rp\<lparr>rio_bufptr := rio_bufptr rp + nat cnt, rio_cnt := rio_cnt rp - cnt\<rparr>, s))"

text \<open>\<open>got\<close> is what the user's buffer holds so far.\<close>

function readnb_loop :: "nat \<Rightarrow> u8 list \<Rightarrow> rio_t \<Rightarrow> net \<Rightarrow> bool \<times> u8 list \<times> rio_t \<times> net" where
  "readnb_loop nleft got rp s =
     (if nleft = 0 then (True, got, rp, s)
      else
        (case rio_read nleft rp s of (nread, bs, rp, s) \<Rightarrow>
           if nread < 0 then (False, got, rp, s)
           else if nread = 0 then (True, got, rp, s)
           else readnb_loop (nleft - nat nread) (got @ bs) rp s))"
  by pat_completeness auto

termination readnb_loop
  by (relation "measure (\<lambda>(nleft, got, rp, s). nleft)") auto

declare readnb_loop.simps [simp del]

definition rio_readnb :: "nat \<Rightarrow> rio_t \<Rightarrow> net \<Rightarrow> int \<times> u8 list \<times> rio_t \<times> net" where
  "rio_readnb n rp s =
     (case readnb_loop n [] rp s of (ok, got, rp, s) \<Rightarrow> (if ok then int (length got) else -1, got, rp, s))"

text \<open>
  The line loop: \<open>n\<close> is the loop's counter, one more than the bytes stored so far. The first result is
  \<open>Some r\<close> for a return from inside the loop, otherwise \<open>None\<close>: the loop was left to terminate the line.
\<close>

function readlineb_loop :: "nat \<Rightarrow> nat \<Rightarrow> u8 list \<Rightarrow> rio_t \<Rightarrow> net \<Rightarrow> int option \<times> nat \<times> u8 list \<times> rio_t \<times> net" where
  "readlineb_loop maxlen n got rp s =
     (if n < maxlen
      then
        (case rio_read 1 rp s of (rc, bs, rp, s) \<Rightarrow>
           if rc = 1
           then (if bs ! 0 = 10 then (None, n + 1, got @ [bs ! 0], rp, s)
                 else readlineb_loop maxlen (n + 1) (got @ [bs ! 0]) rp s)
           else if rc = 0 then (if n = 1 then (Some 0, n, got, rp, s) else (None, n, got, rp, s))
           else (Some (-1), n, got, rp, s))
      else (None, n, got, rp, s))"
  by pat_completeness auto

termination readlineb_loop
  by (relation "measure (\<lambda>(maxlen, n, got, rp, s). maxlen - n)") auto

declare readlineb_loop.simps [simp del]

definition rio_readlineb :: "nat \<Rightarrow> rio_t \<Rightarrow> net \<Rightarrow> int \<times> u8 list \<times> rio_t \<times> net" where
  "rio_readlineb maxlen rp s =
     (case readlineb_loop maxlen 1 [] rp s of (early, n, got, rp, s) \<Rightarrow>
        (case early of
           Some r \<Rightarrow> (r, got, rp, s)
         | None \<Rightarrow> (int n - 1, got @ [0], rp, s)))"

section \<open>The reader is a source\<close>

text \<open>The type of a reader: the unread bytes lie inside the buffer.\<close>

definition rio_ok :: "rio_t \<Rightarrow> bool" where
  "rio_ok rp \<longleftrightarrow> length (rio_buf rp) = RIO_BUFSIZE \<and> - 1 \<le> rio_cnt rp \<and>
     rio_bufptr rp + nat (rio_cnt rp) \<le> RIO_BUFSIZE"

definition unread :: "rio_t \<Rightarrow> u8 list" where
  "unread rp = take (nat (rio_cnt rp)) (drop (rio_bufptr rp) (rio_buf rp))"

definition rio_stream :: "rio_t \<times> net \<Rightarrow> u8 list" where
  "rio_stream = (\<lambda>(rp, s). unread rp @ inbox s (rio_fd rp))"

lemma rio_readinitb_ok: "length (rio_buf rp) = RIO_BUFSIZE \<Longrightarrow> rio_ok (rio_readinitb fd rp)"
  by (simp add: rio_ok_def rio_readinitb_def)

lemma rio_readinitb_stream: "rio_stream (rio_readinitb fd rp, s) = inbox s fd"
  by (simp add: rio_stream_def unread_def rio_readinitb_def)

text \<open>Only the input of one descriptor and the plan change.\<close>

definition same_but_input :: "int \<Rightarrow> net \<Rightarrow> net \<Rightarrow> bool" where
  "same_but_input fd s s' \<longleftrightarrow> outbox s' = outbox s \<and> write_plan s' = write_plan s \<and>
     (\<forall>d. d \<noteq> fd \<longrightarrow> inbox s' d = inbox s d)"

lemma same_but_input_refl [simp]: "same_but_input fd s s"
  by (simp add: same_but_input_def)

lemma same_but_input_trans:
  "same_but_input fd s s1 \<Longrightarrow> same_but_input fd s1 s2 \<Longrightarrow> same_but_input fd s s2"
  by (auto simp: same_but_input_def)

lemma sys_read_keeps:
  assumes "sys_read fd n s = ((r, e), bs, s')"
  shows "bs @ inbox s' fd = inbox s fd" "length bs = nat r" "- 1 \<le> r" "r \<le> int n" "same_but_input fd s s'"
proof -
  have "\<exists>k. k \<le> n \<and> k \<le> length (inbox s fd) \<and> bs = take k (inbox s fd) \<and> inbox s' fd = drop k (inbox s fd)
    \<and> (r = int k \<or> r = - 1 \<and> k = 0)"
    using assms by (auto simp: sys_read_def Let_def min_le_iff_disj split: list.splits if_splits intro: exI[of _ 0])
  then show "bs @ inbox s' fd = inbox s fd" "length bs = nat r" "- 1 \<le> r" "r \<le> int n" by auto
  show "same_but_input fd s s'"
    using assms by (auto simp: sys_read_def Let_def same_but_input_def split: list.splits if_splits)
qed

lemma sys_read_live:
  assumes "sys_read fd n s = ((r, e), bs, s')" "reads_progress (read_plan s)" "0 < n"
  shows "reads_progress (read_plan s')" "r < 0 \<Longrightarrow> e" "r = 0 \<Longrightarrow> inbox s fd = []"
  using assms by (auto simp: sys_read_def Let_def reads_progress_def min_def split: list.splits if_splits)

text \<open>What one call of \<open>read\<close> in the refilling loop leaves in the reader.\<close>

definition refilled :: "int \<Rightarrow> u8 list \<Rightarrow> rio_t \<Rightarrow> rio_t" where
  "refilled r bs rp = rp\<lparr>rio_cnt := r, rio_buf := bs @ drop (length bs) (rio_buf rp)\<rparr>"

lemma refilled_ok:
  assumes "rio_ok rp" "length bs = nat r" "- 1 \<le> r" "r \<le> int RIO_BUFSIZE"
  shows "rio_ok ((refilled r bs rp)\<lparr>rio_bufptr := 0\<rparr>)" "r \<le> 0 \<Longrightarrow> rio_ok (refilled r bs rp)"
    and "unread ((refilled r bs rp)\<lparr>rio_bufptr := 0\<rparr>) = bs" "r \<le> 0 \<Longrightarrow> unread (refilled r bs rp) = []"
    and "rio_fd (refilled r bs rp) = rio_fd rp" "rio_cnt (refilled r bs rp) = r"
  using assms by (auto simp: rio_ok_def refilled_def unread_def)

lemma rio_refill_eq:
  "rio_refill rp s =
     (if 0 < rio_cnt rp then (None, rp, s)
      else
        (case sys_read (rio_fd rp) RIO_BUFSIZE s of ((r, eintr), bs, s') \<Rightarrow>
           if r < 0 then (if eintr then rio_refill (refilled r bs rp) s' else (Some (-1), refilled r bs rp, s'))
           else if r = 0 then (Some 0, refilled r bs rp, s')
           else (None, (refilled r bs rp)\<lparr>rio_bufptr := 0\<rparr>, s')))"
  by (subst rio_refill.simps) (simp only: refilled_def Let_def)

lemma rio_refill_keeps:
  "rio_ok rp \<Longrightarrow> rio_refill rp s = (early, rp', s') \<Longrightarrow>
   rio_ok rp' \<and> rio_fd rp' = rio_fd rp \<and> rio_stream (rp', s') = rio_stream (rp, s) \<and>
   same_but_input (rio_fd rp) s s' \<and> (case early of None \<Rightarrow> 0 < rio_cnt rp' | Some r \<Rightarrow> r = 0 \<or> r = - 1) \<and>
   (reads_progress (read_plan s) \<longrightarrow> reads_progress (read_plan s') \<and>
      (early = None \<or> early = Some 0 \<and> rio_stream (rp, s) = []))"
proof (induction "length (read_plan s)" arbitrary: rp s rule: less_induct)
  case less
  show ?case
  proof (cases "0 < rio_cnt rp")
    case True
    then show ?thesis using less.prems by (auto simp: rio_refill_eq[of rp])
  next
    case False
    obtain r e bs s1 where sys: "sys_read (rio_fd rp) RIO_BUFSIZE s = ((r, e), bs, s1)"
      by (metis prod.exhaust)
    note k = sys_read_keeps[OF sys] and ok = refilled_ok[OF less.prems(1) k(2,3,4)]
    have "0 < RIO_BUFSIZE" by (simp add: RIO_BUFSIZE_def)
    note l = sys_read_live[OF sys _ this]
    have u: "unread rp = []" using False by (simp add: unread_def)
    consider "r < 0" "e" | "r < 0" "\<not> e" | "r = 0" | "0 < r" by linarith
    then show ?thesis
    proof cases
      case 1
      have "length (read_plan s1) < length (read_plan s)" "bs = []" using sys_read_fails[OF sys 1(1)] by auto
      moreover have "rio_refill (refilled r bs rp) s1 = (early, rp', s')"
        using less.prems(2) False sys 1 by (simp add: rio_refill_eq[of rp])
      ultimately show ?thesis using less.hyps[of s1 "refilled r bs rp"] ok 1 k u l(1)
        by (auto simp: rio_stream_def intro: same_but_input_trans)
    next
      case 2
      then show ?thesis using less.prems False sys ok k u l
        by (auto simp: rio_refill_eq[of rp] rio_stream_def)
    next
      case 3
      then show ?thesis using less.prems False sys ok k u l
        by (auto simp: rio_refill_eq[of rp] rio_stream_def)
    next
      case 4
      then have e: "early = None" "rp' = (refilled r bs rp)\<lparr>rio_bufptr := 0\<rparr>" "s' = s1"
        using less.prems(2) False sys by (simp_all add: rio_refill_eq[of rp])
      show ?thesis unfolding e using 4 ok k u l(1) by (simp add: rio_stream_def)
    qed
  qed
qed

lemma rio_read_keeps:
  assumes "rio_ok rp" "rio_read n rp s = (r, bs, rp', s')"
  shows "rio_ok rp' \<and> rio_fd rp' = rio_fd rp \<and> bs @ rio_stream (rp', s') = rio_stream (rp, s) \<and>
    same_but_input (rio_fd rp) s s' \<and> length bs = nat r \<and> - 1 \<le> r \<and> r \<le> int n"
    and "reads_progress (read_plan s) \<Longrightarrow> 0 < n \<Longrightarrow>
      reads_progress (read_plan s') \<and> 0 \<le> r \<and> (r = 0 \<longrightarrow> rio_stream (rp, s) = [])"
proof -
  obtain early rp1 s1 where fill: "rio_refill rp s = (early, rp1, s1)" by (metis prod.exhaust)
  note k = rio_refill_keeps[OF assms(1) fill]
  have "(rio_ok rp' \<and> rio_fd rp' = rio_fd rp \<and> bs @ rio_stream (rp', s') = rio_stream (rp, s) \<and>
      same_but_input (rio_fd rp) s s' \<and> length bs = nat r \<and> - 1 \<le> r \<and> r \<le> int n) \<and>
    (reads_progress (read_plan s) \<longrightarrow> 0 < n \<longrightarrow>
      reads_progress (read_plan s') \<and> 0 \<le> r \<and> (r = 0 \<longrightarrow> rio_stream (rp, s) = []))"
  proof (cases early)
    case (Some x)
    then show ?thesis using k fill assms(2) by (auto simp: rio_read_def)
  next
    case None
    define cnt where "cnt = min (rio_cnt rp1) (int n)"
    have e: "r = cnt" "bs = take (nat cnt) (drop (rio_bufptr rp1) (rio_buf rp1))" "s' = s1"
      "rp' = rp1\<lparr>rio_bufptr := rio_bufptr rp1 + nat cnt, rio_cnt := rio_cnt rp1 - cnt\<rparr>"
      using assms(2) fill None by (auto simp: rio_read_def Let_def cnt_def min_def)
    have c: "0 \<le> cnt" "cnt \<le> rio_cnt rp1" "cnt \<le> int n" "0 < n \<Longrightarrow> 0 < cnt" using k None by (auto simp: cnt_def)
    have split: "nat (rio_cnt rp1) = nat cnt + nat (rio_cnt rp1 - cnt)" using c by simp
    have "bs @ unread rp' = unread rp1"
      unfolding e unread_def split take_add by (simp add: drop_drop add.commute)
    then have "bs @ rio_stream (rp', s') = rio_stream (rp1, s1)" by (simp add: rio_stream_def e(3,4) flip: append_assoc)
    moreover have "rio_ok rp'" "length bs = nat r" "rio_fd rp' = rio_fd rp1" using k c by (auto simp: e rio_ok_def)
    ultimately show ?thesis using k None c e(1,3) by auto
  qed
  then show "rio_ok rp' \<and> rio_fd rp' = rio_fd rp \<and> bs @ rio_stream (rp', s') = rio_stream (rp, s) \<and>
      same_but_input (rio_fd rp) s s' \<and> length bs = nat r \<and> - 1 \<le> r \<and> r \<le> int n"
    "reads_progress (read_plan s) \<Longrightarrow> 0 < n \<Longrightarrow>
      reads_progress (read_plan s') \<and> 0 \<le> r \<and> (r = 0 \<longrightarrow> rio_stream (rp, s) = [])" by blast+
qed

text \<open>The buffered reader on descriptor \<open>fd\<close>, started in the state \<open>s0\<close>, is a source.\<close>

definition rio_src :: "nat \<Rightarrow> rio_t \<times> net \<Rightarrow> int \<times> u8 list \<times> rio_t \<times> net" where
  "rio_src n = (\<lambda>(rp, s). rio_read n rp s)"

definition rio_inv :: "int \<Rightarrow> net \<Rightarrow> rio_t \<times> net \<Rightarrow> bool" where
  "rio_inv fd s0 = (\<lambda>(rp, s). rio_ok rp \<and> rio_fd rp = fd \<and> same_but_input fd s0 s)"

definition rio_live :: "rio_t \<times> net \<Rightarrow> bool" where
  "rio_live = (\<lambda>(rp, s). reads_progress (read_plan s))"

lemmas rio_source_defs = rio_src_def rio_inv_def rio_live_def

interpretation rio: byte_collector rio_src rio_stream "rio_inv fd s0" rio_live
    "\<lambda>n got (rp, s). readnb_loop n got rp s" for fd s0
proof
  fix x n r bs x'
  assume "rio_inv fd s0 x" "rio_src n x = (r, bs, x')"
  then show "rio_inv fd s0 x' \<and> bs @ rio_stream x' = rio_stream x \<and> length bs = nat r \<and> r \<le> int n"
    using rio_read_keeps(1) by (cases x; cases x') (fastforce simp: rio_source_defs intro: same_but_input_trans)
next
  fix x n r bs x'
  assume "rio_inv fd s0 x" "rio_live x" "0 < n" "rio_src n x = (r, bs, x')"
  then show "rio_live x' \<and> 0 \<le> r \<and> (r = 0 \<longrightarrow> rio_stream x = [])"
    using rio_read_keeps(2) by (cases x; cases x') (fastforce simp: rio_source_defs)
next
  fix n got x
  show "(\<lambda>(rp, s). readnb_loop n got rp s) x =
     (if n = 0 then (True, got, x)
      else (case rio_src n x of (r, bs, x') \<Rightarrow>
        if r < 0 then (False, got, x') else if r = 0 then (True, got, x')
        else (\<lambda>(rp, s). readnb_loop (n - nat r) (got @ bs) rp s) x'))"
    by (cases x) (simp add: readnb_loop.simps[of n] rio_src_def split: prod.splits)
qed

section \<open>The unbuffered reader is a source\<close>

text \<open>A \<open>read\<close> that is repeated when a signal interrupts it, as in the loop of \<open>rio_readn\<close>.\<close>

fun read_retry :: "nat \<Rightarrow> u8 list \<times> (int \<times> bool) list \<Rightarrow> int \<times> u8 list \<times> u8 list \<times> (int \<times> bool) list" where
  "read_retry n (inp, []) = (int (min n (length inp)), take n inp, drop n inp, [])"
| "read_retry n (inp, (r, eintr) # plan) =
     (if r < 0 then (if eintr then read_retry n (inp, plan) else (-1, [], inp, plan))
      else (let k = min (nat r) (min n (length inp)) in (int k, take k inp, drop k inp, plan)))"

definition readn_of :: "nat \<Rightarrow> u8 list \<Rightarrow> u8 list \<times> (int \<times> bool) list \<Rightarrow> bool \<times> u8 list \<times> u8 list \<times> (int \<times> bool) list" where
  "readn_of n got = (\<lambda>(inp, plan). readn_loop plan n inp got)"

lemma read_retry_keeps:
  "read_retry n (inp, plan) = (r, bs, inp', plan') \<Longrightarrow> bs @ inp' = inp \<and> length bs = nat r \<and> r \<le> int n"
proof (induction plan)
  case Nil
  then show ?case by auto
next
  case (Cons a plan)
  obtain x e where a: "a = (x, e)" by (cases a)
  consider "x < 0" "e" | "x < 0" "\<not> e" | "0 \<le> x" by linarith
  then show ?case
  proof cases
    case 3
    define k where "k = min (nat x) (min n (length inp))"
    then have "k \<le> n" "k \<le> length inp" by simp_all
    moreover have "r = int k" "bs = take k inp" "inp' = drop k inp"
      using Cons.prems 3 by (simp_all add: a k_def Let_def)
    ultimately show ?thesis by simp
  qed (use Cons in \<open>simp_all add: a\<close>)
qed

lemma read_retry_live:
  "read_retry n (inp, plan) = (r, bs, inp', plan') \<Longrightarrow> reads_progress plan \<Longrightarrow> 0 < n \<Longrightarrow>
   reads_progress plan' \<and> 0 \<le> r \<and> (r = 0 \<longrightarrow> inp = [])"
  by (induction plan) (auto simp: reads_progress_def Let_def min_def split: if_splits)

lemma readn_loop_zero: "readn_loop plan 0 inp got = (True, got, inp, plan)"
  by (cases plan) auto

lemma readn_loop_source:
  "readn_loop plan n inp got =
     (if n = 0 then (True, got, inp, plan)
      else (case read_retry n (inp, plan) of (r, bs, inp', plan') \<Rightarrow>
        if r < 0 then (False, got, inp', plan') else if r = 0 then (True, got, inp', plan')
        else readn_loop plan' (n - nat r) inp' (got @ bs)))"
proof (cases "n = 0")
  case True
  then show ?thesis by (simp add: readn_loop_zero)
next
  case False
  then obtain m where n: "n = Suc m" by (cases n) auto
  have nil: "readn_loop [] k [] g = (True, g, [], [])" for k g by (cases k) auto
  show ?thesis
  proof (induction plan)
    case Nil
    show ?case by (cases "Suc m \<le> length inp") (auto simp: n nil readn_loop_zero min_def)
  next
    case (Cons a plan)
    obtain x e where a: "a = (x, e)" by (cases a)
    consider "x < 0" "e" | "x < 0" "\<not> e" | "0 \<le> x" by linarith
    then show ?case
    proof cases
      case 1
      then show ?thesis using Cons False by (simp add: a n)
    next
      case 2
      then show ?thesis by (simp add: a n)
    next
      case 3
      define k where "k = min (nat x) (min n (length inp))"
      show ?thesis using 3 by (simp add: a n k_def[unfolded n, symmetric] Let_def)
    qed
  qed
qed

interpretation unbuffered: byte_collector read_retry fst "\<lambda>_. True" "\<lambda>(inp, plan). reads_progress plan" readn_of
proof
  fix x n r bs x'
  assume "read_retry n x = (r, bs, x')"
  then show "True \<and> bs @ fst x' = fst x \<and> length bs = nat r \<and> r \<le> int n"
    using read_retry_keeps by (cases x; cases x') fastforce
next
  fix x n r bs x'
  assume "(\<lambda>(inp, plan). reads_progress plan) x" "0 < n" "read_retry n x = (r, bs, x')"
  then show "(\<lambda>(inp, plan). reads_progress plan) x' \<and> 0 \<le> r \<and> (r = 0 \<longrightarrow> fst x = [])"
    using read_retry_live by (cases x; cases x') fastforce
next
  fix n got x
  show "readn_of n got x =
     (if n = 0 then (True, got, x)
      else (case read_retry n x of (r, bs, x') \<Rightarrow>
        if r < 0 then (False, got, x') else if r = 0 then (True, got, x')
        else readn_of (n - nat r) (got @ bs) x'))"
    by (cases x) (simp add: readn_of_def readn_loop_source[of _ n] split: prod.splits)
qed

section \<open>Reading a given number of bytes\<close>

lemma readnb_result:
  assumes "rio_ok rp" "reads_progress (read_plan s)"
  obtains rp' s' where "rio_readnb n rp s =
      (int (min n (length (rio_stream (rp, s)))), take n (rio_stream (rp, s)), rp', s')"
    and "rio_stream (rp', s') = drop n (rio_stream (rp, s))" "rio_ok rp'" "rio_fd rp' = rio_fd rp"
    and "reads_progress (read_plan s')" "same_but_input (rio_fd rp) s s'"
proof -
  have "rio_inv (rio_fd rp) s (rp, s)" "rio_live (rp, s)" using assms by (simp_all add: rio_source_defs)
  from rio.loop_live[OF this, of n "[]"] obtain rp' s' where
    "readnb_loop n [] rp s = (True, take n (rio_stream (rp, s)), rp', s')"
    "rio_stream (rp', s') = drop n (rio_stream (rp, s))" "rio_inv (rio_fd rp) s (rp', s')" "rio_live (rp', s')" by auto
  then show ?thesis by (intro that[of rp' s']) (auto simp: rio_readnb_def rio_source_defs min.commute)
qed

text \<open>Whatever the system calls answer, no byte is lost, repeated or made up.\<close>

lemma readnb_keeps:
  assumes "rio_ok rp" "rio_readnb n rp s = (r, got, rp', s')"
  shows "rio_ok rp'" "rio_fd rp' = rio_fd rp" "got @ rio_stream (rp', s') = rio_stream (rp, s)"
    and "length got \<le> n" "r = int (length got) \<or> r = - 1" "same_but_input (rio_fd rp) s s'"
proof -
  have inv: "rio_inv (rio_fd rp) s (rp, s)" using assms(1) by (simp add: rio_source_defs)
  obtain b where b: "readnb_loop n [] rp s = (b, got, rp', s')" "r = int (length got) \<or> r = - 1"
    using assms(2) by (auto simp: rio_readnb_def split: prod.splits if_splits)
  show "rio_ok rp'" "rio_fd rp' = rio_fd rp" "got @ rio_stream (rp', s') = rio_stream (rp, s)"
    and "length got \<le> n" "r = int (length got) \<or> r = - 1" "same_but_input (rio_fd rp) s s'"
    using rio.loop_keeps[OF inv, of n "[]" b got "(rp', s')"] b by (auto simp: rio_source_defs)
qed

text \<open>The buffered and the unbuffered reader hand out the same bytes.\<close>

lemma unbuffered_result:
  assumes "reads_progress (read_plan s)"
  shows "\<exists>s'. rio_readn fd n s = (int (min n (length (inbox s fd))), take n (inbox s fd), s') \<and>
    inbox s' fd = drop n (inbox s fd)"
proof -
  from unbuffered.loop_live[of "(inbox s fd, read_plan s)" n "[]"] assms obtain plan where
    "readn_loop (read_plan s) n (inbox s fd) [] = (True, take n (inbox s fd), drop n (inbox s fd), plan)"
    by (auto simp: readn_of_def)
  then show ?thesis by (simp add: rio_readn_def min.commute)
qed

section \<open>Reading a line\<close>

text \<open>The bytes up to and including the first newline, at most \<open>m\<close> of them.\<close>

fun next_line :: "nat \<Rightarrow> u8 list \<Rightarrow> u8 list" where
  "next_line 0 bs = []"
| "next_line (Suc m) [] = []"
| "next_line (Suc m) (b # bs) = (if b = 10 then [b] else b # next_line m bs)"

lemma rio_read_one:
  assumes "rio_ok rp" "rio_read 1 rp s = (r, bs, rp', s')"
  shows "r = 1 \<and> rio_stream (rp, s) = (bs ! 0) # rio_stream (rp', s') \<or>
         (r = 0 \<or> r = - 1) \<and> rio_stream (rp, s) = rio_stream (rp', s')"
proof -
  have k: "bs @ rio_stream (rp', s') = rio_stream (rp, s)" "length bs = nat r" "- 1 \<le> r" "r \<le> 1"
    using rio_read_keeps(1)[OF assms] by auto
  show ?thesis
  proof (cases "r = 1")
    case True
    then have "length bs = 1" using k by simp
    then obtain b where "bs = [b]" by (cases bs) auto
    then show ?thesis using k True by simp
  qed (use k in auto)
qed

lemma readlineb_loop_keeps:
  "rio_ok rp \<Longrightarrow> readlineb_loop maxlen n got rp s = (early, n', got', rp', s') \<Longrightarrow> length got + 1 = n \<Longrightarrow>
   rio_ok rp' \<and> rio_fd rp' = rio_fd rp \<and> same_but_input (rio_fd rp) s s' \<and> length got' + 1 = n' \<and> n' \<le> max n maxlen \<and>
   (\<exists>bs. got' = got @ bs \<and> bs @ rio_stream (rp', s') = rio_stream (rp, s)) \<and>
   (early = None \<or> early = Some 0 \<and> got' = [] \<or> early = Some (- 1))"
proof (induction maxlen n got rp s rule: readlineb_loop.induct)
  case (1 maxlen n got rp s)
  show ?case
  proof (cases "n < maxlen")
    case True
    obtain r bs rp1 s1 where rd: "rio_read 1 rp s = (r, bs, rp1, s1)" by (metis prod.exhaust)
    note k = rio_read_keeps(1)[OF "1.prems"(1) rd] and o = rio_read_one[OF "1.prems"(1) rd]
    show ?thesis
    proof (cases "r = 1 \<and> bs ! 0 \<noteq> 10")
      case go: True
      then have "readlineb_loop maxlen (n + 1) (got @ [bs ! 0]) rp1 s1 = (early, n', got', rp', s')"
        using "1.prems"(2) True rd by (simp add: readlineb_loop.simps[of maxlen n])
      from "1.IH"[OF True rd[symmetric] refl refl _ _ _ this] go k "1.prems"(3) obtain cs where
        "rio_ok rp'" "rio_fd rp' = rio_fd rp" "same_but_input (rio_fd rp) s1 s'" "length got' + 1 = n'" "n' \<le> max (n + 1) maxlen"
        "got' = got @ bs ! 0 # cs" "cs @ rio_stream (rp', s') = rio_stream (rp1, s1)"
        "early = None \<or> early = Some 0 \<and> got' = [] \<or> early = Some (- 1)" by auto
      then show ?thesis using k o go True by (auto intro: same_but_input_trans)
    next
      case False
      then show ?thesis using "1.prems" True rd k o
        by (auto simp: readlineb_loop.simps[of maxlen n] split: if_splits)
    qed
  qed (use "1.prems" in \<open>auto simp: readlineb_loop.simps[of maxlen n]\<close>)
qed

lemma readlineb_loop_live:
  "rio_ok rp \<Longrightarrow> reads_progress (read_plan s) \<Longrightarrow> length got + 1 = n \<Longrightarrow>
   \<exists>rp' s'. readlineb_loop maxlen n got rp s =
      (if rio_stream (rp, s) = [] \<and> n = 1 \<and> n < maxlen then (Some 0, 1, [], rp', s')
       else (None, n + length (next_line (maxlen - n) (rio_stream (rp, s))), got @ next_line (maxlen - n) (rio_stream (rp, s)), rp', s')) \<and>
     rio_stream (rp', s') = drop (length (next_line (maxlen - n) (rio_stream (rp, s)))) (rio_stream (rp, s)) \<and>
     rio_ok rp' \<and> rio_fd rp' = rio_fd rp \<and> reads_progress (read_plan s')"
proof (induction maxlen n got rp s rule: readlineb_loop.induct)
  case (1 maxlen n got rp s)
  show ?case
  proof (cases "n < maxlen")
    case True
    obtain m where m: "maxlen - n = Suc m" "maxlen - (n + 1) = m" using True by (cases "maxlen - n") auto
    obtain r bs rp1 s1 where rd: "rio_read 1 rp s = (r, bs, rp1, s1)" by (metis prod.exhaust)
    note k = rio_read_keeps(1)[OF "1.prems"(1) rd] and o = rio_read_one[OF "1.prems"(1) rd]
      and l = rio_read_keeps(2)[OF "1.prems"(1) rd "1.prems"(2)]
    consider "r = 1" "bs ! 0 \<noteq> 10" | "r = 1" "bs ! 0 = 10" | "r = 0" using o l by fastforce
    then show ?thesis
    proof cases
      case 1
      then have st: "rio_stream (rp, s) = bs ! 0 # rio_stream (rp1, s1)" using o by simp
      have step: "readlineb_loop maxlen n got rp s = readlineb_loop maxlen (n + 1) (got @ [bs ! 0]) rp1 s1"
        using 1 True rd by (simp add: readlineb_loop.simps[of maxlen n])
      have "n + 1 \<noteq> 1" using "1.prems"(3) by simp
      with "1.IH"[OF True rd[symmetric] refl refl 1] k l "1.prems"(3) obtain rp' s' where
        "readlineb_loop maxlen (n + 1) (got @ [bs ! 0]) rp1 s1 =
          (None, n + 1 + length (next_line m (rio_stream (rp1, s1))), (got @ [bs ! 0]) @ next_line m (rio_stream (rp1, s1)), rp', s')"
        "rio_stream (rp', s') = drop (length (next_line m (rio_stream (rp1, s1)))) (rio_stream (rp1, s1))"
        "rio_ok rp'" "rio_fd rp' = rio_fd rp1" "reads_progress (read_plan s')"
        unfolding m(2) by auto
      then show ?thesis unfolding step st m using 1 k by simp
    next
      case 2
      then show ?thesis using True rd o k l m by (auto simp: readlineb_loop.simps[of maxlen n])
    next
      case 3
      then show ?thesis using True rd o k l m "1.prems"(3) by (auto simp: readlineb_loop.simps[of maxlen n])
    qed
  qed (use "1.prems" in \<open>auto simp: readlineb_loop.simps[of maxlen n]\<close>)
qed

text \<open>What one call returns: the line with a zero byte after it, or 0 at the end of the stream.\<close>

lemma readlineb_result:
  assumes "rio_ok rp" "reads_progress (read_plan s)" "1 < maxlen"
    and "L = next_line (maxlen - 1) (rio_stream (rp, s))"
  obtains rp' s' where "rio_readlineb maxlen rp s = (int (length L), if L = [] then [] else L @ [0], rp', s')"
    and "rio_stream (rp', s') = drop (length L) (rio_stream (rp, s))"
    and "rio_ok rp'" "rio_fd rp' = rio_fd rp" "reads_progress (read_plan s')"
proof -
  have L: "L = [] \<longleftrightarrow> rio_stream (rp, s) = []"
    using assms(3) unfolding assms(4) by (cases "maxlen - 1"; cases "rio_stream (rp, s)") auto
  from readlineb_loop_live[OF assms(1,2), of "[]" 1 maxlen] obtain rp' s' where
    "readlineb_loop maxlen 1 [] rp s =
      (if rio_stream (rp, s) = [] \<and> 1 = (1::nat) \<and> 1 < maxlen then (Some 0, 1, [], rp', s')
       else (None, 1 + length L, L, rp', s'))"
    "rio_stream (rp', s') = drop (length L) (rio_stream (rp, s))" "rio_ok rp'" "rio_fd rp' = rio_fd rp"
    "reads_progress (read_plan s')"
    unfolding assms(4)[symmetric] append_Nil by auto
  then show ?thesis using assms(3) L by (intro that[of rp' s']) (auto simp: rio_readlineb_def)
qed

lemma readlineb_keeps:
  assumes "rio_ok rp" "rio_readlineb maxlen rp s = (r, got, rp', s')"
  shows "rio_ok rp' \<and> rio_fd rp' = rio_fd rp \<and> same_but_input (rio_fd rp) s s' \<and>
    (\<exists>bs. (got = bs \<or> got = bs @ [0]) \<and> bs @ rio_stream (rp', s') = rio_stream (rp, s) \<and>
       (r = int (length bs) \<or> r = - 1)) \<and> length got \<le> max 1 maxlen"
proof -
  obtain early n' got' where lp: "readlineb_loop maxlen 1 [] rp s = (early, n', got', rp', s')"
    and res: "(r, got) = (case early of Some x \<Rightarrow> (x, got') | None \<Rightarrow> (int n' - 1, got' @ [0]))"
    using assms(2) by (auto simp: rio_readlineb_def split: prod.splits option.splits)
  from readlineb_loop_keeps[OF assms(1) lp] show ?thesis
    using res by (cases early) auto
qed

section \<open>What a caller relies on\<close>

text \<open>
  C20: Whatever the read system calls answer (failures, interruptions, short counts), a well-
  formed reader stays well formed: the unread bytes lie inside its 8192-byte buffer after
  initialisation, after rio_readnb and after rio_readlineb, and no result is longer than the
  buffer of the caller, except that rio_readlineb stores one zero byte also into a buffer of
  size 0.
\<close>

theorem rio_reader_typed:
  assumes "length (rio_buf raw) = RIO_BUFSIZE" "rio_ok rp"
  shows "rio_ok (rio_readinitb fd raw) \<and>
    (case rio_readnb n rp s of (r, got, rp', s') \<Rightarrow> rio_ok rp' \<and> length got \<le> n \<and> r \<le> int n) \<and>
    (case rio_readlineb maxlen rp s of (r, got, rp', s') \<Rightarrow> rio_ok rp' \<and> r \<le> int maxlen \<and>
      (if maxlen = 0 then got = [0] else length got \<le> maxlen))"
proof (intro conjI)
  show "rio_ok (rio_readinitb fd raw)" using assms(1) by (rule rio_readinitb_ok)
  obtain r got rp' s' where "rio_readnb n rp s = (r, got, rp', s')" by (metis prod.exhaust)
  with readnb_keeps[OF assms(2) this]
  show "case rio_readnb n rp s of (r, got, rp', s') \<Rightarrow> rio_ok rp' \<and> length got \<le> n \<and> r \<le> int n" by auto
  obtain r got rp' s' where "rio_readlineb maxlen rp s = (r, got, rp', s')" by (metis prod.exhaust)
  with readlineb_keeps[OF assms(2) this]
  show "case rio_readlineb maxlen rp s of (r, got, rp', s') \<Rightarrow> rio_ok rp' \<and> r \<le> int maxlen \<and>
      (if maxlen = 0 then got = [0] else length got \<le> maxlen)"
    using assms(2) by (cases "maxlen = 0") (auto simp: rio_readlineb_def readlineb_loop.simps)
qed

text \<open>
  C10: rio_readnb hands out the next n bytes of the stream made of the unread part of its
  buffer and the input of the descriptor (all of it when it is shorter), through any pattern
  of short and interrupted reads, exactly as rio_readn does on the same bytes without a
  buffer.
\<close>

theorem rio_readnb_refines:
  assumes "rio_ok rp" "reads_progress (read_plan s)"
    and "reads_progress (read_plan t)" "inbox t fd = rio_stream (rp, s)"
  shows "\<exists>rp' s' t'. rio_readnb n rp s = (int (length (take n (rio_stream (rp, s)))), take n (rio_stream (rp, s)), rp', s') \<and>
    rio_readn fd n t = (int (length (take n (rio_stream (rp, s)))), take n (rio_stream (rp, s)), t') \<and>
    rio_stream (rp', s') = drop n (rio_stream (rp, s)) \<and> inbox t' fd = rio_stream (rp', s') \<and>
    rio_ok rp' \<and> reads_progress (read_plan s') \<and> same_but_input (rio_fd rp) s s'"
proof -
  obtain rp' s' where "rio_readnb n rp s =
      (int (min n (length (rio_stream (rp, s)))), take n (rio_stream (rp, s)), rp', s')"
    "rio_stream (rp', s') = drop n (rio_stream (rp, s))" "rio_ok rp'" "rio_fd rp' = rio_fd rp"
    "reads_progress (read_plan s')" "same_but_input (rio_fd rp) s s'"
    by (rule readnb_result[OF assms(1,2)])
  moreover obtain t' where "rio_readn fd n t = (int (min n (length (inbox t fd))), take n (inbox t fd), t')"
    "inbox t' fd = drop n (inbox t fd)"
    using unbuffered_result[OF assms(3)] by blast
  ultimately show ?thesis unfolding assms(4) by (simp add: min.commute)
qed

section \<open>Lines there and back\<close>

definition with_newline :: "u8 list \<Rightarrow> u8 list" where
  "with_newline l = l @ [10]"

text \<open>Successive calls of \<open>rio_readlineb\<close> with the same buffer size, and what each returned.\<close>

fun read_lines :: "nat \<Rightarrow> nat \<Rightarrow> rio_t \<Rightarrow> net \<Rightarrow> (int \<times> u8 list) list \<times> rio_t \<times> net" where
  "read_lines 0 maxlen rp s = ([], rp, s)"
| "read_lines (Suc k) maxlen rp s =
     (case rio_readlineb maxlen rp s of (r, got, rp, s) \<Rightarrow>
        (case read_lines k maxlen rp s of (rs, rp, s) \<Rightarrow> ((r, got) # rs, rp, s)))"

lemma next_line_prefix: "10 \<notin> set l \<Longrightarrow> length l < m \<Longrightarrow> next_line m (with_newline l @ rest) = with_newline l"
proof (induction l arbitrary: m)
  case Nil
  then show ?case by (cases m) (auto simp: with_newline_def)
next
  case (Cons a l)
  then show ?case by (cases m) (auto simp: with_newline_def)
qed

lemma read_lines_of:
  "list_all (\<lambda>l. 10 \<notin> set l \<and> length l + 2 \<le> maxlen) ls \<Longrightarrow> rio_ok rp \<Longrightarrow> reads_progress (read_plan s) \<Longrightarrow>
   rio_stream (rp, s) = concat (map with_newline ls) @ rest \<Longrightarrow>
   \<exists>rp' s'. read_lines (length ls) maxlen rp s = (map (\<lambda>l. (int (length l) + 1, l @ [10, 0])) ls, rp', s') \<and>
     rio_stream (rp', s') = rest \<and> rio_ok rp' \<and> reads_progress (read_plan s')"
proof (induction ls arbitrary: rp s)
  case Nil
  then show ?case by auto
next
  case (Cons l ls)
  have one: "1 < maxlen" using Cons.prems(1) by auto
  have L: "with_newline l = next_line (maxlen - 1) (rio_stream (rp, s))"
  proof -
    have "10 \<notin> set l" "length l < maxlen - 1" using Cons.prems(1) by auto
    then show ?thesis unfolding Cons.prems(4) by (simp add: next_line_prefix)
  qed
  have w: "with_newline l = l @ [10]" by (simp add: with_newline_def)
  obtain rp1 s1 where 1: "rio_readlineb maxlen rp s = (int (length l) + 1, l @ [10, 0], rp1, s1)"
    "rio_stream (rp1, s1) = concat (map with_newline ls) @ rest" "rio_ok rp1" "reads_progress (read_plan s1)"
    by (rule readlineb_result[OF Cons.prems(2,3) one L]) (simp add: w Cons.prems(4))
  from Cons.IH[OF _ 1(3,4,2)] Cons.prems(1) show ?case by (auto simp: 1(1))
qed

text \<open>
  C11: Lines written with rio_writen and read back with rio_readlineb, each short enough for
  the line buffer of the reader, come back one per call, complete and terminated, however the
  transfers are cut up on either side; the next call reports the end of the stream.
\<close>

theorem lines_roundtrip:
  assumes "list_all (\<lambda>l. 10 \<notin> set l \<and> length l + 2 \<le> maxlen) ls" "1 < maxlen"
    and "writes_progress (write_plan s)" "outbox s fd = []"
    and "rio_writen fd (concat (map with_newline ls)) (length (concat (map with_newline ls))) s = (res, s')"
    and "reads_progress (read_plan t)" "inbox t fd' = outbox s' fd" "length (rio_buf raw) = RIO_BUFSIZE"
  shows "\<exists>rp' t' rp'' t''. read_lines (length ls) maxlen (rio_readinitb fd' raw) t =
      (map (\<lambda>l. (int (length l) + 1, l @ [10, 0])) ls, rp', t') \<and> rio_readlineb maxlen rp' t' = (0, [], rp'', t'')"
proof -
  let ?text = "concat (map with_newline ls)"
  obtain plan where "rio_writen fd ?text (length ?text) s =
      (int (length ?text), s\<lparr>outbox := (outbox s)(fd := outbox s fd @ ?text), write_plan := plan\<rparr>)"
    using rio_writen_full[OF assms(3) refl] by blast
  then have "outbox s' fd = ?text" using assms(4,5) by auto
  then have st: "rio_stream (rio_readinitb fd' raw, t) = ?text @ []"
    using assms(7) by (simp add: rio_readinitb_stream)
  from read_lines_of[OF assms(1) rio_readinitb_ok[OF assms(8)] assms(6) st] obtain rp' t' where
    1: "read_lines (length ls) maxlen (rio_readinitb fd' raw) t = (map (\<lambda>l. (int (length l) + 1, l @ [10, 0])) ls, rp', t')"
    "rio_stream (rp', t') = []" "rio_ok rp'" "reads_progress (read_plan t')" by blast
  have "[] = next_line (maxlen - 1) (rio_stream (rp', t'))" unfolding 1(2) by (cases "maxlen - 1") auto
  then obtain rp'' t'' where "rio_readlineb maxlen rp' t' = (0, [], rp'', t'')"
    by (rule readlineb_result[OF 1(3,4) assms(2)]) simp
  with 1(1) show ?thesis by blast
qed

text \<open>
  A buffer of one byte cannot hold a line: the call returns 0, as at the end of the stream. With size 0
  the terminating zero is written past the end of the caller's buffer.
\<close>

theorem readlineb_tiny_buffer:
  "rio_readlineb 1 rp s = (0, [0], rp, s)" "rio_readlineb 0 rp s = (0, [0], rp, s)"
  by (simp_all add: rio_readlineb_def readlineb_loop.simps)

end
