(* ===== verification/Decimal.thy ===== *)
theory Decimal imports Prelude begin

text \<open>
  Decimal notation: the digits that \<open>printf\<close> writes for \<open>%d\<close>, and the value of a string of digits
  read from the left. The printers of the supervisor and the parsers of the DTMF tools meet here.
\<close>

text \<open>The value of a C \<open>int\<close>: 32 bits, two's complement.\<close>

definition int32 :: "int \<Rightarrow> int" where
  "int32 x = sint (word_of_int x :: 32 word)"

lemma int32_id [simp]: "- 2147483648 \<le> x \<Longrightarrow> x < 2147483648 \<Longrightarrow> int32 x = x"
  by (simp add: int32_def sint_sbintrunc' signed_take_bit_int_eq_self)

definition digits :: string where "digits = ''0123456789''"

fun show_nat :: "nat \<Rightarrow> string" where
  "show_nat n = (if n < 10 then [digits ! n] else show_nat (n div 10) @ [digits ! (n mod 10)])"

declare show_nat.simps [simp del]

definition show_int :: "int \<Rightarrow> string" where
  "show_int k = (if k < 0 then ''-'' @ show_nat (nat (- k)) else show_nat (nat k))"

text \<open>C's test \<open>'0' <= c && c <= '9'\<close> and the value \<open>c - 48\<close>.\<close>

definition code_of :: "char \<Rightarrow> int" where
  "code_of c = int (of_char c)"

definition is_digit :: "char \<Rightarrow> bool" where
  "is_digit c \<longleftrightarrow> 48 \<le> code_of c \<and> code_of c \<le> 57"

definition digits_value :: "string \<Rightarrow> int" where
  "digits_value s = foldl (\<lambda>v c. v * 10 + (code_of c - 48)) 0 s"

lemma digits_nth_cases: "d < 10 \<Longrightarrow> P 0 \<Longrightarrow> P 1 \<Longrightarrow> P 2 \<Longrightarrow> P 3 \<Longrightarrow> P 4 \<Longrightarrow> P 5 \<Longrightarrow> P 6 \<Longrightarrow> P 7 \<Longrightarrow> P 8 \<Longrightarrow> P 9 \<Longrightarrow> P (d::nat)"
  by (auto simp: numeral_eq_Suc less_Suc_eq)

lemma code_of_digit [simp]: "d < 10 \<Longrightarrow> code_of (digits ! d) = 48 + int d"
  by (rule digits_nth_cases[of d "\<lambda>d. code_of (digits ! d) = 48 + int d"]) (simp_all add: digits_def code_of_def)

lemma is_digit_digits [simp]: "d < 10 \<Longrightarrow> is_digit (digits ! d)"
  by (simp add: is_digit_def)

lemma digits_value_snoc [simp]: "digits_value (s @ [c]) = digits_value s * 10 + (code_of c - 48)"
  by (simp add: digits_value_def)

lemma digits_value_Nil [simp]: "digits_value [] = 0"
  by (simp add: digits_value_def)

lemma show_nat_digits: "\<forall>c\<in>set (show_nat n). is_digit c"
proof (induction n rule: show_nat.induct)
  case (1 n)
  then show ?case by (subst show_nat.simps) auto
qed

lemma show_nat_value: "digits_value (show_nat n) = int n"
proof (induction n rule: show_nat.induct)
  case (1 n)
  show ?case
  proof (cases "n < 10")
    case True
    then show ?thesis by (simp add: show_nat.simps digits_value_def)
  next
    case False
    then have "digits_value (show_nat n) = int (n div 10) * 10 + int (n mod 10)"
      using 1 by (subst show_nat.simps) simp
    then show ?thesis by (metis div_mult_mod_eq of_nat_add of_nat_mult of_nat_numeral)
  qed
qed

lemma show_nat_nonempty [simp]: "show_nat n \<noteq> []"
  by (subst show_nat.simps) simp

lemma digits_value_nonneg: "\<forall>c\<in>set s. is_digit c \<Longrightarrow> 0 \<le> digits_value s"
  by (induction s rule: rev_induct) (auto simp: is_digit_def)

lemma digits_value_prefix:
  assumes "\<forall>c\<in>set (s @ t). is_digit c"
  shows "digits_value s \<le> digits_value (s @ t)"
  using assms
proof (induction t rule: rev_induct)
  case (snoc c t)
  then have "digits_value s \<le> digits_value (s @ t)" "0 \<le> digits_value (s @ t)"
    using digits_value_nonneg[of "s @ t"] by auto
  then show ?case using snoc.prems digits_value_snoc[of "s @ t" c] by (simp add: is_digit_def)
qed simp

lemma digits_value_suffix:
  assumes "\<forall>c\<in>set (s @ t). is_digit c"
  shows "digits_value t \<le> digits_value (s @ t)"
  using assms
proof (induction t rule: rev_induct)
  case Nil
  then show ?case using digits_value_nonneg[of s] by simp
next
  case (snoc c t)
  then show ?case using digits_value_snoc[of "s @ t" c] by simp
qed

text \<open>The value that a run of digits adds to the number read so far.\<close>

definition more_digits :: "int \<Rightarrow> string \<Rightarrow> int" where
  "more_digits v ds = foldl (\<lambda>v c. v * 10 + (code_of c - 48)) v ds"

lemma more_digits_simps [simp]:
  "more_digits v [] = v" "more_digits v (c # ds) = more_digits (v * 10 + (code_of c - 48)) ds"
  by (simp_all add: more_digits_def)

lemma more_digits_0: "more_digits 0 ds = digits_value ds"
  by (simp add: more_digits_def digits_value_def)

lemma more_digits_grows: "0 \<le> v \<Longrightarrow> \<forall>c\<in>set ds. is_digit c \<Longrightarrow> v \<le> more_digits v ds"
proof (induction ds arbitrary: v)
  case (Cons c ds)
  then have "v \<le> v * 10 + (code_of c - 48)" by (simp add: is_digit_def)
  also have "\<dots> \<le> more_digits (v * 10 + (code_of c - 48)) ds" using Cons by (intro Cons.IH) (simp_all add: is_digit_def)
  finally show ?case by simp
qed simp

lemma more_digits_step:
  assumes "0 \<le> v" "\<forall>d\<in>set (c # ds). is_digit d" "more_digits v (c # ds) < 2147483648"
  shows "int32 (int32 (v * 10) + (code_of c - 48)) = v * 10 + (code_of c - 48)" "0 \<le> v * 10 + (code_of c - 48)"
proof -
  have c: "48 \<le> code_of c" "code_of c \<le> 57" using assms(2) by (simp_all add: is_digit_def)
  then show "0 \<le> v * 10 + (code_of c - 48)" using assms(1) by simp
  then have "v * 10 + (code_of c - 48) \<le> more_digits (v * 10 + (code_of c - 48)) ds"
    using assms by (intro more_digits_grows) simp_all
  then show "int32 (int32 (v * 10) + (code_of c - 48)) = v * 10 + (code_of c - 48)" using assms(1,3) c by simp
qed

end
