(* ===== verification/Csapp_Wrappers.thy ===== *)
theory Csapp_Wrappers imports Csapp_Rio Decimal begin

text \<open>
  The system call wrappers of hw5 (\<open>csapp.c\<close>). The operating system is a parameter: a function from the
  calls made so far, with their results, and the call to its result and the error number it leaves.
  Pointers are integers, \<open>NULL\<close> is 0; what a call stores through its pointer arguments is part of the
  operating system, not of the model. Every wrapper makes its call, and on failure prints a line to
  standard error and exits with status 0.
\<close>

section \<open>System calls\<close>

type_synonym c_ptr = int

record sockaddr_in =
  sin_family :: u16
  sin_port :: u16
  sin_addr :: u32

datatype proc_call =
    Sys_fork
  | Sys_execve string "string list" "string list"
  | Sys_wait c_ptr
  | Sys_waitpid int c_ptr int
  | Sys_kill int int
  | Sys_pause
  | Sys_sleep u32
  | Sys_alarm u32
  | Sys_setpgid int int
  | Sys_getpgrp

datatype signal_call =
    Sys_sigaction int
  | Sys_sigprocmask int c_ptr c_ptr
  | Sys_sigemptyset c_ptr
  | Sys_sigfillset c_ptr
  | Sys_sigaddset c_ptr int
  | Sys_sigdelset c_ptr int
  | Sys_sigismember c_ptr int

datatype file_call =
    Sys_open string int u32
  | Sys_read int c_ptr u64
  | Sys_write int c_ptr u64
  | Sys_lseek int int int
  | Sys_close int
  | Sys_select int c_ptr c_ptr c_ptr c_ptr
  | Sys_dup2 int int
  | Sys_stat string c_ptr
  | Sys_fstat int c_ptr

datatype memory_call =
    Sys_mmap c_ptr u64 int int int int
  | Sys_munmap c_ptr u64
  | Sys_malloc u64
  | Sys_realloc c_ptr u64
  | Sys_calloc u64 u64
  | Sys_free c_ptr

datatype stdio_call =
    Sys_fclose c_ptr
  | Sys_fdopen int string
  | Sys_fgets c_ptr int c_ptr
  | Sys_ferror c_ptr
  | Sys_fopen string string
  | Sys_fputs string c_ptr
  | Sys_fread c_ptr u64 u64 c_ptr
  | Sys_fwrite c_ptr u64 u64 c_ptr

datatype socket_call =
    Sys_socket int int int
  | Sys_setsockopt int int int int int
  | Sys_bind int sockaddr_in int
  | Sys_listen int int
  | Sys_accept int c_ptr c_ptr
  | Sys_connect int sockaddr_in int
  | Sys_gethostbyname string
  | Sys_gethostbyaddr c_ptr int int

datatype thread_call =
    Sys_pthread_create c_ptr c_ptr string c_ptr
  | Sys_pthread_cancel int
  | Sys_pthread_join int c_ptr
  | Sys_pthread_detach int
  | Sys_pthread_self
  | Sys_pthread_once c_ptr string
  | Sys_sem_init c_ptr int u32
  | Sys_sem_wait c_ptr
  | Sys_sem_post c_ptr

datatype syscall =
    Proc proc_call
  | Sig signal_call
  | File file_call
  | Memory memory_call
  | Stdio stdio_call
  | Sock socket_call
  | Thread thread_call

record sigaction_t =
  sa_handler :: string
  sa_mask :: "int set"
  sa_flags :: int

text \<open>
  The process: the operating system (\<open>kernel\<close>), the text of an error number, the first address of a
  host entry, the calls made and their results, the error numbers, what was printed to standard error,
  and the signal dispositions.
\<close>

record process =
  kernel :: "(syscall \<times> int) list \<Rightarrow> syscall \<Rightarrow> int \<times> int"
  strerror :: "int \<Rightarrow> string"
  host_addr :: "c_ptr \<Rightarrow> u32"
  trace :: "(syscall \<times> int) list"
  errno :: int
  h_errno :: int
  stderr :: "string list"
  sig_actions :: "int \<Rightarrow> sigaction_t"

type_synonym 'a sysm = "process \<Rightarrow> 'a outcome \<times> process"

definition sys_call :: "syscall \<Rightarrow> process \<Rightarrow> int \<times> process" where
  "sys_call c w = (case kernel w (trace w) c of (r, e) \<Rightarrow> (r, w\<lparr>trace := trace w @ [(c, r)], errno := e\<rparr>))"

text \<open>The resolver sets \<open>h_errno\<close> instead.\<close>

definition dns_call :: "syscall \<Rightarrow> process \<Rightarrow> int \<times> process" where
  "dns_call c w = (case kernel w (trace w) c of (r, e) \<Rightarrow> (r, w\<lparr>trace := trace w @ [(c, r)], h_errno := e\<rparr>))"

section \<open>Error handling\<close>

definition EOL :: string where "EOL = [CHR 0x0A]"

definition exit_with :: "string \<Rightarrow> 'a sysm" where
  "exit_with line w = (Stuck (Exit_called 0), w\<lparr>stderr := stderr w @ [line]\<rparr>)"

definition unix_error :: "string \<Rightarrow> 'a sysm" where
  "unix_error msg w = exit_with (msg @ '': '' @ strerror w (errno w) @ EOL) w"

definition posix_error :: "int \<Rightarrow> string \<Rightarrow> 'a sysm" where
  "posix_error code msg w = exit_with (msg @ '': '' @ strerror w code @ EOL) w"

definition dns_error :: "string \<Rightarrow> 'a sysm" where
  "dns_error msg w = exit_with (msg @ '': DNS error '' @ show_int (h_errno w) @ EOL) w"

definition app_error :: "string \<Rightarrow> 'a sysm" where
  "app_error msg w = exit_with (msg @ EOL) w"

text \<open>\<open>if ((r = call) is bad) error(...); return r;\<close>\<close>

definition checked :: "(syscall \<Rightarrow> process \<Rightarrow> int \<times> process) \<Rightarrow> (int \<Rightarrow> bool) \<Rightarrow> (int \<Rightarrow> int sysm) \<Rightarrow> syscall \<Rightarrow> int sysm" where
  "checked call bad err c w = (case call c w of (r, w) \<Rightarrow> if bad r then err r w else (Ret r, w))"

text \<open>\<open>if (call < 0) unix_error(msg)\<close>, the most frequent form.\<close>

definition unix_checked :: "string \<Rightarrow> syscall \<Rightarrow> int sysm" where
  "unix_checked msg = checked sys_call (\<lambda>r. r < 0) (\<lambda>_. unix_error msg)"

definition posix_checked :: "string \<Rightarrow> syscall \<Rightarrow> int sysm" where
  "posix_checked msg = checked sys_call (\<lambda>r. r \<noteq> 0) (\<lambda>rc. posix_error rc msg)"

definition null_checked :: "string \<Rightarrow> syscall \<Rightarrow> int sysm" where
  "null_checked msg = checked sys_call (\<lambda>p. p = 0) (\<lambda>_. unix_error msg)"

text \<open>A function without a result.\<close>

definition ignore :: "'a sysm \<Rightarrow> unit sysm" where
  "ignore m w = (case m w of (Ret _, w) \<Rightarrow> (Ret (), w) | (Stuck e, w) \<Rightarrow> (Stuck e, w))"

definition plain_call :: "syscall \<Rightarrow> int sysm" where
  "plain_call c w = (case sys_call c w of (r, w) \<Rightarrow> (Ret r, w))"

definition seq_sys :: "'a sysm \<Rightarrow> ('a \<Rightarrow> 'b sysm) \<Rightarrow> 'b sysm" where
  "seq_sys m f w = (case m w of (Ret x, w) \<Rightarrow> f x w | (Stuck e, w) \<Rightarrow> (Stuck e, w))"

section \<open>Processes\<close>

definition Fork :: "int sysm" where
  "Fork = unix_checked ''Fork error'' (Proc Sys_fork)"

text \<open>A successful \<open>execve\<close> does not come back.\<close>

definition Execve :: "string \<Rightarrow> string list \<Rightarrow> string list \<Rightarrow> unit sysm" where
  "Execve filename argv envp w =
     (case sys_call (Proc (Sys_execve filename argv envp)) w of (r, w) \<Rightarrow>
        if r < 0 then unix_error ''Execve error'' w else (Stuck Image_replaced, w))"

definition Wait :: "c_ptr \<Rightarrow> int sysm" where
  "Wait status = unix_checked ''Wait error'' (Proc (Sys_wait status))"

definition Waitpid :: "int \<Rightarrow> c_ptr \<Rightarrow> int \<Rightarrow> int sysm" where
  "Waitpid child iptr options = unix_checked ''Waitpid error'' (Proc (Sys_waitpid child iptr options))"

definition Kill :: "int \<Rightarrow> int \<Rightarrow> unit sysm" where
  "Kill proc signum = ignore (unix_checked ''Kill error'' (Proc (Sys_kill proc signum)))"

definition Pause :: "unit sysm" where
  "Pause = ignore (plain_call (Proc Sys_pause))"

text \<open>\<open>rc\<close> is unsigned here: the comparison with 0 is one of \<open>unsigned int\<close>.\<close>

definition Sleep :: "u32 \<Rightarrow> u32 sysm" where
  "Sleep secs w =
     (case sys_call (Proc (Sys_sleep secs)) w of (r, w) \<Rightarrow>
        let rc = (word_of_int r :: u32) in
        if rc < 0 then unix_error ''Sleep error'' w else (Ret rc, w))"

definition Alarm :: "u32 \<Rightarrow> u32 sysm" where
  "Alarm seconds w = (case sys_call (Proc (Sys_alarm seconds)) w of (r, w) \<Rightarrow> (Ret (word_of_int r), w))"

definition Setpgid :: "int \<Rightarrow> int \<Rightarrow> unit sysm" where
  "Setpgid proc pgid = ignore (unix_checked ''Setpgid error'' (Proc (Sys_setpgid proc pgid)))"

definition Getpgrp :: "int sysm" where
  "Getpgrp = plain_call (Proc Sys_getpgrp)"

section \<open>Signals\<close>

definition SA_RESTART :: int where "SA_RESTART = 0x10000000"

definition Signal :: "int \<Rightarrow> string \<Rightarrow> string sysm" where
  "Signal signum handler w =
     (let action = \<lparr>sa_handler = handler, sa_mask = {}, sa_flags = SA_RESTART\<rparr> in
      case sys_call (Sig (Sys_sigaction signum)) w of (r, w) \<Rightarrow>
        if r < 0 then unix_error ''Signal error'' w
        else (Ret (sa_handler (sig_actions w signum)), w\<lparr>sig_actions := (sig_actions w)(signum := action)\<rparr>))"

definition Sigprocmask :: "int \<Rightarrow> c_ptr \<Rightarrow> c_ptr \<Rightarrow> unit sysm" where
  "Sigprocmask how sset oldset = ignore (unix_checked ''Sigprocmask error'' (Sig (Sys_sigprocmask how sset oldset)))"

definition Sigemptyset :: "c_ptr \<Rightarrow> unit sysm" where
  "Sigemptyset sset = ignore (unix_checked ''Sigemptyset error'' (Sig (Sys_sigemptyset sset)))"

definition Sigfillset :: "c_ptr \<Rightarrow> unit sysm" where
  "Sigfillset sset = ignore (unix_checked ''Sigfillset error'' (Sig (Sys_sigfillset sset)))"

definition Sigaddset :: "c_ptr \<Rightarrow> int \<Rightarrow> unit sysm" where
  "Sigaddset sset signum = ignore (unix_checked ''Sigaddset error'' (Sig (Sys_sigaddset sset signum)))"

definition Sigdelset :: "c_ptr \<Rightarrow> int \<Rightarrow> unit sysm" where
  "Sigdelset sset signum = ignore (unix_checked ''Sigdelset error'' (Sig (Sys_sigdelset sset signum)))"

definition Sigismember :: "c_ptr \<Rightarrow> int \<Rightarrow> int sysm" where
  "Sigismember sset signum = unix_checked ''Sigismember error'' (Sig (Sys_sigismember sset signum))"

section \<open>Files\<close>

definition Open :: "string \<Rightarrow> int \<Rightarrow> u32 \<Rightarrow> int sysm" where
  "Open pathname flags mode = unix_checked ''Open error'' (File (Sys_open pathname flags mode))"

definition Read :: "int \<Rightarrow> c_ptr \<Rightarrow> u64 \<Rightarrow> int sysm" where
  "Read fd buf count = unix_checked ''Read error'' (File (Sys_read fd buf count))"

definition Write :: "int \<Rightarrow> c_ptr \<Rightarrow> u64 \<Rightarrow> int sysm" where
  "Write fd buf count = unix_checked ''Write error'' (File (Sys_write fd buf count))"

definition Lseek :: "int \<Rightarrow> int \<Rightarrow> int \<Rightarrow> int sysm" where
  "Lseek fildes offset whence = unix_checked ''Lseek error'' (File (Sys_lseek fildes offset whence))"

definition Close :: "int \<Rightarrow> unit sysm" where
  "Close fd = ignore (unix_checked ''Close error'' (File (Sys_close fd)))"

definition Select :: "int \<Rightarrow> c_ptr \<Rightarrow> c_ptr \<Rightarrow> c_ptr \<Rightarrow> c_ptr \<Rightarrow> int sysm" where
  "Select n readfds writefds exceptfds timeout =
     unix_checked ''Select error'' (File (Sys_select n readfds writefds exceptfds timeout))"

definition Dup2 :: "int \<Rightarrow> int \<Rightarrow> int sysm" where
  "Dup2 fd1 fd2 = unix_checked ''Dup2 error'' (File (Sys_dup2 fd1 fd2))"

definition Stat :: "string \<Rightarrow> c_ptr \<Rightarrow> unit sysm" where
  "Stat filename buf = ignore (unix_checked ''Stat error'' (File (Sys_stat filename buf)))"

definition Fstat :: "int \<Rightarrow> c_ptr \<Rightarrow> unit sysm" where
  "Fstat fd buf = ignore (unix_checked ''Fstat error'' (File (Sys_fstat fd buf)))"

section \<open>Memory\<close>

definition Mmap :: "c_ptr \<Rightarrow> u64 \<Rightarrow> int \<Rightarrow> int \<Rightarrow> int \<Rightarrow> int \<Rightarrow> c_ptr sysm" where
  "Mmap addr len prot flags fd offset =
     checked sys_call (\<lambda>p. p = -1) (\<lambda>_. unix_error ''mmap error'') (Memory (Sys_mmap addr len prot flags fd offset))"

definition Munmap :: "c_ptr \<Rightarrow> u64 \<Rightarrow> unit sysm" where
  "Munmap start len = ignore (unix_checked ''munmap error'' (Memory (Sys_munmap start len)))"

definition Malloc :: "u64 \<Rightarrow> c_ptr sysm" where
  "Malloc sz = null_checked ''Malloc error'' (Memory (Sys_malloc sz))"

definition Realloc :: "c_ptr \<Rightarrow> u64 \<Rightarrow> c_ptr sysm" where
  "Realloc p sz = null_checked ''Realloc error'' (Memory (Sys_realloc p sz))"

definition Calloc :: "u64 \<Rightarrow> u64 \<Rightarrow> c_ptr sysm" where
  "Calloc nmemb sz = null_checked ''Calloc error'' (Memory (Sys_calloc nmemb sz))"

definition Free :: "c_ptr \<Rightarrow> unit sysm" where
  "Free p = ignore (plain_call (Memory (Sys_free p)))"

section \<open>Standard I/O\<close>

definition Fclose :: "c_ptr \<Rightarrow> unit sysm" where
  "Fclose fp = ignore (checked sys_call (\<lambda>r. r \<noteq> 0) (\<lambda>_. unix_error ''Fclose error'') (Stdio (Sys_fclose fp)))"

definition Fdopen :: "int \<Rightarrow> string \<Rightarrow> c_ptr sysm" where
  "Fdopen fd mode = null_checked ''Fdopen error'' (Stdio (Sys_fdopen fd mode))"

definition Fgets :: "c_ptr \<Rightarrow> int \<Rightarrow> c_ptr \<Rightarrow> c_ptr sysm" where
  "Fgets p n stream w =
     (case sys_call (Stdio (Sys_fgets p n stream)) w of (rptr, w) \<Rightarrow>
        if rptr = 0
        then (case sys_call (Stdio (Sys_ferror stream)) w of (e, w) \<Rightarrow>
                if e \<noteq> 0 then app_error ''Fgets error'' w else (Ret rptr, w))
        else (Ret rptr, w))"

definition Fopen :: "string \<Rightarrow> string \<Rightarrow> c_ptr sysm" where
  "Fopen filename mode = null_checked ''Fopen error'' (Stdio (Sys_fopen filename mode))"

text \<open>\<open>EOF\<close> is -1.\<close>

definition Fputs :: "string \<Rightarrow> c_ptr \<Rightarrow> unit sysm" where
  "Fputs str stream =
     ignore (checked sys_call (\<lambda>r. r = -1) (\<lambda>_. unix_error ''Fputs error'') (Stdio (Sys_fputs str stream)))"

definition Fread :: "c_ptr \<Rightarrow> u64 \<Rightarrow> u64 \<Rightarrow> c_ptr \<Rightarrow> u64 sysm" where
  "Fread p sz nmemb stream w =
     (case sys_call (Stdio (Sys_fread p sz nmemb stream)) w of (r, w) \<Rightarrow>
        let n = (word_of_int r :: u64) in
        if n < nmemb
        then (case sys_call (Stdio (Sys_ferror stream)) w of (e, w) \<Rightarrow>
                if e \<noteq> 0 then unix_error ''Fread error'' w else (Ret n, w))
        else (Ret n, w))"

definition Fwrite :: "c_ptr \<Rightarrow> u64 \<Rightarrow> u64 \<Rightarrow> c_ptr \<Rightarrow> unit sysm" where
  "Fwrite p sz nmemb stream =
     ignore (checked sys_call (\<lambda>r. (word_of_int r :: u64) < nmemb) (\<lambda>_. unix_error ''Fwrite error'')
       (Stdio (Sys_fwrite p sz nmemb stream)))"

section \<open>Sockets and names\<close>

definition Socket :: "int \<Rightarrow> int \<Rightarrow> int \<Rightarrow> int sysm" where
  "Socket domain typ protocol = unix_checked ''Socket error'' (Sock (Sys_socket domain typ protocol))"

definition Setsockopt :: "int \<Rightarrow> int \<Rightarrow> int \<Rightarrow> int \<Rightarrow> int \<Rightarrow> unit sysm" where
  "Setsockopt s level optname optval optlen =
     ignore (unix_checked ''Setsockopt error'' (Sock (Sys_setsockopt s level optname optval optlen)))"

definition Bind :: "int \<Rightarrow> sockaddr_in \<Rightarrow> int \<Rightarrow> unit sysm" where
  "Bind sockfd my_addr addrlen = ignore (unix_checked ''Bind error'' (Sock (Sys_bind sockfd my_addr addrlen)))"

definition Listen :: "int \<Rightarrow> int \<Rightarrow> unit sysm" where
  "Listen s backlog = ignore (unix_checked ''Listen error'' (Sock (Sys_listen s backlog)))"

definition Accept :: "int \<Rightarrow> c_ptr \<Rightarrow> c_ptr \<Rightarrow> int sysm" where
  "Accept s addr addrlen = unix_checked ''Accept error'' (Sock (Sys_accept s addr addrlen))"

definition Connect :: "int \<Rightarrow> sockaddr_in \<Rightarrow> int \<Rightarrow> unit sysm" where
  "Connect sockfd serv_addr addrlen =
     ignore (unix_checked ''Connect error'' (Sock (Sys_connect sockfd serv_addr addrlen)))"

definition Gethostbyname :: "string \<Rightarrow> c_ptr sysm" where
  "Gethostbyname name =
     checked dns_call (\<lambda>p. p = 0) (\<lambda>_. dns_error ''Gethostbyname error'') (Sock (Sys_gethostbyname name))"

definition Gethostbyaddr :: "c_ptr \<Rightarrow> int \<Rightarrow> int \<Rightarrow> c_ptr sysm" where
  "Gethostbyaddr addr len typ =
     checked dns_call (\<lambda>p. p = 0) (\<lambda>_. dns_error ''Gethostbyaddr error'') (Sock (Sys_gethostbyaddr addr len typ))"

section \<open>Threads and semaphores\<close>

definition Pthread_create :: "c_ptr \<Rightarrow> c_ptr \<Rightarrow> string \<Rightarrow> c_ptr \<Rightarrow> unit sysm" where
  "Pthread_create tidp attrp routine argp =
     ignore (posix_checked ''Pthread_create error'' (Thread (Sys_pthread_create tidp attrp routine argp)))"

definition Pthread_cancel :: "int \<Rightarrow> unit sysm" where
  "Pthread_cancel tid = ignore (posix_checked ''Pthread_cancel error'' (Thread (Sys_pthread_cancel tid)))"

definition Pthread_join :: "int \<Rightarrow> c_ptr \<Rightarrow> unit sysm" where
  "Pthread_join tid thread_return =
     ignore (posix_checked ''Pthread_join error'' (Thread (Sys_pthread_join tid thread_return)))"

definition Pthread_detach :: "int \<Rightarrow> unit sysm" where
  "Pthread_detach tid = ignore (posix_checked ''Pthread_detach error'' (Thread (Sys_pthread_detach tid)))"

text \<open>\<open>pthread_exit\<close> ends the calling thread.\<close>

definition Pthread_exit :: "c_ptr \<Rightarrow> unit sysm" where
  "Pthread_exit retval w = (Stuck Thread_exited, w)"

definition Pthread_self :: "int sysm" where
  "Pthread_self = plain_call (Thread Sys_pthread_self)"

definition Pthread_once :: "c_ptr \<Rightarrow> string \<Rightarrow> unit sysm" where
  "Pthread_once once_control init_function = ignore (plain_call (Thread (Sys_pthread_once once_control init_function)))"

definition Sem_init :: "c_ptr \<Rightarrow> int \<Rightarrow> u32 \<Rightarrow> unit sysm" where
  "Sem_init sem pshared val = ignore (unix_checked ''Sem_init error'' (Thread (Sys_sem_init sem pshared val)))"

text \<open>The functions \<open>P\<close> and \<open>V\<close>.\<close>

definition sem_P :: "c_ptr \<Rightarrow> unit sysm" where
  "sem_P sem = ignore (unix_checked ''P error'' (Thread (Sys_sem_wait sem)))"

definition sem_V :: "c_ptr \<Rightarrow> unit sysm" where
  "sem_V sem = ignore (unix_checked ''V error'' (Thread (Sys_sem_post sem)))"

section \<open>Robust I/O\<close>

text \<open>
  The state is the network of \<open>Jeux_Protocol\<close> beside the process. The network says of a failed transfer
  only that it was not an interruption, so the error number it leaves is an argument, \<open>e\<close>.
\<close>

definition rio_failed :: "string \<Rightarrow> int \<Rightarrow> 'a sysm" where
  "rio_failed msg e w = unix_error msg (w\<lparr>errno := e\<rparr>)"

definition Rio_readn :: "int \<Rightarrow> int \<Rightarrow> nat \<Rightarrow> net \<Rightarrow> process \<Rightarrow> (int \<times> u8 list \<times> net) outcome \<times> process" where
  "Rio_readn e fd nbytes s w =
     (case rio_readn fd nbytes s of (n, bs, s) \<Rightarrow>
        if n < 0 then rio_failed ''Rio_readn error'' e w else (Ret (n, bs, s), w))"

definition Rio_writen :: "int \<Rightarrow> int \<Rightarrow> u8 list \<Rightarrow> nat \<Rightarrow> net \<Rightarrow> process \<Rightarrow> net outcome \<times> process" where
  "Rio_writen e fd usrbuf n s w =
     (case rio_writen fd usrbuf n s of (r, s) \<Rightarrow>
        if r \<noteq> int n then rio_failed ''Rio_writen error'' e w else (Ret s, w))"

definition Rio_readinitb :: "rio_t \<Rightarrow> int \<Rightarrow> rio_t" where
  "Rio_readinitb rp fd = rio_readinitb fd rp"

definition Rio_readnb :: "int \<Rightarrow> nat \<Rightarrow> rio_t \<Rightarrow> net \<Rightarrow> process \<Rightarrow> (int \<times> u8 list \<times> rio_t \<times> net) outcome \<times> process" where
  "Rio_readnb e n rp s w =
     (case rio_readnb n rp s of (rc, bs, rp, s) \<Rightarrow>
        if rc < 0 then rio_failed ''Rio_readnb error'' e w else (Ret (rc, bs, rp, s), w))"

definition Rio_readlineb :: "int \<Rightarrow> nat \<Rightarrow> rio_t \<Rightarrow> net \<Rightarrow> process \<Rightarrow> (int \<times> u8 list \<times> rio_t \<times> net) outcome \<times> process" where
  "Rio_readlineb e maxlen rp s w =
     (case rio_readlineb maxlen rp s of (rc, bs, rp, s) \<Rightarrow>
        if rc < 0 then rio_failed ''Rio_readlineb error'' e w else (Ret (rc, bs, rp, s), w))"

end
