(* ===== verification/Csapp_Sockets.thy ===== *)
theory Csapp_Sockets imports Csapp_Wrappers begin

text \<open>
  The client and server helpers of hw5 (\<open>csapp.c\<close>: \<open>open_clientfd\<close>, \<open>open_listenfd\<close> and their wrappers),
  what the wrappers do on failure, and which descriptors the helpers leave open.
\<close>

section \<open>Operations\<close>

definition AF_INET :: int where "AF_INET = 2"
definition SOCK_STREAM :: int where "SOCK_STREAM = 1"
definition SOL_SOCKET :: int where "SOL_SOCKET = 1"
definition SO_REUSEADDR :: int where "SO_REUSEADDR = 2"
definition INADDR_ANY :: u32 where "INADDR_ANY = 0"
definition LISTENQ :: int where "LISTENQ = 1024"

text \<open>The address of port \<open>port\<close>: the conversion to 16 bits drops the high bits.\<close>

definition inet_addr :: "u32 \<Rightarrow> int \<Rightarrow> sockaddr_in" where
  "inet_addr a port = \<lparr>sin_family = word_of_int AF_INET, sin_port = htons (word_of_int port), sin_addr = a\<rparr>"

text \<open>A structure \<open>sockaddr_in\<close> has 16 bytes; the resolver's entry holds 4-byte addresses.\<close>

definition open_clientfd :: "string \<Rightarrow> int \<Rightarrow> process \<Rightarrow> int \<times> process" where
  "open_clientfd hostname port w =
     (case sys_call (Sock (Sys_socket AF_INET SOCK_STREAM 0)) w of (clientfd, w) \<Rightarrow>
        if clientfd < 0 then (-1, w)
        else (case dns_call (Sock (Sys_gethostbyname hostname)) w of (hp, w) \<Rightarrow>
          if hp = 0 then (-2, w)
          else (case sys_call (Sock (Sys_connect clientfd (inet_addr (host_addr w hp) port) 16)) w of (r, w) \<Rightarrow>
            if r < 0 then (-1, w) else (clientfd, w))))"

definition open_listenfd :: "int \<Rightarrow> process \<Rightarrow> int \<times> process" where
  "open_listenfd port w =
     (case sys_call (Sock (Sys_socket AF_INET SOCK_STREAM 0)) w of (listenfd, w) \<Rightarrow>
        if listenfd < 0 then (-1, w)
        else (case sys_call (Sock (Sys_setsockopt listenfd SOL_SOCKET SO_REUSEADDR 1 4)) w of (r, w) \<Rightarrow>
          if r < 0 then (-1, w)
          else (case sys_call (Sock (Sys_bind listenfd (inet_addr (htonl INADDR_ANY) port) 16)) w of (r, w) \<Rightarrow>
            if r < 0 then (-1, w)
            else (case sys_call (Sock (Sys_listen listenfd LISTENQ)) w of (r, w) \<Rightarrow>
              if r < 0 then (-1, w) else (listenfd, w)))))"

definition Open_clientfd :: "string \<Rightarrow> int \<Rightarrow> int sysm" where
  "Open_clientfd hostname port w =
     (case open_clientfd hostname port w of (rc, w) \<Rightarrow>
        if rc < 0
        then (if rc = -1 then unix_error ''Open_clientfd Unix error'' w
              else dns_error ''Open_clientfd DNS error'' w)
        else (Ret rc, w))"

definition Open_listenfd :: "int \<Rightarrow> int sysm" where
  "Open_listenfd port w =
     (case open_listenfd port w of (rc, w) \<Rightarrow>
        if rc < 0 then unix_error ''Open_listenfd error'' w else (Ret rc, w))"

section \<open>Failing with status 0\<close>

text \<open>A computation that ends only by printing one line and exiting with status 0.\<close>

named_theorems reports

definition reports_exit :: "'a sysm \<Rightarrow> bool" where
  "reports_exit m \<longleftrightarrow> (\<forall>w. case m w of
      (Ret _, w') \<Rightarrow> stderr w' = stderr w
    | (Stuck e, w') \<Rightarrow> e = Exit_called 0 \<and> (\<exists>line. stderr w' = stderr w @ [line]))"

lemma reports_exitD:
  assumes "reports_exit m" "m w = (x, w')"
  shows "case x of Ret _ \<Rightarrow> stderr w' = stderr w
    | Stuck e \<Rightarrow> e = Exit_called 0 \<and> (\<exists>line. stderr w' = stderr w @ [line])"
proof -
  have "case m w of (Ret _, w') \<Rightarrow> stderr w' = stderr w
    | (Stuck e, w') \<Rightarrow> e = Exit_called 0 \<and> (\<exists>line. stderr w' = stderr w @ [line])"
    using assms(1) unfolding reports_exit_def by (rule spec[where x = w])
  then show ?thesis by (simp add: assms(2))
qed

lemma calls_silent [simp]: "sys_call c w = (r, w') \<Longrightarrow> stderr w' = stderr w" "dns_call c w = (r, w') \<Longrightarrow> stderr w' = stderr w"
  by (auto simp: sys_call_def dns_call_def split: prod.splits)

lemma errors_exit:
  "\<exists>line. unix_error msg w = (Stuck (Exit_called 0), w\<lparr>stderr := stderr w @ [line]\<rparr>)"
  "\<exists>line. posix_error c msg w = (Stuck (Exit_called 0), w\<lparr>stderr := stderr w @ [line]\<rparr>)"
  "\<exists>line. dns_error msg w = (Stuck (Exit_called 0), w\<lparr>stderr := stderr w @ [line]\<rparr>)"
  "\<exists>line. app_error msg w = (Stuck (Exit_called 0), w\<lparr>stderr := stderr w @ [line]\<rparr>)"
  by (auto simp: unix_error_def posix_error_def dns_error_def app_error_def exit_with_def)

lemma reports_checked [reports]: "reports_exit (unix_checked msg c)" "reports_exit (posix_checked msg c)"
  "reports_exit (null_checked msg c)" "reports_exit (plain_call c)"
  unfolding reports_exit_def unix_checked_def posix_checked_def null_checked_def checked_def plain_call_def
  by (auto split: prod.splits simp: unix_error_def posix_error_def exit_with_def)

lemma reports_ignore [reports]: "reports_exit m \<Longrightarrow> reports_exit (ignore m)"
  unfolding reports_exit_def ignore_def by (force split: prod.splits outcome.splits)

lemma reports_seq [reports]:
  assumes "reports_exit m" "\<And>x. reports_exit (f x)"
  shows "reports_exit (seq_sys m f)"
  unfolding reports_exit_def
proof
  fix w
  obtain x w1 where m: "m w = (x, w1)" by fastforce
  show "case seq_sys m f w of (Ret _, w') \<Rightarrow> stderr w' = stderr w
    | (Stuck e, w') \<Rightarrow> e = Exit_called 0 \<and> (\<exists>line. stderr w' = stderr w @ [line])"
  proof (cases x)
    case (Ret y)
    obtain z w2 where f: "f y w1 = (z, w2)" by fastforce
    show ?thesis using reports_exitD[OF assms(1) m] reports_exitD[OF assms(2) f] Ret
      by (simp add: seq_sys_def m f split: outcome.splits)
  next
    case (Stuck e)
    then show ?thesis using reports_exitD[OF assms(1) m] by (simp add: seq_sys_def m)
  qed
qed

lemma open_listenfd_silent: "open_listenfd port w = (r, w') \<Longrightarrow> stderr w' = stderr w"
  by (auto simp: open_listenfd_def split: prod.splits if_splits)

lemma reports_Open_listenfd [reports]: "reports_exit (Open_listenfd port)"
  unfolding reports_exit_def Open_listenfd_def
  by (auto split: prod.splits dest: open_listenfd_silent simp: unix_error_def exit_with_def)

section \<open>Descriptors\<close>

text \<open>The descriptors that the calls of a trace have opened and not closed.\<close>

definition fd_step :: "int list \<Rightarrow> syscall \<times> int \<Rightarrow> int list" where
  "fd_step fds = (\<lambda>(c, r).
     if r < 0 then fds
     else (case c of
         Sock (Sys_socket d t p) \<Rightarrow> fds @ [r]
       | Sock (Sys_accept s a l) \<Rightarrow> fds @ [r]
       | File (Sys_close fd) \<Rightarrow> remove1 fd fds
       | _ \<Rightarrow> fds))"

definition open_fds :: "(syscall \<times> int) list \<Rightarrow> int list" where
  "open_fds t = foldl fd_step [] t"

lemma open_fds_append [simp]: "open_fds (t @ u) = foldl fd_step (open_fds t) u"
  by (simp add: open_fds_def)

lemma fd_step_other [simp]:
  "fd_step fds (Sock (Sys_bind a b c), r) = fds" "fd_step fds (Sock (Sys_listen a d), r) = fds"
  "fd_step fds (Sock (Sys_connect a b c), r) = fds" "fd_step fds (Sock (Sys_setsockopt a e f g h), r) = fds"
  "fd_step fds (Sock (Sys_gethostbyname i), r) = fds"
  "fd_step fds (Sock (Sys_socket j k l), r) = (if r < 0 then fds else fds @ [r])"
  by (simp_all add: fd_step_def)

lemma call_trace:
  "sys_call c w = (r, w') \<Longrightarrow> trace w' = trace w @ [(c, r)] \<and> host_addr w' = host_addr w"
  "dns_call c w = (r, w') \<Longrightarrow> trace w' = trace w @ [(c, r)] \<and> host_addr w' = host_addr w"
  by (auto simp: sys_call_def dns_call_def split: prod.splits)

lemmas inet_constants = AF_INET_def SOCK_STREAM_def SOL_SOCKET_def SO_REUSEADDR_def INADDR_ANY_def LISTENQ_def
  inet_addr_def

lemma htonl_0 [simp]: "htonl 0 = 0"
  by (simp add: htonl_def)

lemma listenfd_result:
  assumes "open_listenfd port w = (r, w')"
  shows "(\<exists>a b c. 0 \<le> r \<and> 0 \<le> a \<and> 0 \<le> b \<and> 0 \<le> c \<and>
      trace w' = trace w @ [(Sock (Sys_socket 2 1 0), r), (Sock (Sys_setsockopt r 1 2 1 4), a),
        (Sock (Sys_bind r \<lparr>sin_family = 2, sin_port = htons (word_of_int port), sin_addr = 0\<rparr> 16), b),
        (Sock (Sys_listen r 1024), c)] \<and>
      open_fds (trace w') = open_fds (trace w) @ [r]) \<or>
    r = -1 \<and> (\<exists>fd rest. trace w' = trace w @ (Sock (Sys_socket 2 1 0), fd) # rest \<and>
      (fd < 0 \<and> rest = [] \<and> open_fds (trace w') = open_fds (trace w) \<or>
       0 \<le> fd \<and> snd (last rest) < 0 \<and> open_fds (trace w') = open_fds (trace w) @ [fd]))"
  using assms by (auto simp: open_listenfd_def inet_constants dest!: call_trace split: prod.splits if_splits)

text \<open>
  C30: open_listenfd returns a descriptor exactly when all four calls succeed, having created,
  marked reusable, bound (to the low 16 bits of the port, in network order, on every
  interface) and made listening that one socket. Otherwise it returns -1; if the socket had
  been created, its descriptor stays open, and the caller cannot know it.
\<close>

theorem open_listenfd_spec:
  assumes "open_listenfd port w = (r, w')"
  shows "(\<exists>a b c. 0 \<le> r \<and> 0 \<le> a \<and> 0 \<le> b \<and> 0 \<le> c \<and>
      trace w' = trace w @ [(Sock (Sys_socket 2 1 0), r), (Sock (Sys_setsockopt r 1 2 1 4), a),
        (Sock (Sys_bind r \<lparr>sin_family = 2, sin_port = htons (word_of_int port), sin_addr = 0\<rparr> 16), b),
        (Sock (Sys_listen r 1024), c)] \<and>
      open_fds (trace w') = open_fds (trace w) @ [r]) \<or>
    r = -1 \<and> (\<exists>fd rest. trace w' = trace w @ (Sock (Sys_socket 2 1 0), fd) # rest \<and>
      (fd < 0 \<and> rest = [] \<and> open_fds (trace w') = open_fds (trace w) \<or>
       0 \<le> fd \<and> snd (last rest) < 0 \<and> open_fds (trace w') = open_fds (trace w) @ [fd]))"
  by (rule listenfd_result[OF assms])

theorem open_clientfd_spec:
  assumes "open_clientfd host port w = (r, w')"
  shows "(\<exists>hp c. 0 \<le> r \<and> hp \<noteq> 0 \<and> 0 \<le> c \<and>
      trace w' = trace w @ [(Sock (Sys_socket 2 1 0), r), (Sock (Sys_gethostbyname host), hp),
        (Sock (Sys_connect r \<lparr>sin_family = 2, sin_port = htons (word_of_int port), sin_addr = host_addr w hp\<rparr> 16), c)] \<and>
      open_fds (trace w') = open_fds (trace w) @ [r]) \<or>
    r = -1 \<and> (\<exists>fd. fd < 0 \<and> trace w' = trace w @ [(Sock (Sys_socket 2 1 0), fd)] \<and> open_fds (trace w') = open_fds (trace w)) \<or>
    r = (if \<exists>fd. trace w' = trace w @ [(Sock (Sys_socket 2 1 0), fd), (Sock (Sys_gethostbyname host), 0)] then -2 else -1) \<and>
      (\<exists>fd. 0 \<le> fd \<and> open_fds (trace w') = open_fds (trace w) @ [fd])"
  using assms by (auto simp: open_clientfd_def inet_constants dest!: call_trace split: prod.splits if_splits)

end
