(* ===== verification/Jeux_Server.thy ===== *)
theory Jeux_Server imports Jeux_Main Csapp_Sockets begin

text \<open>
  The whole of the hw5 \<open>main\<close>: the start of \<open>Jeux_Main\<close>, the listening socket and the accept loop, over
  the system call wrappers. The service routine the threads would run is commented out in \<open>server.c\<close>;
  to this model it is the name of the thread's start routine.
\<close>

section \<open>Operations\<close>

text \<open>\<open>atoi\<close>: blanks, a sign, digits; the value is that of \<open>strtol\<close> converted to \<open>int\<close>.\<close>

definition is_blank :: "char \<Rightarrow> bool" where
  "is_blank c \<longleftrightarrow> code_of c = 32 \<or> 9 \<le> code_of c \<and> code_of c \<le> 13"

definition clamp_long :: "int \<Rightarrow> int" where
  "clamp_long v = max (- 9223372036854775808) (min 9223372036854775807 v)"

definition atoi :: "string \<Rightarrow> int" where
  "atoi s = (let t = dropWhile is_blank s in
     int32 (clamp_long (case t of
         [] \<Rightarrow> 0
       | c # r \<Rightarrow>
           if c = CHR ''-'' then - digits_value (takeWhile is_digit r)
           else if c = CHR ''+'' then digits_value (takeWhile is_digit r)
           else digits_value (takeWhile is_digit t))))"

text \<open>The addresses of the local variables that the calls fill in.\<close>

record main_frame =
  at_clientaddr :: c_ptr
  at_clientlen :: c_ptr
  at_tid :: c_ptr

text \<open>One turn of the loop: the result is the cell and the descriptor stored in it.\<close>

definition accept_round :: "main_frame \<Rightarrow> int \<Rightarrow> (c_ptr \<times> int) sysm" where
  "accept_round fr listenfd =
     seq_sys (Malloc 4) (\<lambda>connfd.
       seq_sys (Accept listenfd (at_clientaddr fr) (at_clientlen fr)) (\<lambda>fd.
         seq_sys (Pthread_create (at_tid fr) 0 ''jeux_client_service'' connfd) (\<lambda>_ w.
           (Ret (connfd, fd), w))))"

text \<open>The loop has no exit of its own: \<open>None\<close> is a server that accepts for ever.\<close>

partial_function (option) accept_loop :: "main_frame \<Rightarrow> int \<Rightarrow> process \<Rightarrow> (fault \<times> process) option" where
  "accept_loop fr listenfd w =
     (case accept_round fr listenfd w of (x, w') \<Rightarrow>
        (case x of Ret _ \<Rightarrow> accept_loop fr listenfd w' | Stuck e \<Rightarrow> Some (e, w')))"



section \<open>The accept loop\<close>

fun accept_rounds :: "main_frame \<Rightarrow> int \<Rightarrow> nat \<Rightarrow> (c_ptr \<times> int) list sysm" where
  "accept_rounds fr l 0 = (\<lambda>w. (Ret [], w))"
| "accept_rounds fr l (Suc k) = seq_sys (accept_round fr l) (\<lambda>x. seq_sys (accept_rounds fr l k) (\<lambda>xs w. (Ret (x # xs), w)))"

lemma reports_ret [reports]: "reports_exit (\<lambda>w. (Ret x, w))"
  by (simp add: reports_exit_def)



lemma accept_rounds_stuck:
  "accept_rounds fr l k w = (Stuck e, w') \<Longrightarrow> accept_loop fr l w = Some (e, w')"
proof (induction k arbitrary: w)
  case 0
  then show ?case by simp
next
  case (Suc k)
  obtain y w1 where r: "accept_round fr l w = (y, w1)" by fastforce
  show ?case
  proof (cases y)
    case (Ret z)
    then have "accept_rounds fr l k w1 = (Stuck e, w')"
      using Suc.prems r by (auto simp: seq_sys_def split: prod.splits outcome.splits)
    then show ?thesis using Suc.IH Ret r by (subst accept_loop.simps) simp
  next
    case (Stuck e')
    then show ?thesis using Suc.prems r by (subst accept_loop.simps) (auto simp: seq_sys_def)
  qed
qed

lemma accept_loop_rounds:
  assumes "accept_loop fr l w = Some x"
  shows "\<exists>k. accept_rounds fr l k w = (Stuck (fst x), snd x)"
  using assms
proof (induction rule: accept_loop.raw_induct[rotated, consumes 1, case_names 1])
  case (1 loop fr l w x)
  obtain y w1 where r: "accept_round fr l w = (y, w1)" by fastforce
  show ?case
  proof (cases y)
    case (Ret z)
    then have "loop fr l w1 = Some x" using 1(2) r by simp
    from 1(1)[OF this] obtain k where "accept_rounds fr l k w1 = (Stuck (fst x), snd x)" by blast
    then show ?thesis using Ret r by (intro exI[of _ "Suc k"]) (simp add: seq_sys_def)
  next
    case (Stuck e)
    then show ?thesis using 1(2) r by (intro exI[of _ "Suc 0"]) (auto simp: seq_sys_def)
  qed
qed

lemma accept_loop_iff: "accept_loop fr l w = Some (e, w') \<longleftrightarrow> (\<exists>k. accept_rounds fr l k w = (Stuck e, w'))"
  using accept_rounds_stuck[of fr l _ w e w'] accept_loop_rounds[of fr l w "(e, w')"] by auto

text \<open>The calls of a turn that served \<open>x\<close>: a cell, a connection, a thread that is given the cell.\<close>

definition round_calls :: "main_frame \<Rightarrow> int \<Rightarrow> c_ptr \<times> int \<Rightarrow> (syscall \<times> int) list" where
  "round_calls fr l = (\<lambda>(p, fd). [(Memory (Sys_malloc 4), p), (Sock (Sys_accept l (at_clientaddr fr) (at_clientlen fr)), fd),
     (Thread (Sys_pthread_create (at_tid fr) 0 ''jeux_client_service'' p), 0)])"

lemma accept_round_calls:
  assumes "accept_round fr l w = (Ret x, w')"
  shows "trace w' = trace w @ round_calls fr l x \<and> fst x \<noteq> 0 \<and> 0 \<le> snd x"
  using assms unfolding accept_round_def Malloc_def Accept_def Pthread_create_def null_checked_def
    unix_checked_def posix_checked_def checked_def ignore_def seq_sys_def
  by (auto simp: round_calls_def unix_error_def posix_error_def exit_with_def dest!: call_trace
      split: prod.splits if_splits outcome.splits)

lemma accept_rounds_calls:
  "accept_rounds fr l k w = (Ret xs, w') \<Longrightarrow> length xs = k \<and>
   trace w' = trace w @ concat (map (round_calls fr l) xs) \<and> list_all (\<lambda>(p, fd). p \<noteq> 0 \<and> 0 \<le> fd) xs"
proof (induction k arbitrary: w xs)
  case 0
  then show ?case by auto
next
  case (Suc k)
  then obtain x w1 ys where r: "accept_round fr l w = (Ret x, w1)" "accept_rounds fr l k w1 = (Ret ys, w')" "xs = x # ys"
    by (auto simp: seq_sys_def split: prod.splits outcome.splits)
  show ?case using accept_round_calls[OF r(1)] Suc.IH[OF r(2)] by (auto simp: r(3))
qed

lemma round_calls_fds:
  "list_all (\<lambda>(p, fd). p \<noteq> 0 \<and> 0 \<le> fd) xs \<Longrightarrow> foldl fd_step fds (concat (map (round_calls fr l) xs)) = fds @ map snd xs"
  by (induction xs arbitrary: fds) (auto simp: round_calls_def fd_step_def)

section \<open>What the server does\<close>

theorem accept_loop_hands_over:
  assumes "accept_rounds fr l k w = (Ret xs, w')"
  shows "length xs = k \<and> trace w' = trace w @ concat (map (round_calls fr l) xs) \<and>
    list_all (\<lambda>(p, fd). p \<noteq> 0 \<and> 0 \<le> fd) xs \<and> open_fds (trace w') = open_fds (trace w) @ map snd xs"
  using accept_rounds_calls[OF assms] by (simp add: round_calls_fds)





section \<open>The port\<close>

lemma show_nat_hd: "is_digit (hd (show_nat n))"
  using show_nat_digits[of n] by simp

lemma takeWhile_show_nat: "takeWhile is_digit (show_nat n) = show_nat n"
  using show_nat_digits[of n] by (simp add: takeWhile_eq_all_conv)

lemma atoi_show_nat:
  assumes "n < 2147483648"
  shows "atoi (show_nat n) = int n"
proof -
  obtain c r where s: "show_nat n = c # r" by (cases "show_nat n") auto
  have d: "is_digit c" using show_nat_hd[of n] by (simp add: s)
  then have "\<not> is_blank c" "c \<noteq> CHR ''-''" "c \<noteq> CHR ''+''" by (auto simp: is_digit_def is_blank_def code_of_def)
  then have "atoi (show_nat n) = int32 (clamp_long (digits_value (takeWhile is_digit (show_nat n))))"
    by (simp add: atoi_def s)
  then show ?thesis using assms unfolding takeWhile_show_nat show_nat_value by (simp add: clamp_long_def)
qed

theorem server_port_wraps:
  assumes "n < 2147483648" "open_listenfd (atoi (show_nat n)) w = (l, w1)" "0 \<le> l"
  shows "\<exists>a b c. trace w1 = trace w @ [(Sock (Sys_socket 2 1 0), l), (Sock (Sys_setsockopt l 1 2 1 4), a),
      (Sock (Sys_bind l \<lparr>sin_family = 2, sin_port = htons (of_nat (n mod 65536)), sin_addr = 0\<rparr> 16), b),
      (Sock (Sys_listen l 1024), c)]"
proof -
  have "(word_of_int (int n) :: u16) = of_nat (n mod 65536)"
    by transfer (simp add: take_bit_eq_mod zmod_int)
  then show ?thesis using listenfd_result[OF assms(2)] assms(3) unfolding atoi_show_nat[OF assms(1)] by auto
qed

end
