(* ===== verification/Jeux_Lobby.thy ===== *)
theory Jeux_Lobby imports Jeux_Client begin

text \<open>
  The server of hw5 as one state machine: connections, user registrations, logins, logouts, invitations
  and moves in any order. What the registries rely on is an invariant of every reachable state, whatever
  the calls return and whichever locks they leave behind.
\<close>

section \<open>Calls that leave the lobby alone\<close>

definition client_like :: "client \<Rightarrow> client \<Rightarrow> bool" where
  "client_like x y \<longleftrightarrow> cl_fd y = cl_fd x \<and> cl_player y = cl_player x \<and> cl_logged_in y = cl_logged_in x \<and> cl_count x \<le> cl_count y"

definition player_like :: "player \<Rightarrow> player \<Rightarrow> bool" where
  "player_like x y \<longleftrightarrow> pl_name y = pl_name x \<and> pl_count x \<le> pl_count y"

definition same_lobby :: "'g world \<Rightarrow> 'g world \<Rightarrow> bool" where
  "same_lobby v w \<longleftrightarrow> cr_connections (creg w) = cr_connections (creg v) \<and> cr_count (creg w) = cr_count (creg v) \<and>
     pr_players (preg w) = pr_players (preg v) \<and> pr_count (preg w) = pr_count (preg v) \<and> next_ref v \<le> next_ref w \<and>
     (\<forall>c. rel_option client_like (clients v c) (clients w c)) \<and> (\<forall>p. rel_option player_like (players v p) (players w p))"

lemma like_refl [simp]: "client_like x x" "player_like y y"
  by (simp_all add: client_like_def player_like_def)

lemma like_trans: "client_like x y \<Longrightarrow> client_like y z \<Longrightarrow> client_like x z" "player_like a b \<Longrightarrow> player_like b c \<Longrightarrow> player_like a c"
  by (simp_all add: client_like_def player_like_def)

lemma rel_option_refl_like [simp]: "rel_option client_like a a" "rel_option player_like b b"
  by (simp_all add: option.rel_refl)

lemma rel_option_trans_like:
  "rel_option client_like a b \<Longrightarrow> rel_option client_like b c \<Longrightarrow> rel_option client_like a c"
  "rel_option player_like p q \<Longrightarrow> rel_option player_like q r \<Longrightarrow> rel_option player_like p r"
  by (auto simp: option_rel_Some1 option_rel_Some2 elim!: option.rel_cases intro: like_trans)

lemma same_lobby_refl: "same_lobby w w"
  by (simp add: same_lobby_def)

lemma same_lobby_trans: "same_lobby u v \<Longrightarrow> same_lobby v w \<Longrightarrow> same_lobby u w"
  unfolding same_lobby_def by (auto intro: rel_option_trans_like)

definition quiet :: "('g, 'a) jx \<Rightarrow> bool" where
  "quiet m \<longleftrightarrow> (\<forall>w r w'. m w = Ret (r, w') \<longrightarrow> same_lobby w w')"

lemma quietD: "quiet m \<Longrightarrow> m w = Ret (r, w') \<Longrightarrow> same_lobby w w'"
  by (simp add: quiet_def)

named_theorems quiet_intros

lemma quiet_bind [quiet_intros]:
  assumes "quiet m" "\<And>x. quiet (f x)"
  shows "quiet (bind m f)"
  unfolding quiet_def bind_def
  using quietD[OF assms(1)] quietD[OF assms(2)] by (fastforce split: outcome.splits intro: same_lobby_trans)

lemma quiet_after [quiet_intros]: "quiet m \<Longrightarrow> quiet n \<Longrightarrow> quiet (after m n)"
  unfolding after_def by (rule quiet_bind)

lemma quiet_give [quiet_intros]: "quiet (give x)" "quiet (stuck e)"
  by (simp_all add: quiet_def give_def stuck_def same_lobby_refl)

lemma quiet_cases [quiet_intros]:
  "(b \<Longrightarrow> quiet m) \<Longrightarrow> (\<not> b \<Longrightarrow> quiet n) \<Longrightarrow> quiet (if b then m else n)"
  "quiet m \<Longrightarrow> (\<And>x. quiet (f x)) \<Longrightarrow> quiet (case y of None \<Rightarrow> m | Some x \<Rightarrow> f x)"
  "(\<And>x. quiet (f x)) \<Longrightarrow> quiet (Let z f)"
  "(\<And>a b. quiet (g a b)) \<Longrightarrow> quiet (case q of (a, b) \<Rightarrow> g a b)"
  by (auto split: option.splits prod.splits)

lemma quiet_get [quiet_intros]: "quiet (get_client c)" "quiet (get_player p)" "quiet (get_inv i)" "quiet (get_game k)"
  by (auto simp: quiet_def get_client_def get_player_def get_inv_def get_game_def same_lobby_refl split: if_splits option.splits)

lemma quiet_put [quiet_intros]: "quiet (put_inv i v)" "quiet (put_game k g)" "quiet (free_inv i)" "quiet (malloc E)"
  by (auto simp: quiet_def put_inv_def put_game_def free_inv_def malloc_def same_lobby_def split: if_splits)

text \<open>A client or a player read and written back with other fields changed.\<close>

lemma same_lobby_put:
  "clients w c = Some x \<Longrightarrow> client_like x y \<Longrightarrow> same_lobby w (w\<lparr>clients := (clients w)(c \<mapsto> y)\<rparr>)"
  "players w p = Some a \<Longrightarrow> player_like a b \<Longrightarrow> same_lobby w (w\<lparr>players := (players w)(p \<mapsto> b)\<rparr>)"
  by (simp_all add: same_lobby_def)

lemma quiet_update_client:
  assumes "\<And>x. client_like x (f x)"
  shows "quiet (bind (get_client c) (\<lambda>x. put_client c (f x)))"
  using assms by (auto simp: quiet_def bind_def get_client_def put_client_def same_lobby_put split: if_splits option.splits)

lemma quiet_update_player:
  assumes "\<And>x. player_like x (f x)"
  shows "quiet (bind (get_player p) (\<lambda>x. put_player p (f x)))"
  using assms by (auto simp: quiet_def bind_def get_player_def put_player_def same_lobby_put split: if_splits option.splits)

lemma after_bind: "bind m (\<lambda>x. after (f x) n) = after (bind m f) n"
  by (simp add: after_def bind_assoc)

lemma quiet_update_after:
  "(\<And>x. client_like x (f x)) \<Longrightarrow> quiet n \<Longrightarrow> quiet (bind (get_client c) (\<lambda>x. after (put_client c (f x)) n))"
  "(\<And>x. player_like x (g x)) \<Longrightarrow> quiet n \<Longrightarrow> quiet (bind (get_player p) (\<lambda>x. after (put_player p (g x)) n))"
  unfolding after_bind by (intro quiet_after quiet_update_client quiet_update_player; simp)+

lemma mutex_like: "client_like x (x\<lparr>cl_mutex := m\<rparr>)" "player_like y (y\<lparr>pl_mutex := m\<rparr>)"
  by (simp_all add: client_like_def player_like_def)

lemma quiet_P [quiet_intros]: "quiet (P_client c)" "quiet (P_player p)" "quiet (P_inv i)"
proof -
  show "quiet (P_client c)" "quiet (P_player p)"
    by (auto simp: quiet_def P_client_def P_player_def bind_def get_client_def put_client_def get_player_def put_player_def
        stuck_def same_lobby_put mutex_like split: if_splits option.splits)
  show "quiet (P_inv i)" unfolding P_inv_def by (intro quiet_intros)
qed

lemma quiet_V [quiet_intros]: "quiet (V_client c)" "quiet (V_player p)" "quiet (V_inv i)"
  unfolding V_client_def V_player_def V_inv_def
  by (intro quiet_update_client quiet_update_player mutex_like quiet_intros)+

section \<open>Invitations and moves\<close>

lemma quiet_send [quiet_intros]: "quiet (send fd h d)" "quiet (stamp E t i role n)"
  by (auto simp: quiet_def send_def stamp_def same_lobby_def split: prod.splits)

lemma quiet_refs [quiet_intros]: "quiet (client_ref c)" "quiet (player_ref p)" "quiet (inv_ref i)" "quiet (inv_unref i)"
proof -
  show "quiet (client_ref c)" unfolding client_ref_def
    by (intro quiet_after quiet_P quiet_update_after quiet_V quiet_give) (simp add: client_like_def)
  show "quiet (player_ref p)" unfolding player_ref_def
    by (intro quiet_after quiet_P quiet_update_after quiet_V quiet_give) (simp add: player_like_def)
  show "quiet (inv_ref i)" "quiet (inv_unref i)" unfolding inv_ref_def inv_unref_def by (intro quiet_intros)+
qed

lemma quiet_inv_fields [quiet_intros]:
  "quiet (inv_get_source i)" "quiet (inv_get_target i)" "quiet (inv_get_source_role i)" "quiet (inv_get_target_role i)"
  "quiet (inv_get_game i)"
  unfolding inv_get_source_def inv_get_target_def inv_get_source_role_def inv_get_target_role_def inv_get_game_def
  by (intro quiet_intros)+

lemma quiet_games [quiet_intros]: "quiet (new_game E)" "quiet (resign E g role)" "quiet (is_over E g)"
proof -
  have "quiet (\<lambda>w. Ret (next_ref w, w\<lparr>next_ref := next_ref w + 1\<rparr>))" by (simp add: quiet_def same_lobby_def)
  then show "quiet (new_game E)" unfolding new_game_def by (intro quiet_intros)
  show "quiet (resign E g role)" "quiet (is_over E g)" unfolding resign_def is_over_def by (intro quiet_intros)+
qed

lemma quiet_inv_life [quiet_intros]: "quiet (inv_create E s t r1 r2)" "quiet (inv_accept E i)" "quiet (inv_close E i role)"
  unfolding inv_create_def inv_accept_def inv_close_def by (intro quiet_intros)+

lemma quiet_slots [quiet_intros]: "quiet (get_slot c n)" "quiet (find_same_game c i is)" "quiet (find_slot c i is)"
proof -
  show g: "quiet (get_slot c n)" for n unfolding get_slot_def by (intro quiet_intros)
  show "quiet (find_same_game c i is)" by (induction "is") (auto intro!: quiet_intros g)
  show "quiet (find_slot c i is)" by (induction "is") (auto intro!: quiet_intros g)
qed

lemma quiet_search [quiet_intros]: "quiet (search_slots c i)"
  unfolding search_slots_def by (intro quiet_intros)

lemma quiet_add_invitation [quiet_intros]: "quiet (client_add_invitation c i)"
  unfolding client_add_invitation_def Let_def
  by (intro quiet_after quiet_P quiet_bind quiet_get quiet_refs quiet_cases quiet_give quiet_update_after quiet_V)
    (simp add: client_like_def)

lemma quiet_remove_invitation [quiet_intros]: "quiet (client_remove_invitation c i)"
  unfolding client_remove_invitation_def by (intro quiet_intros)

lemma quiet_remove_both [quiet_intros]: "quiet m \<Longrightarrow> quiet (remove_both c d i m)"
  unfolding remove_both_def by (intro quiet_intros)

lemma quiet_notify [quiet_intros]: "quiet (notify E c t n role msg)"
  unfolding notify_def by (intro quiet_intros)

lemma quiet_player_fields [quiet_intros]: "quiet (player_get_name p)" "quiet (player_get_rating p)"
  unfolding player_get_name_def player_get_rating_def by (intro quiet_intros)+

lemma quiet_post_result [quiet_intros]: "quiet (player_post_result p q n)"
proof -
  have like: "player_like x (x\<lparr>pl_rating := r\<rparr>)" for x r by (simp add: player_like_def)
  have set_both: "quiet (bind (get_player p) (\<lambda>x. after (put_player p (x\<lparr>pl_rating := a\<rparr>))
      (bind (get_player q) (\<lambda>y. put_player q (y\<lparr>pl_rating := b\<rparr>)))))" for a b
    by (intro quiet_update_after quiet_update_player like)
  show ?thesis unfolding player_post_result_def Let_def
    by (rule quiet_after[OF quiet_P(2)], rule quiet_after[OF quiet_P(2)], rule quiet_bind[OF quiet_player_fields(2)],
        rule quiet_bind[OF quiet_player_fields(2)], rule quiet_after)
      (intro quiet_cases(1) set_both quiet_give quiet_after[OF quiet_V(2)] quiet_V)+
qed

lemma quiet_finish [quiet_intros]: "quiet (finish_game E c d i n k s w r1 r2 p)"
  unfolding finish_game_def by (intro quiet_intros)

lemma quiet_parties [quiet_intros]: "quiet (parties c i)"
  unfolding parties_def by (intro quiet_intros)

text \<open>The calls of a client that is not logging in or out.\<close>

lemma quiet_calls [quiet_intros]:
  "quiet (client_make_invitation E s t r1 r2)" "quiet (client_revoke_invitation E c n)" "quiet (client_decline_invitation E c n)"
  "quiet (client_accept_invitation E c n b)" "quiet (client_resign_game E c n)" "quiet (client_make_move E c n mv)"
  unfolding client_make_invitation_def client_revoke_invitation_def client_decline_invitation_def
    client_accept_invitation_def client_resign_game_def client_make_move_def
  by (intro quiet_intros)+

lemma quiet_acks [quiet_intros]: "quiet (client_send_packet c h d)" "quiet (client_send_ack E c d n)" "quiet (client_send_nack E c)"
  unfolding client_send_packet_def client_send_ack_def client_send_nack_def by (intro quiet_intros)+

lemma quiet_logout_loop [quiet_intros]: "quiet (logout_loop E c is)"
  by (induction "is") (auto intro!: quiet_intros)

section \<open>The lobby\<close>

text \<open>
  Who holds a player: the clients, registered or not, that are logged in as it. The invariant: connections
  have their own descriptors and are live, clients and players are below the next reference, the player of
  a logged-in client and every registered player is live, and a player's count covers all who hold it.
\<close>

definition holders :: "'g world \<Rightarrow> ref \<Rightarrow> ref set" where
  "holders w p = {c. \<exists>x. clients w c = Some x \<and> cl_logged_in x \<noteq> 0 \<and> cl_player x = p}"

definition lobby_ok :: "'g world \<Rightarrow> bool" where
  "lobby_ok w \<longleftrightarrow> cr_count (creg w) \<le> MAX_CLIENTS \<and> 0 < next_ref w \<and> distinct (map (fd_of w) (connections w)) \<and>
     (\<forall>c\<in>set (connections w). c \<noteq> null \<and> (\<exists>x. clients w c = Some x \<and> 0 < cl_count x)) \<and>
     (\<forall>c x. clients w c = Some x \<longrightarrow> c < next_ref w \<and> (cl_logged_in x \<noteq> 0 \<longrightarrow> cl_player x \<noteq> null \<and> players w (cl_player x) \<noteq> None)) \<and>
     (\<forall>p\<in>set (preg_refs w). p \<noteq> null \<and> players w p \<noteq> None) \<and>
     (\<forall>p y. players w p = Some y \<longrightarrow> p < next_ref w \<and>
        int (card (holders w p)) + (if p \<in> set (preg_refs w) then 1 else 0) \<le> pl_count y) \<and>
     unique_users w"

definition uses :: "'g world \<Rightarrow> ref \<Rightarrow> int" where
  "uses w p = int (card (holders w p)) + (if p \<in> set (preg_refs w) then 1 else 0)"

lemma lobby_okD:
  assumes "lobby_ok w"
  shows "cr_count (creg w) \<le> MAX_CLIENTS" "0 < next_ref w" "distinct (map (fd_of w) (connections w))"
    "c \<in> set (connections w) \<Longrightarrow> c \<noteq> null \<and> (\<exists>x. clients w c = Some x \<and> 0 < cl_count x)"
    "clients w c = Some x \<Longrightarrow> c < next_ref w"
    "clients w c = Some x \<Longrightarrow> cl_logged_in x \<noteq> 0 \<Longrightarrow> cl_player x \<noteq> null \<and> players w (cl_player x) \<noteq> None"
    "p \<in> set (preg_refs w) \<Longrightarrow> p \<noteq> null \<and> players w p \<noteq> None"
    "players w p = Some y \<Longrightarrow> p < next_ref w" "players w p = Some y \<Longrightarrow> uses w p \<le> pl_count y" "unique_users w"
  using assms unfolding lobby_ok_def uses_def by blast+

lemma lobby_okI:
  assumes "cr_count (creg w) \<le> MAX_CLIENTS" "0 < next_ref w" "distinct (map (fd_of w) (connections w))"
    "\<And>c. c \<in> set (connections w) \<Longrightarrow> c \<noteq> null \<and> (\<exists>x. clients w c = Some x \<and> 0 < cl_count x)"
    "\<And>c x. clients w c = Some x \<Longrightarrow> c < next_ref w"
    "\<And>c x. clients w c = Some x \<Longrightarrow> cl_logged_in x \<noteq> 0 \<Longrightarrow> cl_player x \<noteq> null \<and> players w (cl_player x) \<noteq> None"
    "\<And>p. p \<in> set (preg_refs w) \<Longrightarrow> p \<noteq> null \<and> players w p \<noteq> None"
    "\<And>p y. players w p = Some y \<Longrightarrow> p < next_ref w" "\<And>p y. players w p = Some y \<Longrightarrow> uses w p \<le> pl_count y" "unique_users w"
  shows "lobby_ok w"
  using assms unfolding lobby_ok_def uses_def by blast

lemma rel_option_None: "rel_option R a None \<longleftrightarrow> a = None" "rel_option R None b \<longleftrightarrow> b = None"
  by (cases a; simp) (cases b; simp)

lemma same_lobby_facts:
  assumes "same_lobby v w"
  shows "connections w = connections v" "preg_refs w = preg_refs v" "holders w p = holders v p"
    "clients w c = None \<longleftrightarrow> clients v c = None" "players w p = None \<longleftrightarrow> players v p = None"
    "clients w c = Some y \<Longrightarrow> \<exists>x. clients v c = Some x \<and> client_like x y"
    "players w p = Some b \<Longrightarrow> \<exists>a. players v p = Some a \<and> player_like a b"
    "fd_of w c = fd_of v c" "user_of w c = user_of v c"
proof -
  have c: "rel_option client_like (clients v c) (clients w c)" and p: "rel_option player_like (players v p) (players w p)" for c p
    using assms by (simp_all add: same_lobby_def)
  show "connections w = connections v" "preg_refs w = preg_refs v"
    using assms by (simp_all add: same_lobby_def connections_def preg_refs_def)
  show 1: "clients w c = None \<longleftrightarrow> clients v c = None" "players w p = None \<longleftrightarrow> players v p = None" for c p
    using c[of c] p[of p] by (auto simp: rel_option_None elim: option.rel_cases)
  show 2: "clients w c = Some y \<Longrightarrow> \<exists>x. clients v c = Some x \<and> client_like x y" for c y
    using c[of c] by (auto simp: option_rel_Some2)
  show 3: "players w p = Some b \<Longrightarrow> \<exists>a. players v p = Some a \<and> player_like a b" for p b
    using p[of p] by (auto simp: option_rel_Some2)
  show "holders w p = holders v p"
  proof -
    have "(\<exists>x. clients w d = Some x \<and> cl_logged_in x \<noteq> 0 \<and> cl_player x = p) \<longleftrightarrow>
        (\<exists>x. clients v d = Some x \<and> cl_logged_in x \<noteq> 0 \<and> cl_player x = p)" for d
      using c[of d] by (cases "clients v d"; cases "clients w d") (auto simp: client_like_def)
    then show ?thesis by (simp add: holders_def)
  qed
  have pm: "map_option pl_name (players w q) = map_option pl_name (players v q)" for q
    using p[of q] by (cases "players v q"; cases "players w q") (auto simp: player_like_def)
  show "fd_of w c = fd_of v c"
    using c[of c] unfolding fd_of_def by (cases "clients v c"; cases "clients w c") (auto simp: client_like_def)
  show "user_of w c = user_of v c"
    using c[of c] unfolding user_of_def by (cases "clients v c"; cases "clients w c") (auto simp: client_like_def pm)
qed

lemma lobby_ok_same:
  assumes ok: "lobby_ok v" and s: "same_lobby v w"
  shows "lobby_ok w"
proof -
  note f = same_lobby_facts[OF s]
  note d = lobby_okD[OF ok]
  have n: "next_ref v \<le> next_ref w" "cr_count (creg w) = cr_count (creg v)" using s by (simp_all add: same_lobby_def)
  have fds: "map (fd_of w) (connections w) = map (fd_of v) (connections v)" by (simp add: f)
  show ?thesis
  proof (rule lobby_okI)
    show "cr_count (creg w) \<le> MAX_CLIENTS" "0 < next_ref w" "distinct (map (fd_of w) (connections w))"
      using d(1-3) n fds by simp_all
    show "unique_users w" using d(10) unfolding unique_users_def f .
  next
    fix c assume "c \<in> set (connections w)"
    then obtain x where x: "c \<noteq> null" "clients v c = Some x" "0 < cl_count x" using d(4) unfolding f(1) by blast
    then obtain y where "clients w c = Some y" using f(4)[of c] by auto
    then show "c \<noteq> null \<and> (\<exists>x. clients w c = Some x \<and> 0 < cl_count x)"
      using f(6)[of c y] x by (auto simp: client_like_def)
  next
    fix c y assume c: "clients w c = Some y"
    then obtain x where x: "clients v c = Some x" "client_like x y" using f(6) by blast
    show "c < next_ref w" using d(5)[OF x(1)] n by simp
    show "cl_logged_in y \<noteq> 0 \<Longrightarrow> cl_player y \<noteq> null \<and> players w (cl_player y) \<noteq> None"
      using d(6)[OF x(1)] x(2) by (simp add: client_like_def f(5))
  next
    fix p assume "p \<in> set (preg_refs w)"
    then show "p \<noteq> null \<and> players w p \<noteq> None" using d(7)[of p] unfolding f(2,5) by blast
  next
    fix p b assume p: "players w p = Some b"
    then obtain a where a: "players v p = Some a" "player_like a b" using f(7) by blast
    show "p < next_ref w" using d(8)[OF a(1)] n by simp
    show "uses w p \<le> pl_count b" using d(9)[OF a(1)] a(2) by (simp add: uses_def f player_like_def)
  qed
qed

section \<open>Connections, users, logins\<close>

lemma holders_finite: "lobby_ok w \<Longrightarrow> finite (holders w p)"
  using finite_subset[of "holders w p" "{..<next_ref w}"] lobby_okD(5) by (force simp: holders_def)

lemma P_cr_frame:
  "P_cr_pin w = Ret (u, w') \<Longrightarrow> same_lobby w w'" "P_cr_mutex w = Ret (u, w') \<Longrightarrow> same_lobby w w'"
  "P_cr_cli w = Ret (u, w') \<Longrightarrow> same_lobby w w'" "V_cr_pin w = Ret (u, w') \<Longrightarrow> same_lobby w w'"
  "V_cr_mutex w = Ret (u, w') \<Longrightarrow> same_lobby w w'" "V_cr_cli w = Ret (u, w') \<Longrightarrow> same_lobby w w'"
  "P_pr_mutex w = Ret (u, w') \<Longrightarrow> same_lobby w w'" "V_pr_mutex w = Ret (u, w') \<Longrightarrow> same_lobby w w'"
  by (auto simp: semaphore_defs same_lobby_def split: if_splits)

lemma quiet_registry [quiet_intros]:
  "quiet P_cr_pin" "quiet P_cr_mutex" "quiet P_cr_cli" "quiet V_cr_pin" "quiet V_cr_mutex" "quiet V_cr_cli"
  "quiet P_pr_mutex" "quiet V_pr_mutex"
  unfolding quiet_def using P_cr_frame by blast+

lemma lobby_ok_quiet: "quiet m \<Longrightarrow> m w = Ret (r, w') \<Longrightarrow> lobby_ok w \<Longrightarrow> lobby_ok w'"
  by (rule lobby_ok_same[OF _ quietD])

lemma bindE:
  assumes "bind m f w = Ret (r, w')"
  obtains a v where "m w = Ret (a, v)" "f a v = Ret (r, w')"
  using assms by (auto simp: bind_def split: outcome.splits)

lemma afterE:
  assumes "after m n w = Ret (r, w')"
  obtains v where "m w = Ret ((), v)" "n v = Ret (r, w')"
  using assms by (auto simp: after_def elim: bindE)

subsection \<open>Connecting and leaving\<close>

lemma lobby_append:
  fixes v :: "'g world" and fd :: int
  defines "n \<equiv> next_ref v"
  assumes ok: "lobby_ok v" and room: "cr_count (creg v) < MAX_CLIENTS" and fd: "\<forall>c\<in>set (connections v). fd_of v c \<noteq> fd"
    and x: "cl_fd x = fd" "cl_logged_in x = 0" "0 < cl_count x"
    and w: "w = v\<lparr>next_ref := n + 1, clients := (clients v)(n \<mapsto> x),
      creg := (creg v)\<lparr>cr_connections := (cr_connections (creg v))(cr_count (creg v) := n), cr_count := cr_count (creg v) + 1\<rparr>\<rparr>"
  shows "lobby_ok w"
proof -
  note d = lobby_okD[OF ok]
  have c: "connections w = connections v @ [n]" by (simp add: w connections_def)
  have cl: "clients w c = (if c = n then Some x else clients v c)" for c by (simp add: w)
  have old: "c \<noteq> n" if "c \<in> set (connections v)" for c using d(4)[OF that] d(5)[of c] by (auto simp: n_def)
  have free: "clients v n = None" using d(5)[of n] by (cases "clients v n") (auto simp: n_def)
  have h: "holders w p = holders v p" for p using x(2) free by (auto simp: holders_def cl)
  have same: "players w = players v" "preg w = preg v" "next_ref w = n + 1" by (simp_all add: w)
  have u: "user_of w c = (if c = n then None else user_of v c)" for c
    using x(2) by (cases "clients v c") (simp_all add: user_of_def cl same)
  have f: "map (fd_of w) (connections w) = map (fd_of v) (connections v) @ [fd]"
    using old x(1) by (auto simp: c fd_of_def cl)
  show ?thesis
  proof (rule lobby_okI)
    show "cr_count (creg w) \<le> MAX_CLIENTS" "0 < next_ref w" using room by (simp_all add: w)
    show "distinct (map (fd_of w) (connections w))" using d(3) fd unfolding f by auto
    show "unique_users w" using d(10) unfolding unique_users_def c u by (auto split: if_splits)
  next
    fix c assume "c \<in> set (connections w)"
    then show "c \<noteq> null \<and> (\<exists>x. clients w c = Some x \<and> 0 < cl_count x)"
      using d(2) d(4)[of c] x(3) by (auto simp: c cl n_def)
  next
    fix c y assume "clients w c = Some y"
    then show "c < next_ref w" "cl_logged_in y \<noteq> 0 \<Longrightarrow> cl_player y \<noteq> null \<and> players w (cl_player y) \<noteq> None"
      using d(5,6)[of c] x(2) by (auto simp: same cl n_def split: if_splits)
  next
    fix p assume "p \<in> set (preg_refs w)"
    then show "p \<noteq> null \<and> players w p \<noteq> None" using d(7)[of p] by (simp add: preg_refs_def same)
  next
    fix p y assume "players w p = Some y"
    then show "p < next_ref w" "uses w p \<le> pl_count y"
      using d(8,9)[of p y] by (simp_all add: same n_def uses_def h preg_refs_def)
  qed
qed

lemma lobby_register:
  assumes ok: "lobby_ok w" and fd: "\<forall>c\<in>set (connections w). fd_of w c \<noteq> fd" and r: "creg_register E fd w = Ret (c, w')"
  shows "lobby_ok w'"
proof -
  obtain v1 v where v1: "P_cr_pin w = Ret ((), v1)" and v: "P_cr_mutex v1 = Ret ((), v)"
    and b: "(if cr_count (creg v) = MAX_CLIENTS then Ret (null, v)
       else bind (client_create E fd) (\<lambda>cli. if cli = null then give null
         else after (creg_append cli) (after V_cr_mutex (after V_cr_cli (give cli)))) v) = Ret (c, w')"
    by (rule afterE[OF r[unfolded creg_register_def]], erule afterE)
  have s: "same_lobby w v" using same_lobby_trans[OF P_cr_frame(1)[OF v1] P_cr_frame(2)[OF v]] .
  have okv: "lobby_ok v" using lobby_ok_same[OF ok s] .
  have fdv: "\<forall>c\<in>set (connections v). fd_of v c \<noteq> fd" using fd by (simp add: same_lobby_facts[OF s])
  show ?thesis
  proof (cases "cr_count (creg v) = MAX_CLIENTS")
    case True
    then show ?thesis using b okv by simp
  next
    case False
    obtain k u where k: "client_create E fd v = Ret (k, u)" and b: "(if k = null then give null
         else after (creg_append k) (after V_cr_mutex (after V_cr_cli (give k)))) u = Ret (c, w')"
      by (rule bindE[OF b[unfolded if_not_P[OF False]]])
    show ?thesis
    proof (cases "k = null")
      case True
      then have "same_lobby v u" using k lobby_okD(2)[OF okv]
        by (auto simp: client_create_def jx_defs same_lobby_def split: if_splits)
      then show ?thesis using b True lobby_ok_same[OF okv] by (simp add: give_def)
    next
      case k0: False
      define x where "x = \<lparr>cl_count = 1, cl_fd = fd, cl_logged_in = 0, cl_player = null,
                   cl_invs = slot_junk E k, cl_inv_count = 0, cl_mutex = 1\<rparr>"
      have u: "k = next_ref v" "u = v\<lparr>next_ref := next_ref v + 1, clients := (clients v)(k \<mapsto> x)\<rparr>"
        using k k0 by (auto simp: client_create_def jx_defs x_def split: if_splits)
      obtain u' where u': "creg_append k u = Ret ((), u')" and q: "after V_cr_mutex (after V_cr_cli (give k)) u' = Ret (c, w')"
        using b k0 by (auto elim: afterE)
      have "cr_count (creg v) < MAX_CLIENTS" using False lobby_okD(1)[OF okv] by simp
      then have "lobby_ok u'"
        by (rule lobby_append[OF okv _ fdv, where x = x]) (use u' in \<open>auto simp: x_def creg_append_def u Let_def split: if_splits\<close>)
      moreover have "quiet (after V_cr_mutex (after V_cr_cli (give k)))" by (intro quiet_intros)
      ultimately show ?thesis using lobby_ok_quiet[where m = "after V_cr_mutex (after V_cr_cli (give k))", OF _ q] by simp
    qed
  qed
qed

lemma client_unref_cases:
  assumes "client_unref c w = Ret (u, w')" "clients w c = Some x" "0 < cl_count x"
  shows "w' = w\<lparr>clients := (clients w)(c := if cl_count x = 1 then None else Some (x\<lparr>cl_count := cl_count x - 1\<rparr>))\<rparr>"
proof -
  have "c \<noteq> null" "0 < cl_mutex x"
    using assms by (auto simp: client_unref_def jx_defs split: if_splits)
  then show ?thesis using assms client_unref_eval[of w c x] by simp
qed

lemma lobby_removed:
  fixes v :: "'g world"
  assumes ok: "lobby_ok v" and c: "clients v c = Some x" "i < cr_count (creg v)" "cr_connections (creg v) i = c"
    and w: "w = v\<lparr>clients := (clients v)(c := k),
      creg := (creg v)\<lparr>cr_connections := (cr_connections (creg v))(i := cr_connections (creg v) (cr_count (creg v) - 1)),
        cr_count := cr_count (creg v) - 1\<rparr>\<rparr>"
    and k: "k = None \<or> (\<exists>y. k = Some y \<and> cl_logged_in y = cl_logged_in x \<and> cl_player y = cl_player x)"
  shows "lobby_ok w"
proof -
  let ?n = "cr_count (creg v)" and ?f = "cr_connections (creg v)"
  note d = lobby_okD[OF ok]
  have "connections w = map (?f(i := ?f (?n - 1))) [0 ..< ?n - 1]" by (simp add: w connections_def)
  then have m: "mset (connections v) = add_mset c (mset (connections w))"
    using remove_swap_mset[OF c(2), of ?f] c(3) by (simp add: connections_def del: mset_map mset_upt)
  have "mset (map (fd_of v) (connections v)) = mset (map (fd_of v) (c # connections w))"
    using arg_cong[OF m, of "image_mset (fd_of v)"] by simp
  then have dd: "distinct (map (fd_of v) (c # connections w))" using d(3) mset_eq_imp_distinct_iff by blast
  have sub: "e \<in> set (connections v)" "e \<noteq> c" if "e \<in> set (connections w)" for e
    using that dd arg_cong[OF m, of set_mset] by auto
  have cl: "clients w e = (if e = c then k else clients v e)" for e by (simp add: w)
  have same: "players w = players v" "preg w = preg v" "next_ref w = next_ref v" by (simp_all add: w)
  have h: "holders w p \<subseteq> holders v p" for p using k c(1) by (auto simp: holders_def cl split: if_splits)
  have u: "uses w p \<le> uses v p" for p
    using card_mono[OF holders_finite[OF ok] h, of p] by (simp add: uses_def preg_refs_def same)
  have us: "user_of w e = user_of v e" if "e \<noteq> c" for e
    using that by (cases "clients v e") (simp_all add: user_of_def cl same)
  have f: "map (fd_of w) (connections w) = map (fd_of v) (connections w)" using sub(2) by (auto simp: fd_of_def cl)
  show ?thesis
  proof (rule lobby_okI)
    show "cr_count (creg w) \<le> MAX_CLIENTS" "0 < next_ref w" using d(1,2) by (simp_all add: w)
    show "distinct (map (fd_of w) (connections w))" using dd unfolding f by simp
    show "unique_users w" using d(10) sub us unfolding unique_users_def by metis
  next
    fix e assume "e \<in> set (connections w)"
    then show "e \<noteq> null \<and> (\<exists>x. clients w e = Some x \<and> 0 < cl_count x)" using d(4)[of e] sub by (simp add: cl)
  next
    fix e y assume e: "clients w e = Some y"
    obtain z where z: "clients v e = Some z" "cl_logged_in y = cl_logged_in z" "cl_player y = cl_player z"
    proof (cases "e = c")
      case True
      then show ?thesis using k e c(1) that[of x] by (auto simp: cl)
    next
      case False
      then show ?thesis using e that[of y] by (simp add: cl)
    qed
    show "e < next_ref w" using d(5)[OF z(1)] by (simp add: same)
    show "cl_logged_in y \<noteq> 0 \<Longrightarrow> cl_player y \<noteq> null \<and> players w (cl_player y) \<noteq> None"
      using d(6)[OF z(1)] z(2,3) by (simp add: same)
  next
    fix p assume "p \<in> set (preg_refs w)"
    then show "p \<noteq> null \<and> players w p \<noteq> None" using d(7)[of p] by (simp add: preg_refs_def same)
  next
    fix p y assume p: "players w p = Some y"
    then show "p < next_ref w" using d(8)[of p y] by (simp add: same)
    show "uses w p \<le> pl_count y" using u[of p] d(9)[of p y] p by (simp add: same)
  qed
qed

lemma lobby_find_connection:
  assumes ok: "lobby_ok v" and c: "c \<in> set (connections v)"
  shows "\<exists>i<cr_count (creg v). creg_find_fd (fd_of v c) [0 ..< cr_count (creg v)] v = Ret (Some i, v) \<and> cr_connections (creg v) i = c"
proof -
  note d = lobby_okD[OF ok]
  have "distinct (map (\<lambda>i. fd_of v (cr_connections (creg v) i)) [0 ..< cr_count (creg v)])"
    using d(3) by (simp add: connections_def comp_def)
  from find_index_fd[where g = "fd_of v" and f = "cr_connections (creg v)", OF this, of c] c
  obtain i where i: "i < cr_count (creg v)" "cr_connections (creg v) i = c"
      "find (\<lambda>i. fd_of v (cr_connections (creg v) i) = fd_of v c) [0 ..< cr_count (creg v)] = Some i"
    by (auto simp: connections_def)
  have "\<forall>i\<in>set [0 ..< cr_count (creg v)]. cr_connections (creg v) i \<noteq> null \<and> clients v (cr_connections (creg v) i) \<noteq> None"
    using d(4) by (fastforce simp: connections_def)
  from creg_find_fd_spec[OF this, of "fd_of v c"] i show ?thesis by auto
qed

lemma lobby_unregister:
  assumes ok: "lobby_ok w" and c: "c \<in> set (connections w)" and r: "creg_unregister c w = Ret (r, w')"
  shows "lobby_ok w'"
proof -
  obtain v1 v fd v2 where v1: "P_cr_cli w = Ret ((), v1)" and v: "P_cr_mutex v1 = Ret ((), v)"
    and fd: "client_get_fd c v = Ret (fd, v2)"
    and b: "bind (\<lambda>w. creg_find_fd fd [0 ..< cr_count (creg w)] w) (\<lambda>r. case r of None \<Rightarrow> give (-1)
       | Some i \<Rightarrow> after (client_unref c) (after (creg_remove_at i) (after V_cr_mutex (after V_cr_pin (give 0))))) v2 = Ret (r, w')"
    by (rule afterE[OF r[unfolded creg_unregister_def]], erule afterE, erule bindE)
  have s: "same_lobby w v" using same_lobby_trans[OF P_cr_frame(3)[OF v1] P_cr_frame(2)[OF v]] .
  have okv: "lobby_ok v" and cv: "c \<in> set (connections v)" using lobby_ok_same[OF ok s] c by (simp_all add: same_lobby_facts[OF s])
  obtain x where x: "clients v c = Some x" "0 < cl_count x" "c \<noteq> null" using lobby_okD(4)[OF okv cv] by blast
  have f: "fd = fd_of v c" "v2 = v" using fd x by (auto simp: client_get_fd_def fd_of_def jx_defs)
  obtain i where i: "i < cr_count (creg v)" "cr_connections (creg v) i = c"
    "creg_find_fd fd [0 ..< cr_count (creg v)] v = Ret (Some i, v)"
    using lobby_find_connection[OF okv cv] unfolding f by blast
  have "after (client_unref c) (after (creg_remove_at i) (after V_cr_mutex (after V_cr_pin (give 0)))) v = Ret (r, w')"
    using b i(3) by (simp add: f(2) bind_def)
  then obtain u u' where u: "client_unref c v = Ret ((), u)" "creg_remove_at i u = Ret ((), u')"
    and q: "after V_cr_mutex (after V_cr_pin (give 0)) u' = Ret (r, w')"
    by (rule afterE) (erule afterE)
  have "lobby_ok u'"
    by (rule lobby_removed[OF okv x(1) i(1,2), where k = "if cl_count x = 1 then None else Some (x\<lparr>cl_count := cl_count x - 1\<rparr>)"])
      (use u client_unref_cases[OF u(1) x(1,2)] in \<open>auto simp: creg_remove_at_def Let_def\<close>)
  moreover have "quiet (after V_cr_mutex (after V_cr_pin (give 0)))" by (intro quiet_intros)
  ultimately show ?thesis using lobby_ok_quiet[where m = "after V_cr_mutex (after V_cr_pin (give 0))", OF _ q] by simp
qed

subsection \<open>Registering users\<close>

text \<open>A player gets one more place where it is kept, and its count covers that place.\<close>

lemma lobby_new_player:
  fixes v :: "'g world"
  defines "p \<equiv> next_ref v"
  assumes ok: "lobby_ok v" and y: "1 \<le> pl_count y"
    and w: "w = v\<lparr>next_ref := p + 1, players := (players v)(p \<mapsto> y),
      preg := (preg v)\<lparr>pr_players := (pr_players (preg v))(pr_count (preg v) := p), pr_count := pr_count (preg v) + 1\<rparr>\<rparr>"
  shows "lobby_ok w"
proof -
  note d = lobby_okD[OF ok]
  have fresh: "players v p = None" using d(8)[of p] by (cases "players v p") (auto simp: p_def)
  have pl: "players w q = (if q = p then Some y else players v q)" for q by (simp add: w)
  have same: "clients w = clients v" "creg w = creg v" "next_ref w = p + 1" by (simp_all add: w)
  have conns: "connections w = connections v" by (simp add: connections_def same)
  have refs: "preg_refs w = preg_refs v @ [p]" by (simp add: w preg_refs_def)
  have other: "q \<noteq> p" if "players v q \<noteq> None" for q using that fresh by auto
  have h: "holders w = holders v" by (simp add: holders_def same fun_eq_iff)
  have hp: "holders v p = {}" using d(6) fresh by (fastforce simp: holders_def)
  have us: "user_of w c = user_of v c" for c
    using d(6)[of c] fresh by (cases "clients v c") (force simp: user_of_def same pl)+
  show ?thesis
  proof (rule lobby_okI)
    show "cr_count (creg w) \<le> MAX_CLIENTS" "0 < next_ref w" "distinct (map (fd_of w) (connections w))"
      using d(1,3) by (simp_all add: same conns fd_of_def[abs_def])
    show "unique_users w" using d(10) unfolding unique_users_def us conns .
  next
    fix c assume "c \<in> set (connections w)"
    then show "c \<noteq> null \<and> (\<exists>x. clients w c = Some x \<and> 0 < cl_count x)" using d(4)[of c] by (simp add: conns same)
  next
    fix c x assume c: "clients w c = Some x"
    then show "c < next_ref w" using d(5)[of c x] by (simp add: same p_def)
    show "cl_logged_in x \<noteq> 0 \<Longrightarrow> cl_player x \<noteq> null \<and> players w (cl_player x) \<noteq> None"
      using d(6)[of c x] c by (simp add: same pl)
  next
    fix q assume "q \<in> set (preg_refs w)"
    then show "q \<noteq> null \<and> players w q \<noteq> None" using d(2) d(7)[of q] by (auto simp: refs pl p_def)
  next
    fix q z assume q: "players w q = Some z"
    show "q < next_ref w" using d(8)[of q] q by (fastforce simp: same pl p_def split: if_splits)
    show "uses w q \<le> pl_count z"
    proof (cases "q = p")
      case True
      then show ?thesis using q y hp by (simp add: uses_def h pl)
    next
      case False
      then show ?thesis using q d(9)[of q z] by (simp add: uses_def h pl refs)
    qed
  qed
qed

lemma lobby_preg_register:
  assumes ok: "lobby_ok w" and r: "preg_register E name w = Ret (p, w')"
  shows "lobby_ok w' \<and> p \<in> set (preg_refs w')"
proof -
  obtain v a v2 where v: "P_pr_mutex w = Ret ((), v)"
    and fnd: "preg_find name [0 ..< pr_count (preg v)] v = Ret (a, v2)"
    and b: "(case a of Some p \<Rightarrow> bind (player_ref p) (\<lambda>_. after V_pr_mutex (give p))
          | None \<Rightarrow> bind (player_create E name) (\<lambda>p. bind (player_ref p) (\<lambda>_.
                  after (preg_store p) (after V_pr_mutex (give p))))) v2 = Ret (p, w')"
    by (rule afterE[OF r[unfolded preg_register_def]], erule bindE)
  have okv: "lobby_ok v" using lobby_ok_same[OF ok P_cr_frame(7)[OF v]] .
  have live: "\<forall>i\<in>set [0 ..< pr_count (preg v)]. pr_players (preg v) i \<noteq> null \<and> players v (pr_players (preg v) i) \<noteq> None"
    using lobby_okD(7)[OF okv] by (fastforce simp: preg_refs_def)
  note f = preg_find_spec[OF live, of name] 
  have v2: "v2 = v" "a = find (\<lambda>p. name = pl_name (the (players v p))) (preg_refs v)"
    using fnd f by (auto simp: preg_refs_def)
  show ?thesis
  proof (cases a)
    case (Some q)
    then have q: "q \<in> set (preg_refs v)" using v2(2) by (auto simp: find_Some_iff)
    have b: "bind (player_ref q) (\<lambda>_. after V_pr_mutex (give q)) v = Ret (p, w')" using b by (simp add: Some v2(1))
    have "quiet (bind (player_ref q) (\<lambda>_. after V_pr_mutex (give q)))" by (intro quiet_intros)
    note s = quietD[OF this b]
    have "p = q" using b by (auto simp: bind_def after_def give_def split: outcome.splits)
    then show ?thesis using lobby_ok_same[OF okv s] q by (simp add: same_lobby_facts[OF s])
  next
    case None
    obtain k v3 q v4 v5 where k: "player_create E name v = Ret (k, v3)" "player_ref k v3 = Ret (q, v4)" "preg_store k v4 = Ret ((), v5)"
      and t: "after V_pr_mutex (give k) v5 = Ret (p, w')"
      by (rule bindE[OF b[unfolded None v2(1) option.case]], erule bindE, erule afterE)
    define x where "x = \<lparr>pl_count = 1, pl_rating = PLAYER_INITIAL_RATING, pl_name = name @ name_junk E k, pl_mutex = 1\<rparr>"
    have v3: "k = next_ref v" "k \<noteq> null" "v3 = v\<lparr>next_ref := next_ref v + 1, players := (players v)(k \<mapsto> x)\<rparr>"
      using k(1) by (auto simp: player_create_def jx_defs x_def split: if_splits)
    have "players v3 k = Some x" "0 < pl_mutex x" by (simp_all add: v3 x_def)
    from player_ref_eval[OF this(1) v3(2) this(2)] k(2)
    have v4: "v4 = v\<lparr>next_ref := next_ref v + 1, players := (players v)(k \<mapsto> x\<lparr>pl_count := 2\<rparr>)\<rparr>"
      by (auto simp: v3 x_def)
    have "lobby_ok v5"
      by (rule lobby_new_player[OF okv, where y = "x\<lparr>pl_count := 2\<rparr>"])
        (use k(3) in \<open>auto simp: x_def preg_store_def v4 v3(1) Let_def split: if_splits\<close>)
    moreover have "k \<in> set (preg_refs v5)"
      using k(3) by (auto simp: preg_store_def preg_refs_def Let_def split: if_splits)
    moreover have q: "quiet (after V_pr_mutex (give k))" by (intro quiet_intros)
    moreover have "p = k" using t by (auto simp: bind_def after_def give_def split: outcome.splits)
    ultimately show ?thesis using lobby_ok_same[OF _ quietD[OF q t]] same_lobby_facts(2)[OF quietD[OF q t]] by simp
  qed
qed

subsection \<open>Login and logout\<close>

lemma lobby_live: "lobby_ok w \<Longrightarrow> \<forall>c\<in>set (connections w). login_ok w c"
  unfolding login_ok_def using lobby_okD(4,6) by blast

text \<open>
  One client and one player changed: what the holders and the users must be for the invariant to hold.
\<close>

lemma lobby_changed:
  assumes ok: "lobby_ok v" and x: "clients v c = Some x" and w: "w = v\<lparr>clients := (clients v)(c \<mapsto> x'), players := (players v)(p := k)\<rparr>"
    and x': "cl_fd x' = cl_fd x" "cl_count x' = cl_count x"
    and p: "p < next_ref v" "p \<in> set (preg_refs v) \<Longrightarrow> k \<noteq> None"
    and live: "k = None \<Longrightarrow> holders w p = {}" "cl_logged_in x' \<noteq> 0 \<Longrightarrow> cl_player x' \<noteq> null \<and> players w (cl_player x') \<noteq> None"
    and cnt: "\<And>y. k = Some y \<Longrightarrow> uses w p \<le> pl_count y" and other: "\<And>q. q \<noteq> p \<Longrightarrow> holders w q \<subseteq> holders v q"
    and uu: "unique_users w"
  shows "lobby_ok w"
proof -
  note d = lobby_okD[OF ok]
  have cl: "clients w e = (if e = c then Some x' else clients v e)" and pl: "players w q = (if q = p then k else players v q)" for e q
    by (simp_all add: w)
  have same: "creg w = creg v" "next_ref w = next_ref v" "connections w = connections v" "preg_refs w = preg_refs v"
    by (simp_all add: w connections_def preg_refs_def)
  have fd: "fd_of w e = fd_of v e" for e using x x'(1) by (simp add: fd_of_def cl)
  show ?thesis
  proof (rule lobby_okI)
    show "cr_count (creg w) \<le> MAX_CLIENTS" "0 < next_ref w" "distinct (map (fd_of w) (connections w))"
      using d(1-3) by (simp_all add: same fd[abs_def])
    show "unique_users w" by (rule uu)
  next
    fix e assume "e \<in> set (connections w)"
    then show "e \<noteq> null \<and> (\<exists>x. clients w e = Some x \<and> 0 < cl_count x)"
      using d(4)[of e] x x'(2) by (auto simp: same cl)
  next
    fix e y assume e: "clients w e = Some y"
    then show "e < next_ref w" using d(5)[of e y] d(5)[OF x] by (simp add: same cl split: if_splits)
    assume l: "cl_logged_in y \<noteq> 0"
    show "cl_player y \<noteq> null \<and> players w (cl_player y) \<noteq> None"
    proof (cases "e = c")
      case True
      then show ?thesis using live(2) e l by (simp add: cl)
    next
      case False
      then have v: "clients v e = Some y" using e by (simp add: cl)
      have "k \<noteq> None" if "cl_player y = p" using live(1) e l that by (auto simp: holders_def)
      then show ?thesis using d(6)[OF v l] by (auto simp: pl)
    qed
  next
    fix q assume "q \<in> set (preg_refs w)"
    then show "q \<noteq> null \<and> players w q \<noteq> None" using d(7)[of q] p(2) by (auto simp: same pl)
  next
    fix q y assume q: "players w q = Some y"
    show "q < next_ref w" using d(8)[of q y] q p(1) by (simp add: same pl split: if_splits)
    show "uses w q \<le> pl_count y"
    proof (cases "q = p")
      case True
      then show ?thesis using cnt q by (simp add: pl)
    next
      case False
      have "card (holders w q) \<le> card (holders v q)" by (rule card_mono[OF holders_finite[OF ok] other[OF False]])
      then show ?thesis using d(9)[of q y] q False by (simp add: uses_def pl same)
    qed
  qed
qed

lemma lobby_login:
  assumes ok: "lobby_ok w" and c: "c \<in> set (connections w)" and p: "p \<in> set (preg_refs w)" and r: "client_login c p w = Ret (r, w')"
  shows "lobby_ok w'"
proof -
  note d = lobby_okD[OF ok]
  obtain x where x: "clients w c = Some x" "c \<noteq> null" using d(4)[OF c] by blast
  obtain y where y: "players w p = Some y" "p \<noteq> null" using d(7)[OF p] by blast
  note e = client_login_cases[OF lobby_live[OF ok] x y]
  show ?thesis
  proof (cases "cl_logged_in x = 1 \<or> (\<exists>d\<in>set (connections w). user_of w d = Some (pl_name y))")
    case True
    then show ?thesis using r e ok by simp
  next
    case False
    then have free: "user_of w d \<noteq> Some (pl_name y)" if "d \<in> set (connections w)" for d using that by blast
    have w': "w' = w\<lparr>clients := (clients w)(c \<mapsto> x\<lparr>cl_player := p, cl_logged_in := 1\<rparr>), players := (players w)(p := Some (y\<lparr>pl_count := pl_count y + 1\<rparr>))\<rparr>"
      using r unfolding e if_not_P[OF False] by (simp split: if_splits)
    have h: "holders w' q = (if q = p then insert c (holders w q) else holders w q - {c})" for q
      by (auto simp: holders_def w' split: if_splits)
    have us: "user_of w' d = (if d = c then Some (pl_name y) else user_of w d)" for d
      by (rule user_of_login[OF x(1) y w'])
    have same: "connections w' = connections w" "preg_refs w' = preg_refs w" by (simp_all add: w' connections_def preg_refs_def)
    show ?thesis
    proof (rule lobby_changed[OF ok x(1) w'])
      show "p < next_ref w" by (rule d(8)[OF y(1)])
      show "uses w' p \<le> pl_count z" if "Some (y\<lparr>pl_count := pl_count y + 1\<rparr>) = Some z" for z
      proof -
        have "card (holders w' p) \<le> Suc (card (holders w p))" by (simp add: h card_insert_if holders_finite[OF ok])
        then show ?thesis using d(9)[OF y(1)] that by (auto simp: uses_def same)
      qed
      show "unique_users w'"
        unfolding unique_users_def same us using free d(10) unfolding unique_users_def by (auto split: if_splits) metis
      show "holders w' q \<subseteq> holders w q" if "q \<noteq> p" for q unfolding h using that by auto
    qed (use y in \<open>simp_all add: w'\<close>)
  qed
qed

lemma player_unref_cases:
  assumes "player_unref p w = Ret (u, w')" "players w p = Some y" "0 < pl_count y"
  shows "w' = w\<lparr>players := (players w)(p := if pl_count y = 1 then None else Some (y\<lparr>pl_count := pl_count y - 1\<rparr>))\<rparr>"
proof -
  have "p \<noteq> null" "0 < pl_mutex y" using assms by (auto simp: player_unref_def jx_defs split: if_splits)
  then show ?thesis using assms player_unref_eval[of w p y] by simp
qed

lemma lobby_logged_out:
  assumes ok: "lobby_ok v" and x: "clients v c = Some x" "cl_logged_in x \<noteq> 0" and y: "players v (cl_player x) = Some y"
    and w: "w = v\<lparr>clients := (clients v)(c \<mapsto> x\<lparr>cl_player := null, cl_logged_in := 0\<rparr>),
      players := (players v)(cl_player x := if pl_count y = 1 then None else Some (y\<lparr>pl_count := pl_count y - 1\<rparr>))\<rparr>"
  shows "lobby_ok w"
proof -
  note d = lobby_okD[OF ok]
  let ?p = "cl_player x"
  have h: "holders w q = holders v q - {c}" for q by (auto simp: holders_def w)
  have c: "c \<in> holders v ?p" using x by (auto simp: holders_def)
  have refs: "preg_refs w = preg_refs v" and conns: "connections w = connections v" by (simp_all add: w connections_def preg_refs_def)
  have "0 < card (holders v ?p)" using c holders_finite[OF ok] by (auto simp: card_gt_0_iff)
  then have u: "uses w ?p = uses v ?p - 1" using c by (simp add: uses_def h refs)
  then have le: "uses w ?p \<le> pl_count y - 1" using d(9)[OF y] by simp
  have u0: "card (holders w ?p) = 0 \<and> ?p \<notin> set (preg_refs v)" if "pl_count y = 1"
    using le that by (auto simp: uses_def refs split: if_splits)
  have us: "user_of w e = None \<or> user_of w e = user_of v e" for e
    by (cases "e = c"; cases "clients v e") (auto simp: user_of_def w y split: if_splits)
  show ?thesis
  proof (rule lobby_changed[OF ok x(1) w])
    show "?p < next_ref v" by (rule d(8)[OF y])
    show "holders w ?p = {}" if "(if pl_count y = 1 then None else Some (y\<lparr>pl_count := pl_count y - 1\<rparr>)) = None"
      using u0 that holders_finite[OF ok] by (auto simp: h split: if_splits)
    show "unique_users w" using d(10) us unfolding unique_users_def conns by metis
  qed (use u0 le in \<open>auto simp: h split: if_splits\<close>)
qed

lemma lobby_logout:
  assumes ok: "lobby_ok w" and r: "client_logout E c w = Ret (r, w')"
  shows "lobby_ok w'"
proof -
  obtain x0 where x0: "clients w c = Some x0" "c \<noteq> null"
    using r by (auto simp: client_logout_def bind_def get_client_def split: if_splits option.splits)
  show ?thesis
  proof (cases "cl_logged_in x0 = 0")
    case True
    then show ?thesis using r x0 ok by (simp add: client_logout_def bind_def get_client_def give_def)
  next
    case False
    let ?rest = "after (V_client c) (bind (get_client c) (\<lambda>x. logout_loop E c [0 ..< cl_inv_count x]))"
    have "after (P_client c) (bind (get_client c) (\<lambda>x. after (player_unref (cl_player x))
         (bind (get_client c) (\<lambda>x. after (put_client c (x\<lparr>cl_player := null, cl_logged_in := 0\<rparr>)) ?rest)))) w = Ret (r, w')"
      using r x0 False by (simp add: client_logout_def bind_def[of "get_client c"] get_client_def)
    then obtain v where v: "P_client c w = Ret ((), v)" and b: "bind (get_client c) (\<lambda>x. after (player_unref (cl_player x))
         (bind (get_client c) (\<lambda>x. after (put_client c (x\<lparr>cl_player := null, cl_logged_in := 0\<rparr>)) ?rest))) v = Ret (r, w')"
      by (rule afterE)
    have s: "same_lobby w v" by (rule quietD[OF quiet_P(1) v])
    note okv = lobby_ok_same[OF ok s]
    have "clients v c \<noteq> None" using same_lobby_facts(4)[OF s, of c] x0 by simp
    then obtain x where x: "clients v c = Some x" by blast
    have l: "cl_logged_in x \<noteq> 0" using same_lobby_facts(6)[OF s x] x0 False by (auto simp: client_like_def)
    have g: "get_client c v = Ret (x, v)" using x x0 by (simp add: get_client_def)
    obtain y where y: "players v (cl_player x) = Some y" using lobby_okD(6)[OF okv x l] by blast
    have "c \<in> holders v (cl_player x)" using x l by (auto simp: holders_def)
    then have "0 < card (holders v (cl_player x))" using holders_finite[OF okv] by (auto simp: card_gt_0_iff)
    then have pos: "0 < pl_count y" using lobby_okD(9)[OF okv y] by (auto simp: uses_def split: if_splits)
    obtain u where u: "player_unref (cl_player x) v = Ret ((), u)" and b:
        "bind (get_client c) (\<lambda>x. after (put_client c (x\<lparr>cl_player := null, cl_logged_in := 0\<rparr>)) ?rest) u = Ret (r, w')"
      using b unfolding bind_def[of "get_client c"] g outcome.case prod.case by (rule afterE)
    note u' = player_unref_cases[OF u y pos]
    have "get_client c u = Ret (x, u)" using x x0 by (simp add: get_client_def u')
    then have q: "?rest (u\<lparr>clients := (clients u)(c \<mapsto> x\<lparr>cl_player := null, cl_logged_in := 0\<rparr>)\<rparr>) = Ret (r, w')"
      using b by (simp add: bind_def[of "get_client c"] after_def bind_def[of "put_client _ _"] put_client_def)
    have "lobby_ok (u\<lparr>clients := (clients u)(c \<mapsto> x\<lparr>cl_player := null, cl_logged_in := 0\<rparr>)\<rparr>)"
      by (rule lobby_logged_out[OF okv x l y]) (simp add: u')
    moreover have "quiet ?rest" by (intro quiet_intros)
    ultimately show ?thesis using lobby_ok_quiet[where m = ?rest, OF _ q] by simp
  qed
qed

section \<open>The server\<close>

text \<open>
  What the threads of the server do, one call at a time and with any result: a connection is registered
  under a descriptor that no connection has, a registered client is unregistered, a user is looked up or
  created, a client logs in as a registered player or logs out, and the calls around invitations and games.
\<close>

inductive lobby_step :: "('g, 'm) jeux_env \<Rightarrow> 'g world \<Rightarrow> 'g world \<Rightarrow> bool" for E where
  connects: "\<forall>c\<in>set (connections w). fd_of w c \<noteq> fd \<Longrightarrow> creg_register E fd w = Ret (c, w') \<Longrightarrow> lobby_step E w w'"
| leaves: "c \<in> set (connections w) \<Longrightarrow> creg_unregister c w = Ret (r, w') \<Longrightarrow> lobby_step E w w'"
| names: "preg_register E name w = Ret (p, w') \<Longrightarrow> lobby_step E w w'"
| logs_in: "c \<in> set (connections w) \<Longrightarrow> p \<in> set (preg_refs w) \<Longrightarrow> client_login c p w = Ret (r, w') \<Longrightarrow> lobby_step E w w'"
| logs_out: "client_logout E c w = Ret (r, w') \<Longrightarrow> lobby_step E w w'"
| invites: "client_make_invitation E s t r1 r2 w = Ret (r, w') \<Longrightarrow> lobby_step E w w'"
| revokes: "client_revoke_invitation E c i w = Ret (r, w') \<Longrightarrow> lobby_step E w w'"
| declines: "client_decline_invitation E c i w = Ret (r, w') \<Longrightarrow> lobby_step E w w'"
| accepts: "client_accept_invitation E c i b w = Ret (a, w') \<Longrightarrow> lobby_step E w w'"
| resigns: "client_resign_game E c i w = Ret (r, w') \<Longrightarrow> lobby_step E w w'"
| moves: "client_make_move E c i mv w = Ret (r, w') \<Longrightarrow> lobby_step E w w'"
| answers: "client_send_ack E c d n w = Ret (r, w') \<Longrightarrow> lobby_step E w w'"
| refuses: "client_send_nack E c w = Ret (r, w') \<Longrightarrow> lobby_step E w w'"

lemma lobby_step_ok:
  assumes "lobby_step E w w'" and ok: "lobby_ok w"
  shows "lobby_ok w'"
  using assms(1)
proof cases
  case connects
  then show ?thesis by (rule lobby_register[OF ok])
next
  case leaves
  then show ?thesis by (rule lobby_unregister[OF ok])
next
  case names
  then show ?thesis by (rule lobby_preg_register[OF ok, THEN conjunct1])
next
  case logs_in
  then show ?thesis by (rule lobby_login[OF ok])
next
  case logs_out
  then show ?thesis by (rule lobby_logout[OF ok])
next
  case invites
  then show ?thesis by (rule lobby_ok_quiet[OF quiet_calls(1) _ ok])
next
  case revokes
  then show ?thesis by (rule lobby_ok_quiet[OF quiet_calls(2) _ ok])
next
  case declines
  then show ?thesis by (rule lobby_ok_quiet[OF quiet_calls(3) _ ok])
next
  case accepts
  then show ?thesis by (rule lobby_ok_quiet[OF quiet_calls(4) _ ok])
next
  case resigns
  then show ?thesis by (rule lobby_ok_quiet[OF quiet_calls(5) _ ok])
next
  case moves
  then show ?thesis by (rule lobby_ok_quiet[OF quiet_calls(6) _ ok])
next
  case answers
  then show ?thesis by (rule lobby_ok_quiet[OF quiet_acks(2) _ ok])
next
  case refuses
  then show ?thesis by (rule lobby_ok_quiet[OF quiet_acks(3) _ ok])
qed

lemma lobby_steps_ok: "(lobby_step E)\<^sup>*\<^sup>* w w' \<Longrightarrow> lobby_ok w \<Longrightarrow> lobby_ok w'"
  by (induction rule: rtranclp_induct) (auto intro: lobby_step_ok)

text \<open>The server as it starts: nothing allocated, both registries just created.\<close>

definition fresh_server :: "'g world \<Rightarrow> bool" where
  "fresh_server w \<longleftrightarrow> 0 < next_ref w \<and> clients w = Map.empty \<and> players w = Map.empty \<and>
     (\<exists>j. creg w = creg_init j) \<and> (\<exists>j. preg w = preg_init j)"

lemma fresh_server_ok: "fresh_server w \<Longrightarrow> lobby_ok w"
  by (rule lobby_okI) (auto simp: fresh_server_def creg_init_def preg_init_def connections_def preg_refs_def unique_users_def MAX_CLIENTS_def)

text \<open>
  C4: Whatever sequence of connections, disconnections, user registrations, logins, logouts,
  invitations, moves and answers the server runs through, with any results and network, no two
  registered clients share a descriptor or a user name, at most 64 are registered, and looking
  a name up always returns: the one client logged in under it, or none.
\<close>

theorem users_never_shared:
  assumes "fresh_server w0" "(lobby_step E)\<^sup>*\<^sup>* w0 w"
  shows "unique_users w \<and> distinct (map (fd_of w) (connections w)) \<and> length (connections w) \<le> MAX_CLIENTS \<and>
    (\<exists>r. creg_lookup name w = Ret (r, w) \<and>
      (if r = null then \<forall>c\<in>set (connections w). user_of w c \<noteq> Some name
       else r \<in> set (connections w) \<and> (\<forall>c\<in>set (connections w). user_of w c = Some name \<longleftrightarrow> c = r)))"
proof -
  have ok: "lobby_ok w" by (rule lobby_steps_ok[OF assms(2) fresh_server_ok[OF assms(1)]])
  note d = lobby_okD[OF ok]
  let ?f = "find (\<lambda>c. user_of w c = Some name) (connections w)"
  define r where "r = (case ?f of None \<Rightarrow> null | Some c \<Rightarrow> c)"
  have l: "creg_lookup name w = Ret (r, w)" unfolding r_def by (rule creg_lookup_live[OF lobby_live[OF ok]])
  have "if r = null then \<forall>c\<in>set (connections w). user_of w c \<noteq> Some name
       else r \<in> set (connections w) \<and> (\<forall>c\<in>set (connections w). user_of w c = Some name \<longleftrightarrow> c = r)"
  proof (cases ?f)
    case None
    then have "r = null" by (simp add: r_def)
    moreover have "\<forall>c\<in>set (connections w). user_of w c \<noteq> Some name" using None by (auto simp: find_None_iff)
    ultimately show ?thesis by simp
  next
    case (Some c)
    then have c: "c \<in> set (connections w)" "user_of w c = Some name" by (auto simp: find_Some_iff)
    then have "r = c" "r \<noteq> null" using Some d(4)[OF c(1)] by (simp_all add: r_def)
    have "user_of w e = Some name \<longleftrightarrow> e = c" if e: "e \<in> set (connections w)" for e
    proof
      assume "user_of w e = Some name"
      then have "user_of w e \<noteq> None" "user_of w e = user_of w c" using c(2) by simp_all
      then show "e = c" using d(10) e c(1) unfolding unique_users_def by blast
    qed (simp add: c(2))
    then show ?thesis using c(1) \<open>r = c\<close> \<open>r \<noteq> null\<close> by simp
  qed
  moreover have "length (connections w) = cr_count (creg w)" by (simp add: connections_def)
  moreover from this have "length (connections w) \<le> MAX_CLIENTS" using d(1) by simp
  ultimately show ?thesis using l d(3,10) by blast
qed

text \<open>A player is freed only when nobody holds it.\<close>

text \<open>
  C15: In every state the server can reach, the player of each logged-in client and every
  registered player is still allocated, and its reference count is at least the number of
  clients logged in as it, plus one if it is registered.
\<close>

theorem players_outlive_holders:
  assumes "fresh_server w0" "(lobby_step E)\<^sup>*\<^sup>* w0 w"
  shows "(\<forall>c x. clients w c = Some x \<and> cl_logged_in x \<noteq> 0 \<longrightarrow> players w (cl_player x) \<noteq> None) \<and>
    (\<forall>p\<in>set (preg_refs w). players w p \<noteq> None) \<and>
    (\<forall>p y. players w p = Some y \<longrightarrow> int (card (holders w p)) + (if p \<in> set (preg_refs w) then 1 else 0) \<le> pl_count y)"
  using lobby_steps_ok[OF assms(2) fresh_server_ok[OF assms(1)]] unfolding lobby_ok_def by blast

end
