(* ===== verification/Jeux_Examples.thy ===== *)
theory Jeux_Examples imports Jeux_Main Jeux_Lobby begin

text \<open>
  A concrete server state (two users, two connections, one open invitation) on which the theorems of
  the hw5 theories are instantiated.
\<close>

section \<open>A concrete server\<close>

definition demo_jx :: "string \<Rightarrow> (unit, unit) jeux_env" where
  "demo_jx junk = \<lparr>malloc_ok = (\<lambda>r. True), name_junk = (\<lambda>r. junk), slot_junk = (\<lambda>r i. 0), clock = (\<lambda>n. (7, 9)),
     pad_junk = (\<lambda>n. (1, 2)), p1_junk = 0, game_create = Some (), game_ref = (\<lambda>g. g),
     game_apply_move = (\<lambda>g m. (0, g)), game_resign = (\<lambda>g r. (0, g)), game_unparse_state = (\<lambda>g. ''x''),
     game_is_over = (\<lambda>g. 0), game_get_winner = (\<lambda>g. NULL_ROLE), game_parse_move = (\<lambda>g r s. Some ())\<rparr>"

definition demo_player :: "string \<Rightarrow> player" where
  "demo_player n = \<lparr>pl_count = 1, pl_rating = 1500, pl_name = n, pl_mutex = 1\<rparr>"

definition demo_client :: "int \<Rightarrow> int \<Rightarrow> ref \<Rightarrow> client" where
  "demo_client fd l p = \<lparr>cl_count = 1, cl_fd = fd, cl_logged_in = l, cl_player = p, cl_invs = (\<lambda>i. 5),
     cl_inv_count = 1, cl_mutex = 1\<rparr>"

lemma demo_client_fields [simp]:
  "cl_mutex (demo_client fd l p) = 1" "cl_inv_count (demo_client fd l p) = 1" "cl_player (demo_client fd l p) = p"
  "cl_fd (demo_client fd l p) = fd" "cl_logged_in (demo_client fd l p) = l" "cl_count (demo_client fd l p) = 1"
  by (simp_all add: demo_client_def)

definition demo_net :: net where
  "demo_net = \<lparr>inbox = (\<lambda>fd. []), outbox = (\<lambda>fd. []), read_plan = [(3, False), (-1, True)], write_plan = [(0, True), (5, False)]\<rparr>"

definition demo_world :: "unit world" where
  "demo_world = \<lparr>players = [1 \<mapsto> demo_player ''ann'', 2 \<mapsto> demo_player ''bob''],
     invitations = [5 \<mapsto> open_invitation 3 4 FIRST_PLAYER_ROLE SECOND_PLAYER_ROLE],
     clients = [3 \<mapsto> demo_client 10 1 1, 4 \<mapsto> demo_client 11 0 0], games = (\<lambda>r. None),
     creg = \<lparr>cr_count = 2, cr_connections = (\<lambda>i. i + 3), cr_mutex = 1, cr_pin = 62, cr_cli = 2\<rparr>,
     preg = \<lparr>pr_count = 2, pr_players = (\<lambda>i. i + 1), pr_mutex = 1\<rparr>,
     next_ref = 6, network = demo_net, ticks = 0, shut = []\<rparr>"

lemma upt_2: "[0 ..< 2] = [0, Suc 0]"
  by (simp add: upt_rec)

lemma demo_lists: "connections demo_world = [3, 4]" "preg_refs demo_world = [1, 2]"
  by (simp_all add: connections_def preg_refs_def demo_world_def upt_2)

lemma demo_names: "preg_names demo_world = [''ann'', ''bob'']"
  by (simp add: preg_names_def demo_lists) (simp add: demo_world_def demo_player_def)

lemma demo_preg_ok: "preg_ok demo_world"
  by (simp add: preg_ok_def demo_names demo_lists) (simp add: demo_world_def demo_player_def)

lemma demo_creg_ok: "creg_ok demo_world"
  by (simp add: creg_ok_def demo_lists fd_of_def MAX_CLIENTS_def) (simp add: demo_world_def demo_client_def)

lemma demo_users: "user_of demo_world 3 = Some ''ann''" "user_of demo_world 4 = None"
  by (simp_all add: user_of_def demo_world_def demo_client_def demo_player_def)

lemma demo_logins_ok: "logins_ok demo_world"
  by (simp add: logins_ok_def demo_lists) (simp add: demo_world_def demo_client_def)

lemma demo_plans: "writes_progress (write_plan demo_net)" "reads_progress (read_plan demo_net)"
  by (simp_all add: demo_net_def writes_progress_def reads_progress_def)

section \<open>Witnesses\<close>

definition demo_header :: packet_header where
  "demo_header = \<lparr>ptype = packet_code JEUX_MOVE_PKT, pid = 1, prole = 0, pad3 = 9, psize = htons 2, pad67 = 3,
     timestamp_sec = 17, timestamp_nsec = 23\<rparr>"

lemma packet_roundtrip_witness:
  "\<exists>r'. proto_recv_packet 4 demo_header (\<lambda>i. 0)
      (demo_net\<lparr>inbox := (\<lambda>fd. outbox (snd (proto_send_packet 3 demo_header (Some [53, 54]) demo_net)) 3 @ [1, 2, 3])\<rparr>)
    = (0, demo_header, Some [53, 54, 0], r') \<and> inbox r' 4 = [1, 2, 3]"
proof -
  have ws: "well_sized demo_header (Some [53, 54])" by (simp add: well_sized_def demo_header_def)
  obtain res s' where s: "proto_send_packet 3 demo_header (Some [53, 54]) demo_net = (res, s')" by fastforce
  have "res = 0 \<and> (\<exists>r'. proto_recv_packet 4 demo_header (\<lambda>i. 0) (demo_net\<lparr>inbox := (\<lambda>fd. outbox s' 3 @ [1, 2, 3])\<rparr>) =
      (0, demo_header, map_option (\<lambda>d. d @ [0]) (Some [53, 54]), r') \<and> inbox r' 4 = [1, 2, 3])"
    by (rule packet_roundtrip[OF demo_plans(1) _ ws _ s]) (simp_all add: demo_plans, simp add: demo_net_def)
  then show ?thesis by (simp add: s)
qed

lemma preg_register_spec_witness:
  "\<exists>p w' x. preg_register (demo_jx []) ''eve'' demo_world = Ret (p, w') \<and> preg_ok w' \<and>
    preg_names w' = [''ann'', ''bob'', ''eve''] \<and> p \<in> set (preg_refs w') \<and> players w' p = Some x \<and> pl_name x = ''eve'' \<and> pl_count x = 2"
proof -
  have "pr_count (preg demo_world) < 250" "malloc_ok (demo_jx []) (next_ref demo_world)"
    "name_junk (demo_jx []) (next_ref demo_world) = []" "next_ref demo_world \<noteq> null" "length ''eve'' \<le> 250"
    by (simp_all add: demo_world_def demo_jx_def)
  from preg_register_spec[OF demo_preg_ok this(1,5,2,3,4)] show ?thesis by (simp add: demo_names)
qed

lemma preg_register_duplicates_witness:
  "\<exists>p q w1 w2. preg_register (demo_jx ''z'') ''eve'' demo_world = Ret (p, w1) \<and>
    preg_register (demo_jx ''z'') ''eve'' w1 = Ret (q, w2) \<and> p \<noteq> q"
  by (rule preg_register_duplicates[OF demo_preg_ok]) (simp_all add: demo_names, simp_all add: demo_world_def demo_jx_def)

lemma player_refcount_balanced_witness:
  "\<exists>w1 w2. repeat 3 (exec (player_ref 1)) demo_world = Ret w1 \<and> repeat 3 (exec (player_unref 1)) w1 = Ret w2 \<and>
    player_refs 1 w2 = Some 1 \<and> (\<exists>w3. repeat (3 + nat 1) (exec (player_unref 1)) w1 = Ret w3 \<and> player_refs 1 w3 = None)"
  by (rule player_refcount_balanced) (simp_all add: player_usable_def player_refs_def demo_world_def demo_player_def)

lemma post_result_win_witness:
  "\<exists>a b. player_post_result 1 2 1 demo_world = Ret ((), demo_world\<lparr>players := (players demo_world)
      (1 \<mapsto> (demo_player ''ann'')\<lparr>pl_rating := a\<rparr>, 2 \<mapsto> (demo_player ''bob'')\<lparr>pl_rating := b\<rparr>)\<rparr>) \<and>
    1500 \<le> a \<and> a \<le> 1531 \<and> 1468 \<le> b \<and> b < 1500 \<and> (a + b = 3000 \<or> a + b = 2999)"
  using post_result_win[of demo_world 1 "demo_player ''ann''" 2 "demo_player ''bob''"]
  by (simp add: demo_world_def demo_player_def)

lemma post_result_tie_loses_witness:
  "\<exists>a b. player_post_result 1 2 0 demo_world = Ret ((), demo_world\<lparr>players := (players demo_world)
      (1 \<mapsto> (demo_player ''ann'')\<lparr>pl_rating := a\<rparr>, 2 \<mapsto> (demo_player ''bob'')\<lparr>pl_rating := b\<rparr>)\<rparr>) \<and>
    a < 1500 \<and> b < 1500 \<and> (a + b = 2968 \<or> a + b = 2967)"
  using post_result_tie_loses[of demo_world 1 "demo_player ''ann''" 2 "demo_player ''bob''"]
  by (simp add: demo_world_def demo_player_def)

lemma inv_lifecycle_witness:
  "\<exists>w' x'. inv_run (demo_jx []) 5 [Accept, Close FIRST_PLAYER_ROLE] demo_world = Ret w' \<and> invitations w' 5 = Some x' \<and>
    inv_trans\<^sup>*\<^sup>* INV_OPEN_STATE (in_state x') \<and> inv_ok x'"
proof -
  obtain w' where w': "inv_run (demo_jx []) 5 [Accept, Close FIRST_PLAYER_ROLE] demo_world = Ret w'"
    by (simp add: exec_def inv_accept_def inv_close_def new_game_def resign_def jx_defs demo_world_def demo_jx_def open_invitation_def)
  let ?x = "open_invitation 3 4 FIRST_PLAYER_ROLE SECOND_PLAYER_ROLE"
  have "\<exists>x'. invitations w' 5 = Some x' \<and> inv_trans\<^sup>*\<^sup>* (in_state ?x) (in_state x') \<and> in_state ?x \<le> in_state x' \<and> same_parties ?x x' \<and> inv_ok x' \<and>
      (in_game x' \<noteq> null \<longleftrightarrow> in_game ?x \<noteq> null \<or> in_state ?x = INV_OPEN_STATE \<and> take 1 [Accept, Close FIRST_PLAYER_ROLE] = [Accept])"
    by (rule inv_lifecycle[OF _ _ _ _ w']) (simp_all add: demo_world_def demo_jx_def inv_ok_def open_invitation_def)
  then show ?thesis using w' by (auto simp: open_invitation_def)
qed

lemma creg_register_spec_witness:
  "\<exists>w'. creg_register (demo_jx []) 12 demo_world = Ret (next_ref demo_world, w') \<and> creg_ok w' \<and>
    connections w' = [3, 4] @ [next_ref demo_world] \<and> fd_of w' (next_ref demo_world) = 12"
proof -
  have a: "cr_count (creg demo_world) < MAX_CLIENTS" "malloc_ok (demo_jx []) (next_ref demo_world)" "next_ref demo_world \<noteq> null"
    by (simp_all add: demo_world_def demo_jx_def MAX_CLIENTS_def)
  have "\<forall>c\<in>set (connections demo_world). fd_of demo_world c \<noteq> 12"
    by (simp add: demo_lists fd_of_def) (simp add: demo_world_def demo_client_def)
  from creg_register_spec[OF demo_creg_ok a this] show ?thesis by (auto simp: demo_lists)
qed

lemma creg_unregister_spec_witness:
  "\<exists>w'. creg_unregister 3 demo_world = Ret (0, w') \<and> creg_ok w' \<and>
    mset (connections demo_world) = add_mset 3 (mset (connections w')) \<and> clients w' 3 = None"
  using creg_unregister_spec[OF demo_creg_ok, of 3 "demo_client 10 1 1"]
  by (auto simp: demo_lists) (auto simp: demo_world_def demo_client_def)

lemma creg_never_jams_witness:
  "\<exists>w c w1 w2 k. (creg_step (demo_jx []))\<^sup>*\<^sup>* (demo_world\<lparr>creg := creg_init (\<lambda>i. 0)\<rparr>) w \<and> c \<in> set (connections w) \<and>
     creg_unregister c w = Ret (0, w1) \<and> creg_register (demo_jx []) 12 w1 = Ret (k, w2) \<and> k \<in> set (connections w2)"
proof -
  let ?w0 = "demo_world\<lparr>creg := creg_init (\<lambda>i. 0)\<rparr>"
  have c0: "connections ?w0 = []" "cr_count (creg ?w0) < MAX_CLIENTS" "next_ref ?w0 \<noteq> null" "malloc_ok (demo_jx []) r" "0 < next_ref ?w0" for r
    by (simp_all add: connections_def creg_init_def MAX_CLIENTS_def demo_world_def demo_jx_def)
  obtain w where w: "creg_register (demo_jx []) 10 ?w0 = Ret (next_ref ?w0, w)" "creg_ok w"
    "connections w = [next_ref ?w0]" "fd_of w (next_ref ?w0) = 10"
    using creg_register_correct[OF creg_init_ok[of ?w0 "\<lambda>i. 0"], of "demo_jx []" 10] c0 by auto
  have step: "(creg_step (demo_jx []))\<^sup>*\<^sup>* ?w0 w"
    by (rule r_into_rtranclp, rule creg_step.connects[OF _ w(1)]) (simp add: c0(1))
  have "creg ?w0 = creg_init (\<lambda>i. 0)" "\<forall>r. malloc_ok (demo_jx []) r" "next_ref ?w0 \<in> set (connections w)"
    "\<forall>d\<in>set (connections w). fd_of w d \<noteq> 12" using w(3,4) c0(4) by simp_all
  note jams = creg_never_jams[OF step this(1) c0(5) this(2-4)]
  then show ?thesis using step w(3) by fastforce
qed

lemma sighup_exits_iff_all_left_witness:
  "sighup_handler (give ()) 1 demo_world = Stuck Diverges \<and> sighup_handler (all_leave [3, 4]) 1 demo_world = Stuck (Exit_called 0)"
  using sighup_exits_iff_all_left[OF demo_creg_ok demo_preg_ok, of 1 3] by (simp add: demo_lists)

lemma creg_unregister_unknown_locks_witness:
  "\<exists>w'. creg_unregister 8 (demo_world\<lparr>clients := (clients demo_world)(8 \<mapsto> demo_client 12 0 0)\<rparr>) = Ret (-1, w') \<and>
   creg_register (demo_jx []) 13 w' = Stuck Blocked \<and> creg_unregister 3 w' = Stuck Blocked"
proof -
  let ?w = "demo_world\<lparr>clients := (clients demo_world)(8 \<mapsto> demo_client 12 0 0)\<rparr>"
  have "creg_ok ?w"
    by (simp add: creg_ok_def connections_def fd_of_def MAX_CLIENTS_def demo_world_def demo_client_def upt_2)
  then show ?thesis
    by (rule creg_unregister_unknown_locks[where x = "demo_client 12 0 0"]) (simp_all add: connections_def fd_of_def demo_world_def demo_client_def upt_2)
qed

lemma login_keeps_users_unique_witness:
  "\<exists>r w'. client_login 4 2 demo_world = Ret (r, w') \<and> unique_users w' \<and> r = 0 \<and> user_of w' 4 = Some ''bob'' \<and>
    user_of w' 3 = Some ''ann''"
proof -
  have "unique_users demo_world" by (simp add: unique_users_def demo_lists demo_users)
  moreover have "clients demo_world 4 = Some (demo_client 11 0 0)" "players demo_world 2 = Some (demo_player ''bob'')"
    by (simp_all add: demo_world_def)
  moreover have "0 < cl_mutex (demo_client 11 0 0)" "0 < pl_mutex (demo_player ''bob'')" "cl_logged_in (demo_client 11 0 0) \<noteq> 1"
      "pl_name (demo_player ''bob'') = ''bob''"
    by (simp_all add: demo_client_def demo_player_def)
  ultimately obtain r w' where l: "client_login 4 2 demo_world = Ret (r, w')" "unique_users w'" "r = 0"
      "if r = 0 then user_of w' 4 = Some ''bob'' \<and> (\<forall>d. d \<noteq> 4 \<longrightarrow> user_of w' d = user_of demo_world d) \<and>
        player_refs 2 w' = Some (pl_count (demo_player ''bob'') + 1) else w' = demo_world"
    using login_keeps_users_unique[OF demo_creg_ok demo_logins_ok, of 4 "demo_client 11 0 0" 2 "demo_player ''bob''"]
    by (auto simp: demo_lists demo_users)
  then have "user_of w' 4 = Some ''bob''" "user_of w' 3 = Some ''ann''" by (simp_all add: demo_users)
  with l(1-3) show ?thesis by blast
qed

lemma make_invitation_spec_witness:
  "\<exists>w'. client_make_invitation (demo_jx []) 3 4 SECOND_PLAYER_ROLE FIRST_PLAYER_ROLE demo_world = Ret (1, w') \<and>
    invitations w' 6 = Some (open_invitation 3 4 SECOND_PLAYER_ROLE FIRST_PLAYER_ROLE) \<and>
    length (outbox (network w') 11) = 19"
proof -
  let ?x = "demo_client 10 1 1" and ?y = "demo_client 11 0 0"
  have w: "clients demo_world 3 = Some ?x" "clients demo_world 4 = Some ?y" "players demo_world (cl_player ?x) = Some (demo_player ''ann'')"
    "next_ref demo_world = 6" "network demo_world = demo_net" "outbox demo_net 11 = []" "malloc_ok (demo_jx []) (next_ref demo_world)"
    by (simp_all add: demo_world_def demo_client_def demo_net_def demo_jx_def)
  have c: "pl_name (demo_player ''ann'') = ''ann''" by (simp add: demo_player_def)
  have n: "writes_progress (write_plan (network demo_world))" by (simp add: w demo_plans)
  show ?thesis
    using make_invitation_spec[OF w(1) _ _ _ w(2) _ _ _ _ w(3) _ _ w(7) _ n, of SECOND_PLAYER_ROLE FIRST_PLAYER_ROLE]
    by (auto simp: c w delivered_def wire_def bytes_of_def)
qed

lemma demo_holds:
  "holds_open demo_world 3 (demo_client 10 1 1) 5 0" "holds_open demo_world 4 (demo_client 11 0 0) 5 0"
  by (simp_all add: holds_open_def slots_ok_def game_of_def demo_world_def demo_client_def open_invitation_def)

lemma demo_inv: "invitations demo_world 5 = Some (open_invitation 3 4 FIRST_PLAYER_ROLE SECOND_PLAYER_ROLE)"
  by (simp add: demo_world_def)

lemma demo_progress: "writes_progress (write_plan (network demo_world))"
  by (simp add: demo_world_def demo_plans)


lemma demo_slots: "clients demo_world 3 = Some (demo_client 10 1 1)" "clients demo_world 4 = Some (demo_client 11 0 0)"
  "slots_ok demo_world (demo_client 10 1 1)" "slots_ok demo_world (demo_client 11 0 0)"
  "cl_invs (demo_client 10 1 1) 0 = 5" "cl_invs (demo_client 11 0 0) 0 = 5" "0 < cl_inv_count (demo_client 10 1 1)" "0 < cl_inv_count (demo_client 11 0 0)"
  "0 < cl_mutex (demo_client 10 1 1)" "0 < cl_mutex (demo_client 11 0 0)"
  using demo_holds by (simp_all add: holds_open_def)


lemma accept_spec_witness:
  "(\<exists>w'. client_accept_invitation (demo_jx []) 4 0 True demo_world = Ret ((0, Some empty_board), w') \<and> inv_refs 5 w' = Some 2) \<and>
   client_accept_invitation (demo_jx []) 4 0 False demo_world = Stuck Null_deref"
proof -
  have g: "game_create (demo_jx []) = Some ()" "next_ref demo_world \<noteq> null" by (simp_all add: demo_jx_def demo_world_def)
  show ?thesis
    using accept_spec[OF demo_slots(2) _ demo_slots(4,8,6) demo_slots(1) _ demo_slots(9,3,7,5) _ demo_inv _ _ _ _ _ g demo_progress]
    by (auto simp: open_invitation_def inv_refs_def)
qed

section \<open>A server with one user\<close>

definition lobby_world :: "unit world" where
  "lobby_world = \<lparr>players = Map.empty, invitations = Map.empty, clients = Map.empty, games = Map.empty,
     creg = creg_init (\<lambda>i. 0), preg = preg_init (\<lambda>i. 0), next_ref = 1, network = demo_net, ticks = 0, shut = []\<rparr>"

lemma lobby_world_fresh: "fresh_server lobby_world"
  by (auto simp: fresh_server_def lobby_world_def)

lemma lobby_run:
  "\<exists>w. (lobby_step (demo_jx []))\<^sup>*\<^sup>* lobby_world w \<and> connections w = [1] \<and> user_of w 1 = Some ''ann'' \<and>
     clients w 1 \<noteq> None \<and> cl_player (the (clients w 1)) = 2 \<and> cl_logged_in (the (clients w 1)) = 1 \<and> preg_refs w = [2]"
proof -
  obtain w1 where w1: "creg_register (demo_jx []) 10 lobby_world = Ret (1, w1)" "connections lobby_world = []"
      "w1 = lobby_world\<lparr>clients := [1 \<mapsto> \<lparr>cl_count = 1, cl_fd = 10, cl_logged_in = 0, cl_player = 0, cl_invs = \<lambda>i. 0, cl_inv_count = 0, cl_mutex = 1\<rparr>],
        next_ref := 2, creg := \<lparr>cr_count = 1, cr_connections = (\<lambda>i. 0)(0 := 1), cr_mutex = 1, cr_pin = 63, cr_cli = 1\<rparr>\<rparr>"
    by (simp add: creg_register_def client_create_def creg_append_def jx_defs lobby_world_def creg_init_def demo_jx_def
        MAX_CLIENTS_def connections_def)
  obtain w2 where w2: "preg_register (demo_jx []) ''ann'' w1 = Ret (2, w2)"
      "w2 = w1\<lparr>players := [2 \<mapsto> \<lparr>pl_count = 2, pl_rating = 1500, pl_name = ''ann'', pl_mutex = 1\<rparr>], next_ref := 3,
        preg := \<lparr>pr_count = 1, pr_players = (\<lambda>i. 0)(0 := 2), pr_mutex = 1\<rparr>\<rparr>"
    by (simp add: w1(3) lobby_world_def preg_register_def player_create_def player_ref_def preg_store_def jx_defs Let_def
        demo_jx_def preg_init_def PLAYER_INITIAL_RATING_def)
  define w3 where "w3 = w2\<lparr>clients := [1 \<mapsto> \<lparr>cl_count = 1, cl_fd = 10, cl_logged_in = 1, cl_player = 2, cl_invs = \<lambda>i. 0, cl_inv_count = 0, cl_mutex = 1\<rparr>],
        players := [2 \<mapsto> \<lparr>pl_count = 3, pl_rating = 1500, pl_name = ''ann'', pl_mutex = 1\<rparr>]\<rparr>"
  have c2: "connections w2 = [1]" "preg_refs w2 = [2]" by (simp_all add: w2(2) w1(3) connections_def preg_refs_def)
  have cl: "clients w2 1 = Some \<lparr>cl_count = 1, cl_fd = 10, cl_logged_in = 0, cl_player = 0, cl_invs = \<lambda>i. 0, cl_inv_count = 0, cl_mutex = 1\<rparr>"
    and pl: "players w2 2 = Some \<lparr>pl_count = 2, pl_rating = 1500, pl_name = ''ann'', pl_mutex = 1\<rparr>"
    by (simp_all add: w2(2) w1(3))
  have u: "user_of w2 1 = None" and live: "\<forall>c\<in>set (connections w2). login_ok w2 c"
    using cl by (simp_all add: user_of_def login_ok_def c2)
  have "client_login 1 2 w2 = Ret (0, w2\<lparr>clients := (clients w2)(1 \<mapsto> \<lparr>cl_count = 1, cl_fd = 10, cl_logged_in = 1, cl_player = 2, cl_invs = \<lambda>i. 0, cl_inv_count = 0, cl_mutex = 1\<rparr>),
        players := (players w2)(2 \<mapsto> \<lparr>pl_count = 3, pl_rating = 1500, pl_name = ''ann'', pl_mutex = 1\<rparr>)\<rparr>)"
    using client_login_cases[OF live cl _ pl] u by (simp add: c2)
  then have w3: "client_login 1 2 w2 = Ret (0, w3)" by (simp add: w3_def w2(2) w1(3))
  have s1: "lobby_step (demo_jx []) lobby_world w1"
    by (rule lobby_step.connects[OF _ w1(1)]) (simp only: w1(2) list.set ball_empty)
  have s2: "lobby_step (demo_jx []) w1 w2" using w2(1) by (rule lobby_step.names)
  have s3: "lobby_step (demo_jx []) w2 w3"
    by (rule lobby_step.logs_in[OF _ _ w3]) (simp_all only: c2 list.set insertI1)
  have "(lobby_step (demo_jx []))\<^sup>*\<^sup>* lobby_world w3"
    by (rule rtranclp.rtrancl_into_rtrancl[OF rtranclp.rtrancl_into_rtrancl[OF r_into_rtranclp[of "lobby_step (demo_jx [])", OF s1] s2] s3])
  moreover have "connections w3 = [1]" "preg_refs w3 = [2]" using c2 by (simp_all add: w3_def connections_def preg_refs_def)
  moreover have "user_of w3 1 = Some ''ann''" "clients w3 1 \<noteq> None" "cl_player (the (clients w3 1)) = 2" "cl_logged_in (the (clients w3 1)) = 1"
    by (simp_all add: w3_def user_of_def)
  ultimately show ?thesis by blast
qed

lemma users_never_shared_witness:
  "\<exists>w. (lobby_step (demo_jx []))\<^sup>*\<^sup>* lobby_world w \<and> connections w = [1] \<and> creg_lookup ''ann'' w = Ret (1, w)"
proof -
  obtain w where w: "(lobby_step (demo_jx []))\<^sup>*\<^sup>* lobby_world w" "connections w = [1]" "user_of w 1 = Some ''ann''"
    using lobby_run by blast
  from users_never_shared[OF lobby_world_fresh w(1), of "''ann''"] obtain r where "creg_lookup ''ann'' w = Ret (r, w)"
    "r = 1" using w(2,3) by (auto split: if_splits)
  then show ?thesis using w by blast
qed

lemma players_outlive_holders_witness:
  "\<exists>w y. (lobby_step (demo_jx []))\<^sup>*\<^sup>* lobby_world w \<and> players w 2 = Some y \<and> int (card (holders w 2)) + 1 \<le> pl_count y"
proof -
  obtain w where w: "(lobby_step (demo_jx []))\<^sup>*\<^sup>* lobby_world w" "preg_refs w = [2]" using lobby_run by blast
  note p = players_outlive_holders[OF lobby_world_fresh w(1)]
  then obtain y where "players w 2 = Some y" using w(2) by auto
  moreover from this p have "int (card (holders w 2)) + (if 2 \<in> set (preg_refs w) then 1 else 0) \<le> pl_count y" by blast
  ultimately show ?thesis using w by auto
qed

end
