(* ===== verification/Csapp_Examples.thy ===== *)
theory Csapp_Examples imports Jeux_Server Jeux_Examples begin

text \<open>
  A concrete reader, network and operating system on which the theorems about \<open>csapp.c\<close> and the server's
  main loop are instantiated.
\<close>

section \<open>A reader whose calls are interrupted and cut short\<close>

definition demo_rio :: rio_t where
  "demo_rio = \<lparr>rio_fd = 9, rio_cnt = 0, rio_bufptr = 0, rio_buf = replicate RIO_BUFSIZE 0\<rparr>"

definition three_lines :: "u8 list list" where
  "three_lines = [[104, 105], [], [33]]"

definition cut_net :: "u8 list \<Rightarrow> net" where
  "cut_net bs = \<lparr>inbox = (\<lambda>_. []) (0 := bs), outbox = (\<lambda>_. []),
     read_plan = [(1, False), (-1, True), (2, False)], write_plan = [(0, True), (3, False)]\<rparr>"

lemma demo_rio_ok: "length (rio_buf demo_rio) = RIO_BUFSIZE" "rio_ok (rio_readinitb fd demo_rio)"
  by (simp_all add: demo_rio_def rio_readinitb_ok)

lemma cut_net_progress: "reads_progress (read_plan (cut_net bs))" "writes_progress (write_plan (cut_net bs))"
  by (simp_all add: cut_net_def reads_progress_def writes_progress_def)

lemma demo_stream: "rio_stream (rio_readinitb 0 demo_rio, cut_net bs) = bs" "inbox (cut_net bs) 0 = bs"
  by (simp_all add: rio_readinitb_stream cut_net_def)

theorem rio_reader_typed_witness:
  "rio_ok (rio_readinitb 0 demo_rio) \<and>
   (case rio_readnb 2 (rio_readinitb 0 demo_rio) (cut_net [1, 2, 3]) of (r, got, rp', s') \<Rightarrow> rio_ok rp' \<and> length got \<le> 2 \<and> r \<le> 2) \<and>
   (case rio_readlineb 80 (rio_readinitb 0 demo_rio) (cut_net [1, 2, 3]) of (r, got, rp', s') \<Rightarrow> rio_ok rp' \<and> r \<le> 80 \<and> length got \<le> 80)"
  using rio_reader_typed[OF demo_rio_ok(1) demo_rio_ok(2)[of 0], of 0 2 "cut_net [1, 2, 3]" 80] by simp

theorem rio_readnb_refines_witness:
  "\<exists>rp' s' t'. rio_readnb 2 (rio_readinitb 0 demo_rio) (cut_net [7, 8, 9]) = (2, [7, 8], rp', s') \<and>
     rio_readn 0 2 (cut_net [7, 8, 9]) = (2, [7, 8], t') \<and> rio_stream (rp', s') = [9]"
  using rio_readnb_refines[OF demo_rio_ok(2)[of 0] cut_net_progress(1)[of "[7, 8, 9]"] cut_net_progress(1)[of "[7, 8, 9]"],
      of 0 2] unfolding demo_stream by (simp add: eval_nat_numeral) blast

theorem lines_roundtrip_witness:
  "\<exists>rp' t' rp'' t''. read_lines 3 8 (rio_readinitb 0 demo_rio) (cut_net [104, 105, 10, 10, 33, 10]) =
      ([(3, [104, 105, 10, 0]), (1, [10, 0]), (2, [33, 10, 0])], rp', t') \<and> rio_readlineb 8 rp' t' = (0, [], rp'', t'')"
proof -
  have ls: "list_all (\<lambda>l. 10 \<notin> set l \<and> length l + 2 \<le> 8) three_lines" by (simp add: three_lines_def)
  have text_eq: "concat (map with_newline three_lines) = [104, 105, 10, 10, 33, 10]"
    by (simp add: three_lines_def with_newline_def)
  obtain res s' where wr: "rio_writen 5 (concat (map with_newline three_lines)) (length (concat (map with_newline three_lines)))
      (cut_net []) = (res, s')" by fastforce
  obtain plan where "rio_writen 5 [104, 105, 10, 10, 33, 10] 6 (cut_net []) =
      (6, (cut_net [])\<lparr>outbox := (outbox (cut_net []))(5 := outbox (cut_net []) 5 @ [104, 105, 10, 10, 33, 10]), write_plan := plan\<rparr>)"
    using rio_writen_full[OF cut_net_progress(2)[of "[]"], of "[104, 105, 10, 10, 33, 10]" 6 5] by auto
  then have out: "inbox (cut_net [104, 105, 10, 10, 33, 10]) 0 = outbox s' 5"
    using wr unfolding text_eq by (auto simp: cut_net_def eval_nat_numeral)
  have "outbox (cut_net []) 5 = []" by (simp add: cut_net_def)
  from lines_roundtrip[OF ls _ cut_net_progress(2) this wr cut_net_progress(1) out demo_rio_ok(1)]
  show ?thesis by (simp add: three_lines_def eval_nat_numeral)
qed

section \<open>An operating system that runs out of descriptors\<close>

definition demo_kernel :: "(syscall \<times> int) list \<Rightarrow> syscall \<Rightarrow> int \<times> int" where
  "demo_kernel t c = (case c of
       Sock (Sys_socket a b d) \<Rightarrow> (3, 0)
     | Sock (Sys_accept a b d) \<Rightarrow> (if length t < 8 then (4, 0) else (-1, 24))
     | Memory (Sys_malloc n) \<Rightarrow> (4096, 0)
     | _ \<Rightarrow> (0, 0))"

definition small_os :: process where
  "small_os = \<lparr>kernel = demo_kernel, strerror = (\<lambda>e. ''Too many open files''), host_addr = (\<lambda>_. 2130706433), trace = [],
     errno = 0, h_errno = 0, stderr = [], sig_actions = (\<lambda>_. \<lparr>sa_handler = ''SIG_DFL'', sa_mask = {}, sa_flags = 0\<rparr>)\<rparr>"

definition demo_frame :: main_frame where
  "demo_frame = \<lparr>at_clientaddr = 1000, at_clientlen = 1016, at_tid = 1024\<rparr>"

definition demo_listening :: process where
  "demo_listening = snd (open_listenfd 70000 small_os)"

lemma small_open: "open_listenfd 70000 small_os = (3, demo_listening)"
  by (simp add: demo_listening_def open_listenfd_def sys_call_def small_os_def demo_kernel_def inet_constants)

lemma demo_listening_eq: "demo_listening = small_os\<lparr>trace := trace demo_listening\<rparr>" "length (trace demo_listening) = 4"
  "open_fds (trace demo_listening) = [3]"
  by (simp_all add: demo_listening_def open_listenfd_def sys_call_def small_os_def demo_kernel_def inet_constants open_fds_def)

theorem open_listenfd_spec_witness:
  "\<exists>a b c. trace demo_listening = [(Sock (Sys_socket 2 1 0), 3), (Sock (Sys_setsockopt 3 1 2 1 4), a),
     (Sock (Sys_bind 3 \<lparr>sin_family = 2, sin_port = htons 4464, sin_addr = 0\<rparr> 16), b), (Sock (Sys_listen 3 1024), c)]"
proof -
  have "trace small_os = []" by (simp add: small_os_def)
  moreover have "htons 70000 = htons 4464" by (rule arg_cong[of _ _ htons]) simp
  ultimately show ?thesis using open_listenfd_spec[OF small_open] by auto
qed

theorem server_port_wraps_witness:
  "\<exists>a b c. trace demo_listening = [(Sock (Sys_socket 2 1 0), 3), (Sock (Sys_setsockopt 3 1 2 1 4), a),
     (Sock (Sys_bind 3 \<lparr>sin_family = 2, sin_port = htons 4464, sin_addr = 0\<rparr> 16), b), (Sock (Sys_listen 3 1024), c)]"
proof -
  have n: "(70000::nat) < 2147483648" by simp
  have "open_listenfd (atoi (show_nat 70000)) small_os = (3, demo_listening)"
    unfolding atoi_show_nat[OF n] using small_open by simp
  from server_port_wraps[OF n this] show ?thesis by (simp add: small_os_def)
qed

theorem open_clientfd_spec_witness:
  "\<exists>hp c w'. open_clientfd ''localhost'' 80 (small_os\<lparr>kernel := \<lambda>t c. (3, 0)\<rparr>) = (3, w') \<and> hp \<noteq> 0 \<and>
     trace w' = [(Sock (Sys_socket 2 1 0), 3), (Sock (Sys_gethostbyname ''localhost''), hp),
       (Sock (Sys_connect 3 \<lparr>sin_family = 2, sin_port = htons 80, sin_addr = 2130706433\<rparr> 16), c)]"
proof -
  obtain w' where run: "open_clientfd ''localhost'' 80 (small_os\<lparr>kernel := \<lambda>t c. (3, 0)\<rparr>) = (3, w')"
    by (simp add: open_clientfd_def sys_call_def dns_call_def)
  then show ?thesis using open_clientfd_spec[OF run] by (auto simp: small_os_def split: if_splits)
qed

lemmas demo_run = accept_round_def seq_sys_def Malloc_def Accept_def Pthread_create_def null_checked_def unix_checked_def
  posix_checked_def checked_def ignore_def sys_call_def small_os_def demo_kernel_def unix_error_def exit_with_def

lemma demo_rounds: "\<exists>w'. accept_rounds demo_frame 3 1 demo_listening = (Ret [(4096, 4)], w')"
  using demo_listening_eq(2)
  by (subst demo_listening_eq(1), subst (asm) demo_listening_eq(1)) (simp add: demo_run)

theorem accept_loop_hands_over_witness:
  "\<exists>w'. accept_rounds demo_frame 3 1 demo_listening = (Ret [(4096, 4)], w') \<and> open_fds (trace w') = [3, 4]"
proof -
  obtain w' where "accept_rounds demo_frame 3 1 demo_listening = (Ret [(4096, 4)], w')" using demo_rounds by blast
  with accept_loop_hands_over[OF this] demo_listening_eq(3) show ?thesis by auto
qed



end
