(* ===== verification/Dtmf_Audio.thy ===== *)
theory Dtmf_Audio imports Bytes begin

text \<open>
  Sun audio files (hw1, audio.c): the 24-byte header of six big-endian words and the 16-bit
  big-endian samples. An input stream is the list of the bytes still to be read, an output stream
  the list of the bytes written. \<open>EOF\<close> is -1, and \<open>fgetc\<close> gives it at the end of the input.
\<close>

definition EOF :: int where "EOF = -1"

type_synonym stream = "u8 list"

fun fgetc :: "stream \<Rightarrow> int \<times> stream" where
  "fgetc [] = (EOF, [])"
| "fgetc (b # s) = (uint b, s)"

section \<open>The header\<close>

record audio_header =
  magic_number :: u32
  data_offset :: u32
  data_size :: u32
  encoding :: u32
  sample_rate :: u32
  channels :: u32

text \<open>The six tests that close both functions.\<close>

definition header_accepted :: "audio_header \<Rightarrow> bool" where
  "header_accepted h \<longleftrightarrow> \<not> (magic_number h \<noteq> 0x2e736e64) \<and> \<not> (data_offset h < 24) \<and> \<not> (data_size h = 0xffffffff)
     \<and> \<not> (encoding h \<noteq> 3) \<and> \<not> (sample_rate h \<noteq> 8000) \<and> \<not> (channels h \<noteq> 1)"

text \<open>
  The loop over the 24 bytes: \<open>c\<close> collects four bytes, and every fourth turn stores it in the field
  whose turn it is. The fields are written before they are read, so their first values do not matter.
\<close>

definition store_word :: "nat \<Rightarrow> u32 \<Rightarrow> audio_header \<Rightarrow> audio_header" where
  "store_word i c h =
    (let h = (if i = 4 then h\<lparr>magic_number := c\<rparr> else h);
         h = (if i = 8 then h\<lparr>data_offset := c\<rparr> else h);
         h = (if i = 12 then h\<lparr>data_size := c\<rparr> else h);
         h = (if i = 16 then h\<lparr>encoding := c\<rparr> else h);
         h = (if i = 20 then h\<lparr>sample_rate := c\<rparr> else h)
     in if i = 24 then h\<lparr>channels := c\<rparr> else h)"

function header_loop :: "nat \<Rightarrow> u32 \<Rightarrow> audio_header \<Rightarrow> stream \<Rightarrow> audio_header option \<times> stream" where
  "header_loop i c h s =
    (if i < 25 then
       (let c = push_bit 8 c; (val, s) = fgetc s in
        if val = EOF then (None, s)
        else
          (let c = c + word_of_int val in
           if i mod 4 = 0 then header_loop (i + 1) 0 (store_word i c h) s
           else header_loop (i + 1) c h s))
     else (Some h, s))"
  by pat_completeness auto
termination by (relation "measure (\<lambda>(i, _). 25 - i)") auto

declare header_loop.simps [simp del]

definition audio_read_header :: "stream \<Rightarrow> audio_header \<Rightarrow> int \<times> audio_header \<times> stream" where
  "audio_read_header s hp = (case header_loop 1 0 hp s of
      (None, s) \<Rightarrow> (EOF, hp, s)
    | (Some h, s) \<Rightarrow> if header_accepted h then (0, h, s) else (EOF, hp, s))"

text \<open>\<open>write_bytes\<close>: the byte \<open>(num >> 8*i) & 0xff\<close> for \<open>i\<close> from 3 down to 0.\<close>

definition write_bytes :: "u32 \<Rightarrow> stream" where
  "write_bytes num = map (\<lambda>i. ucast (drop_bit (8 * i) num AND 0xff)) [3, 2, 1, 0]"

definition audio_write_header :: "audio_header \<Rightarrow> int \<times> stream" where
  "audio_write_header h =
    (if \<not> header_accepted h then (EOF, [])
     else (0, write_bytes (magic_number h) @ write_bytes (data_offset h) @ write_bytes (data_size h)
       @ write_bytes (encoding h) @ write_bytes (sample_rate h) @ write_bytes (channels h)))"

section \<open>Samples\<close>

type_synonym s16 = "16 word"

text \<open>
  The sample variable is an \<open>int16_t\<close>: the result of \<open>fgetc\<close> is converted to it before it is compared
  with \<open>EOF\<close>, and the second \<open>fgetc\<close> is added without a test.
\<close>

definition audio_read_sample :: "stream \<Rightarrow> s16 \<Rightarrow> int \<times> s16 \<times> stream" where
  "audio_read_sample s samplep =
    (let (b, s) = fgetc s; val = (word_of_int b :: s16) in
     if sint val = EOF then (EOF, samplep, s)
     else
       (let val = push_bit 8 val; (b, s) = fgetc s; val = val + word_of_int b in (0, val, s)))"

definition audio_write_sample :: "s16 \<Rightarrow> stream" where
  "audio_write_sample sample = [ucast (signed_drop_bit 8 sample), ucast sample]"

section \<open>Big-endian words\<close>

text \<open>What the four turns of the loop leave in \<open>c\<close>, and what two bytes leave in a sample.\<close>

definition u32_of_be :: "u8 list \<Rightarrow> u32" where
  "u32_of_be bs = foldl (\<lambda>c b. push_bit 8 c + word_of_int (uint b)) 0 bs"

definition u16_of_be :: "u8 list \<Rightarrow> s16" where
  "u16_of_be bs = push_bit 8 (word_of_int (uint (bs ! 0))) + word_of_int (uint (bs ! 1))"

lemma byte_plus_shifted [simp]:
  fixes c :: "'a::len word" and b :: u8
  shows "push_bit 8 c + ucast b = push_bit 8 c OR ucast b"
proof (rule disjunctive_add_eq_or, rule bit_word_eqI)
  fix n assume "n < LENGTH('a)"
  then show "bit (push_bit 8 c AND ucast b) n = bit (0 :: 'a word) n"
    by (auto simp: bit_and_iff bit_push_bit_iff bit_unsigned_iff dest: bit_imp_le_length)
qed

lemma u32_of_be_bits:
  "u32_of_be [a, b, c, d] = push_bit 24 (ucast a) OR push_bit 16 (ucast b) OR push_bit 8 (ucast c) OR ucast d"
  by (simp add: u32_of_be_def push_bit_or or.assoc)

lemma u16_of_be_bits: "u16_of_be [a, b] = push_bit 8 (ucast a) OR ucast b"
  by (simp add: u16_of_be_def)

lemma low_byte_of_mask: "ucast ((w::u32) AND 0xff) = (ucast w :: u8)"
proof (rule bit_word_eqI)
  fix n assume n: "n < LENGTH(8)"
  have "mask 8 = (0xff :: u32)" by (simp add: mask_eq_exp_minus_1)
  then have "w AND 0xff = take_bit 8 w" by (simp only: take_bit_eq_mask)
  then show "bit (ucast (w AND 0xff) :: u8) n = bit (ucast w :: u8) n"
    using n by (simp add: bit_unsigned_iff bit_take_bit_iff)
qed

lemma write_bytes_list:
  "write_bytes w = [ucast (drop_bit 24 w), ucast (drop_bit 16 w), ucast (drop_bit 8 w), ucast w]"
  by (simp add: write_bytes_def low_byte_of_mask)

lemma u32_of_be_write_bytes: "u32_of_be (write_bytes w) = w"
proof (rule bit_word_eqI)
  fix n assume "n < LENGTH(32)"
  then consider "n < 8" | "8 \<le> n" "n < 16" | "16 \<le> n" "n < 24" | "24 \<le> n" "n < 32" by fastforce
  then show "bit (u32_of_be (write_bytes w)) n = bit w n"
    by cases (auto simp: write_bytes_list u32_of_be_bits bit_or_iff bit_push_bit_iff bit_unsigned_iff bit_drop_bit_eq dest: bit_imp_le_length)
qed

lemma write_bytes_u32_of_be: "write_bytes (u32_of_be [a, b, c, d]) = [a, b, c, d]"
  unfolding write_bytes_list list.inject u32_of_be_bits
  by (intro conjI; (rule refl)?; rule bit_word_eqI)
    (auto simp: bit_or_iff bit_push_bit_iff bit_unsigned_iff bit_drop_bit_eq dest: bit_imp_le_length)

lemma u16_of_be_sample: "u16_of_be (audio_write_sample w) = w"
proof (rule bit_word_eqI)
  fix n assume "n < LENGTH(16)"
  then have "n < 8 \<or> 8 \<le> n \<and> n < 16" by auto
  then show "bit (u16_of_be (audio_write_sample w)) n = bit w n"
    by (auto simp: u16_of_be_bits audio_write_sample_def bit_or_iff bit_push_bit_iff bit_unsigned_iff bit_signed_drop_bit_iff dest: bit_imp_le_length)
qed

interpretation be32: codec 4 write_bytes u32_of_be
  by unfold_locales (simp add: write_bytes_list, rule u32_of_be_write_bytes)

interpretation be16: codec 2 audio_write_sample u16_of_be
  by unfold_locales (simp add: audio_write_sample_def, rule u16_of_be_sample)

section \<open>Reading\<close>

lemma fgetc_byte_not_EOF [simp]: "uint (b::u8) \<noteq> EOF"
  using uint_ge_0[of b] unfolding EOF_def by linarith

lemma header_loop_end [simp]: "header_loop 25 c h s = (Some h, s)"
  by (simp add: header_loop.simps)

lemma header_loop_byte:
  "i < 25 \<Longrightarrow> i mod 4 \<noteq> 0 \<Longrightarrow> header_loop i c h (b # s) = header_loop (i + 1) (push_bit 8 c + word_of_int (uint b)) h s"
  "i < 25 \<Longrightarrow> i mod 4 = 0 \<Longrightarrow> header_loop i c h (b # s) = header_loop (i + 1) 0 (store_word i (push_bit 8 c + word_of_int (uint b)) h) s"
  by (subst header_loop.simps; simp)+

lemma header_loop_word:
  assumes "i mod 4 = 1" "i < 25"
  shows "header_loop i 0 h (b0 # b1 # b2 # b3 # s) = header_loop (i + 4) 0 (store_word (i + 3) (u32_of_be [b0, b1, b2, b3]) h) s"
proof -
  have "i mod 4 \<noteq> 0" "(i + 1) mod 4 \<noteq> 0" "(i + 1 + 1) mod 4 \<noteq> 0" "(i + 1 + 1 + 1) mod 4 = 0"
    "i + 1 < 25" "i + 1 + 1 < 25" "i + 1 + 1 + 1 < 25"
    using assms by presburger+
  note m = this
  have "i + 1 + 1 + 1 = i + 3" "i + 3 + 1 = i + 4" by simp_all
  then show ?thesis
    unfolding u32_of_be_def foldl.simps header_loop_byte(1)[OF assms(2) m(1)] header_loop_byte(1)[OF m(5) m(2)]
      header_loop_byte(1)[OF m(6) m(3)] header_loop_byte(2)[OF m(7) m(4)]
    by (simp only:)
qed

lemma header_loop_short: "length s < 25 - i \<Longrightarrow> fst (header_loop i c h s) = None"
proof (induction s arbitrary: i c h)
  case Nil
  then show ?case by (subst header_loop.simps) simp
next
  case (Cons b s)
  then have i: "i < 25" "length s < 25 - (i + 1)" by simp_all
  show ?case
  proof (cases "i mod 4 = 0")
    case True
    then show ?thesis using Cons.IH[OF i(2)] header_loop_byte(2)[OF i(1) True] by (simp only:)
  next
    case False
    then show ?thesis using Cons.IH[OF i(2)] header_loop_byte(1)[OF i(1) False] by (simp only:)
  qed
qed

lemma byte_as_s16: "sint (word_of_int (uint (a::u8)) :: s16) = uint a"
proof -
  have k: "signed_take_bit 15 k = k" if "0 \<le> k" "k < 256" for k :: int
    using that by (intro signed_take_bit_int_eq_self) auto
  have "uint a < 256" using uint_bounded[of a] by simp
  then show ?thesis
    using k[of "uint a"] by (simp add: sint_uint unsigned_ucast_eq take_bit_word_eq_self take_bit_int_eq_self)
qed

lemma audio_read_sample_two: "audio_read_sample (a # b # s) v = (0, u16_of_be [a, b], s)"
  using fgetc_byte_not_EOF[of a] unfolding audio_read_sample_def u16_of_be_def fgetc.simps Let_def prod.case byte_as_s16
  by simp

lemma audio_read_sample_written: "audio_read_sample (audio_write_sample w @ s) v = (0, w, s)"
  using audio_read_sample_two[of _ _ s v] u16_of_be_sample[of w] by (simp add: audio_write_sample_def)

lemma audio_read_sample_end [simp]: "audio_read_sample [] v = (EOF, v, [])"
  by (simp add: audio_read_sample_def EOF_def)

lemma header_loop_written:
  "header_loop 1 0 h (write_bytes m @ write_bytes off @ write_bytes sz @ write_bytes enc @ write_bytes rate @ write_bytes ch @ r)
   = (Some \<lparr>magic_number = m, data_offset = off, data_size = sz, encoding = enc, sample_rate = rate, channels = ch\<rparr>, r)"
proof -
  have w: "header_loop i 0 h (write_bytes w @ s) = header_loop (i + 4) 0 (store_word (i + 3) w h) s" if "i mod 4 = 1" "i < 25" for i h w s
    using header_loop_word[OF that, of h] u32_of_be_write_bytes[of w] by (simp add: write_bytes_list)
  have "header_loop 1 0 h (write_bytes m @ write_bytes off @ write_bytes sz @ write_bytes enc @ write_bytes rate @ write_bytes ch @ r)
    = (Some (store_word 24 ch (store_word 20 rate (store_word 16 enc (store_word 12 sz (store_word 8 off (store_word 4 m h)))))), r)"
    by (simp add: w)
  then show ?thesis by (simp add: store_word_def)
qed

lemma bytes_are_words:
  assumes "24 \<le> length s"
  obtains m off sz enc rate ch r where
    "s = write_bytes m @ write_bytes off @ write_bytes sz @ write_bytes enc @ write_bytes rate @ write_bytes ch @ r"
proof -
  have word: "\<exists>w t. s = write_bytes w @ t \<and> length s = length t + 4" if len: "4 \<le> length s" for s :: stream
  proof -
    obtain a b c d t where "s = a # b # c # d # t" using len
      by (cases s; cases "tl s"; cases "tl (tl s)"; cases "tl (tl (tl s))") auto
    then show ?thesis using write_bytes_u32_of_be[of a b c d] by (intro exI[of _ "u32_of_be [a, b, c, d]"] exI[of _ t]) simp
  qed
  obtain m s1 where s1: "s = write_bytes m @ s1" "length s = length s1 + 4" using word[of s] assms by auto
  obtain off s2 where s2: "s1 = write_bytes off @ s2" "length s1 = length s2 + 4" using word[of s1] assms s1 by auto
  obtain sz s3 where s3: "s2 = write_bytes sz @ s3" "length s2 = length s3 + 4" using word[of s2] assms s1 s2 by auto
  obtain enc s4 where s4: "s3 = write_bytes enc @ s4" "length s3 = length s4 + 4" using word[of s3] assms s1 s2 s3 by auto
  obtain rate s5 where s5: "s4 = write_bytes rate @ s5" "length s4 = length s5 + 4" using word[of s4] assms s1 s2 s3 s4 by auto
  obtain ch s6 where s6: "s5 = write_bytes ch @ s6" using word[of s5] assms s1 s2 s3 s4 s5 by auto
  show ?thesis by (rule that[of m off sz enc rate ch s6]) (simp add: s1(1) s2(1) s3(1) s4(1) s5(1) s6)
qed

lemma audio_read_header_written:
  assumes "audio_write_header h = (0, bs)"
  shows "audio_read_header (bs @ r) hp = (0, h, r)"
  using assms by (cases h) (auto simp: audio_write_header_def audio_read_header_def header_loop_written[simplified] EOF_def split: if_splits)

text \<open>
  C31: audio_read_header accepts an input and returns a header exactly when the input starts
  with the bytes that audio_write_header writes for it, and then leaves the bytes behind them.
  In particular a data size of 0xffffffff is rejected, although audio.h and dtmf.c say that
  the field is ignored on reading.
\<close>

lemma audio_header_exact:
  "audio_read_header s hp = (0, h, r) \<longleftrightarrow> (\<exists>bs. audio_write_header h = (0, bs) \<and> s = bs @ r)"
proof
  assume read: "audio_read_header s hp = (0, h, r)"
  have "24 \<le> length s"
  proof (rule ccontr)
    assume "\<not> 24 \<le> length s"
    then have "fst (header_loop 1 0 hp s) = None" by (intro header_loop_short) simp
    then show False using read by (cases "header_loop 1 0 hp s") (simp add: audio_read_header_def EOF_def)
  qed
  then obtain m off sz enc rate ch t where
    "s = write_bytes m @ write_bytes off @ write_bytes sz @ write_bytes enc @ write_bytes rate @ write_bytes ch @ t"
    by (rule bytes_are_words)
  then show "\<exists>bs. audio_write_header h = (0, bs) \<and> s = bs @ r"
    using read by (auto simp: audio_read_header_def audio_write_header_def header_loop_written[simplified] EOF_def split: if_splits)
qed (auto simp: audio_read_header_written)

end
