(* ===== verification/Dtmf_Generate.thy ===== *)
theory Dtmf_Generate imports Complex_Main Dtmf_Audio Decimal begin

text \<open>
  Reading DTMF events and generating tones (hw1, the first half of dtmf.c). The events file is the
  list of the characters still to be read. An \<open>int\<close> is an integer that wraps at 32 bits, a
  \<open>double\<close> a real. The globals \<open>noise_file\<close> and \<open>noise_level\<close> are arguments.
\<close>

definition TAB :: char where "TAB = CHR 0x09"
definition LF :: char where "LF = CHR 0x0A"

lemma code_of_TAB [simp]: "code_of TAB = 9" "code_of LF = 10"
  by (simp_all add: code_of_def TAB_def LF_def)

lemma code_of_eq_iff: "code_of c = 9 \<longleftrightarrow> c = TAB" "code_of c = 10 \<longleftrightarrow> c = LF"
proof -
  have inj: "code_of c = code_of d \<longleftrightarrow> c = d" for c d by (simp add: code_of_def)
  show "code_of c = 9 \<longleftrightarrow> c = TAB" "code_of c = 10 \<longleftrightarrow> c = LF" using inj[of c TAB] inj[of c LF] by simp_all
qed

fun fgetc_text :: "string \<Rightarrow> int \<times> string" where
  "fgetc_text [] = (EOF, [])"
| "fgetc_text (c # s) = (code_of c, s)"

section \<open>Parsing\<close>

text \<open>
  The loop of \<open>getNumFromText\<close>: on a line feed it continues without reading on, and at the end of the
  file it keeps adding up the value of \<open>EOF\<close>. In both cases it never ends, which is the value \<open>None\<close>.
\<close>

partial_function (option) num_loop :: "int \<Rightarrow> int \<Rightarrow> string \<Rightarrow> (int \<times> string) option" where
  "num_loop c result s =
    (if c \<noteq> 9 then
       if c = 10 then num_loop c result s
       else num_loop (fst (fgetc_text s)) (int32 (int32 (result * 10) + (c - 48))) (snd (fgetc_text s))
     else Some (result, s))"

definition getNumFromText :: "string \<Rightarrow> (int \<times> string) option" where
  "getNumFromText s = (let (c, s) = fgetc_text s in if c = EOF then Some (-1, s) else num_loop c 0 s)"

text \<open>The result is a \<open>char\<close>: \<open>EOF\<close> becomes the character with the code 255.\<close>

definition getSymbolFromText :: "string \<Rightarrow> char \<times> string" where
  "getSymbolFromText s = (let (c, s) = fgetc_text s in (if c = EOF then CHR 0xFF else char_of (nat c), s))"

definition dtmf_symbol_names :: string where
  "dtmf_symbol_names = ''123A'' @ ''456B'' @ ''789C'' @ ''*0#D''"

definition checkSymbolIsCorrect :: "char \<Rightarrow> int" where
  "checkSymbolIsCorrect c = foldl (\<lambda>found row.
     if list_ex (\<lambda>col. dtmf_symbol_names ! (row * 4 + col) = c) [0, 1, 2, 3] then 0 else found) (-1) [0, 1, 2, 3]"

definition getFreqRow :: "char \<Rightarrow> int" where
  "getFreqRow c =
    (if c = CHR ''1'' \<or> c = CHR ''2'' \<or> c = CHR ''3'' \<or> c = CHR ''A'' then 697
     else if c = CHR ''4'' \<or> c = CHR ''5'' \<or> c = CHR ''6'' \<or> c = CHR ''B'' then 770
     else if c = CHR ''7'' \<or> c = CHR ''8'' \<or> c = CHR ''9'' \<or> c = CHR ''C'' then 852
     else 941)"

definition getFreqCol :: "char \<Rightarrow> int" where
  "getFreqCol c =
    (if c = CHR ''1'' \<or> c = CHR ''4'' \<or> c = CHR ''7'' \<or> c = CHR ''*'' then 1209
     else if c = CHR ''2'' \<or> c = CHR ''5'' \<or> c = CHR ''8'' \<or> c = CHR ''0'' then 1336
     else if c = CHR ''3'' \<or> c = CHR ''6'' \<or> c = CHR ''9'' \<or> c = CHR ''#'' then 1477
     else 1633)"

definition findSymbolFromFrequencies :: "int \<Rightarrow> int \<Rightarrow> char" where
  "findSymbolFromFrequencies row_freq col_freq =
    (if row_freq = 697 then
       if col_freq = 1209 then CHR ''1'' else if col_freq = 1336 then CHR ''2''
       else if col_freq = 1477 then CHR ''3'' else if col_freq = 1633 then CHR ''A'' else CHR ''F''
     else if row_freq = 770 then
       if col_freq = 1209 then CHR ''4'' else if col_freq = 1336 then CHR ''5''
       else if col_freq = 1477 then CHR ''6'' else if col_freq = 1633 then CHR ''B'' else CHR ''F''
     else if row_freq = 852 then
       if col_freq = 1209 then CHR ''7'' else if col_freq = 1336 then CHR ''8''
       else if col_freq = 1477 then CHR ''9'' else if col_freq = 1633 then CHR ''C'' else CHR ''F''
     else
       if col_freq = 1209 then CHR ''*'' else if col_freq = 1336 then CHR ''0''
       else if col_freq = 1477 then CHR ''#'' else if col_freq = 1633 then CHR ''D'' else CHR ''F'')"

text \<open>
  One line of the events file. The symbol is compared with \<open>EOF\<close> as a signed \<open>char\<close>, which none of the
  characters of \<open>findSymbolFromFrequencies\<close> is.
\<close>

definition write_to_detect_output :: "int \<Rightarrow> int \<Rightarrow> int \<Rightarrow> int \<Rightarrow> string" where
  "write_to_detect_output start_index end_index row_freq col_freq =
     show_int start_index @ [TAB] @ show_int end_index @ [TAB]
     @ (let symbol = findSymbolFromFrequencies row_freq col_freq in if symbol \<noteq> CHR 0xFF then [symbol] else [])
     @ [LF]"

section \<open>Generating\<close>

text \<open>The conversion of a \<open>double\<close> to an \<open>int16_t\<close> drops the fraction.\<close>

definition to_int16 :: "real \<Rightarrow> s16" where
  "to_int16 x = word_of_int (if x < 0 then \<lceil>x\<rceil> else \<lfloor>x\<rfloor>)"

definition tone_sample :: "string option \<Rightarrow> int \<Rightarrow> int \<Rightarrow> int \<Rightarrow> int \<Rightarrow> s16" where
  "tone_sample noise_file noise_level Fr Fc sample_index =
    (let val1 = cos (2 * pi * real_of_int Fr * real_of_int sample_index / 8000);
         val2 = cos (2 * pi * real_of_int Fc * real_of_int sample_index / 8000);
         answer = to_int16 ((val1 + val2) * 0.5 * 32767)
     in if noise_file \<noteq> None then
          (let exp = 10 powi (c_div noise_level 10); w = exp / (exp + 1) in to_int16 (real_of_int (sint answer) * w))
        else answer)"

function silence_until :: "int \<Rightarrow> int \<Rightarrow> stream \<Rightarrow> int \<times> stream" where
  "silence_until n sample_index out =
    (if sample_index < n then silence_until n (sample_index + 1) (out @ audio_write_sample 0)
     else (sample_index, out))"
  by pat_completeness auto
termination by (relation "measure (\<lambda>(n, i, _). nat (n - i))") auto

function tone_until :: "(int \<Rightarrow> s16) \<Rightarrow> int \<Rightarrow> int \<Rightarrow> stream \<Rightarrow> int \<times> stream" where
  "tone_until tone n sample_index out =
    (if sample_index < n then tone_until tone n (sample_index + 1) (out @ audio_write_sample (tone sample_index))
     else (sample_index, out))"
  by pat_completeness auto
termination by (relation "measure (\<lambda>(_, n, i, _). nat (n - i))") auto

declare silence_until.simps [simp del] tone_until.simps [simp del]

text \<open>
  The body of the main loop once an event has been read and accepted: silence up to its start, the
  tone up to its end, and, only with a noise file, silence up to the end of the recording. The
  sample index is never negative, so the unsigned comparison with \<open>length\<close> is that of the integers.
\<close>

definition generate_event :: "string option \<Rightarrow> int \<Rightarrow> u32 \<Rightarrow> int \<Rightarrow> int \<Rightarrow> char \<Rightarrow> int \<Rightarrow> stream \<Rightarrow> int \<times> stream" where
  "generate_event noise_file noise_level len n1 n2 symbol sample_index out =
    (let Fr = getFreqRow symbol; Fc = getFreqCol symbol;
         (sample_index, out) = silence_until n1 sample_index out;
         (sample_index, out) = tone_until (tone_sample noise_file noise_level Fr Fc) n2 sample_index out
     in if sample_index < uint len \<and> noise_file \<noteq> None then silence_until (uint len) sample_index out
        else (sample_index, out))"

partial_function (option) generate_loop ::
    "string option \<Rightarrow> int \<Rightarrow> u32 \<Rightarrow> int \<Rightarrow> int \<Rightarrow> string \<Rightarrow> stream \<Rightarrow> (int \<times> stream) option" where
  "generate_loop noise_file noise_level len c sample_index s out =
    (if c \<noteq> EOF \<and> sample_index < uint len then
       Option.bind (getNumFromText s) (\<lambda>(n1, s).
       Option.bind (getNumFromText s) (\<lambda>(n2, s).
       (case getSymbolFromText s of (symbol, s) \<Rightarrow>
         if n1 = -1 \<or> n2 = -1 then Some (0, out)
         else if n1 > n2 then Some (EOF, out)
         else if checkSymbolIsCorrect symbol = -1 then Some (EOF, out)
         else (case generate_event noise_file noise_level len n1 n2 symbol sample_index out of (sample_index, out) \<Rightarrow>
           generate_loop noise_file noise_level len (fst (fgetc_text s)) sample_index (snd (fgetc_text s)) out))))
     else Some (0, out))"

definition dtmf_header :: "u32 \<Rightarrow> audio_header" where
  "dtmf_header len = \<lparr>magic_number = 0x2e736e64, data_offset = 24, data_size = 2 * len,
     encoding = 3, sample_rate = 8000, channels = 1\<rparr>"

definition dtmf_generate :: "string option \<Rightarrow> int \<Rightarrow> string \<Rightarrow> u32 \<Rightarrow> (int \<times> stream) outcome" where
  "dtmf_generate noise_file noise_level events_in len =
    (let out = snd (audio_write_header (dtmf_header len));
         (c, s) = fgetc_text events_in
     in loop_result (generate_loop noise_file noise_level len c 0 s out))"

section \<open>Which numbers are read\<close>

lemma num_loop_tab [simp]: "num_loop 9 v s = Some (v, s)"
  by (subst num_loop.simps) simp

lemma num_loop_digits:
  "0 \<le> v \<Longrightarrow> \<forall>c\<in>set ds. is_digit c \<Longrightarrow> more_digits v ds < 2147483648 \<Longrightarrow>
   num_loop (fst (fgetc_text (ds @ TAB # r))) v (snd (fgetc_text (ds @ TAB # r))) = Some (more_digits v ds, r)"
proof (induction ds arbitrary: v)
  case (Cons c ds)
  have c: "48 \<le> code_of c" "code_of c \<le> 57" using Cons.prems(2) by (simp_all add: is_digit_def)
  then show ?case
    using Cons.IH[OF more_digits_step(2)[OF Cons.prems]] Cons.prems more_digits_step(1)[OF Cons.prems]
    by (subst num_loop.simps) simp
qed simp

lemma getNumFromText_digits:
  assumes "\<forall>c\<in>set ds. is_digit c" "digits_value ds < 2147483648"
  shows "getNumFromText (ds @ TAB # r) = Some (digits_value ds, r)"
proof -
  have "fst (fgetc_text (ds @ TAB # r)) \<noteq> EOF"
    using assms(1) by (cases ds) (auto simp: EOF_def is_digit_def)
  then show ?thesis using num_loop_digits[of 0 ds r] assms
    by (simp add: getNumFromText_def more_digits_0 case_prod_beta)
qed

lemma num_loop_needs_tab:
  assumes "num_loop c v s = Some y"
  shows "c = 9 \<or> c \<noteq> 10 \<and> (\<exists>pre post. s = pre @ TAB # post \<and> LF \<notin> set pre)"
  using assms
proof (induction c v s y rule: num_loop.raw_induct[rotated, consumes 1, case_names 1])
  case (1 loop c v s y)
  show ?case
  proof (cases "c = 9 \<or> c = 10")
    case True
    moreover have "c \<noteq> 10"
    proof
      assume "c = 10"
      then have "loop 10 v s = Some y" using 1(2) by simp
      from 1(1)[OF this] show False by simp
    qed
    ultimately show ?thesis by simp
  next
    case False
    then obtain v' where "loop (fst (fgetc_text s)) v' (snd (fgetc_text s)) = Some y" using 1(2) by auto
    show ?thesis
    proof (cases s)
      case Nil
      then show ?thesis using 1(1)[OF \<open>loop _ v' _ = Some y\<close>] by (simp add: EOF_def)
    next
      case (Cons d t)
      have "d = TAB \<or> d \<noteq> LF \<and> (\<exists>pre post. t = pre @ TAB # post \<and> LF \<notin> set pre)"
        using 1(1)[OF \<open>loop _ v' _ = Some y\<close>] Cons by (auto simp: code_of_eq_iff)
      then show ?thesis
      proof (elim disjE conjE exE)
        assume "d = TAB"
        then show ?thesis using Cons False by (intro disjI2 conjI exI[where x = "[]"] exI[where x = t]) auto
      next
        fix pre post assume "d \<noteq> LF" "t = pre @ TAB # post" "LF \<notin> set pre"
        then show ?thesis using Cons False by (intro disjI2 conjI exI[where x = "d # pre"] exI[where x = post]) auto
      qed
    qed
  qed
qed

lemma num_loop_with_tab:
  "LF \<notin> set pre \<Longrightarrow> num_loop (fst (fgetc_text (pre @ TAB # post))) v (snd (fgetc_text (pre @ TAB # post))) \<noteq> None"
proof (induction pre arbitrary: v)
  case (Cons c pre)
  then have "code_of c \<noteq> 10" using code_of_eq_iff(2)[of c] by auto
  then show ?case using Cons by (cases "code_of c = 9") (simp, subst num_loop.simps, simp)
qed simp

text \<open>
  C35: getNumFromText returns exactly when the input is empty or has a tab before its first
  line feed; otherwise it loops for ever.
\<close>

lemma getNumFromText_returns_iff:
  "getNumFromText s \<noteq> None \<longleftrightarrow> s = [] \<or> (\<exists>pre post. s = pre @ TAB # post \<and> LF \<notin> set pre)"
proof (cases s)
  case (Cons c t)
  then have get: "getNumFromText s = num_loop (code_of c) 0 t"
    by (simp add: getNumFromText_def EOF_def code_of_def)
  show ?thesis
  proof
    assume "getNumFromText s \<noteq> None"
    then obtain y where "num_loop (code_of c) 0 t = Some y" using get by auto
    from num_loop_needs_tab[OF this] show "s = [] \<or> (\<exists>pre post. s = pre @ TAB # post \<and> LF \<notin> set pre)"
    proof (elim disjE conjE exE)
      assume "code_of c = 9"
      then show ?thesis using Cons by (intro disjI2 exI[where x = "[]"] exI[where x = t]) (simp add: code_of_eq_iff)
    next
      fix pre post assume "code_of c \<noteq> 10" "t = pre @ TAB # post" "LF \<notin> set pre"
      then show ?thesis using Cons by (intro disjI2 exI[where x = "c # pre"] exI[where x = post]) auto
    qed
  next
    assume "s = [] \<or> (\<exists>pre post. s = pre @ TAB # post \<and> LF \<notin> set pre)"
    then obtain pre post where pre: "s = pre @ TAB # post" "LF \<notin> set pre" using Cons by auto
    have "getNumFromText s = num_loop (fst (fgetc_text s)) 0 (snd (fgetc_text s))" using get Cons by simp
    then show "getNumFromText s \<noteq> None" using num_loop_with_tab[OF pre(2), of post 0] by (simp only: pre(1)) simp
  qed
qed (simp add: getNumFromText_def)

section \<open>The recording of a list of events\<close>

type_synonym dtmf_event = "nat \<times> nat \<times> char"

fun event_text :: "dtmf_event \<Rightarrow> string" where
  "event_text (a, b, c) = write_to_detect_output (int a) (int b) (getFreqRow c) (getFreqCol c)"

text \<open>Events in order, disjoint, not empty, with a keypad symbol, and within the recording.\<close>

fun events_within :: "nat \<Rightarrow> nat \<Rightarrow> dtmf_event list \<Rightarrow> bool" where
  "events_within i n [] = True"
| "events_within i n ((a, b, c) # evs) \<longleftrightarrow>
     i \<le> a \<and> a < b \<and> b \<le> n \<and> c \<in> set dtmf_symbol_names \<and> events_within b n evs"

fun last_end :: "nat \<Rightarrow> dtmf_event list \<Rightarrow> nat" where
  "last_end i [] = i"
| "last_end i ((a, b, c) # evs) = last_end b evs"

text \<open>The sample at an index: zero outside every event, the tone of the event it lies in otherwise.\<close>

definition tone_at :: "dtmf_event list \<Rightarrow> nat \<Rightarrow> s16" where
  "tone_at evs i = (case find (\<lambda>(a, b, c). a \<le> i \<and> i < b) evs of
      None \<Rightarrow> 0
    | Some (a, b, c) \<Rightarrow> tone_sample None 0 (getFreqRow c) (getFreqCol c) (int i))"

definition recording :: "dtmf_event list \<Rightarrow> nat \<Rightarrow> nat \<Rightarrow> stream" where
  "recording evs i n = concat (map audio_write_sample (map (tone_at evs) [i..<n]))"

lemma symbol_cases:
  "c \<in> set dtmf_symbol_names \<Longrightarrow> findSymbolFromFrequencies (getFreqRow c) (getFreqCol c) = c"
  by (auto simp: dtmf_symbol_names_def getFreqRow_def getFreqCol_def findSymbolFromFrequencies_def)

lemma checkSymbolIsCorrect_iff: "checkSymbolIsCorrect c = (if c \<in> set dtmf_symbol_names then 0 else -1)"
  by (simp add: checkSymbolIsCorrect_def dtmf_symbol_names_def numeral_eq_Suc)

lemma event_text_unfold:
  assumes "c \<in> set dtmf_symbol_names"
  shows "event_text (a, b, c) = show_nat a @ TAB # show_nat b @ TAB # c # LF # []"
proof -
  have "c \<noteq> CHR 0xFF" using assms by (auto simp: dtmf_symbol_names_def)
  then show ?thesis by (simp add: write_to_detect_output_def symbol_cases[OF assms] show_int_def)
qed

lemma silence_until_run:
  "i \<le> n \<Longrightarrow> silence_until (int n) (int i) out = (int n, out @ concat (map audio_write_sample (replicate (n - i) 0)))"
proof (induction "n - i" arbitrary: i out)
  case 0
  then show ?case by (simp add: silence_until.simps)
next
  case (Suc k)
  then have "k = n - (i + 1)" "i + 1 \<le> n" "n - i = Suc (n - (i + 1))" "int i + 1 = int (i + 1)" by simp_all
  then show ?case using Suc.hyps(1)[of "i + 1"] Suc.prems by (subst silence_until.simps) (simp add: add.commute)
qed

lemma tone_until_run:
  "i \<le> n \<Longrightarrow> tone_until tone (int n) (int i) out = (int n, out @ concat (map audio_write_sample (map (\<lambda>j. tone (int j)) [i..<n])))"
proof (induction "n - i" arbitrary: i out)
  case 0
  then show ?case by (simp add: tone_until.simps)
next
  case (Suc k)
  then have "k = n - (i + 1)" "i + 1 \<le> n" "int i + 1 = int (i + 1)" "[i..<n] = i # [i + 1..<n]"
    by (simp_all add: upt_conv_Cons)
  then show ?case using Suc.hyps(1)[of "i + 1"] Suc.prems by (subst tone_until.simps) (simp add: add.commute)
qed

lemma tone_sample_no_noise: "tone_sample None l Fr Fc i = tone_sample None 0 Fr Fc i"
  by (simp add: tone_sample_def)

lemma recording_append:
  assumes "i \<le> j" "j \<le> n"
  shows "recording evs i n = recording evs i j @ recording evs j n"
proof -
  have "[i..<n] = [i..<j] @ [j..<n]" using upt_add_eq_append[of i j "n - j"] assms by simp
  then show ?thesis by (simp only: recording_def map_append concat_append)
qed

lemma recording_eq_map:
  "(\<And>k. i \<le> k \<Longrightarrow> k < n \<Longrightarrow> tone_at evs k = f k) \<Longrightarrow> recording evs i n = concat (map audio_write_sample (map f [i..<n]))"
  unfolding recording_def by (intro arg_cong[where f = concat] arg_cong[where f = "map audio_write_sample"] map_cong) auto

lemma events_within_later: "events_within i n evs \<Longrightarrow> (a, b, c) \<in> set evs \<Longrightarrow> i \<le> a"
  by (induction i n evs rule: events_within.induct) fastforce+

lemma last_end_bounds: "events_within i n evs \<Longrightarrow> i \<le> n \<Longrightarrow> i \<le> last_end i evs \<and> last_end i evs \<le> n"
  by (induction i n evs rule: events_within.induct) auto

lemma recording_event:
  assumes "events_within i n ((a, b, c) # evs)"
  shows "recording ((a, b, c) # evs) i (last_end i ((a, b, c) # evs))
    = concat (map audio_write_sample (replicate (a - i) 0))
      @ concat (map audio_write_sample (map (\<lambda>j. tone_sample None 0 (getFreqRow c) (getFreqCol c) (int j)) [a..<b]))
      @ recording evs b (last_end b evs)"
proof -
  let ?e = "(a, b, c) # evs"
  have w: "i \<le> a" "a < b" "b \<le> n" "events_within b n evs" using assms by simp_all
  have e: "b \<le> last_end b evs" using last_end_bounds[OF w(4,3)] by simp
  have later: "\<not> (a' \<le> k \<and> k < b')" if "(a', b', c') \<in> set evs" "k < a" for a' b' c' k
    using events_within_later[OF w(4) that(1)] w(2) that(2) by simp
  have "find (\<lambda>(a, b, c). a \<le> k \<and> k < b) evs = None" if "k < a" for k
    using later that by (auto simp: find_None_iff)
  then have "recording ?e i a = concat (map audio_write_sample (map (\<lambda>_. 0) [i..<a]))"
    by (intro recording_eq_map) (simp add: tone_at_def)
  moreover have "map (\<lambda>_. 0 :: s16) [i..<a] = replicate (a - i) 0" by (simp add: map_replicate_const)
  moreover have "recording ?e a b = concat (map audio_write_sample (map (\<lambda>j. tone_sample None 0 (getFreqRow c) (getFreqCol c) (int j)) [a..<b]))"
    by (intro recording_eq_map) (simp add: tone_at_def)
  moreover have "recording ?e b (last_end b evs) = recording evs b (last_end b evs)"
    unfolding recording_def[of evs] by (intro recording_eq_map) (simp add: tone_at_def)
  moreover have "recording ?e i (last_end b evs) = recording ?e i a @ recording ?e a b @ recording ?e b (last_end b evs)"
    using w e recording_append[of i a "last_end b evs" ?e] recording_append[of a b "last_end b evs" ?e] by simp
  ultimately show ?thesis by simp
qed

lemma getNumFromText_show_nat:
  "n < 2147483648 \<Longrightarrow> getNumFromText (show_nat n @ TAB # r) = Some (int n, r)"
  using getNumFromText_digits[of "show_nat n" r] show_nat_digits[of n] by (simp add: show_nat_value)

lemma generate_event_run:
  assumes "i \<le> a" "a \<le> b"
  shows "generate_event None l len (int a) (int b) c (int i) out = (int b, out
    @ concat (map audio_write_sample (replicate (a - i) 0))
    @ concat (map audio_write_sample (map (\<lambda>j. tone_sample None 0 (getFreqRow c) (getFreqCol c) (int j)) [a..<b])))"
  using assms by (simp add: generate_event_def Let_def silence_until_run tone_until_run tone_sample_no_noise[of l])

text \<open>One turn of the main loop: the numbers \<open>n1\<close> and \<open>n2\<close> and the symbol have been read.\<close>

lemma generate_loop_event:
  assumes "c' \<noteq> EOF" "i < unat len" "getNumFromText s = Some (int a, show_nat b @ TAB # c # LF # r)"
    and "b < 2147483648" "i \<le> a" "a \<le> b" "c \<in> set dtmf_symbol_names"
  shows "generate_loop None l len c' (int i) s out = generate_loop None l len 10 (int b) r (out
    @ concat (map audio_write_sample (replicate (a - i) 0))
    @ concat (map audio_write_sample (map (\<lambda>j. tone_sample None 0 (getFreqRow c) (getFreqCol c) (int j)) [a..<b])))"
proof -
  have "int i < uint len" using assms(2) unfolding uint_nat of_nat_less_iff .
  moreover have "getSymbolFromText (c # LF # r) = (c, LF # r)"
    by (simp add: getSymbolFromText_def EOF_def code_of_def)
  ultimately show ?thesis using assms
    by (subst generate_loop.simps) (simp add: getNumFromText_show_nat checkSymbolIsCorrect_iff generate_event_run)
qed

lemma generate_loop_first:
  assumes "c' \<noteq> EOF" "events_within i (unat len) ((a, b, c) # evs)" "unat len < 2147483648"
    and "getNumFromText s = Some (int a, show_nat b @ TAB # c # LF # concat (map event_text evs))"
    and "\<And>out. generate_loop None l len 10 (int b) (concat (map event_text evs)) out
      = Some (0, out @ recording evs b (last_end b evs))"
  shows "generate_loop None l len c' (int i) s out
       = Some (0, out @ recording ((a, b, c) # evs) i (last_end i ((a, b, c) # evs)))"
proof -
  have "i < unat len" "b < 2147483648" "i \<le> a" "a \<le> b" "c \<in> set dtmf_symbol_names" using assms(2,3) by simp_all
  note loop = generate_loop_event[OF assms(1) this(1) assms(4) this(2-5)]
  show ?thesis unfolding loop assms(5) recording_event[OF assms(2)] by simp
qed

lemma generate_loop_events:
  assumes "c' \<noteq> EOF" "events_within i (unat len) evs" "unat len < 2147483648"
  shows "generate_loop None l len c' (int i) (concat (map event_text evs)) out
       = Some (0, out @ recording evs i (last_end i evs))"
  using assms
proof (induction evs arbitrary: c' i out)
  case Nil
  then show ?case
    by (subst generate_loop.simps) (simp add: getNumFromText_def getSymbolFromText_def recording_def split: prod.split)
next
  case (Cons e evs)
  obtain a b c where e: "e = (a, b, c)" by (cases e)
  have w: "a < b" "b \<le> unat len" "c \<in> set dtmf_symbol_names" "events_within b (unat len) evs"
    using Cons.prems e by simp_all
  show ?case
    unfolding e
  proof (rule generate_loop_first)
    show "getNumFromText (concat (map event_text ((a, b, c) # evs))) = Some (int a, show_nat b @ TAB # c # LF # concat (map event_text evs))"
      using w Cons.prems(3) by (simp add: event_text_unfold[OF w(3)] getNumFromText_show_nat del: event_text.simps)
    show "generate_loop None l len 10 (int b) (concat (map event_text evs)) out = Some (0, out @ recording evs b (last_end b evs))" for out
      by (rule Cons.IH) (use w Cons.prems in \<open>simp_all add: EOF_def\<close>)
  qed (use Cons.prems e in simp_all)
qed

text \<open>
  The whole function. Its first \<open>fgetc\<close>, meant to look for the end of the file, takes the first
  digit of the first start index, so the first event begins at the number that is left.
\<close>

lemma generate_renders:
  assumes "events_within 0 (unat len) ((a, b, c) # evs)" "unat len < 2147483648"
  shows "dtmf_generate None l (concat (map event_text ((a, b, c) # evs))) len
    = Ret (0, snd (audio_write_header (dtmf_header len))
        @ recording ((nat (digits_value (tl (show_nat a))), b, c) # evs) 0 (last_end 0 ((a, b, c) # evs)))"
proof -
  obtain d ds where d: "show_nat a = d # ds" by (cases "show_nat a") auto
  define a' where "a' = nat (digits_value ds)"
  have dig: "\<forall>c\<in>set (d # ds). is_digit c" using show_nat_digits[of a] d by simp
  have w: "a < b" "b \<le> unat len" "c \<in> set dtmf_symbol_names" "events_within b (unat len) evs" using assms by simp_all
  have "0 \<le> digits_value ds" using dig by (intro digits_value_nonneg) simp
  moreover have "digits_value ds \<le> int a"
    using digits_value_suffix[of "[d]" ds] dig show_nat_value[of a] d by simp
  ultimately have a': "int a' = digits_value ds" "a' \<le> a" by (simp_all add: a'_def)
  have line: "fgetc_text (concat (map event_text ((a, b, c) # evs)))
    = (code_of d, ds @ TAB # show_nat b @ TAB # c # LF # concat (map event_text evs))"
    by (simp add: event_text_unfold[OF w(3)] d del: event_text.simps)
  have "generate_loop None l len (code_of d) (int 0) (ds @ TAB # show_nat b @ TAB # c # LF # concat (map event_text evs)) out
    = Some (0, out @ recording ((a', b, c) # evs) 0 (last_end 0 ((a', b, c) # evs)))" for out
  proof (rule generate_loop_first)
    show "getNumFromText (ds @ TAB # show_nat b @ TAB # c # LF # concat (map event_text evs))
      = Some (int a', show_nat b @ TAB # c # LF # concat (map event_text evs))"
      using dig a' w assms(2) by (simp add: getNumFromText_digits)
    show "generate_loop None l len 10 (int b) (concat (map event_text evs)) out = Some (0, out @ recording evs b (last_end b evs))" for out
      by (rule generate_loop_events) (use w assms in \<open>simp_all add: EOF_def\<close>)
  qed (use w a' assms(2) in \<open>simp_all add: code_of_def EOF_def\<close>)
  then show ?thesis
    unfolding dtmf_generate_def Let_def line by (simp add: d a'_def)
qed

text \<open>
  With a noise file the recording is filled with zeros to its length right after the first event, so
  the later events are never read; the tone is scaled, and the noise itself plays no part.
\<close>

definition noisy_recording :: "string option \<Rightarrow> int \<Rightarrow> dtmf_event \<Rightarrow> nat \<Rightarrow> stream" where
  "noisy_recording noise_file noise_level e n = (case e of (a, b, c) \<Rightarrow> concat (map audio_write_sample
     (replicate a 0 @ map (\<lambda>j. tone_sample noise_file noise_level (getFreqRow c) (getFreqCol c) (int j)) [a..<b] @ replicate (n - b) 0)))"

lemma generate_event_noise:
  assumes "a \<le> b" "b \<le> unat len"
  shows "generate_event (Some f) l len (int a) (int b) c (int 0) out
    = (uint len, out @ noisy_recording (Some f) l (a, b, c) (unat len))"
proof -
  have u: "uint len = int (unat len)" by (simp only: uint_nat)
  have s1: "silence_until (int a) (int 0) out = (int a, out @ concat (map audio_write_sample (replicate a 0)))"
    using silence_until_run[of 0 a out] by (simp del: map_replicate)
  show ?thesis
  proof (cases "b < unat len")
    case True
    have "silence_until (int (unat len)) (int b) o2 = (int (unat len), o2 @ concat (map audio_write_sample (replicate (unat len - b) 0)))" for o2
      using assms(2) by (rule silence_until_run)
    then show ?thesis unfolding generate_event_def Let_def u s1 prod.case tone_until_run[OF assms(1)]
      using True by (simp only: noisy_recording_def of_nat_less_iff prod.case if_True option.distinct not_False_eq_True simp_thms
        map_append concat_append append_assoc)
  next
    case False
    then have "b = unat len" using assms(2) by simp
    then show ?thesis unfolding generate_event_def Let_def u s1 prod.case tone_until_run[OF assms(1)]
      by (simp only: noisy_recording_def less_irrefl prod.case simp_thms if_False diff_self_eq_0 replicate_0
        map_append concat_append append_assoc list.map concat.simps append_Nil2)
  qed
qed

lemma generate_loop_noise:
  assumes "c' \<noteq> EOF" "0 < unat len" "getNumFromText s = Some (int a, show_nat b @ TAB # c # LF # r)"
    and "b < 2147483648" "a \<le> b" "b \<le> unat len" "c \<in> set dtmf_symbol_names"
  shows "generate_loop (Some f) l len c' 0 s out = Some (0, out @ noisy_recording (Some f) l (a, b, c) (unat len))"
proof -
  have "int 0 < uint len" using assms(2) unfolding uint_nat of_nat_less_iff .
  moreover have "getSymbolFromText (c # LF # r) = (c, LF # r)"
    by (simp add: getSymbolFromText_def EOF_def code_of_def)
  moreover have "generate_loop (Some f) l len d (uint len) t out = Some (0, out)" for d t out
    by (subst generate_loop.simps) simp
  ultimately show ?thesis using assms generate_event_noise[OF assms(5,6), of f l c out]
    by (subst generate_loop.simps) (simp add: getNumFromText_show_nat checkSymbolIsCorrect_iff)
qed

lemma generate_renders_noise:
  assumes "events_within 0 (unat len) ((a, b, c) # evs)" "unat len < 2147483648"
  shows "dtmf_generate (Some f) l (concat (map event_text ((a, b, c) # evs))) len
    = Ret (0, snd (audio_write_header (dtmf_header len))
        @ noisy_recording (Some f) l (nat (digits_value (tl (show_nat a))), b, c) (unat len))"
proof -
  obtain d ds where d: "show_nat a = d # ds" by (cases "show_nat a") auto
  define a' where "a' = nat (digits_value ds)"
  have dig: "\<forall>c\<in>set (d # ds). is_digit c" using show_nat_digits[of a] d by simp
  have w: "a < b" "b \<le> unat len" "c \<in> set dtmf_symbol_names" using assms by simp_all
  have "0 \<le> digits_value ds" using dig by (intro digits_value_nonneg) simp
  moreover have "digits_value ds \<le> int a"
    using digits_value_suffix[of "[d]" ds] dig show_nat_value[of a] d by simp
  ultimately have a': "int a' = digits_value ds" "a' \<le> a" by (simp_all add: a'_def)
  have line: "fgetc_text (concat (map event_text ((a, b, c) # evs)))
    = (code_of d, ds @ TAB # show_nat b @ TAB # c # LF # concat (map event_text evs))"
    by (simp add: event_text_unfold[OF w(3)] d del: event_text.simps)
  have num: "getNumFromText (ds @ TAB # show_nat b @ TAB # c # LF # concat (map event_text evs))
      = Some (int a', show_nat b @ TAB # c # LF # concat (map event_text evs))"
    using dig a' w assms(2) by (simp add: getNumFromText_digits)
  have "generate_loop (Some f) l len (code_of d) 0 (ds @ TAB # show_nat b @ TAB # c # LF # concat (map event_text evs)) out
    = Some (0, out @ noisy_recording (Some f) l (a', b, c) (unat len))" for out
    by (rule generate_loop_noise[OF _ _ num]) (use w a' assms(2) in \<open>simp_all add: code_of_def EOF_def\<close>)
  then show ?thesis
    unfolding dtmf_generate_def Let_def line by (simp add: d a'_def)
qed

text \<open>
  C18: For a well-formed list of events the output is the header followed by the samples.
  Without a noise file these are, for each index up to the end of the last event, the tone
  that the code computes for the event the index lies in, or zero; with one, only the first
  event is rendered, scaled, and zeros follow up to the requested length. In both cases the
  first event starts at its start index without its first digit.
\<close>

lemma dtmf_generate_renders:
  assumes "events_within 0 (unat len) ((a, b, c) # evs)" "unat len < 2147483648"
  shows "dtmf_generate noise_file l (concat (map event_text ((a, b, c) # evs))) len
    = Ret (0, snd (audio_write_header (dtmf_header len))
        @ (if noise_file = None
           then recording ((nat (digits_value (tl (show_nat a))), b, c) # evs) 0 (last_end 0 ((a, b, c) # evs))
           else noisy_recording noise_file l (nat (digits_value (tl (show_nat a))), b, c) (unat len)))"
  using generate_renders[OF assms] generate_renders_noise[OF assms] by (cases noise_file) simp_all

end
