(* ===== verification/Dtmf_Goertzel.thy ===== *)
theory Dtmf_Goertzel imports Complex_Main Prelude begin

text \<open>
  The Goertzel filter (hw1, goertzel.c). \<open>double\<close> is modelled as the reals: the theory shows what the
  formulas compute, not how they round. \<open>N\<close> stays a 32-bit word, since the last division is by the
  word \<open>N * N\<close>.
\<close>

record goertzel_state =
  g_N :: u32
  g_k :: real
  g_A :: real
  g_B :: real
  g_s0 :: real
  g_s1 :: real
  g_s2 :: real

definition word_double :: "u32 \<Rightarrow> real" where
  "word_double w = real (unat w)"

definition goertzel_init :: "u32 \<Rightarrow> real \<Rightarrow> goertzel_state" where
  "goertzel_init N k =
    (let A = 2 * pi * (k / word_double N); B = 2 * cos A
     in \<lparr>g_N = N, g_k = k, g_A = A, g_B = B, g_s0 = 0, g_s1 = 0, g_s2 = 0\<rparr>)"

definition goertzel_step :: "goertzel_state \<Rightarrow> real \<Rightarrow> goertzel_state" where
  "goertzel_step gp x =
    (let s0 = x + g_B gp * g_s1 gp - g_s2 gp; s2 = g_s1 gp; s1 = s0
     in gp\<lparr>g_s0 := s0, g_s2 := s2, g_s1 := s1\<rparr>)"

definition goertzel_strength :: "goertzel_state \<Rightarrow> real \<Rightarrow> real" where
  "goertzel_strength gp x =
    (let s0 = x + g_B gp * g_s1 gp - g_s2 gp;
         realC = cos (g_A gp);
         imaginaryC = - 1 * sin (g_A gp);
         realY = s0 - g_s1 gp * realC;
         imaginaryY = \<bar>g_s1 gp * imaginaryC\<bar>;
         realD = cos (2 * pi * g_k gp / word_double (g_N gp) * word_double (g_N gp - 1));
         imaginaryD = - 1 * sin (2 * pi * g_k gp / word_double (g_N gp) * word_double (g_N gp - 1));
         therealY = realY * realD - imaginaryY * imaginaryD;
         theimaginaryY = realY * imaginaryD + imaginaryY * realD
     in 2 * \<bar>therealY * therealY + theimaginaryY * theimaginaryY\<bar> / word_double (g_N gp * g_N gp))"

section \<open>The filter computes a Fourier coefficient\<close>

text \<open>The coefficient at angle \<open>A\<close> of a finite signal, by its textbook sum.\<close>

definition fourier :: "real \<Rightarrow> real list \<Rightarrow> complex" where
  "fourier A xs = (\<Sum>j<length xs. of_real (xs ! j) * cis (- A * real j))"

lemma fourier_snoc: "fourier A (xs @ [x]) = fourier A xs + of_real x * cis (- A * real (length xs))"
  by (simp add: fourier_def nth_append)

lemma cis_plus_cis_minus: "cis A + cis (- A) = of_real (2 * cos A)"
  by (simp add: complex_eq_iff)

lemma goertzel_run_constants:
  "g_N (foldl goertzel_step gp xs) = g_N gp \<and> g_k (foldl goertzel_step gp xs) = g_k gp
   \<and> g_A (foldl goertzel_step gp xs) = g_A gp \<and> g_B (foldl goertzel_step gp xs) = g_B gp"
  by (induction xs rule: rev_induct) (simp_all add: goertzel_step_def Let_def)

lemma filter_invariant:
  fixes gp :: goertzel_state
  assumes "g_B gp = 2 * cos A" "g_s1 gp = 0" "g_s2 gp = 0"
  defines "st xs \<equiv> foldl goertzel_step gp xs"
  shows "cis A * (of_real (g_s1 (st xs)) - cis (- A) * of_real (g_s2 (st xs))) = cis (A * real (length xs)) * fourier A xs"
proof (induction xs rule: rev_induct)
  case Nil
  then show ?case by (simp add: st_def assms fourier_def)
next
  case (snoc x xs)
  let ?s1 = "of_real (g_s1 (st xs)) :: complex" and ?s2 = "of_real (g_s2 (st xs)) :: complex"
  have B: "g_B (st xs) = 2 * cos A" using goertzel_run_constants[of gp xs] assms by simp
  have "of_real (g_s1 (st (xs @ [x]))) - cis (- A) * of_real (g_s2 (st (xs @ [x])))
     = of_real x + (of_real (2 * cos A) - cis (- A)) * ?s1 - ?s2"
    using B by (simp add: st_def goertzel_step_def Let_def algebra_simps)
  also have "of_real (2 * cos A) - cis (- A) = cis A" using cis_plus_cis_minus[of A] by (metis add_diff_cancel_right')
  also have "of_real x + cis A * ?s1 - ?s2 = of_real x + cis A * (?s1 - cis (- A) * ?s2)"
    by (simp add: right_diff_distrib mult.assoc[symmetric] cis_mult)
  finally have "of_real (g_s1 (st (xs @ [x]))) - cis (- A) * of_real (g_s2 (st (xs @ [x])))
     = of_real x + cis (A * real (length xs)) * fourier A xs" using snoc by simp
  moreover have "cis A * cis (A * real (length xs)) = cis (A * real (length (xs @ [x])))"
    by (simp add: cis_mult algebra_simps)
  moreover have "cis (A * real (length (xs @ [x]))) * cis (- A * real (length xs)) = cis A"
    by (simp add: cis_mult algebra_simps)
  ultimately show ?case
    by (simp add: fourier_snoc distrib_left mult.assoc[symmetric] del: length_append)
qed

lemma unimodular_squares:
  fixes a b t :: real
  shows "(a * cos t - \<bar>b\<bar> * (- 1 * sin t)) * (a * cos t - \<bar>b\<bar> * (- 1 * sin t))
    + (a * (- 1 * sin t) + \<bar>b\<bar> * cos t) * (a * (- 1 * sin t) + \<bar>b\<bar> * cos t) = a\<^sup>2 + b\<^sup>2"
proof -
  have "(a * cos t - \<bar>b\<bar> * (- 1 * sin t)) * (a * cos t - \<bar>b\<bar> * (- 1 * sin t))
    + (a * (- 1 * sin t) + \<bar>b\<bar> * cos t) * (a * (- 1 * sin t) + \<bar>b\<bar> * cos t)
    = (a\<^sup>2 + \<bar>b\<bar>\<^sup>2) * ((cos t)\<^sup>2 + (sin t)\<^sup>2)"
    by algebra
  then show ?thesis by simp
qed

lemma word_double_square: "unat N < 65536 \<Longrightarrow> word_double (N * N) = (word_double N)\<^sup>2"
proof -
  assume n: "unat N < 65536"
  then have "unat N * unat N < 65536 * 65536" by (intro mult_strict_mono) auto
  then have "unat (N * N) = unat N * unat N" by (intro unat_mult_lem[THEN iffD1]) simp
  then show ?thesis by (simp add: word_double_def power2_eq_square)
qed

lemma goertzel_fourier:
  assumes "unat N = Suc (length xs)" "unat N < 65536"
  shows "goertzel_strength (foldl goertzel_step (goertzel_init N k) xs) x
       = 2 * (cmod (fourier (2 * pi * k / real (unat N)) (xs @ [x])))\<^sup>2 / (real (unat N))\<^sup>2"
proof -
  define A where "A = 2 * pi * k / real (unat N)"
  define gp where "gp = foldl goertzel_step (goertzel_init N k) xs"
  define y where "y = of_real (g_s1 (goertzel_step gp x)) - cis (- A) * of_real (g_s2 (goertzel_step gp x))"
  have c: "g_N gp = N" "g_k gp = k" "g_A gp = A" "g_B gp = 2 * cos A"
    using goertzel_run_constants[of "goertzel_init N k" xs]
    by (simp_all add: gp_def goertzel_init_def Let_def A_def word_double_def)
  have "cis A * y = cis (A * real (length (xs @ [x]))) * fourier A (xs @ [x])"
    using filter_invariant[of "goertzel_init N k" A "xs @ [x]"]
    by (simp add: y_def gp_def goertzel_init_def Let_def A_def word_double_def)
  then have "cmod y = cmod (fourier A (xs @ [x]))" by (metis norm_mult norm_cis mult_1)
  moreover have "(cmod y)\<^sup>2 = (x + g_B gp * g_s1 gp - g_s2 gp - g_s1 gp * cos A)\<^sup>2 + (g_s1 gp * (- 1 * sin A))\<^sup>2"
    unfolding cmod_power2 by (simp add: y_def goertzel_step_def Let_def mult.commute)
  ultimately show ?thesis
    unfolding goertzel_strength_def Let_def gp_def[symmetric] c unimodular_squares word_double_square[OF assms(2)] A_def[symmetric]
    by (simp add: word_double_def)
qed

text \<open>
  C13: Stepping the filter over all samples but the last and taking the strength with the last
  one gives twice the squared magnitude of the Fourier coefficient of the block at its
  frequency, over the squared block length (over the reals, for fewer than 65536 samples).
\<close>

lemma goertzel_is_fourier:
  assumes "unat N = Suc (length xs)" "unat N < 65536"
  shows "goertzel_strength (foldl goertzel_step (goertzel_init N k) xs) x
       = 2 * (cmod (fourier (2 * pi * k / real (unat N)) (xs @ [x])))\<^sup>2 / (real (unat N))\<^sup>2"
  by (rule goertzel_fourier[OF assms])

end
