(* ===== verification/Dtmf_Detect.thy ===== *)
theory Dtmf_Detect imports Dtmf_Generate Dtmf_Goertzel begin

text \<open>
  Detecting tones (hw1, the second half of dtmf.c). The audio is cut into blocks, each block gets a
  verdict from the strengths of the eight frequencies, and consecutive verdicts are joined into
  events. The global \<open>block_size\<close> is an argument. Local variables that C leaves uninitialised are
  \<open>None\<close> until they are assigned. Sample indices are integers (fewer than \<open>2 ^ 31\<close> samples).
\<close>

definition dtmf_freqs :: "int list" where
  "dtmf_freqs = [697, 770, 852, 941, 1209, 1336, 1477, 1633]"

definition FOUR_DB :: real where "FOUR_DB = 2.51188643151"
definition SIX_DB :: real where "SIX_DB = 3.981071706"
definition MINUS_20DB :: real where "MINUS_20DB = 0.01"
definition MIN_DTMF_DURATION :: real where "MIN_DTMF_DURATION = 0.03"

section \<open>The verdict on a block\<close>

text \<open>
  Comparisons of a quotient of two strengths, which are not negative. A division by zero gives
  infinity or NaN in C: it is never less than a bound, and greater than one unless both are zero.
\<close>

definition quotient_less :: "real \<Rightarrow> real \<Rightarrow> real \<Rightarrow> bool" where
  "quotient_less a b bound \<longleftrightarrow> b \<noteq> 0 \<and> a / b < bound"

definition quotient_greater :: "real \<Rightarrow> real \<Rightarrow> real \<Rightarrow> bool" where
  "quotient_greater a b bound \<longleftrightarrow> (if b = 0 then a > 0 else a / b > bound)"

definition is_greater_than_other_frequencies :: "real \<Rightarrow> real \<Rightarrow> real \<Rightarrow> real \<Rightarrow> int" where
  "is_greater_than_other_frequencies strongest o1 o2 o3 =
    (if quotient_less strongest o1 SIX_DB \<or> quotient_less strongest o2 SIX_DB \<or> quotient_less strongest o3 SIX_DB
     then -1 else 0)"

definition validate_strongest_frequencies :: "real \<Rightarrow> real \<Rightarrow> real list \<Rightarrow> int" where
  "validate_strongest_frequencies row col g =
    (let r = (if row = g ! 0 then is_greater_than_other_frequencies row (g ! 1) (g ! 2) (g ! 3)
              else if row = g ! 1 then is_greater_than_other_frequencies row (g ! 0) (g ! 2) (g ! 3)
              else if row = g ! 2 then is_greater_than_other_frequencies row (g ! 1) (g ! 0) (g ! 3)
              else is_greater_than_other_frequencies row (g ! 0) (g ! 1) (g ! 2))
     in if r = -1 then -1
        else
          (let c = (if col = g ! 4 then is_greater_than_other_frequencies col (g ! 5) (g ! 6) (g ! 7)
                    else if col = g ! 5 then is_greater_than_other_frequencies col (g ! 4) (g ! 6) (g ! 7)
                    else if col = g ! 6 then is_greater_than_other_frequencies col (g ! 4) (g ! 5) (g ! 7)
                    else is_greater_than_other_frequencies col (g ! 4) (g ! 5) (g ! 6))
           in if c = -1 then -1 else 0))"

text \<open>The strongest of four strengths, the first one when there are several, with its frequency.\<close>

definition strongest :: "real list \<Rightarrow> int list \<Rightarrow> real \<times> int" where
  "strongest g fs = foldl (\<lambda>(best, freq) (s, f). if s > best then (s, f) else (best, freq))
     (hd g, hd fs) (zip (tl g) (tl fs))"

text \<open>The row and the column of a block, and whether it holds a tone (\<open>found_tone\<close> stays 1).\<close>

definition block_verdict :: "real list \<Rightarrow> int \<times> int \<times> bool" where
  "block_verdict g =
    (let (row_strength, row) = strongest (take 4 g) (take 4 dtmf_freqs);
         (col_strength, col) = strongest (drop 4 g) (drop 4 dtmf_freqs);
         found = (if col_strength + row_strength < MINUS_20DB then False
           else if quotient_less row_strength col_strength (1 / FOUR_DB) \<or> quotient_greater row_strength col_strength FOUR_DB then False
           else if validate_strongest_frequencies row_strength col_strength g = -1 then False
           else True)
     in (row, col, found))"

section \<open>Joining blocks into events\<close>

record scan =
  start_index :: int
  end_index :: int
  prev_row :: int
  prev_col :: int
  curr_row :: "int option"
  curr_col :: "int option"
  duration :: "real option"
  events_out :: string

definition first_scan :: scan where
  "first_scan = \<lparr>start_index = 0, end_index = 0, prev_row = -1, prev_col = -1, curr_row = None, curr_col = None,
     duration = None, events_out = []\<rparr>"

definition report_event :: "real \<Rightarrow> int \<Rightarrow> scan \<Rightarrow> scan" where
  "report_event d block_size sc = (if d \<ge> MIN_DTMF_DURATION
     then sc\<lparr>events_out := events_out sc @ write_to_detect_output (start_index sc) (end_index sc - block_size) (prev_row sc) (prev_col sc)\<rparr>
     else sc)"

text \<open>The rest of the loop body, once the verdict on the block is known.\<close>

definition end_block :: "int \<Rightarrow> int \<times> int \<times> bool \<Rightarrow> scan \<Rightarrow> scan" where
  "end_block block_size verdict sc =
    (let (row, col, found) = verdict;
         sc = sc\<lparr>curr_row := Some row, curr_col := Some col\<rparr>;
         sc = (if prev_col sc = -1 \<and> prev_row sc = -1 then sc\<lparr>prev_col := col, prev_row := row\<rparr> else sc);
         d = real_of_int (end_index sc - start_index sc) / 8000;
         sc = sc\<lparr>duration := Some d\<rparr>;
         sc = (if \<not> found then
                 (let sc = report_event d block_size sc in sc\<lparr>start_index := end_index sc\<rparr>)
               else if prev_row sc \<noteq> row \<and> prev_col sc \<noteq> col then
                 (let sc = report_event d block_size sc in sc\<lparr>start_index := end_index sc - block_size\<rparr>)
               else sc)
     in sc\<lparr>prev_row := row, prev_col := col\<rparr>)"

definition close_scan :: "scan \<Rightarrow> string outcome" where
  "close_scan sc = (case (duration sc, curr_row sc, curr_col sc) of
      (Some d, Some row, Some col) \<Rightarrow>
        Ret (if d \<ge> MIN_DTMF_DURATION then events_out sc @ write_to_detect_output (start_index sc) (end_index sc) row col
             else events_out sc)
    | _ \<Rightarrow> Stuck Uninitialised)"

section \<open>Reading blocks\<close>

text \<open>
  The input side of the loop: the stream, the value \<open>end_file\<close> of the last read, and \<open>sample\<close>, which
  keeps its value when a read fails.
\<close>

record reader =
  audio_in :: stream
  end_file :: int
  sample :: "s16 option"

definition read_next :: "reader \<Rightarrow> reader" where
  "read_next rd = (case audio_read_sample (audio_in rd) 0 of (e, v, s) \<Rightarrow>
     \<lparr>audio_in = s, end_file = e, sample = (if e = EOF then sample rd else Some v)\<rparr>)"

definition converted :: "s16 \<Rightarrow> real" where
  "converted v = real_of_int (sint v) / 32767"

definition init_filters :: "int \<Rightarrow> goertzel_state list" where
  "init_filters block_size = map (\<lambda>f. goertzel_init (word_of_int block_size) (real_of_int f * real_of_int block_size / 8000)) dtmf_freqs"

text \<open>The \<open>for\<close> loop: \<open>n\<close> samples are still to be read; it stops early at the end of the file.\<close>

fun step_loop :: "nat \<Rightarrow> goertzel_state list \<Rightarrow> reader \<Rightarrow> scan \<Rightarrow> goertzel_state list \<times> reader \<times> scan" where
  "step_loop 0 gs rd sc = (gs, rd, sc)"
| "step_loop (Suc n) gs rd sc =
    (let rd = read_next rd in
     if end_file rd = EOF then (gs, rd, sc)
     else (case sample rd of
         None \<Rightarrow> (gs, rd, sc)
       | Some v \<Rightarrow> step_loop n (map (\<lambda>g. goertzel_step g (converted v)) gs) rd (sc\<lparr>end_index := end_index sc + 1\<rparr>)))"

definition detect_block :: "int \<Rightarrow> reader \<Rightarrow> scan \<Rightarrow> (reader \<times> scan) outcome" where
  "detect_block block_size rd sc =
    (case step_loop (nat (block_size - 1)) (init_filters block_size) rd sc of (gs, rd, sc) \<Rightarrow>
       if end_file rd = EOF then Ret (rd, sc)
       else
         (let rd = read_next rd in case sample rd of
             None \<Rightarrow> Stuck Uninitialised
           | Some v \<Rightarrow>
               (let sc = sc\<lparr>end_index := end_index sc + 1\<rparr>;
                    goertzel_strengths = map (\<lambda>g. goertzel_strength g (converted v)) gs
                in Ret (rd, end_block block_size (block_verdict goertzel_strengths) sc))))"

lemma audio_read_sample_shorter:
  assumes "audio_read_sample s v = (e, w, t)" "e \<noteq> EOF"
  shows "length t < length s"
proof (cases s)
  case Nil
  then show ?thesis using assms by simp
next
  case s: (Cons a s')
  show ?thesis
  proof (cases s')
    case Nil
    then have "t = []" using assms s unfolding audio_read_sample_def Let_def by (simp split: if_splits)
    then show ?thesis using s by simp
  next
    case (Cons b s'')
    then show ?thesis using assms s audio_read_sample_two[of a b s'' v] by simp
  qed
qed

lemma read_next_shorter: "end_file (read_next rd) \<noteq> EOF \<Longrightarrow> length (audio_in (read_next rd)) < length (audio_in rd)"
  by (cases "audio_read_sample (audio_in rd) 0") (simp add: read_next_def audio_read_sample_shorter)

lemma read_next_not_longer: "length (audio_in (read_next rd)) \<le> length (audio_in rd)"
proof (cases "end_file (read_next rd) = EOF")
  case True
  obtain e v t where a: "audio_read_sample (audio_in rd) 0 = (e, v, t)" by (metis surj_pair)
  then have "e = EOF" using True by (simp add: read_next_def)
  then have "t = audio_in rd \<or> t = tl (audio_in rd)"
    using a by (cases "audio_in rd") (auto simp: audio_read_sample_def Let_def EOF_def split: if_splits prod.splits)
  then show ?thesis using a by (auto simp: read_next_def)
qed (simp add: read_next_shorter less_imp_le)

lemma step_loop_not_longer: "step_loop n gs rd sc = (gs', rd', sc') \<Longrightarrow> length (audio_in rd') \<le> length (audio_in rd)"
proof (induction n arbitrary: gs rd sc)
  case (Suc n)
  have "length (audio_in rd') \<le> length (audio_in (read_next rd))"
    using Suc.prems Suc.IH by (fastforce simp: Let_def split: if_splits option.splits)
  then show ?case using read_next_not_longer[of rd] by simp
qed simp

lemma detect_block_shorter:
  assumes "detect_block bs rd sc = Ret (rd', sc')" "end_file rd' \<noteq> EOF"
  shows "length (audio_in rd') < length (audio_in rd)"
proof -
  obtain gs rd1 sc1 where l: "step_loop (nat (bs - 1)) (init_filters bs) rd sc = (gs, rd1, sc1)" by (metis prod_cases3)
  then have "rd' = read_next rd1"
    using assms by (auto simp: detect_block_def Let_def split: if_splits option.splits)
  then show ?thesis using step_loop_not_longer[OF l] read_next_shorter[of rd1] assms(2) by simp
qed

text \<open>
  The \<open>while\<close> loop. Both of its \<open>break\<close>s are taken when the last read met the end of the file, which
  ends the loop as well. Every turn that does not meet it shortens the input.
\<close>

function detect_loop :: "int \<Rightarrow> reader \<Rightarrow> scan \<Rightarrow> scan outcome" where
  "detect_loop block_size rd sc =
    (if end_file rd \<noteq> EOF then
       (case detect_block block_size rd sc of
          Stuck e \<Rightarrow> Stuck e
        | Ret (rd', sc') \<Rightarrow> if end_file rd' = EOF then Ret sc' else detect_loop block_size rd' sc')
     else Ret sc)"
  by pat_completeness auto
termination by (relation "measure (\<lambda>(_, rd, _). length (audio_in rd))") (auto dest: detect_block_shorter)

declare detect_loop.simps [simp del]

definition dtmf_detect :: "int \<Rightarrow> stream \<Rightarrow> (int \<times> string) outcome" where
  "dtmf_detect block_size s =
    (case audio_read_header s (dtmf_header 0) of (e, header, s) \<Rightarrow>
       if e = EOF then Ret (EOF, [])
       else andThen (detect_loop block_size \<lparr>audio_in = s, end_file = 1, sample = None\<rparr> first_scan) (\<lambda>sc.
            andThen (close_scan sc) (\<lambda>out. Ret (0, out))))"

section \<open>What the loop computes\<close>

text \<open>
  The specification: the strength of a frequency in a block is twice the squared magnitude of its
  Fourier coefficient over the squared block size; verdicts are folded over the full blocks, and the
  samples of an incomplete last block only count towards the total. An incomplete block that lacks
  exactly one sample is heard as a full one, its last sample taken twice: the read that fails leaves
  the variable of the sample alone, and its result is not looked at before the block is used.
\<close>

definition spectrum :: "s16 list \<Rightarrow> real list" where
  "spectrum vs = map (\<lambda>f. 2 * (cmod (fourier (2 * pi * real_of_int f / 8000) (map converted vs)))\<^sup>2 / (real (length vs))\<^sup>2) dtmf_freqs"

definition count_samples :: "nat \<Rightarrow> scan \<Rightarrow> scan" where
  "count_samples n sc = sc\<lparr>end_index := end_index sc + int n\<rparr>"

definition scan_verdicts :: "nat \<Rightarrow> (int \<times> int \<times> bool) list \<Rightarrow> scan \<Rightarrow> scan" where
  "scan_verdicts bs verdicts sc = foldl (\<lambda>sc v. end_block (int bs) v (count_samples bs sc)) sc verdicts"

definition samples_bytes :: "s16 list \<Rightarrow> stream" where
  "samples_bytes vs = concat (map audio_write_sample vs)"

lemma samples_bytes_simps [simp]:
  "samples_bytes [] = []" "samples_bytes (v # vs) = audio_write_sample v @ samples_bytes vs"
  "samples_bytes (vs @ ws) = samples_bytes vs @ samples_bytes ws"
  by (simp_all add: samples_bytes_def)

definition heard :: "nat \<Rightarrow> s16 list list \<Rightarrow> s16 list \<Rightarrow> s16 list list" where
  "heard bs blocks rest = blocks @ (if length rest + 1 = bs then [rest @ [last rest]] else [])"

definition unheard :: "nat \<Rightarrow> s16 list \<Rightarrow> nat" where
  "unheard bs rest = (if length rest + 1 = bs then 0 else length rest)"

lemma heard_Cons [simp]: "heard bs (b # blocks) rest = b # heard bs blocks rest"
  by (simp add: heard_def)

lemma heard_short [simp]: "length rest + 1 < bs \<Longrightarrow> heard bs blocks rest = blocks" "length rest + 1 < bs \<Longrightarrow> unheard bs rest = length rest"
  by (simp_all add: heard_def unheard_def)

lemma count_samples_simps [simp]:
  "count_samples 0 sc = sc" "(count_samples n sc)\<lparr>end_index := end_index (count_samples n sc) + 1\<rparr> = count_samples (Suc n) sc"
  "count_samples n (sc\<lparr>end_index := end_index sc + 1\<rparr>) = count_samples (Suc n) sc"
  by (simp_all add: count_samples_def add_ac)

lemma read_next_sample:
  "audio_in rd = audio_write_sample v @ t \<Longrightarrow> read_next rd = \<lparr>audio_in = t, end_file = 0, sample = Some v\<rparr>"
  by (simp add: read_next_def audio_read_sample_written EOF_def)

lemma read_next_end: "audio_in rd = [] \<Longrightarrow> read_next rd = \<lparr>audio_in = [], end_file = EOF, sample = sample rd\<rparr>"
  by (simp add: read_next_def)

lemma step_loop_full:
  "audio_in rd = samples_bytes vs @ t \<Longrightarrow> end_file rd \<noteq> EOF \<Longrightarrow> \<exists>rd'. audio_in rd' = t \<and> end_file rd' \<noteq> EOF \<and>
   sample rd' = (if vs = [] then sample rd else Some (last vs)) \<and>
   step_loop (length vs) gs rd sc = (map (\<lambda>g. foldl goertzel_step g (map converted vs)) gs, rd', count_samples (length vs) sc)"
proof (induction vs arbitrary: gs rd sc)
  case (Cons v vs)
  let ?rd = "\<lparr>audio_in = samples_bytes vs @ t, end_file = 0, sample = Some v\<rparr>"
  have "read_next rd = ?rd" using Cons.prems by (intro read_next_sample) simp
  then show ?case
    using Cons.IH[of ?rd "map (\<lambda>g. goertzel_step g (converted v)) gs" "sc\<lparr>end_index := end_index sc + 1\<rparr>"]
    by (cases "vs = []", simp add: EOF_def comp_def count_samples_def) (simp add: EOF_def comp_def)
qed simp

lemma step_loop_partial:
  "audio_in rd = samples_bytes vs \<Longrightarrow> length vs < n \<Longrightarrow>
   \<exists>gs' rd'. end_file rd' = EOF \<and> step_loop n gs rd sc = (gs', rd', count_samples (length vs) sc)"
proof (induction vs arbitrary: n gs rd sc)
  case Nil
  then show ?case by (cases n) (simp_all add: read_next_end)
next
  case (Cons v vs)
  let ?rd = "\<lparr>audio_in = samples_bytes vs, end_file = 0, sample = Some v\<rparr>"
  obtain m where n: "n = Suc m" "length vs < m" using Cons.prems(2) by (cases n) auto
  have "read_next rd = ?rd" using Cons.prems by (intro read_next_sample) simp
  then show ?case
    using n Cons.IH[of ?rd m "map (\<lambda>g. goertzel_step g (converted v)) gs" "sc\<lparr>end_index := end_index sc + 1\<rparr>"]
    by (simp add: EOF_def)
qed

lemma filter_spectrum:
  assumes "2 \<le> bs" "bs < 65536" "length vs + 1 = bs"
  shows "map (\<lambda>g. goertzel_strength g (converted v)) (map (\<lambda>g. foldl goertzel_step g (map converted vs)) (init_filters (int bs)))
       = spectrum (vs @ [v])"
proof -
  let ?N = "word_of_int (int bs) :: u32"
  have N: "unat ?N = bs" using assms(2) by (simp add: unat_of_nat take_bit_nat_eq_self)
  have "goertzel_strength (foldl goertzel_step (goertzel_init ?N (real_of_int f * real_of_int (int bs) / 8000)) (map converted vs)) (converted v)
    = 2 * (cmod (fourier (2 * pi * real_of_int f / 8000) (map converted (vs @ [v]))))\<^sup>2 / (real (length (vs @ [v])))\<^sup>2" for f
  proof -
    have angle: "2 * pi * (real_of_int f * real_of_int (int bs) / 8000) / real bs = 2 * pi * real_of_int f / 8000"
      using assms(1) by simp
    have len: "length (vs @ [v]) = bs" "unat ?N = Suc (length (map converted vs))" "unat ?N < 65536" using assms N by simp_all
    show ?thesis unfolding goertzel_fourier[OF len(2,3)] N angle len(1) by simp
  qed
  then show ?thesis unfolding spectrum_def init_filters_def map_map comp_def by (simp only: map_append list.map)
qed

lemma detect_block_full:
  assumes "2 \<le> bs" "bs < 65536" "length vs = bs" "audio_in rd = samples_bytes vs @ t" "end_file rd \<noteq> EOF"
  obtains rd' where "audio_in rd' = t" "end_file rd' \<noteq> EOF"
    "detect_block (int bs) rd sc = Ret (rd', end_block (int bs) (block_verdict (spectrum vs)) (count_samples bs sc))"
proof -
  obtain ws v where vs: "vs = ws @ [v]" using assms(1,3) by (cases vs rule: rev_cases) auto
  then have ws: "length ws + 1 = bs" "nat (int bs - 1) = length ws" using assms(3) by auto
  obtain rd1 where l: "audio_in rd1 = audio_write_sample v @ t" "end_file rd1 \<noteq> EOF"
    "step_loop (length ws) (init_filters (int bs)) rd sc
      = (map (\<lambda>g. foldl goertzel_step g (map converted ws)) (init_filters (int bs)), rd1, count_samples (length ws) sc)"
    using step_loop_full[of rd ws "audio_write_sample v @ t" "init_filters (int bs)" sc] assms(4,5) vs by auto
  show ?thesis
    by (rule that[of "\<lparr>audio_in = t, end_file = 0, sample = Some v\<rparr>"])
      (use l ws filter_spectrum[OF assms(1,2) ws(1), of v] in \<open>simp_all add: detect_block_def Let_def read_next_sample EOF_def vs\<close>)
qed

text \<open>The last turn of the loop on an incomplete block.\<close>

lemma detect_block_rest:
  assumes "2 \<le> bs" "bs < 65536" "length rest < bs" "audio_in rd = samples_bytes rest" "end_file rd \<noteq> EOF"
  obtains rd' where "end_file rd' = EOF"
    "detect_block (int bs) rd sc
      = Ret (rd', count_samples (unheard bs rest) (scan_verdicts bs (map (\<lambda>b. block_verdict (spectrum b)) (heard bs [] rest)) sc))"
proof (cases "length rest + 1 = bs")
  case False
  then have u: "unheard bs rest = length rest" "heard bs [] rest = []" by (simp_all add: unheard_def heard_def)
  have "length rest < nat (int bs - 1)" using assms(3) False by simp
  then obtain gs' rd' where "end_file rd' = EOF"
    "step_loop (nat (int bs - 1)) (init_filters (int bs)) rd sc = (gs', rd', count_samples (length rest) sc)"
    using step_loop_partial[of rd rest _ "init_filters (int bs)" sc] assms(4) by fastforce
  then show ?thesis by (intro that[of rd']) (simp_all add: detect_block_def scan_verdicts_def u)
next
  case True
  then have u: "unheard bs rest = 0" "heard bs [] rest = [rest @ [last rest]]" "nat (int bs - 1) = length rest" "rest \<noteq> []"
    using assms(1) by (auto simp: unheard_def heard_def)
  obtain rd1 where l: "audio_in rd1 = []" "end_file rd1 \<noteq> EOF" "sample rd1 = Some (last rest)"
    "step_loop (length rest) (init_filters (int bs)) rd sc
      = (map (\<lambda>g. foldl goertzel_step g (map converted rest)) (init_filters (int bs)), rd1, count_samples (length rest) sc)"
    using step_loop_full[of rd rest "[]" "init_filters (int bs)" sc] assms(4,5) u(4) by auto
  show ?thesis
    by (rule that[of "\<lparr>audio_in = [], end_file = EOF, sample = Some (last rest)\<rparr>"])
      (use l u True filter_spectrum[OF assms(1,2) True, of "last rest"] in
        \<open>simp_all add: detect_block_def Let_def read_next_end scan_verdicts_def\<close>)
qed

lemma detect_loop_blocks:
  assumes "2 \<le> bs" "bs < 65536" "\<forall>b\<in>set blocks. length b = bs" "length rest < bs"
    and "audio_in rd = samples_bytes (concat blocks @ rest)" "end_file rd \<noteq> EOF"
  shows "detect_loop (int bs) rd sc
       = Ret (count_samples (unheard bs rest) (scan_verdicts bs (map (\<lambda>b. block_verdict (spectrum b)) (heard bs blocks rest)) sc))"
  using assms(3,5,6)
proof (induction blocks arbitrary: rd sc)
  case Nil
  have "audio_in rd = samples_bytes rest" using Nil.prems by simp
  then obtain rd' where "end_file rd' = EOF" "detect_block (int bs) rd sc
      = Ret (rd', count_samples (unheard bs rest) (scan_verdicts bs (map (\<lambda>b. block_verdict (spectrum b)) (heard bs [] rest)) sc))"
    using detect_block_rest[OF assms(1,2,4)] Nil.prems(3) by metis
  then show ?case using Nil.prems by (subst detect_loop.simps) simp
next
  case (Cons b blocks)
  have "length b = bs" "audio_in rd = samples_bytes b @ samples_bytes (concat blocks @ rest)" using Cons.prems by simp_all
  then obtain rd' where "audio_in rd' = samples_bytes (concat blocks @ rest)" "end_file rd' \<noteq> EOF"
    "detect_block (int bs) rd sc = Ret (rd', end_block (int bs) (block_verdict (spectrum b)) (count_samples bs sc))"
    using detect_block_full[OF assms(1,2)] Cons.prems(3) by metis
  then show ?case using Cons.IH Cons.prems by (subst detect_loop.simps) (simp add: scan_verdicts_def)
qed

lemma detect_blocks_spectral:
  assumes "audio_write_header h = (0, hdr)" "2 \<le> bs" "bs < 65536"
    and "\<forall>b\<in>set blocks. length b = bs" "length rest < bs"
  shows "dtmf_detect (int bs) (hdr @ samples_bytes (concat blocks @ rest))
    = andThen (close_scan (count_samples (unheard bs rest)
        (scan_verdicts bs (map (\<lambda>b. block_verdict (spectrum b)) (heard bs blocks rest)) first_scan))) (\<lambda>out. Ret (0, out))"
  using detect_loop_blocks[OF assms(2-5), of "\<lparr>audio_in = samples_bytes (concat blocks @ rest), end_file = 1, sample = None\<rparr>" first_scan]
  by (simp add: dtmf_detect_def audio_read_header_written[OF assms(1)] EOF_def)

text \<open>After a verdict the variables that the end of the function reads have values; before any they have none.\<close>

lemma end_block_assigned: "\<exists>d row col. duration (end_block bs v sc) = Some d \<and> curr_row (end_block bs v sc) = Some row \<and> curr_col (end_block bs v sc) = Some col"
  by (cases v) (auto simp: end_block_def report_event_def Let_def intro: exI[of _ "real_of_int (end_index sc - start_index sc) / 8000"])

lemma close_scan_verdicts:
  "\<exists>out. close_scan (count_samples n (scan_verdicts bs (vs @ [v]) sc)) = Ret out"
  using end_block_assigned[of "int bs" v "count_samples bs (scan_verdicts bs vs sc)"]
  by (auto simp: close_scan_def scan_verdicts_def count_samples_def)

lemma detect_spectral_result:
  assumes "audio_write_header h = (0, hdr)" "2 \<le> bs" "bs < 65536"
    and "\<forall>b\<in>set blocks. length b = bs" "length rest < bs"
  shows "if heard bs blocks rest = [] then dtmf_detect (int bs) (hdr @ samples_bytes (concat blocks @ rest)) = Stuck Uninitialised
    else \<exists>out. dtmf_detect (int bs) (hdr @ samples_bytes (concat blocks @ rest)) = Ret (0, out) \<and>
      close_scan (count_samples (unheard bs rest)
        (scan_verdicts bs (map (\<lambda>b. block_verdict (spectrum b)) (heard bs blocks rest)) first_scan)) = Ret out"
proof (cases "heard bs blocks rest" rule: rev_cases)
  case Nil
  have "close_scan (count_samples n first_scan) = Stuck Uninitialised" for n
    by (simp add: close_scan_def first_scan_def count_samples_def)
  then show ?thesis unfolding detect_blocks_spectral[OF assms] Nil by (simp add: scan_verdicts_def)
next
  case (snoc bl b)
  obtain out where o: "close_scan (count_samples (unheard bs rest)
      (scan_verdicts bs (map (\<lambda>b. block_verdict (spectrum b)) (heard bs blocks rest)) first_scan)) = Ret out"
    using close_scan_verdicts[of "unheard bs rest" bs "map (\<lambda>b. block_verdict (spectrum b)) bl" "block_verdict (spectrum b)" first_scan]
    by (auto simp: snoc)
  have "heard bs blocks rest \<noteq> []" by (simp add: snoc)
  then show ?thesis unfolding detect_blocks_spectral[OF assms] o by simp
qed

text \<open>
  C7: For every audio file of a valid header and whole samples, and for every block size from
  2 to 65535, dtmf_detect folds the event logic over the verdicts on the Fourier spectra of
  the blocks and returns what that gives. A last block that lacks exactly one sample counts as
  a block, its last sample taken twice; a shorter one only counts towards the number of
  samples. A file with no block at all makes it read variables that were never set.
\<close>

lemma detect_is_spectral:
  assumes "audio_write_header h = (0, hdr)" "2 \<le> bs" "bs < 65536"
    and "\<forall>b\<in>set blocks. length b = bs" "length rest < bs"
  shows "if heard bs blocks rest = [] then dtmf_detect (int bs) (hdr @ samples_bytes (concat blocks @ rest)) = Stuck Uninitialised
    else \<exists>out. dtmf_detect (int bs) (hdr @ samples_bytes (concat blocks @ rest)) = Ret (0, out) \<and>
      close_scan (count_samples (unheard bs rest)
        (scan_verdicts bs (map (\<lambda>b. block_verdict (spectrum b)) (heard bs blocks rest)) first_scan)) = Ret out"
  by (rule detect_spectral_result[OF assms])

end
