(* ===== verification/Dtmf_Events.thy ===== *)
theory Dtmf_Events imports Dtmf_Detect begin

text \<open>
  Which events the detector reports for given verdicts: runs of blocks with a tone, changes of tone,
  and silence.
\<close>

lemma scan_verdicts_simps [simp]:
  "scan_verdicts bs [] sc = sc"
  "scan_verdicts bs (v # vs) sc = scan_verdicts bs vs (end_block (int bs) v (count_samples bs sc))"
  "scan_verdicts bs (vs @ ws) sc = scan_verdicts bs ws (scan_verdicts bs vs sc)"
  by (simp_all add: scan_verdicts_def)

section \<open>Runs of blocks that share a row\<close>

text \<open>The scan after blocks with a tone have extended the current event.\<close>

definition extended :: "nat \<Rightarrow> int \<Rightarrow> int \<Rightarrow> scan \<Rightarrow> scan" where
  "extended n row col sc = sc\<lparr>end_index := end_index sc + int n, prev_row := row, prev_col := col,
     curr_row := Some row, curr_col := Some col,
     duration := Some (real_of_int (end_index sc + int n - start_index sc) / 8000)\<rparr>"

lemma same_row_extends:
  "prev_row sc = r \<Longrightarrow> r \<noteq> -1 \<Longrightarrow> end_block (int bs) (r, c, True) (count_samples bs sc) = extended bs r c sc"
  by (simp add: end_block_def count_samples_def extended_def Let_def)

lemma first_block_extends:
  "end_block (int bs) (r, c, True) (count_samples bs first_scan) = extended bs r c first_scan"
  by (simp add: end_block_def count_samples_def extended_def first_scan_def Let_def)

lemma extended_twice [simp]: "extended m r d (extended n r' c sc) = extended (n + m) r d sc"
  by (simp add: extended_def add_ac)

lemma extended_row [simp]: "prev_row (extended n r c sc) = r"
  by (simp add: extended_def)

lemma shared_row_run:
  "r \<noteq> -1 \<Longrightarrow> scan_verdicts bs (map (\<lambda>c. (r, c, True)) cols) (extended n r c sc)
    = extended (n + length cols * bs) r (last (c # cols)) sc"
  by (induction cols arbitrary: n c) (simp_all add: same_row_extends add_ac)

lemma shared_row_one_event:
  assumes "r \<noteq> -1"
  shows "close_scan (scan_verdicts bs (map (\<lambda>c. (r, c, True)) (c # cols)) first_scan)
    = Ret (if real (Suc (length cols) * bs) / 8000 \<ge> MIN_DTMF_DURATION
           then write_to_detect_output 0 (int (Suc (length cols) * bs)) r (last (c # cols)) else [])"
proof -
  have "scan_verdicts bs (map (\<lambda>c. (r, c, True)) (c # cols)) first_scan
    = extended (bs + length cols * bs) r (last (c # cols)) first_scan"
    using shared_row_run[OF assms, of bs cols bs c first_scan] by (simp add: first_block_extends del: last.simps)
  then show ?thesis by (simp add: extended_def close_scan_def first_scan_def del: last.simps list.map)
qed

section \<open>A change of row and column\<close>

lemma new_tone_starts:
  assumes "prev_row sc \<noteq> r" "prev_col sc \<noteq> c" "prev_row sc \<noteq> -1"
  shows "end_block (int bs) (r, c, True) (count_samples bs sc)
    = extended bs r c (sc\<lparr>start_index := end_index sc,
        events_out := events_out sc @ (if real_of_int (end_index sc + int bs - start_index sc) / 8000 \<ge> MIN_DTMF_DURATION
          then write_to_detect_output (start_index sc) (end_index sc) (prev_row sc) (prev_col sc) else [])\<rparr>)
      \<lparr>duration := Some (real_of_int (end_index sc + int bs - start_index sc) / 8000)\<rparr>"
  using assms by (simp add: end_block_def count_samples_def extended_def report_event_def Let_def)

lemma two_tones_two_events:
  assumes "r \<noteq> -1" "r' \<noteq> -1" "r \<noteq> r'" "c \<noteq> c'"
  shows "close_scan (scan_verdicts bs (replicate (Suc n) (r, c, True) @ replicate (Suc (Suc m)) (r', c', True)) first_scan)
    = Ret ((if real ((n + 2) * bs) / 8000 \<ge> MIN_DTMF_DURATION
            then write_to_detect_output 0 (int (Suc n * bs)) r c else [])
        @ (if real ((m + 2) * bs) / 8000 \<ge> MIN_DTMF_DURATION
            then write_to_detect_output (int (Suc n * bs)) (int ((n + m + 3) * bs)) r' c' else []))"
proof -
  define sc where "sc = extended (Suc n * bs) r c first_scan"
  define out where "out = (if real ((n + 2) * bs) / 8000 \<ge> MIN_DTMF_DURATION then write_to_detect_output 0 (int (Suc n * bs)) r c else [])"
  have rep: "replicate k (r, c, True) = map (\<lambda>c. (r, c, True)) (replicate k c)" for k and r c :: int by simp
  have last: "last (c # replicate k c) = c" for k and c :: int by (induction k) simp_all
  have first: "scan_verdicts bs (replicate (Suc n) (r, c, True)) first_scan = sc"
    using shared_row_run[OF assms(1), of bs "replicate n c" bs c first_scan] last
    by (simp add: first_block_extends rep sc_def del: map_replicate last.simps)
  define sc' where "sc' = sc\<lparr>start_index := end_index sc, events_out := out\<rparr>"
  have new: "end_block (int bs) (r', c', True) (count_samples bs sc)
    = (extended bs r' c' sc')\<lparr>duration := Some (real ((n + 2) * bs) / 8000)\<rparr>"
    using assms by (subst new_tone_starts)
      (simp_all add: sc_def sc'_def out_def extended_def first_scan_def algebra_simps)
  have "scan_verdicts bs (replicate (Suc (Suc m)) (r', c', True)) sc
    = scan_verdicts bs (replicate m (r', c', True)) (extended (bs + bs) r' c' sc')"
    unfolding replicate_Suc scan_verdicts_simps new
    by (subst same_row_extends) (use assms(2) in \<open>simp_all add: extended_def add_ac\<close>)
  also have "\<dots> = extended (bs + bs + m * bs) r' c' sc'"
    using shared_row_run[OF assms(2), of bs "replicate m c'" "bs + bs" c' sc'] last by (simp add: rep del: map_replicate last.simps)
  finally have second: "scan_verdicts bs (replicate (Suc (Suc m)) (r', c', True)) sc = extended (bs + bs + m * bs) r' c' sc'" .
  show ?thesis
    unfolding scan_verdicts_simps first second
    by (simp add: sc'_def sc_def out_def extended_def close_scan_def first_scan_def algebra_simps del: replicate_Suc)
qed

section \<open>Silence\<close>

lemma fourier_zero: "fourier A (replicate n 0) = 0"
  by (auto simp: fourier_def intro!: sum.neutral)

lemma silent_verdict: "block_verdict (spectrum (replicate bs 0)) = (697, 1209, False)"
proof -
  have "map converted (replicate bs 0) = replicate bs 0" by (simp add: converted_def)
  then have "spectrum (replicate bs 0) = [0, 0, 0, 0, 0, 0, 0, 0]"
    by (simp add: spectrum_def fourier_zero dtmf_freqs_def del: map_replicate)
  then show ?thesis by (simp add: block_verdict_def strongest_def dtmf_freqs_def MINUS_20DB_def)
qed

definition silent_line :: "nat \<Rightarrow> string" where
  "silent_line i = write_to_detect_output (int i) (int i) 697 1209"

lemma silent_scan:
  "scan_verdicts bs (replicate (Suc n) (697, 1209, False)) first_scan
    = \<lparr>start_index = int (Suc n * bs), end_index = int (Suc n * bs), prev_row = 697, prev_col = 1209,
       curr_row = Some 697, curr_col = Some 1209, duration = Some (real bs / 8000),
       events_out = (if 240 \<le> bs then concat (map (\<lambda>k. silent_line (k * bs)) [0..<Suc n]) else [])\<rparr>"
proof (induction n)
  case 0
  then show ?case
    by (simp add: end_block_def count_samples_def first_scan_def report_event_def MIN_DTMF_DURATION_def silent_line_def Let_def)
next
  case (Suc n)
  have "scan_verdicts bs (replicate (Suc (Suc n)) (697, 1209, False)) first_scan
    = end_block (int bs) (697, 1209, False) (count_samples bs (scan_verdicts bs (replicate (Suc n) (697, 1209, False)) first_scan))"
  proof -
    have "replicate (Suc (Suc n)) v = replicate (Suc n) v @ [v]" for v :: "int \<times> int \<times> bool"
      by (metis replicate_Suc replicate_append_same)
    then show ?thesis by (simp only: scan_verdicts_simps)
  qed
  then show ?case unfolding Suc
    by (simp add: end_block_def count_samples_def report_event_def MIN_DTMF_DURATION_def silent_line_def Let_def algebra_simps)
qed

text \<open>
  C34: With a block size below 240, full blocks of silence give no output; from 240 on, every
  silent block is reported as an empty event of symbol 1, and one more at the end.
\<close>

lemma silence_is_reported:
  assumes "audio_write_header h = (0, hdr)" "2 \<le> bs" "bs < 65536"
  shows "dtmf_detect (int bs) (hdr @ samples_bytes (replicate (Suc n * bs) 0))
    = Ret (0, if 240 \<le> bs then concat (map (\<lambda>k. silent_line (k * bs)) [0..<Suc (Suc n)]) else [])"
proof -
  have "replicate (Suc n * bs) 0 = concat (replicate (Suc n) (replicate bs (0::s16))) @ []"
    by (induction n) (simp_all add: replicate_add)
  moreover have short: "length ([]::s16 list) + 1 < bs" using assms(2) by simp
  ultimately have all: "dtmf_detect (int bs) (hdr @ samples_bytes (replicate (Suc n * bs) 0))
    = andThen (close_scan (scan_verdicts bs (replicate (Suc n) (697, 1209, False)) first_scan)) (\<lambda>out. Ret (0, out))"
    using detect_blocks_spectral[OF assms, of "replicate (Suc n) (replicate bs 0)" "[]"] assms(2)
    by (simp only: heard_short[OF short] silent_verdict map_replicate) simp
  show ?thesis unfolding all silent_scan
    by (simp add: close_scan_def MIN_DTMF_DURATION_def silent_line_def del: mult_Suc)
qed

end
