(* ===== verification/Dtmf_Args.thy ===== *)
theory Dtmf_Args imports Decimal begin

text \<open>
  The command line of the DTMF program (hw1, \<open>validargs\<close> of dtmf.c and the globals of const.h). A
  string is the list of its characters before the terminating NUL; reading past the NUL is
  \<open>Out_of_bounds\<close>. A failed validation returns -1 and leaves in the globals what it had written.
\<close>

record globals =
  global_options :: int
  noise_file :: "string option"
  noise_level :: int
  block_size :: int
  audio_samples :: int

section \<open>Numbers\<close>

text \<open>The loop over the characters after the first one: whether all were digits, and the value so far.\<close>

fun digit_loop :: "int \<Rightarrow> string \<Rightarrow> bool \<times> int" where
  "digit_loop v [] = (True, v)"
| "digit_loop v (c # s) = (if \<not> is_digit c then (False, v) else digit_loop (int32 (int32 (v * 10) + (code_of c - 48))) s)"

definition parse_time :: "string \<Rightarrow> globals \<Rightarrow> bool \<times> globals" where
  "parse_time arg g = (case arg of
      [] \<Rightarrow> (False, g)
    | c # s \<Rightarrow>
        if \<not> is_digit c then (False, g)
        else (case digit_loop (code_of c - 48) s of (ok, v) \<Rightarrow>
          if \<not> ok then (False, g\<lparr>audio_samples := v\<rparr>)
          else if v < 0 then (False, g\<lparr>audio_samples := v\<rparr>)
          else (True, g\<lparr>audio_samples := int32 (v * 8)\<rparr>)))"

text \<open>The value of a (signed) \<open>char\<close>.\<close>

definition schar :: "char \<Rightarrow> int" where
  "schar c = (if code_of c \<ge> 128 then code_of c - 256 else code_of c)"

text \<open>
  The noise level. Only the first character of the argument is tested; the one after a minus sign
  is taken for a digit as it is, and when it is the terminating NUL, the loop starts past the end.
  The test \<open>*char2 == '-'\<close> sees the minus sign, or else the second character of the flag.
\<close>

definition parse_level :: "string \<Rightarrow> globals \<Rightarrow> (bool \<times> globals) outcome" where
  "parse_level arg g =
    (let read = (\<lambda>neg s. case s of
        [] \<Rightarrow> Stuck Out_of_bounds
      | c # s \<Rightarrow>
          (case digit_loop (schar c - 48) s of (ok, v) \<Rightarrow>
            if \<not> ok then Ret (False, g\<lparr>noise_level := v\<rparr>)
            else (let v = (if neg then int32 (v * -1) else v) in
              if v < -30 \<or> v > 30 then Ret (False, g\<lparr>noise_level := v\<rparr>)
              else Ret (True, g\<lparr>noise_level := v\<rparr>))))
     in case arg of
        [] \<Rightarrow> Ret (False, g)
      | c # s \<Rightarrow>
          if \<not> is_digit c then (if c = CHR ''-'' then read True s else Ret (False, g))
          else read False arg)"

section \<open>The parameters of \<open>-g\<close>\<close>

text \<open>The local flags \<open>t\<close>, \<open>n\<close> and \<open>l\<close>: which parameters have been seen.\<close>

record seen =
  seen_t :: bool
  seen_n :: bool
  seen_l :: bool

definition none_seen :: seen where
  "none_seen = \<lparr>seen_t = False, seen_n = False, seen_l = False\<rparr>"

text \<open>
  One flag with its argument. A flag seen before is refused; for the first flag on the line the code
  leaves out this test, which cannot fail there. \<open>None\<close> is the return of -1.
\<close>

definition parse_param :: "string \<Rightarrow> string \<Rightarrow> seen \<Rightarrow> globals \<Rightarrow> (seen option \<times> globals) outcome" where
  "parse_param flag arg sn g =
    (if flag = ''-t'' then
       if seen_t sn then Ret (None, g)
       else (case parse_time arg g of (ok, g) \<Rightarrow> Ret (if ok then Some (sn\<lparr>seen_t := True\<rparr>) else None, g))
     else if flag = ''-n'' then
       if seen_n sn then Ret (None, g)
       else Ret (Some (sn\<lparr>seen_n := True\<rparr>), g\<lparr>noise_file := Some arg\<rparr>)
     else if flag = ''-l'' then
       if seen_l sn then Ret (None, g)
       else andThen (parse_level arg g) (\<lambda>(ok, g). Ret (if ok then Some (sn\<lparr>seen_l := True\<rparr>) else None, g))
     else Ret (None, g))"

definition param_defaults :: "seen \<Rightarrow> globals \<Rightarrow> globals" where
  "param_defaults sn g =
    (let g = (if \<not> seen_t sn then g\<lparr>audio_samples := 1000 * 8\<rparr> else g);
         g = (if \<not> seen_n sn then g\<lparr>noise_file := None\<rparr> else g)
     in if \<not> seen_l sn then g\<lparr>noise_level := 0\<rparr> else g)"

definition params_4 :: "string list \<Rightarrow> globals \<Rightarrow> (bool \<times> globals) outcome" where
  "params_4 argv g = andThen (parse_param (argv ! 2) (argv ! 3) none_seen g) (\<lambda>(sn, g).
     case sn of None \<Rightarrow> Ret (False, g) | Some sn \<Rightarrow> Ret (True, param_defaults sn g))"

definition params_6 :: "string list \<Rightarrow> globals \<Rightarrow> (bool \<times> globals) outcome" where
  "params_6 argv g = andThen (parse_param (argv ! 2) (argv ! 3) none_seen g) (\<lambda>(sn, g).
     case sn of None \<Rightarrow> Ret (False, g)
     | Some sn \<Rightarrow> andThen (parse_param (argv ! 4) (argv ! 5) sn g) (\<lambda>(sn, g).
         case sn of None \<Rightarrow> Ret (False, g) | Some sn \<Rightarrow> Ret (True, param_defaults sn g)))"

text \<open>With three parameters there is nothing left to default; the last one has its own copy of the code.\<close>

definition last_param_8 :: "string list \<Rightarrow> seen \<Rightarrow> globals \<Rightarrow> (bool \<times> globals) outcome" where
  "last_param_8 argv sn g = andThen (parse_param (argv ! 6) (argv ! 7) sn g) (\<lambda>(sn, g). Ret (sn \<noteq> None, g))"

definition params_8 :: "string list \<Rightarrow> globals \<Rightarrow> (bool \<times> globals) outcome" where
  "params_8 argv g = andThen (parse_param (argv ! 2) (argv ! 3) none_seen g) (\<lambda>(sn, g).
     case sn of None \<Rightarrow> Ret (False, g)
     | Some sn \<Rightarrow> andThen (parse_param (argv ! 4) (argv ! 5) sn g) (\<lambda>(sn, g).
         case sn of None \<Rightarrow> Ret (False, g) | Some sn \<Rightarrow> last_param_8 argv sn g))"

section \<open>\<open>validargs\<close>\<close>

definition parse_block_size :: "string \<Rightarrow> globals \<Rightarrow> bool \<times> globals" where
  "parse_block_size arg g = (case arg of
      [] \<Rightarrow> (False, g)
    | c # s \<Rightarrow>
        if \<not> is_digit c then (False, g)
        else (case digit_loop (code_of c - 48) s of (ok, v) \<Rightarrow>
          (ok \<and> v \<ge> 10 \<and> v \<le> 1000, g\<lparr>block_size := v\<rparr>)))"

definition validargs_g :: "string list \<Rightarrow> globals \<Rightarrow> (int \<times> globals) outcome" where
  "validargs_g argv g = andThen
     (if length argv = 2 then Ret (True, g\<lparr>audio_samples := 1000 * 8, noise_file := None, noise_level := 0\<rparr>)
      else if length argv = 4 then params_4 argv g
      else if length argv = 6 then params_6 argv g
      else if length argv = 8 then params_8 argv g
      else Ret (False, g))
     (\<lambda>(ok, g). if ok then Ret (0, g\<lparr>global_options := global_options g OR 2\<rparr>) else Ret (-1, g))"

definition validargs_d :: "string list \<Rightarrow> globals \<Rightarrow> int \<times> globals" where
  "validargs_d argv g = (case
     (if length argv = 2 then (True, g\<lparr>block_size := 100\<rparr>)
      else if length argv = 4 then (if argv ! 2 = ''-b'' then parse_block_size (argv ! 3) g else (False, g))
      else (False, g)) of
     (ok, g) \<Rightarrow> if ok then (0, g\<lparr>global_options := global_options g OR 4\<rparr>) else (-1, g))"

definition validargs :: "string list \<Rightarrow> globals \<Rightarrow> (int \<times> globals) outcome" where
  "validargs argv g =
    (if length argv = 1 then Ret (-1, g)
     else if argv ! 1 = ''-h'' then Ret (0, g\<lparr>global_options := global_options g OR 1\<rparr>)
     else if argv ! 1 = ''-g'' then validargs_g argv g
     else if argv ! 1 = ''-d'' then Ret (validargs_d argv g)
     else Ret (-1, g))"

section \<open>Round trip\<close>

datatype param = Time nat | Noise string | Level int

fun param_words :: "param \<Rightarrow> string list" where
  "param_words (Time t) = [''-t'', show_nat t]"
| "param_words (Noise f) = [''-n'', f]"
| "param_words (Level k) = [''-l'', show_int k]"

fun param_kind :: "param \<Rightarrow> nat" where
  "param_kind (Time t) = 0"
| "param_kind (Noise f) = 1"
| "param_kind (Level k) = 2"

fun param_valid :: "param \<Rightarrow> bool" where
  "param_valid (Time t) \<longleftrightarrow> t * 8 < 2147483648"
| "param_valid (Noise f) \<longleftrightarrow> True"
| "param_valid (Level k) \<longleftrightarrow> -30 \<le> k \<and> k \<le> 30"

fun apply_param :: "param \<Rightarrow> globals \<Rightarrow> globals" where
  "apply_param (Time t) g = g\<lparr>audio_samples := int t * 8\<rparr>"
| "apply_param (Noise f) g = g\<lparr>noise_file := Some f\<rparr>"
| "apply_param (Level k) g = g\<lparr>noise_level := k\<rparr>"

definition default_params :: "globals \<Rightarrow> globals" where
  "default_params g = g\<lparr>audio_samples := 8000, noise_file := None, noise_level := 0\<rparr>"

lemma digit_loop_digits:
  "0 \<le> v \<Longrightarrow> \<forall>c\<in>set ds. is_digit c \<Longrightarrow> more_digits v ds < 2147483648 \<Longrightarrow> digit_loop v ds = (True, more_digits v ds)"
proof (induction ds arbitrary: v)
  case (Cons c ds)
  then show ?case using Cons.IH[OF more_digits_step(2)[OF Cons.prems]] more_digits_step(1)[OF Cons.prems] by simp
qed simp

lemma show_nat_first:
  assumes "n < 2147483648"
  obtains c ds where "show_nat n = c # ds" "is_digit c" "digit_loop (code_of c - 48) ds = (True, int n)"
proof -
  obtain c ds where s: "show_nat n = c # ds" by (cases "show_nat n") auto
  have d: "\<forall>d\<in>set (c # ds). is_digit d" using show_nat_digits[of n] s by simp
  have v: "more_digits (code_of c - 48) ds = int n" using show_nat_value[of n] s more_digits_0[of "c # ds"] by simp
  have "digit_loop (code_of c - 48) ds = (True, more_digits (code_of c - 48) ds)"
    using d v assms by (intro digit_loop_digits) (simp_all add: is_digit_def)
  then show ?thesis using that s d v by simp
qed

lemma parse_time_show: "t * 8 < 2147483648 \<Longrightarrow> parse_time (show_nat t) g = (True, g\<lparr>audio_samples := int t * 8\<rparr>)"
  by (rule show_nat_first[of t]) (simp_all add: parse_time_def)

lemma schar_digit: "is_digit c \<Longrightarrow> schar c = code_of c"
  by (simp add: schar_def is_digit_def)

lemma parse_level_show:
  assumes "-30 \<le> k" "k \<le> 30"
  shows "parse_level (show_int k) g = Ret (True, g\<lparr>noise_level := k\<rparr>)"
proof -
  obtain c ds where s: "show_nat (nat \<bar>k\<bar>) = c # ds" "is_digit c" "digit_loop (code_of c - 48) ds = (True, int (nat \<bar>k\<bar>))"
    by (rule show_nat_first[of "nat \<bar>k\<bar>"]) (use assms in auto)
  have "\<not> is_digit CHR ''-''" by (simp add: is_digit_def code_of_def)
  then show ?thesis
    using s assms by (cases "k < 0") (simp_all add: show_int_def parse_level_def schar_digit)
qed

definition mark_seen :: "param \<Rightarrow> seen \<Rightarrow> seen" where
  "mark_seen p sn = (case p of Time _ \<Rightarrow> sn\<lparr>seen_t := True\<rparr> | Noise _ \<Rightarrow> sn\<lparr>seen_n := True\<rparr> | Level _ \<Rightarrow> sn\<lparr>seen_l := True\<rparr>)"

definition is_seen :: "param \<Rightarrow> seen \<Rightarrow> bool" where
  "is_seen p sn = (case p of Time _ \<Rightarrow> seen_t sn | Noise _ \<Rightarrow> seen_n sn | Level _ \<Rightarrow> seen_l sn)"

lemma parse_param_words:
  assumes "param_valid p"
  shows "parse_param (param_words p ! 0) (param_words p ! Suc 0) sn g
    = Ret (if is_seen p sn then (None, g) else (Some (mark_seen p sn), apply_param p g))"
  using assms by (cases p) (simp_all add: parse_param_def is_seen_def mark_seen_def parse_time_show parse_level_show)

lemma mark_is_seen:
  "is_seen p (mark_seen q sn) \<longleftrightarrow> param_kind p = param_kind q \<or> is_seen p sn" "\<not> is_seen p none_seen"
  by (cases p; cases q; simp add: is_seen_def mark_seen_def) (cases p; simp add: is_seen_def none_seen_def)

lemma param_words_nth:
  "([a, b] @ param_words p @ r) ! 2 = param_words p ! 0" "([a, b] @ param_words p @ r) ! 3 = param_words p ! 1"
  "([a, b] @ param_words p @ param_words q @ r) ! 4 = param_words q ! 0" "([a, b] @ param_words p @ param_words q @ r) ! 5 = param_words q ! 1"
  "([a, b] @ param_words p @ param_words q @ param_words u @ r) ! 6 = param_words u ! 0"
  "([a, b] @ param_words p @ param_words q @ param_words u @ r) ! 7 = param_words u ! 1"
  "length (param_words p) = 2"
  by (cases p; cases q; cases u; simp)+

lemma global_options_params [simp]:
  "global_options (apply_param p g) = global_options g" "global_options (default_params g) = global_options g"
  by (cases p; simp) (simp add: default_params_def)

lemma params_default:
  "param_defaults (mark_seen p none_seen) (apply_param p g) = apply_param p (default_params g)"
  "param_kind p \<noteq> param_kind q \<Longrightarrow>
    param_defaults (mark_seen q (mark_seen p none_seen)) (apply_param q (apply_param p g)) = apply_param q (apply_param p (default_params g))"
  "distinct [param_kind p, param_kind q, param_kind u] \<Longrightarrow>
    apply_param u (apply_param q (apply_param p g)) = apply_param u (apply_param q (apply_param p (default_params g)))"
  by (cases p; cases q; cases u; simp add: param_defaults_def mark_seen_def none_seen_def default_params_def)+

lemma at_most_three_params:
  assumes "distinct (map param_kind ps)"
  shows "ps = [] \<or> (\<exists>p. ps = [p]) \<or> (\<exists>p q. ps = [p, q]) \<or> (\<exists>p q u. ps = [p, q, u])"
proof -
  have "param_kind p < 3" for p by (cases p) simp_all
  then have "set (map param_kind ps) \<subseteq> {..<3}" by auto
  then have "length (map param_kind ps) \<le> 3" using assms by (metis card_lessThan card_mono distinct_card finite_lessThan)
  then show ?thesis by (cases ps; cases "tl ps"; cases "tl (tl ps)"; auto)
qed

lemma validargs_words:
  "validargs ([prog, ''-g''] @ concat (map param_words ps)) g = validargs_g ([prog, ''-g''] @ concat (map param_words ps)) g"
  by (simp add: validargs_def)

lemma generate_params:
  assumes "distinct (map param_kind ps)" "\<forall>p\<in>set ps. param_valid p"
  shows "validargs ([prog, ''-g''] @ concat (map param_words ps)) g
    = Ret (0, (fold apply_param ps (default_params g))\<lparr>global_options := global_options g OR 2\<rparr>)"
  using at_most_three_params[OF assms(1)]
proof (elim disjE exE)
  assume "ps = []"
  then show ?thesis by (simp add: validargs_def validargs_g_def default_params_def)
next
  fix p assume ps: "ps = [p]"
  have "params_4 ([prog, ''-g''] @ param_words p @ []) g = Ret (True, apply_param p (default_params g))"
    unfolding params_4_def param_words_nth One_nat_def
    using assms(2) by (simp add: ps parse_param_words mark_is_seen params_default)
  then show ?thesis unfolding validargs_words by (simp add: ps validargs_g_def param_words_nth)
next
  fix p q assume ps: "ps = [p, q]"
  then have pq: "param_kind q \<noteq> param_kind p" "param_kind p \<noteq> param_kind q" using assms(1) by auto
  have "params_6 ([prog, ''-g''] @ param_words p @ param_words q @ []) g = Ret (True, apply_param q (apply_param p (default_params g)))"
    unfolding params_6_def param_words_nth One_nat_def
    using assms(2) pq by (simp add: ps parse_param_words mark_is_seen params_default)
  then show ?thesis unfolding validargs_words by (simp add: ps validargs_g_def param_words_nth)
next
  fix p q u assume ps: "ps = [p, q, u]"
  then have d: "distinct [param_kind p, param_kind q, param_kind u]" using assms(1) by simp
  have "params_8 ([prog, ''-g''] @ param_words p @ param_words q @ param_words u @ []) g
    = Ret (True, apply_param u (apply_param q (apply_param p (default_params g))))"
    unfolding params_8_def last_param_8_def param_words_nth One_nat_def
    using assms(2) d by (auto simp: ps parse_param_words mark_is_seen params_default(3)[OF d, of g])
  then show ?thesis unfolding validargs_words by (simp add: ps validargs_g_def param_words_nth)
qed

text \<open>
  C24: Any valid parameters of different kinds after -g, printed in any order, are accepted
  and set the globals to their values and the other settings to the defaults.
\<close>

lemma validargs_generate:
  assumes "distinct (map param_kind ps)" "\<forall>p\<in>set ps. param_valid p"
  shows "validargs ([prog, ''-g''] @ concat (map param_words ps)) g
    = Ret (0, (fold apply_param ps (default_params g))\<lparr>global_options := global_options g OR 2\<rparr>)"
  by (rule generate_params[OF assms])

text \<open>A repeated parameter is refused, and a lone minus sign as level makes the loop read past the string.\<close>

lemma repeated_param_refused:
  assumes "param_valid p" "param_kind q = param_kind p"
  shows "\<exists>g'. validargs ([prog, ''-g''] @ param_words p @ param_words q) g = Ret (-1, g')"
proof -
  have "\<exists>g'. parse_param (param_words q ! 0) (param_words q ! Suc 0) (mark_seen p sn) (apply_param p g) = Ret (None, g')" for sn
    using assms(2) by (cases p; cases q) (simp_all add: parse_param_def mark_seen_def)
  then obtain g' where "parse_param (param_words q ! 0) (param_words q ! Suc 0) (mark_seen p none_seen) (apply_param p g) = Ret (None, g')"
    by blast
  then have "params_6 ([prog, ''-g''] @ param_words p @ param_words q @ []) g = Ret (False, g')"
    unfolding params_6_def param_words_nth One_nat_def using assms(1) by (simp add: parse_param_words mark_is_seen)
  then show ?thesis by (simp add: validargs_def validargs_g_def param_words_nth)
qed

lemma lone_minus_reads_past:
  "validargs [prog, ''-g'', ''-l'', ''-''] g = Stuck Out_of_bounds"
  by (simp add: validargs_def validargs_g_def params_4_def parse_param_def parse_level_def is_digit_def code_of_def none_seen_def)

lemma block_size_option:
  assumes "n < 2147483648"
  shows "validargs [prog, ''-d'', ''-b'', show_nat n] g = (if 10 \<le> n \<and> n \<le> 1000
    then Ret (0, g\<lparr>block_size := int n, global_options := global_options g OR 4\<rparr>) else Ret (-1, g\<lparr>block_size := int n\<rparr>))"
  by (rule show_nat_first[OF assms]) (simp add: validargs_def validargs_d_def parse_block_size_def)

end
