(* ===== verification/Dtmf_Main.thy ===== *)
theory Dtmf_Main imports Dtmf_Events Dtmf_Args begin

text \<open>
  The program (hw1, main.c): arguments, then generation or detection on the standard streams, which
  are byte streams. The globals start as zero. \<open>USAGE\<close> prints the help text and exits.
\<close>

definition text_bytes :: "string \<Rightarrow> stream" where
  "text_bytes s = map (\<lambda>c. word_of_nat (of_char c)) s"

definition bytes_text :: "stream \<Rightarrow> string" where
  "bytes_text bs = map (\<lambda>b. char_of (unat b)) bs"

definition zero_globals :: globals where
  "zero_globals = \<lparr>global_options = 0, noise_file = None, noise_level = 0, block_size = 0, audio_samples = 0\<rparr>"

definition dtmf_main :: "string list \<Rightarrow> stream \<Rightarrow> (int \<times> stream) outcome" where
  "dtmf_main argv stdin = andThen (validargs argv zero_globals) (\<lambda>(r, g).
    if r \<noteq> 0 then Stuck (Exit_called 1)
    else if global_options g AND 1 \<noteq> 0 then Stuck (Exit_called 0)
    else andThen
      (if global_options g AND 2 \<noteq> 0
       then andThen (dtmf_generate (noise_file g) (noise_level g) (bytes_text stdin) 12400) (\<lambda>(_, out). Ret out)
       else Ret []) (\<lambda>out.
     andThen
      (if global_options g AND 4 \<noteq> 0
       then andThen (dtmf_detect (block_size g) stdin) (\<lambda>(_, lines). Ret (out @ text_bytes lines))
       else Ret out) (\<lambda>out.
     Ret (1, out))))"

lemma bytes_text_bytes [simp]: "bytes_text (text_bytes s) = s"
proof -
  have "unat (word_of_nat (of_char c) :: u8) = of_char c" for c
  proof -
    have "(of_char c :: nat) < 256" by (rule nat_of_char_less_256)
    then show ?thesis by (simp add: unat_of_nat take_bit_nat_eq_self)
  qed
  then show ?thesis by (simp add: bytes_text_def text_bytes_def comp_def)
qed

lemma recording_length: "length (recording evs i n) = 2 * (n - i)"
  using be16.concat_length[of "map (tone_at evs) [i..<n]"] by (simp add: recording_def)

text \<open>
  The whole program on a file of events. The time option has no effect: the header announces 12400
  samples, two bytes each, and the data stops at the end of the last event.
\<close>

text \<open>
  C32: The program run with -g and a duration on a file of well-formed events writes a header
  that announces 12400 samples and then only the samples up to the end of the last event, the
  first event starting at its start index without its first digit; the duration has no effect.
\<close>

lemma main_generates:
  assumes "t * 8 < 2147483648" "events_within 0 12400 ((a, b, c) # evs)"
  shows "\<exists>data. dtmf_main [prog, ''-g'', ''-t'', show_nat t] (text_bytes (concat (map event_text ((a, b, c) # evs))))
      = Ret (1, snd (audio_write_header (dtmf_header 12400)) @ data)
    \<and> data = recording ((nat (digits_value (tl (show_nat a))), b, c) # evs) 0 (last_end 0 ((a, b, c) # evs))
    \<and> length data = 2 * last_end 0 ((a, b, c) # evs) \<and> data_size (dtmf_header 12400) = 24800"
proof -
  have args: "validargs [prog, ''-g'', ''-t'', show_nat t] zero_globals
    = Ret (0, zero_globals\<lparr>global_options := 2, audio_samples := int t * 8\<rparr>)"
    using generate_params[of "[Time t]" prog zero_globals] assms(1)
    by (simp add: default_params_def zero_globals_def)
  have "dtmf_generate None l (concat (map event_text ((a, b, c) # evs))) 12400
    = Ret (0, snd (audio_write_header (dtmf_header 12400))
        @ recording ((nat (digits_value (tl (show_nat a))), b, c) # evs) 0 (last_end 0 ((a, b, c) # evs)))" for l
    using generate_renders[of 12400 a b c evs l] assms(2) by simp
  then show ?thesis
    unfolding dtmf_main_def args bytes_text_bytes by (simp add: zero_globals_def recording_length dtmf_header_def)
qed

end
