(* ===== verification/Dtmf_Examples.thy ===== *)
theory Dtmf_Examples imports Dtmf_Main begin

text \<open>The properties of the DTMF tools applied to concrete inputs.\<close>

lemma decimal_examples:
  "show_nat 0 = ''0''" "show_nat 12 = ''12''" "show_nat 20 = ''20''" "show_nat 240 = ''240''" "show_nat 400 = ''400''"
  by (simp_all add: show_nat.simps digits_def)

lemma goertzel_is_fourier_witness:
  "goertzel_strength (foldl goertzel_step (goertzel_init 4 1) [1, 2, 3]) 4
   = 2 * (cmod (fourier (2 * pi * 1 / 4) [1, 2, 3, 4]))\<^sup>2 / 4\<^sup>2"
  using goertzel_is_fourier[of 4 "[1, 2, 3]" 1 4] by simp

text \<open>The first event starts at 12 in the file and at 2 in the recording.\<close>

lemma dtmf_generate_renders_witness:
  "dtmf_generate None 0 (concat (map event_text [(12, 20, CHR ''1''), (30, 35, CHR ''5'')])) 100
   = Ret (0, snd (audio_write_header (dtmf_header 100)) @ recording [(2, 20, CHR ''1''), (30, 35, CHR ''5'')] 0 35)"
proof -
  have "nat (digits_value (tl (show_nat 12))) = 2" by (simp add: decimal_examples digits_value_def code_of_def)
  then show ?thesis
    using dtmf_generate_renders[of 100 12 20 "CHR ''1''" "[(30, 35, CHR ''5'')]" None 0] by (simp add: dtmf_symbol_names_def)
qed

lemma header_example: "audio_write_header (dtmf_header n) = (0, snd (audio_write_header (dtmf_header n)))"
proof -
  have "2 * n \<noteq> (0xffffffff :: u32)"
  proof
    assume "2 * n = (0xffffffff :: u32)"
    then have "bit (2 * n) 0 = bit (0xffffffff :: u32) 0" by simp
    then show False by (simp add: bit_0)
  qed
  then show ?thesis by (simp add: audio_write_header_def header_accepted_def dtmf_header_def)
qed

lemma detect_is_spectral_witness:
  "\<exists>out. dtmf_detect 2 (snd (audio_write_header (dtmf_header 4)) @ samples_bytes [0, 0, 5, 7, 3]) = Ret (0, out) \<and>
     close_scan (scan_verdicts 2 (map (\<lambda>b. block_verdict (spectrum b)) [[0, 0], [5, 7], [3, 3]]) first_scan) = Ret out"
  using detect_is_spectral[OF header_example[of 4], of 2 "[[0, 0], [5, 7]]" "[3]"] by (simp add: heard_def unheard_def)

lemma shared_row_one_event_witness:
  "close_scan (scan_verdicts 200 [(697, 1209, True), (697, 1336, True)] first_scan)
   = Ret (''0'' @ [TAB] @ ''400'' @ [TAB] @ ''2'' @ [LF])"
  using shared_row_one_event[of 697 200 1209 "[1336]"]
  by (simp add: MIN_DTMF_DURATION_def write_to_detect_output_def show_int_def decimal_examples findSymbolFromFrequencies_def del: scan_verdicts_simps)

lemma silence_is_reported_witness:
  "dtmf_detect 240 (snd (audio_write_header (dtmf_header 240)) @ samples_bytes (replicate 240 0))
   = Ret (0, ''0'' @ [TAB] @ ''0'' @ [TAB] @ ''1'' @ [LF] @ ''240'' @ [TAB] @ ''240'' @ [TAB] @ ''1'' @ [LF])"
  using silence_is_reported[OF header_example[of 240], of 240 0]
  by (simp add: silent_line_def write_to_detect_output_def show_int_def decimal_examples findSymbolFromFrequencies_def)

lemma validargs_generate_witness:
  "validargs [''dtmf'', ''-g'', ''-l'', show_int (- 5), ''-t'', show_nat 250] zero_globals
   = Ret (0, zero_globals\<lparr>audio_samples := 2000, noise_level := - 5, global_options := 2\<rparr>)"
  using validargs_generate[of "[Level (- 5), Time 250]" "''dtmf''" zero_globals]
  by (simp add: default_params_def zero_globals_def)

lemma main_generates_witness:
  "\<exists>data. dtmf_main [''dtmf'', ''-g'', ''-t'', show_nat 250] (text_bytes (concat (map event_text [(12, 400, CHR ''5'')])))
     = Ret (1, snd (audio_write_header (dtmf_header 12400)) @ data)
     \<and> data = recording [(2, 400, CHR ''5'')] 0 400 \<and> length data = 800"
proof -
  have "nat (digits_value (tl (show_nat 12))) = 2" by (simp add: decimal_examples digits_value_def code_of_def)
  then show ?thesis
    using main_generates[of 250 12 400 "CHR ''5''" "[]" "''dtmf''"] by (simp add: dtmf_symbol_names_def)
qed

end
