(* ===== verification/Dup_Crc.thy ===== *)
theory Dup_Crc imports Prelude begin

text \<open>
  The CRC-32 of hw2 (\<open>crc32.c\<close>): the table of remainders, the byte-wise update, and the bit-serial
  division by the polynomial that it implements.
\<close>

unbundle bit_operations_syntax

section \<open>Operations\<close>

text \<open>One round of the inner loop that fills the table.\<close>

definition rem_step :: "u32 \<Rightarrow> u32" where
  "rem_step rem = (if rem AND 1 \<noteq> 0 then drop_bit 1 rem XOR 0xedb88320 else drop_bit 1 rem)"

definition table_entry :: "u32 \<Rightarrow> u32" where
  "table_entry i = (rem_step ^^ 8) i"

definition crc_table :: "u32 list" where
  "crc_table = map (\<lambda>i. table_entry (of_nat i)) [0 ..< 256]"

definition crc_octet :: "u32 \<Rightarrow> u8 \<Rightarrow> u32" where
  "crc_octet crc octet = drop_bit 8 crc XOR crc_table ! unat ((crc AND 0xff) XOR ucast octet)"

definition rc_crc32 :: "u32 \<Rightarrow> u8 list \<Rightarrow> u32" where
  "rc_crc32 crc buf = NOT (foldl crc_octet (NOT crc) buf)"

section \<open>Division by the polynomial, one bit at a time\<close>

definition crc_bits :: "u32 \<Rightarrow> u8 \<Rightarrow> u32" where
  "crc_bits crc octet = (rem_step ^^ 8) (crc XOR ucast octet)"

lemma odd_bit: "rem AND 1 \<noteq> 0 \<longleftrightarrow> bit (rem::u32) 0"
  by (simp add: and_one_eq bit_0 odd_iff_mod_2_eq_one)

lemma rem_step_bit: "rem_step x = drop_bit 1 x XOR (if bit x 0 then 0xedb88320 else 0)"
  unfolding rem_step_def odd_bit by simp

lemma rem_step_xor: "rem_step (x XOR y) = rem_step x XOR rem_step y"
proof -
  have d: "drop_bit 1 (x XOR y) = drop_bit 1 x XOR drop_bit 1 y" by (rule drop_bit_xor)
  have b: "bit (x XOR y) 0 \<longleftrightarrow> bit x 0 \<noteq> bit y 0" by (simp only: bit_xor_iff)
  show ?thesis
    unfolding rem_step_bit d b
    by (cases "bit x 0"; cases "bit y 0") (simp_all add: xor.assoc xor.left_commute xor.commute)
qed

lemma rem_steps_xor: "(rem_step ^^ n) (x XOR y) = (rem_step ^^ n) x XOR (rem_step ^^ n) y"
  by (induction n arbitrary: x y) (simp_all add: rem_step_xor funpow_swap1)

lemma rem_step_even: "\<not> bit x 0 \<Longrightarrow> rem_step x = drop_bit 1 x"
  by (simp add: rem_step_bit)

lemma rem_steps_low_zero: "\<forall>i<n. \<not> bit x i \<Longrightarrow> (rem_step ^^ n) x = drop_bit n x"
proof (induction n arbitrary: x)
  case (Suc n)
  have "rem_step x = drop_bit 1 x" using Suc.prems by (intro rem_step_even) simp
  moreover have "(rem_step ^^ n) (drop_bit 1 x) = drop_bit n (drop_bit 1 x)"
    by (rule Suc.IH) (use Suc.prems in \<open>simp add: bit_drop_bit_eq\<close>)
  ultimately show ?case by (simp add: funpow_swap1)
qed simp

lemma mask8: "(0xff::u32) = mask 8"
  by (simp add: mask_eq_exp_minus_1)

lemma bit_ff: "bit (0xff::u32) n \<longleftrightarrow> n < 8"
  unfolding mask8 by (auto simp only: bit_mask_iff possible_bit_word len_num1) simp_all

lemmas octet_bits = bit_xor_iff bit_and_iff bit_not_iff bit_ff possible_bit_word bit_drop_bit_eq comp_apply

lemma bit_octet: "bit (ucast (b::u8) :: u32) n \<Longrightarrow> n < 8"
  by (auto simp: bit_unsigned_iff dest: bit_imp_le_length)

lemma ucast_octet_inj: "(ucast (a::u8) :: u32) = ucast b \<Longrightarrow> a = b"
proof (rule bit_word_eqI)
  fix n assume e: "(ucast a :: u32) = ucast b" and n: "n < LENGTH(8)"
  have "bit (ucast a :: u32) n = bit a n" "bit (ucast b :: u32) n = bit b n"
    using n by (simp_all add: bit_unsigned_iff)
  with e show "bit a n = bit b n" by simp
qed

lemma low_octet_index: "unat ((c AND 0xff) XOR ucast (b::u8) :: u32) < 256"
proof -
  have "(c AND 0xff) XOR ucast b = take_bit 8 ((c AND 0xff) XOR (ucast b :: u32))"
    by (rule bit_word_eqI) (auto simp only: octet_bits bit_take_bit_iff dest: bit_octet)
  then have "unat ((c AND 0xff) XOR (ucast b :: u32)) = unat (take_bit 8 ((c AND 0xff) XOR (ucast b :: u32)))" by simp
  also have "\<dots> < 2 ^ 8" unfolding unsigned_take_bit_eq by (rule take_bit_nat_less_exp)
  finally show ?thesis by simp
qed

lemma octet_division: "crc_octet c b = crc_bits c b"
proof -
  have "crc_table ! unat ((c AND 0xff) XOR ucast b) = (rem_step ^^ 8) ((c AND 0xff) XOR ucast b)"
    using low_octet_index[of c b] by (simp add: crc_table_def table_entry_def)
  moreover have "(rem_step ^^ 8) (c AND NOT 0xff) = drop_bit 8 (c AND NOT 0xff)"
    by (rule rem_steps_low_zero) (simp only: octet_bits, simp)
  moreover have "drop_bit 8 (c AND NOT 0xff) = drop_bit 8 c"
    by (rule bit_word_eqI) (auto simp only: octet_bits dest: bit_imp_le_length)
  moreover have "c XOR ucast b = (c AND NOT 0xff) XOR ((c AND 0xff) XOR ucast b)"
    by (rule bit_word_eqI) (auto simp only: octet_bits)
  ultimately show ?thesis unfolding crc_octet_def crc_bits_def by (simp add: rem_steps_xor)
qed

text \<open>
  C33: The table-driven update by one octet is eight steps of bit-serial division by the
  CRC-32 polynomial.
\<close>

theorem crc_octet_is_division: "crc_octet c b = crc_bits c b"
  by (rule octet_division)

theorem rc_crc32_append: "rc_crc32 (rc_crc32 c xs) ys = rc_crc32 c (xs @ ys)"
  by (simp add: rc_crc32_def)

section \<open>Error detection\<close>

lemma rem_step_inj: "rem_step x = rem_step y \<Longrightarrow> x = y"
proof -
  assume e: "rem_step x = rem_step y"
  have p31: "bit (0xedb88320::u32) 31" by simp
  have h: "bit (rem_step z) 31 \<longleftrightarrow> bit z 0" for z
    unfolding rem_step_bit using p31 by (auto simp: bit_xor_iff bit_drop_bit_eq dest: bit_imp_le_length)
  have b: "bit x 0 = bit y 0" using h[of x] h[of y] e by simp
  define p where "p = (if bit y 0 then 0xedb88320 else (0::u32))"
  have "drop_bit 1 x XOR p = drop_bit 1 y XOR p" using e unfolding rem_step_bit b p_def .
  then have "drop_bit 1 x = drop_bit 1 y" by (metis word_xor_cancel)
  then have "bit (drop_bit 1 x) n = bit (drop_bit 1 y) n" for n by simp
  then have "bit x (Suc n) = bit y (Suc n)" for n by (simp only: bit_drop_bit_eq comp_apply plus_1_eq_Suc)
  with b have "bit x n = bit y n" for n by (cases n) simp_all
  then show "x = y" by (intro bit_word_eqI) simp
qed

lemma rem_steps_inj: "(rem_step ^^ n) x = (rem_step ^^ n) y \<Longrightarrow> x = y"
  by (induction n) (auto dest: rem_step_inj)

lemma crc_octet_inj: "crc_octet c b = crc_octet d b \<Longrightarrow> c = d"
  unfolding octet_division crc_bits_def by (drule rem_steps_inj) (metis word_xor_cancel)

lemma crc_fold_inj: "foldl crc_octet c bs = foldl crc_octet d bs \<Longrightarrow> c = d"
  by (induction bs arbitrary: c d) (auto dest: crc_octet_inj)

theorem crc_detects_one_octet:
  assumes "a \<noteq> b"
  shows "rc_crc32 c (xs @ a # ys) \<noteq> rc_crc32 c (xs @ b # ys)"
proof
  assume "rc_crc32 c (xs @ a # ys) = rc_crc32 c (xs @ b # ys)"
  then have "foldl crc_octet (crc_octet (foldl crc_octet (NOT c) xs) a) ys = foldl crc_octet (crc_octet (foldl crc_octet (NOT c) xs) b) ys"
    by (simp add: rc_crc32_def bit.compl_eq_compl_iff)
  from crc_fold_inj[OF this] have "foldl crc_octet (NOT c) xs XOR ucast a = foldl crc_octet (NOT c) xs XOR ucast b"
    unfolding octet_division[of _ a] octet_division[of _ b] crc_bits_def by (rule rem_steps_inj)
  then have "(ucast a :: u32) = ucast b" by (metis word_xor_cancel xor.commute)
  with assms show False using ucast_octet_inj by blast
qed

end
