(* ===== verification/Dup_Find.thy ===== *)
theory Dup_Find imports Dup_Crc "HOL-Library.Multiset" begin

text \<open>
  The duplicate finder of hw2 (\<open>finddup.c\<close>): the table of file descriptions, the comparison that sorts
  it, the three scans and the main function. Files, names and the sorting routine of the C library
  belong to the host; every function here takes it as an argument.
\<close>

unbundle bit_operations_syntax

section \<open>Data\<close>

record filedesc =
  fd_length :: u64
  crc32 :: u64
  device :: u64
  inode :: u64
  nameloc :: nat
  flags :: u8

definition FL_CRC :: u8 where "FL_CRC = 1"
definition FL_DUP :: u8 where "FL_DUP = 2"
definition FL_LNK :: u8 where "FL_LNK = 4"

record filestat =
  st_size :: u64
  st_dev :: u64
  st_ino :: u64
  st_regular :: bool

text \<open>
  What the program takes from its surroundings: the bytes of the file of names, \<open>lstat\<close>, the bytes
  \<open>fopen\<close> gives access to, what an allocated block holds before it is written, which vector sizes the
  allocator grants, \<open>qsort\<close> with the comparison \<open>comp1\<close>, and the texts of \<open>perror\<close>.
\<close>

record host =
  open_names :: "string \<Rightarrow> string option"
  lstat :: "string \<Rightarrow> filestat option"
  contents :: "string \<Rightarrow> u8 list option"
  fresh :: "nat \<Rightarrow> u8"
  grants :: "nat \<Rightarrow> bool"
  qsort :: "filedesc list \<Rightarrow> filedesc list"
  errno_text :: "string \<Rightarrow> string"

record finder =
  filelist :: "filedesc list"
  max_files :: nat
  linkflag :: bool
  namefd :: string
  stdout :: string
  stderr :: string

definition NL :: string where "NL = [CHR 0x0A]"

definition put :: "string \<Rightarrow> finder \<Rightarrow> finder" where
  "put s st = st\<lparr>stdout := stdout st @ s\<rparr>"

definition eput :: "string \<Rightarrow> finder \<Rightarrow> finder" where
  "eput s st = st\<lparr>stderr := stderr st @ s\<rparr>"

section \<open>Flags and order\<close>

definition GetFlag :: "filedesc list \<Rightarrow> nat \<Rightarrow> u8 \<Rightarrow> bool" where
  "GetFlag fl x f = (flags (fl ! x) AND f \<noteq> 0)"

definition SetFlag :: "filedesc list \<Rightarrow> nat \<Rightarrow> u8 \<Rightarrow> filedesc list" where
  "SetFlag fl x f = fl[x := (fl ! x)\<lparr>flags := flags (fl ! x) OR f\<rparr>]"

text \<open>A 64-bit difference returned as an \<open>int\<close>.\<close>

definition as_int :: "u64 \<Rightarrow> int" where
  "as_int d = sint (ucast d :: 32 word)"

definition comp1 :: "filedesc \<Rightarrow> filedesc \<Rightarrow> int" where
  "comp1 p1 p2 =
     (if fd_length p1 - fd_length p2 \<noteq> 0 then as_int (fd_length p1 - fd_length p2)
      else if crc32 p1 - crc32 p2 \<noteq> 0 then as_int (crc32 p1 - crc32 p2)
      else if device p1 - device p2 \<noteq> 0 then as_int (device p1 - device p2)
      else if inode p1 - inode p2 \<noteq> 0 then as_int (inode p1 - inode p2)
      else 0)"

section \<open>Names\<close>

text \<open>
  One line of the file of names from a position on: \<open>fgets\<close> stops after \<open>MAXFN - 1\<close> characters,
  \<open>getline\<close> does not. Both keep the newline.
\<close>

definition line_of :: "string \<Rightarrow> string" where
  "line_of s = (let w = takeWhile (\<lambda>c. c \<noteq> CHR 0x0A) s in if length w < length s then w @ [CHR 0x0A] else w)"

definition MAXFN :: nat where "MAXFN = 120"

definition fgets :: "string \<Rightarrow> nat \<Rightarrow> nat \<Rightarrow> string option" where
  "fgets file n loc = (if drop loc file = [] then None else Some (line_of (take (n - 1) (drop loc file))))"

definition getline :: "string \<Rightarrow> nat \<Rightarrow> string" where
  "getline file loc = line_of (drop loc file)"

text \<open>The assignment of a zero to the last character of a C string.\<close>

definition chop :: "string \<Rightarrow> string outcome" where
  "chop s = (let k = length (takeWhile (\<lambda>c. c \<noteq> CHR 0x00) s) in
     if k = 0 then Stuck Out_of_bounds else Ret (take (k - 1) s))"

definition getfn :: "finder \<Rightarrow> nat \<Rightarrow> string outcome" where
  "getfn st ix = (if ix < length (filelist st) then chop (getline (namefd st) (nameloc (filelist st ! ix))) else Stuck Out_of_bounds)"

section \<open>Reading files\<close>

text \<open>The block that \<open>get_crc\<close> fills: the file's bytes, and what the block held where the file is too short.\<close>

definition read_block :: "host \<Rightarrow> nat \<Rightarrow> u8 list \<Rightarrow> u8 list" where
  "read_block h n bytes = map (\<lambda>i. if i < length bytes then bytes ! i else fresh h i) [0 ..< n]"

definition get_crc :: "host \<Rightarrow> finder \<Rightarrow> nat \<Rightarrow> u64 outcome" where
  "get_crc h st ix = andThen (getfn st ix) (\<lambda>fname.
     case contents h fname of None \<Rightarrow> Stuck (Exit_called 1)
     | Some bytes \<Rightarrow> Ret (ucast (rc_crc32 0 (read_block h (unat (fd_length (filelist st ! ix))) bytes))))"

definition getc :: "u8 list \<Rightarrow> int" where
  "getc s = (case s of [] \<Rightarrow> -1 | b # _ \<Rightarrow> uint b)"

text \<open>The comparison loop: the last pair of characters read.\<close>

fun compare_loop :: "u8 list \<Rightarrow> u8 list \<Rightarrow> int \<times> int" where
  "compare_loop (a # xs) (b # ys) = (if getc (a # xs) \<noteq> getc (b # ys) then (getc (a # xs), getc (b # ys)) else compare_loop xs ys)"
| "compare_loop xs ys = (getc xs, getc ys)"

definition open_file :: "host \<Rightarrow> finder \<Rightarrow> nat \<Rightarrow> u8 list outcome" where
  "open_file h st v = andThen (getfn st v) (\<lambda>fn.
     if length fn \<ge> MAXFN then Stuck Out_of_bounds
     else case contents h fn of None \<Rightarrow> Stuck (Exit_called 1) | Some bytes \<Rightarrow> Ret bytes)"

definition fullcmp :: "host \<Rightarrow> finder \<Rightarrow> nat \<Rightarrow> nat \<Rightarrow> int outcome" where
  "fullcmp h st v1 v2 = andThen (open_file h st v1) (\<lambda>fp1. andThen (open_file h st v2) (\<lambda>fp2.
     let (ch, ch2) = compare_loop fp1 fp2 in Ret (if ch = -1 \<and> ch2 = -1 then 0 else 1)))"

section \<open>The scans\<close>

subsection \<open>Checksums for files of equal length\<close>

definition need_crc :: "host \<Rightarrow> nat \<Rightarrow> finder \<Rightarrow> finder outcome" where
  "need_crc h ix st = (if GetFlag (filelist st) ix FL_CRC then Ret st
     else andThen (get_crc h st ix) (\<lambda>v. let fl = (filelist st)[ix := (filelist st ! ix)\<lparr>crc32 := v\<rparr>] in
       Ret (st\<lparr>filelist := SetFlag fl ix FL_CRC\<rparr>)))"

primrec scan1_loop :: "host \<Rightarrow> nat list \<Rightarrow> bool \<Rightarrow> finder \<Rightarrow> (bool \<times> finder) outcome" where
  "scan1_loop h [] needsort st = Ret (needsort, st)"
| "scan1_loop h (ix # ixs) needsort st =
     (if fd_length (filelist st ! (ix - 1)) = fd_length (filelist st ! ix)
      then andThen (need_crc h (ix - 1) st) (\<lambda>st. andThen (need_crc h ix st) (\<lambda>st. scan1_loop h ixs True st))
      else scan1_loop h ixs needsort st)"

definition SORT :: "host \<Rightarrow> finder \<Rightarrow> finder" where
  "SORT h st = st\<lparr>filelist := qsort h (filelist st)\<rparr>"

definition scan1 :: "host \<Rightarrow> finder \<Rightarrow> finder outcome" where
  "scan1 h st = andThen (scan1_loop h [1 ..< length (filelist st)] False st)
     (\<lambda>(needsort, st). Ret (if needsort then SORT h st else st))"

subsection \<open>Links\<close>

definition print_link :: "nat \<Rightarrow> nat \<Rightarrow> bool \<Rightarrow> bool \<Rightarrow> finder \<Rightarrow> (bool \<times> bool \<times> finder) outcome" where
  "print_link ix ix2 inmatch need_hdr st =
     (let st = (if need_hdr then put (NL @ NL @ ''Hard link summary:'' @ NL @ NL) st else st) in
      andThen (if inmatch then Ret st else andThen (getfn st ix) (\<lambda>fn. Ret (put (NL @ ''FILE: '' @ fn @ NL) st))) (\<lambda>st.
      andThen (getfn st ix2) (\<lambda>fn. Ret (True, False, put (''LINK: '' @ fn @ NL) st))))"

primrec link_run :: "nat \<Rightarrow> nat list \<Rightarrow> bool \<Rightarrow> bool \<Rightarrow> finder \<Rightarrow> (nat \<times> bool \<times> finder) outcome" where
  "link_run ix [] inmatch need_hdr st = Ret (length (filelist st), need_hdr, st)"
| "link_run ix (ix2 # ixs) inmatch need_hdr st =
     (if device (filelist st ! ix) = device (filelist st ! ix2) \<and> inode (filelist st ! ix) = inode (filelist st ! ix2)
      then let st = st\<lparr>filelist := SetFlag (filelist st) ix2 FL_LNK\<rparr> in
        if linkflag st
        then andThen (print_link ix ix2 inmatch need_hdr st) (\<lambda>(inmatch, need_hdr, st). link_run ix ixs inmatch need_hdr st)
        else link_run ix ixs inmatch need_hdr st
      else Ret (ix2, need_hdr, st))"

text \<open>Each round of the outer loop moves to a larger index: as many rounds as there are files suffice.\<close>

primrec mark_links :: "nat \<Rightarrow> nat \<Rightarrow> bool \<Rightarrow> finder \<Rightarrow> finder outcome" where
  "mark_links 0 ix need_hdr st = (if ix < length (filelist st) then Stuck Diverges else Ret st)"
| "mark_links (Suc fuel) ix need_hdr st =
     (if ix < length (filelist st)
      then andThen (link_run ix [ix + 1 ..< length (filelist st)] False need_hdr st)
        (\<lambda>(ix2, need_hdr, st). mark_links fuel ix2 need_hdr st)
      else Ret st)"

subsection \<open>Duplicates\<close>

text \<open>The entry at \<open>ix2\<close> moves down to \<open>lastix\<close>; the entries between move up by one.\<close>

definition move_down :: "nat \<Rightarrow> nat \<Rightarrow> filedesc list \<Rightarrow> filedesc list" where
  "move_down lastix ix2 fl =
     (let wkdesc = fl ! ix2; fl = foldl (\<lambda>l n1. l[n1 := l ! (n1 - 1)]) fl (rev [lastix + 1 ..< ix2 + 1]) in
      fl[lastix := wkdesc])"

primrec dup_run :: "host \<Rightarrow> nat \<Rightarrow> nat list \<Rightarrow> nat \<Rightarrow> bool \<Rightarrow> finder \<Rightarrow> (nat \<times> finder) outcome" where
  "dup_run h ix [] lastix lnkmatch st = Ret (lastix, st)"
| "dup_run h ix (ix2 # ixs) lastix lnkmatch st =
     (if fd_length (filelist st ! ix) = fd_length (filelist st ! ix2) \<and> crc32 (filelist st ! ix) = crc32 (filelist st ! ix2)
      then andThen (if GetFlag (filelist st) ix2 FL_LNK \<and> lnkmatch then Ret 0 else fullcmp h st ix ix2) (\<lambda>r.
        if r = 0
        then let fl = SetFlag (filelist st) ix2 FL_DUP in
          if lastix \<noteq> ix2 then dup_run h ix ixs (lastix + 1) True (st\<lparr>filelist := move_down lastix ix2 fl\<rparr>)
          else dup_run h ix ixs lastix True (st\<lparr>filelist := fl\<rparr>)
        else dup_run h ix ixs lastix False st)
      else Ret (lastix, st))"

primrec mark_dups :: "host \<Rightarrow> nat \<Rightarrow> nat \<Rightarrow> finder \<Rightarrow> finder outcome" where
  "mark_dups h 0 ix st = (if ix < length (filelist st) then Stuck Diverges else Ret st)"
| "mark_dups h (Suc fuel) ix st =
     (if ix < length (filelist st)
      then andThen (dup_run h ix [ix + 1 ..< length (filelist st)] (ix + 1) True st) (\<lambda>(lastix, st). mark_dups h fuel lastix st)
      else Ret st)"

definition scan2 :: "host \<Rightarrow> finder \<Rightarrow> finder outcome" where
  "scan2 h st = andThen (mark_links (length (filelist st)) 0 True st) (\<lambda>st. mark_dups h (length (filelist st)) 0 st)"

subsection \<open>Output\<close>

record report =
  inmatch :: bool
  need_hdr :: bool
  headfn :: "string option"

definition print_dup :: "nat \<Rightarrow> report \<Rightarrow> finder \<Rightarrow> (report \<times> finder) outcome" where
  "print_dup ix r st =
     (let (r, st) = (if need_hdr r then (r\<lparr>need_hdr := False\<rparr>,
            put (NL @ NL @ ''List of files with duplicate contents'' @ (if linkflag st then '' (includes hard links)'' else []) @ NL) st)
          else (r, st));
        (r, st) = (case headfn r of Some fn \<Rightarrow> (r\<lparr>headfn := None\<rparr>, put (NL @ ''FILE: '' @ fn @ NL) st) | None \<Rightarrow> (r, st)) in
      andThen (getfn st ix) (\<lambda>fn. Ret (r, put (''DUP:  '' @ fn @ NL) st)))"

primrec scan3_loop :: "nat list \<Rightarrow> report \<Rightarrow> finder \<Rightarrow> finder outcome" where
  "scan3_loop [] r st = Ret st"
| "scan3_loop (ix # ixs) r st =
     (if GetFlag (filelist st) ix FL_DUP
      then andThen (if inmatch r then Ret r
          else if ix = 0 then Stuck Out_of_bounds
          else andThen (getfn st (ix - 1)) (\<lambda>fn. Ret (r\<lparr>headfn := Some fn\<rparr>))) (\<lambda>r.
        let r = r\<lparr>inmatch := True\<rparr> in
        if linkflag st \<or> \<not> GetFlag (filelist st) ix FL_LNK
        then andThen (print_dup ix r st) (\<lambda>(r, st). scan3_loop ixs r st)
        else scan3_loop ixs r st)
      else scan3_loop ixs (r\<lparr>inmatch := False\<rparr>) st)"

definition scan3 :: "finder \<Rightarrow> finder outcome" where
  "scan3 st = scan3_loop [0 ..< length (filelist st)] \<lparr>inmatch = False, need_hdr = True, headfn = None\<rparr> st"

section \<open>The main function\<close>

text \<open>One pass of the build loop, after \<open>fgets\<close> has returned \<open>line\<close>.\<close>

definition make_room :: "host \<Rightarrow> finder \<Rightarrow> finder outcome" where
  "make_room h st = (if length (filelist st) = max_files st
     then let st = st\<lparr>max_files := max_files st + 50\<rparr> in
       if grants h (max_files st) then Ret st else Stuck (Exit_called 1)
     else Ret st)"

definition add_name :: "host \<Rightarrow> nat \<Rightarrow> string \<Rightarrow> bool \<times> bool \<Rightarrow> finder \<Rightarrow> ((bool \<times> bool) \<times> finder) outcome" where
  "add_name h loc line flgs st =
     (let (firsterr, zl_hdr) = flgs in
      andThen (make_room h st) (\<lambda>st. andThen (chop line) (\<lambda>curfile.
        case lstat h curfile of
          None \<Rightarrow> Ret ((False, zl_hdr), eput ((if firsterr then NL else [CHR 0x0D]) @ ''  '' @ curfile @ '' - '' @
              ''ignored: '' @ errno_text h curfile @ NL) st)
        | Some statbuf \<Rightarrow>
            if st_size statbuf = 0
            then Ret ((firsterr, False), put ((if zl_hdr then ''Zero length files:'' @ NL @ NL else []) @ curfile @ NL) st)
            else if \<not> st_regular statbuf then Ret ((firsterr, zl_hdr), st)
            else Ret ((firsterr, zl_hdr), st\<lparr>filelist := filelist st @
              [\<lparr>fd_length = st_size statbuf, crc32 = 0, device = st_dev statbuf, inode = st_ino statbuf, nameloc = loc, flags = 0\<rparr>]\<rparr>))))"

text \<open>Every line takes at least one character: as many rounds as the file has characters suffice.\<close>

primrec build_list :: "host \<Rightarrow> nat \<Rightarrow> nat \<Rightarrow> bool \<times> bool \<Rightarrow> finder \<Rightarrow> finder outcome" where
  "build_list h 0 loc flgs st = (case fgets (namefd st) MAXFN loc of None \<Rightarrow> Ret st | Some _ \<Rightarrow> Stuck Diverges)"
| "build_list h (Suc fuel) loc flgs st =
     (case fgets (namefd st) MAXFN loc of None \<Rightarrow> Ret st
      | Some line \<Rightarrow> andThen (add_name h loc line flgs st) (\<lambda>(flgs, st). build_list h fuel (loc + length line) flgs st))"

definition HelpMsg :: "string list" where
  "HelpMsg = [''Calling sequence:'', '''', ''  finddup [options] list'', '''',
     ''where list is a list of files to check, such as generated'',
     ''by '' @ [CHR 0x22] @ ''find . -type f -print > file'' @ [CHR 0x22], '''', ''Options:'', ''  -l - don'' @ [CHR 0x27] @ ''t list hard links'']"

text \<open>
  The option loop over the values \<open>getopt_long\<close> returns before its end marker; \<open>None\<close> means that
  the help text is printed and the program exits.
\<close>

primrec options :: "string \<Rightarrow> bool \<Rightarrow> bool option" where
  "options [] lf = Some lf"
| "options (ch # chs) lf = (if ch = CHR ''l'' then options chs False
     else if ch = CHR ''h'' \<or> ch = CHR ''?'' then None else options chs lf)"

text \<open>
  The whole program on the options found and the arguments left over: the exit status and the two
  output streams.
\<close>

definition finddup_main :: "host \<Rightarrow> string \<Rightarrow> string list \<Rightarrow> (int \<times> string \<times> string) outcome" where
  "finddup_main h chs args =
     (case options chs True of
        None \<Rightarrow> Ret (1, concat (map (\<lambda>m. m @ NL) HelpMsg), [])
      | Some lf \<Rightarrow>
        (case args of
           [list] \<Rightarrow>
             (case open_names h list of
                None \<Rightarrow> Ret (1, [], ''Can'' @ [CHR 0x27] @ ''t open names file: '' @ errno_text h list @ NL)
              | Some file \<Rightarrow>
                  if \<not> grants h 50 then Stuck (Exit_called 1)
                  else let st = \<lparr>filelist = [], max_files = 50, linkflag = lf, namefd = file, stdout = [], stderr = ''build list...''\<rparr> in
                    andThen (build_list h (length file) 0 (True, True) st) (\<lambda>st.
                    andThen (scan1 h (eput ''scan1...'' (SORT h (eput ''sort...'' st)))) (\<lambda>st.
                    andThen (scan2 h (eput ''scan2...'' st)) (\<lambda>st.
                    andThen (scan3 (eput (''done'' @ NL) st)) (\<lambda>st.
                    Ret (0, stdout st, stderr st))))))
         | _ \<Rightarrow> Ret (1, [], ''Needs name of file with filenames'' @ NL)))"

end
