(* ===== verification/Dup_Groups.thy ===== *)
theory Dup_Groups imports Dup_Scan begin

text \<open>
  The second scan of \<open>finddup.c\<close>: it returns on readable files, rearranges the table and changes
  nothing in it but the flags, and marks an entry as a duplicate only where the entry before it has
  the same contents.
\<close>

unbundle bit_operations_syntax

section \<open>Flags\<close>

definition unflag :: "filedesc \<Rightarrow> filedesc" where
  "unflag d = d\<lparr>flags := 0\<rparr>"

lemma unflag_fields: "unflag d = unflag e \<Longrightarrow> fd_length d = fd_length e \<and> crc32 d = crc32 e \<and>
   device d = device e \<and> inode d = inode e \<and> nameloc d = nameloc e"
  by (cases d; cases e) (simp add: unflag_def)

lemma unflag_flags [simp]: "unflag (d\<lparr>flags := f\<rparr>) = unflag d"
  by (simp add: unflag_def)

lemma SetFlag_length [simp]: "length (SetFlag fl x f) = length fl"
  by (simp add: SetFlag_def)

lemma SetFlag_unflag [simp]: "x < length fl \<Longrightarrow> map unflag (SetFlag fl x f) = map unflag fl"
  by (simp add: SetFlag_def map_update) (metis list_update_id nth_map)

lemma or_and_u8: "((a::u8) OR b) AND c \<noteq> 0 \<longleftrightarrow> a AND c \<noteq> 0 \<or> b AND c \<noteq> 0"
  by (simp only: bit.conj_disj_distrib2 or_eq_0_iff) blast

lemma GetFlag_SetFlag: "x < length fl \<Longrightarrow>
   GetFlag (SetFlag fl x f) k g \<longleftrightarrow> GetFlag fl k g \<or> k = x \<and> f AND g \<noteq> 0"
  by (cases "k = x") (simp_all add: GetFlag_def SetFlag_def or_and_u8)

lemma flag_values: "FL_LNK AND FL_DUP = 0" "FL_LNK AND FL_LNK \<noteq> 0" "FL_DUP AND FL_DUP \<noteq> 0" "FL_DUP AND FL_LNK = 0"
  by (simp_all add: FL_LNK_def FL_DUP_def)

lemma flags_nonzero [simp]: "FL_DUP \<noteq> 0" "FL_LNK \<noteq> 0"
  by (simp_all add: FL_LNK_def FL_DUP_def)

lemma same_unflag_nth: "map unflag fl = map unflag fl' \<Longrightarrow> k < length fl \<Longrightarrow> unflag (fl ! k) = unflag (fl' ! k)"
  by (metis length_map nth_map)

section \<open>Names that can be read\<close>

definition bytes_at :: "host \<Rightarrow> string \<Rightarrow> filedesc \<Rightarrow> u8 list option" where
  "bytes_at h nf d = (case chop (getline nf (nameloc d)) of Ret fn \<Rightarrow> contents h fn | Stuck e \<Rightarrow> None)"

definition readable :: "host \<Rightarrow> string \<Rightarrow> filedesc \<Rightarrow> bool" where
  "readable h nf d = (case chop (getline nf (nameloc d)) of Ret fn \<Rightarrow> length fn < MAXFN \<and> contents h fn \<noteq> None | Stuck e \<Rightarrow> False)"

text \<open>The entries agree in all that a duplicate must agree in.\<close>

definition same_file :: "host \<Rightarrow> string \<Rightarrow> filedesc \<Rightarrow> filedesc \<Rightarrow> bool" where
  "same_file h nf d e \<longleftrightarrow> fd_length d = fd_length e \<and> crc32 d = crc32 e \<and> bytes_at h nf d = bytes_at h nf e"

definition same_inode :: "filedesc \<Rightarrow> filedesc \<Rightarrow> bool" where
  "same_inode d e \<longleftrightarrow> device d = device e \<and> inode d = inode e"

lemma same_unflag: "unflag d = unflag d' \<Longrightarrow> unflag e = unflag e' \<Longrightarrow>
   same_file h nf d e = same_file h nf d' e' \<and> same_inode d e = same_inode d' e' \<and> readable h nf d = readable h nf d'"
  using unflag_fields[of d d'] unflag_fields[of e e'] by (simp add: same_file_def same_inode_def bytes_at_def readable_def)

lemma getfn_readable:
  "ix < length (filelist st) \<Longrightarrow> readable h (namefd st) (filelist st ! ix) \<Longrightarrow> \<exists>fn. getfn st ix = Ret fn"
  by (auto simp: getfn_def readable_def split: outcome.splits)

lemma open_file_readable:
  "ix < length (filelist st) \<Longrightarrow> readable h (namefd st) (filelist st ! ix) \<Longrightarrow>
   \<exists>bs. open_file h st ix = Ret bs \<and> bytes_at h (namefd st) (filelist st ! ix) = Some bs"
  by (auto simp: open_file_def getfn_def readable_def bytes_at_def split: outcome.splits option.splits)

lemma fullcmp_readable:
  assumes "i < length (filelist st)" "readable h (namefd st) (filelist st ! i)"
    "j < length (filelist st)" "readable h (namefd st) (filelist st ! j)"
  shows "fullcmp h st i j = Ret (if bytes_at h (namefd st) (filelist st ! i) = bytes_at h (namefd st) (filelist st ! j) then 0 else 1)"
proof -
  obtain a b where "open_file h st i = Ret a" "bytes_at h (namefd st) (filelist st ! i) = Some a"
    "open_file h st j = Ret b" "bytes_at h (namefd st) (filelist st ! j) = Some b"
    using open_file_readable[OF assms(1,2)] open_file_readable[OF assms(3,4)] by blast
  then show ?thesis using compare_loop_end[of a b] by (cases "compare_loop a b") (simp add: fullcmp_def)
qed

section \<open>Marking links\<close>

text \<open>What a round of marking keeps: the table up to its flags, and the marks of duplicates.\<close>

definition marked :: "finder \<Rightarrow> finder \<Rightarrow> bool" where
  "marked st st' \<longleftrightarrow> map unflag (filelist st') = map unflag (filelist st) \<and> namefd st' = namefd st \<and>
     (\<forall>k. k < length (filelist st) \<longrightarrow> GetFlag (filelist st') k FL_DUP = GetFlag (filelist st) k FL_DUP)"

lemma marked_refl [simp]: "marked st st"
  by (simp add: marked_def)

lemma marked_length: "marked st st' \<Longrightarrow> length (filelist st') = length (filelist st)"
  unfolding marked_def by (metis length_map)

lemma marked_trans: "marked st st' \<Longrightarrow> marked st' st'' \<Longrightarrow> marked st st''"
  using marked_length[of st st'] by (simp add: marked_def)

lemma marked_put: "marked st st' \<Longrightarrow> marked st (put s st')"
  by (simp add: marked_def put_def)

lemma marked_set: "x < length (filelist st) \<Longrightarrow> marked st (st\<lparr>filelist := SetFlag (filelist st) x FL_LNK\<rparr>)"
  by (simp add: marked_def GetFlag_SetFlag flag_values)

definition links_adjacent :: "filedesc list \<Rightarrow> bool" where
  "links_adjacent fl \<longleftrightarrow> (\<forall>k<length fl. GetFlag fl k FL_LNK \<longrightarrow> 0 < k \<and> same_inode (fl ! (k - 1)) (fl ! k))"

definition all_readable :: "host \<Rightarrow> finder \<Rightarrow> bool" where
  "all_readable h st \<longleftrightarrow> (\<forall>k<length (filelist st). readable h (namefd st) (filelist st ! k))"

lemma marked_nth: "marked st st' \<Longrightarrow> k < length (filelist st) \<Longrightarrow> unflag (filelist st' ! k) = unflag (filelist st ! k)"
  unfolding marked_def by (metis length_map nth_map)

lemma marked_readable: "marked st st' \<Longrightarrow> all_readable h st' = all_readable h st"
  unfolding all_readable_def using marked_nth[of st st'] same_unflag marked_length[of st st']
  by (metis marked_def)

lemma print_link_marked:
  assumes "all_readable h st" "ix < length (filelist st)" "ix2 < length (filelist st)"
  shows "\<exists>st'. print_link ix ix2 im nh st = Ret (True, False, st') \<and> filelist st' = filelist st \<and> namefd st' = namefd st"
proof -
  have g: "\<exists>fn. getfn s ix = Ret fn" "\<exists>fn. getfn s ix2 = Ret fn" if "filelist s = filelist st" "namefd s = namefd st" for s
    using assms that getfn_readable[of _ s h] by (auto simp: all_readable_def)
  define s where "s = (if nh then put (NL @ NL @ ''Hard link summary:'' @ NL @ NL) st else st)"
  have s: "filelist s = filelist st" "namefd s = namefd st" by (simp_all add: s_def put_def)
  obtain f1 where f1: "getfn s ix = Ret f1" using g(1)[OF s] by blast
  define s2 where "s2 = (if im then s else put (NL @ ''FILE: '' @ f1 @ NL) s)"
  have s2: "filelist s2 = filelist st" "namefd s2 = namefd st" by (simp_all add: s2_def put_def s)
  obtain f2 where f2: "getfn s2 ix2 = Ret f2" using g(2)[OF s2] by blast
  have "print_link ix ix2 im nh st = Ret (True, False, put (''LINK: '' @ f2 @ NL) s2)"
    unfolding print_link_def Let_def s_def[symmetric] using f1 f2 by (cases im) (simp_all add: s2_def)
  then show ?thesis by (simp add: put_def s2)
qed

lemma links_adjacent_set:
  assumes "links_adjacent fl" "ix < x" "x < length fl" "same_inode (fl ! (x - 1)) (fl ! x)"
  shows "links_adjacent (SetFlag fl x FL_LNK)"
proof -
  have u: "unflag (SetFlag fl x FL_LNK ! k) = unflag (fl ! k)" if "k < length fl" for k
    using same_unflag_nth[OF SetFlag_unflag[OF assms(3), of FL_LNK], of k] that by simp
  show ?thesis
    unfolding links_adjacent_def
  proof (intro allI impI)
    fix k assume k: "k < length (SetFlag fl x FL_LNK)" "GetFlag (SetFlag fl x FL_LNK) k FL_LNK"
    then have "0 < k \<and> same_inode (fl ! (k - 1)) (fl ! k)"
      using assms by (auto simp: GetFlag_SetFlag links_adjacent_def)
    then show "0 < k \<and> same_inode (SetFlag fl x FL_LNK ! (k - 1)) (SetFlag fl x FL_LNK ! k)"
      using same_unflag[OF u[of "k - 1"] u[of k]] k(1) by simp
  qed
qed

lemma link_run_spec:
  assumes "all_readable h st" "links_adjacent (filelist st)" "ix < m" "m \<le> length (filelist st)"
    "\<forall>k. ix \<le> k \<and> k < m \<longrightarrow> same_inode (filelist st ! ix) (filelist st ! k)"
  shows "\<exists>ix2 nh st'. link_run ix [m ..< length (filelist st)] im hd0 st = Ret (ix2, nh, st') \<and> m \<le> ix2 \<and>
    marked st st' \<and> links_adjacent (filelist st')"
  using assms
proof (induction "length (filelist st) - m" arbitrary: m im hd0 st)
  case 0
  then show ?case by simp
next
  case (Suc d)
  have m: "m < length (filelist st)" using Suc.hyps(2) by simp
  note list = upt_conv_Cons[OF m]
  show ?case
  proof (cases "same_inode (filelist st ! ix) (filelist st ! m)")
    case False
    then have "link_run ix [m ..< length (filelist st)] im hd0 st = Ret (m, hd0, st)"
      unfolding list link_run.simps same_inode_def by (simp only: if_False)
    then show ?thesis using Suc.prems by simp
  next
    case True
    define s where "s = st\<lparr>filelist := SetFlag (filelist st) m FL_LNK\<rparr>"
    have sl: "length (filelist s) = length (filelist st)" by (simp add: s_def)
    have ms: "marked st s" unfolding s_def using m by (rule marked_set)
    have "same_inode (filelist st ! (m - 1)) (filelist st ! m)"
      using Suc.prems(5) True \<open>ix < m\<close> unfolding same_inode_def by (metis One_nat_def Suc_pred diff_less less_Suc_eq_le lessI not_less_zero zero_less_iff_neq_zero)
    with links_adjacent_set[OF Suc.prems(2,3) m] have ad: "links_adjacent (filelist s)" by (simp add: s_def)
    have next_run: "\<exists>ix2 nh st'. link_run ix [Suc m ..< length (filelist st)] im' nh' s' = Ret (ix2, nh, st') \<and> m \<le> ix2 \<and>
        marked st st' \<and> links_adjacent (filelist st')" if e: "filelist s' = filelist s" "namefd s' = namefd s" for s' im' nh'
    proof -
      have ms': "marked st s'" using ms e by (simp add: marked_def)
      have u: "unflag (filelist s' ! k) = unflag (filelist st ! k)" if "k < length (filelist st)" for k
        using marked_nth[OF ms' that] .
      have "\<forall>k. ix \<le> k \<and> k < Suc m \<longrightarrow> same_inode (filelist s' ! ix) (filelist s' ! k)"
      proof (intro allI impI)
        fix k assume "ix \<le> k \<and> k < Suc m"
        then have "k < length (filelist st)" "same_inode (filelist st ! ix) (filelist st ! k)"
          using m Suc.prems(5) True less_Suc_eq by auto
        then show "same_inode (filelist s' ! ix) (filelist s' ! k)"
          using same_unflag[OF u[of ix] u[of k]] \<open>ix < m\<close> m by simp
      qed
      moreover have "d = length (filelist s') - Suc m" using Suc.hyps(2) sl e(1) by simp
      ultimately have "\<exists>ix2 nh st'. link_run ix [Suc m ..< length (filelist s')] im' nh' s' = Ret (ix2, nh, st') \<and> Suc m \<le> ix2 \<and>
          marked s' st' \<and> links_adjacent (filelist st')"
        using Suc.hyps(1)[of s' "Suc m" im' nh'] Suc.prems(1,3) m ad e sl marked_readable[OF ms', of h] by simp
      then
      obtain ix2 nh st' where "link_run ix [Suc m ..< length (filelist st)] im' nh' s' = Ret (ix2, nh, st')" "Suc m \<le> ix2"
        "marked s' st'" "links_adjacent (filelist st')" using sl e(1) by auto
      then show ?thesis using marked_trans[OF ms'] by auto
    qed
    have step: "link_run ix [m ..< length (filelist st)] im hd0 st =
       (if linkflag s then andThen (print_link ix m im hd0 s) (\<lambda>(im, nh, st'). link_run ix [Suc m ..< length (filelist st)] im nh st')
        else link_run ix [Suc m ..< length (filelist st)] im hd0 s)"
      using True by (simp add: list s_def same_inode_def Let_def)
    show ?thesis
    proof (cases "linkflag s")
      case True
      have "all_readable h s" using Suc.prems(1) marked_readable[OF ms] by simp
      from print_link_marked[OF this, of ix m im hd0] sl m \<open>ix < m\<close>
      obtain s' where "print_link ix m im hd0 s = Ret (True, False, s')" "filelist s' = filelist s" "namefd s' = namefd s" by auto
      then show ?thesis using step True next_run[of s' True False] by simp
    next
      case False
      then show ?thesis using step next_run[of s im hd0] by simp
    qed
  qed
qed

lemma mark_links_spec:
  assumes "all_readable h st" "links_adjacent (filelist st)" "length (filelist st) \<le> fuel + ix"
  shows "\<exists>st'. mark_links fuel ix nh st = Ret st' \<and> marked st st' \<and> links_adjacent (filelist st')"
  using assms
proof (induction fuel arbitrary: ix nh st)
  case 0
  then show ?case by simp
next
  case (Suc fuel)
  show ?case
  proof (cases "ix < length (filelist st)")
    case True
    have "\<forall>k. ix \<le> k \<and> k < Suc ix \<longrightarrow> same_inode (filelist st ! ix) (filelist st ! k)"
      using le_antisym by (fastforce simp: less_Suc_eq_le same_inode_def)
    from link_run_spec[OF Suc.prems(1,2) _ _ this, of False nh] True
    obtain ix2 nh' s where s: "link_run ix [Suc ix ..< length (filelist st)] False nh st = Ret (ix2, nh', s)" "Suc ix \<le> ix2"
      "marked st s" "links_adjacent (filelist s)" by auto
    have "all_readable h s" using Suc.prems(1) marked_readable[OF s(3)] by simp
    moreover have "length (filelist s) \<le> fuel + ix2" using Suc.prems(3) marked_length[OF s(3)] s(2) by simp
    ultimately obtain st' where "mark_links fuel ix2 nh' s = Ret st'" "marked s st'" "links_adjacent (filelist st')"
      using Suc.IH s(4) by blast
    then show ?thesis using True s marked_trans[OF s(3)] by auto
  qed (use Suc.prems in simp)
qed

section \<open>Marking duplicates\<close>

text \<open>
  The loop over one group, on indices only: \<open>D\<close> and \<open>L\<close> are the two marks, \<open>K\<close> is what duplicates
  agree in; \<open>ix\<close> is the head, \<open>m\<close> the next entry to look at, \<open>a\<close> is \<open>lastix\<close>.
\<close>

definition dup_inv :: "nat \<Rightarrow> nat \<Rightarrow> nat \<Rightarrow> nat \<Rightarrow> bool \<Rightarrow> (nat \<Rightarrow> bool) \<Rightarrow> (nat \<Rightarrow> bool) \<Rightarrow> (nat \<Rightarrow> 'k) \<Rightarrow> bool" where
  "dup_inv n ix m a lnk D L K \<longleftrightarrow> ix < a \<and> a \<le> m \<and> m \<le> n \<and>
     (\<forall>k. ix < k \<longrightarrow> k < a \<longrightarrow> K k = K ix) \<and> (a < n \<longrightarrow> D a \<longrightarrow> K a = K ix) \<and> (\<forall>k. a < k \<longrightarrow> k < n \<longrightarrow> \<not> D k) \<and>
     (\<forall>k. k \<le> ix \<longrightarrow> D k \<longrightarrow> 0 < k \<and> K (k - 1) = K k) \<and> (lnk \<longrightarrow> m < n \<longrightarrow> L m \<longrightarrow> K m = K ix) \<and>
     (\<forall>k. a < k \<longrightarrow> k < n \<longrightarrow> \<not> (k = m \<and> lnk) \<longrightarrow> L k \<longrightarrow> K (k - 1) = K k)"

definition dup_out :: "nat \<Rightarrow> nat \<Rightarrow> (nat \<Rightarrow> bool) \<Rightarrow> (nat \<Rightarrow> bool) \<Rightarrow> (nat \<Rightarrow> 'k) \<Rightarrow> bool" where
  "dup_out n i D L K \<longleftrightarrow> (\<forall>k. k \<le> i \<longrightarrow> k < n \<longrightarrow> D k \<longrightarrow> 0 < k \<and> K (k - 1) = K k) \<and>
     (\<forall>k. i < k \<longrightarrow> k < n \<longrightarrow> \<not> D k) \<and> (\<forall>k. i < k \<longrightarrow> k < n \<longrightarrow> L k \<longrightarrow> K (k - 1) = K k)"

lemma dup_invI:
  assumes "ix < a" "a \<le> m" "m \<le> n" "\<And>k. ix < k \<Longrightarrow> k < a \<Longrightarrow> K k = K ix" "a < n \<Longrightarrow> D a \<Longrightarrow> K a = K ix"
    "\<And>k. a < k \<Longrightarrow> k < n \<Longrightarrow> \<not> D k" "\<And>k. k \<le> ix \<Longrightarrow> D k \<Longrightarrow> 0 < k \<and> K (k - 1) = K k"
    "lnk \<Longrightarrow> m < n \<Longrightarrow> L m \<Longrightarrow> K m = K ix"
    "\<And>k. a < k \<Longrightarrow> k < n \<Longrightarrow> \<not> (k = m \<and> lnk) \<Longrightarrow> L k \<Longrightarrow> K (k - 1) = K k"
  shows "dup_inv n ix m a lnk D L K"
  using assms unfolding dup_inv_def by iprover

lemma dup_invD:
  assumes "dup_inv n ix m a lnk D L K"
  shows "ix < a" "a \<le> m" "m \<le> n" "\<And>k. ix < k \<Longrightarrow> k < a \<Longrightarrow> K k = K ix" "a < n \<Longrightarrow> D a \<Longrightarrow> K a = K ix"
    "\<And>k. a < k \<Longrightarrow> k < n \<Longrightarrow> \<not> D k" "\<And>k. k \<le> ix \<Longrightarrow> D k \<Longrightarrow> 0 < k \<and> K (k - 1) = K k"
    "lnk \<Longrightarrow> m < n \<Longrightarrow> L m \<Longrightarrow> K m = K ix"
    "\<And>k. a < k \<Longrightarrow> k < n \<Longrightarrow> \<not> (k = m \<and> lnk) \<Longrightarrow> L k \<Longrightarrow> K (k - 1) = K k"
  using assms unfolding dup_inv_def by iprover+

lemma dup_outI:
  assumes "\<And>k. k \<le> i \<Longrightarrow> k < n \<Longrightarrow> D k \<Longrightarrow> 0 < k \<and> K (k - 1) = K k" "\<And>k. i < k \<Longrightarrow> k < n \<Longrightarrow> \<not> D k"
    "\<And>k. i < k \<Longrightarrow> k < n \<Longrightarrow> L k \<Longrightarrow> K (k - 1) = K k"
  shows "dup_out n i D L K"
  using assms unfolding dup_out_def by iprover

lemma dup_outD:
  assumes "dup_out n i D L K"
  shows "\<And>k. k \<le> i \<Longrightarrow> k < n \<Longrightarrow> D k \<Longrightarrow> 0 < k \<and> K (k - 1) = K k" "\<And>k. i < k \<Longrightarrow> k < n \<Longrightarrow> \<not> D k"
    "\<And>k. i < k \<Longrightarrow> k < n \<Longrightarrow> L k \<Longrightarrow> K (k - 1) = K k"
  using assms unfolding dup_out_def by iprover+

lemma dup_enter:
  assumes "dup_out n ix D L K" "ix < n"
  shows "dup_inv n ix (Suc ix) (Suc ix) True D L K"
proof (rule dup_invI)
  show "K (Suc ix) = K ix" if "Suc ix < n" "L (Suc ix)"
    using dup_outD(3)[OF assms(1), of "Suc ix"] that by simp
  show "K (k - 1) = K k" if "Suc ix < k" "k < n" "L k" for k
    using dup_outD(3)[OF assms(1), of k] that by simp
  show "0 < k \<and> K (k - 1) = K k" if "k \<le> ix" "D k" for k
    using dup_outD(1)[OF assms(1), of k] that assms(2) by simp
  show "\<not> D k" if "Suc ix < k" "k < n" for k using dup_outD(2)[OF assms(1), of k] that by simp
  show "K (Suc ix) = K ix" if "Suc ix < n" "D (Suc ix)" using dup_outD(2)[OF assms(1), of "Suc ix"] that by simp
qed (use assms(2) in simp_all)

lemma dup_stay:
  assumes "dup_inv n ix m m lnk D L K" "m < n" "K m = K ix"
  shows "dup_inv n ix (Suc m) m True (\<lambda>k. D k \<or> k = m) L K"
proof (rule dup_invI)
  show "\<not> (D k \<or> k = m)" if "m < k" "k < n" for k using dup_invD(6)[OF assms(1) that] that by simp
  show "0 < k \<and> K (k - 1) = K k" if "k \<le> ix" "D k \<or> k = m" for k
    using dup_invD(1)[OF assms(1)] dup_invD(7)[OF assms(1), of k] that by auto
  show "K (Suc m) = K ix" if "Suc m < n" "L (Suc m)"
    using dup_invD(9)[OF assms(1), of "Suc m"] that assms(3) by simp
  show "K (k - 1) = K k" if "m < k" "k < n" "L k" for k
    using dup_invD(9)[OF assms(1), of k] that by simp
qed (use assms(2,3) dup_invD(1,4)[OF assms(1)] in simp_all)

lemma dup_skip:
  assumes "dup_inv n ix m a lnk D L K" "m < n" "\<not> (L m \<and> lnk)"
  shows "dup_inv n ix (Suc m) a False D L K"
proof (rule dup_invI)
  show "K (k - 1) = K k" if "a < k" "k < n" "\<not> (k = Suc m \<and> False)" "L k" for k
    using that assms(3) dup_invD(9)[OF assms(1), of k] by (cases "k = m") auto
  show "0 < k \<and> K (k - 1) = K k" if "k \<le> ix" "D k" for k using dup_invD(7)[OF assms(1) that] .
  show "\<not> D k" if "a < k" "k < n" for k using dup_invD(6)[OF assms(1) that] .
  show "K a = K ix" if "a < n" "D a" using dup_invD(5)[OF assms(1) that] .
  show "K k = K ix" if "ix < k" "k < a" for k using dup_invD(4)[OF assms(1) that] .
qed (use assms(2) dup_invD(1,2)[OF assms(1)] in simp_all)

definition shifted :: "nat \<Rightarrow> nat \<Rightarrow> nat \<Rightarrow> nat" where
  "shifted a m k = (if k = a then m else if a < k \<and> k \<le> m then k - 1 else k)"

lemma dup_move:
  assumes "dup_inv n ix m a lnk D L K" "m < n" "a \<noteq> m" "K m = K ix"
  shows "dup_inv n ix (Suc m) (Suc a) True (\<lambda>k. D (shifted a m k) \<or> shifted a m k = m) (\<lambda>k. L (shifted a m k)) (\<lambda>k. K (shifted a m k))"
proof -
  have am: "ix < a" "a < m" using dup_invD(1,2)[OF assms(1)] assms(3) by simp_all
  have o7: "K (k - 1) = K k" if "a < k" "k < n" "k \<noteq> m" "L k" for k
    using dup_invD(9)[OF assms(1) that(1,2) _ that(4)] that(3) by simp
  have o4: "D a \<Longrightarrow> K a = K ix" using dup_invD(5)[OF assms(1)] am assms(2) by simp
  note o = am dup_invD(4)[OF assms(1)] o4 dup_invD(6)[OF assms(1)] dup_invD(7)[OF assms(1)] o7
  have s: "k < a \<Longrightarrow> shifted a m k = k" "m < k \<Longrightarrow> shifted a m k = k" "a < k \<Longrightarrow> k \<le> m \<Longrightarrow> shifted a m k = k - 1" "shifted a m a = m" for k
    using o(2) by (auto simp: shifted_def)
  have ix: "shifted a m ix = ix" using o(1) by (rule s(1))
  show ?thesis
  proof (rule dup_invI; (unfold ix)?)
    show "K (shifted a m k) = K ix" if "ix < k" "k < Suc a" for k
      using that o(3)[of k] s(1)[of k] s(4) assms(4) by (cases "k = a") auto
    show "K (shifted a m (Suc a)) = K ix" if "Suc a < n" "D (shifted a m (Suc a)) \<or> shifted a m (Suc a) = m"
      using that o(2,4) s(3)[of "Suc a"] by auto
    show "\<not> (D (shifted a m k) \<or> shifted a m k = m)" if "Suc a < k" "k < n" for k
    proof (cases "k \<le> m")
      case True
      then have "shifted a m k = k - 1" "a < k - 1" "k - 1 < n" "k - 1 \<noteq> m" using that s(3)[of k] by auto
      then show ?thesis using o(5)[of "k - 1"] by simp
    next
      case False
      then show ?thesis using that o(5)[of k] s(2)[of k] by auto
    qed
    show "0 < k \<and> K (shifted a m (k - 1)) = K (shifted a m k)" if "k \<le> ix" "D (shifted a m k) \<or> shifted a m k = m" for k
      using that o(1,2) o(6)[of k] s(1)[of k] s(1)[of "k - 1"] by auto
    show "K (shifted a m (Suc m)) = K ix" if "True" "Suc m < n" "L (shifted a m (Suc m))"
      using that o(2) o(7)[of "Suc m"] s(2)[of "Suc m"] assms(4) by auto
    show "K (shifted a m (k - 1)) = K (shifted a m k)"
      if "Suc a < k" "k < n" "\<not> (k = Suc m \<and> True)" "L (shifted a m k)" for k
    proof (cases "k \<le> m")
      case True
      then have e: "a < k - 1" "k - 1 < m" "shifted a m k = k - 1" "shifted a m (k - 1) = k - 1 - 1"
        using that s(3)[of k] s(3)[of "k - 1"] by auto
      then show ?thesis using that(4)[unfolded e(3)] o(7)[of "k - 1"] assms(2) by (simp add: e(3,4))
    next
      case False
      then have "Suc m < k" using that by auto
      then have e: "shifted a m k = k" "shifted a m (k - 1) = k - 1" using s(2)[of k] s(2)[of "k - 1"] by auto
      then show ?thesis using that(1,2) that(4)[unfolded e(1)] o(2) o(7)[of k] False by (simp add: e)
    qed
  qed (use o(1,2) assms(2) in simp_all)
qed

lemma dup_leave:
  assumes "dup_inv n ix m a lnk D L K" "m < n \<Longrightarrow> K m \<noteq> K ix"
  shows "dup_out n a D L K"
proof -
  note o = dup_invD[OF assms(1)]
  show ?thesis
  proof (rule dup_outI)
    show "0 < k \<and> K (k - 1) = K k" if k: "k \<le> a" "k < n" "D k" for k
    proof (cases "k \<le> ix")
      case False
      have e: "K j = K ix" if "ix \<le> j" "j \<le> k" for j
      proof (cases "j = ix \<or> j < a")
        case True
        then show ?thesis using that o(4)[of j] by (cases "j = ix") simp_all
      next
        case False
        then have "j = a" "k = a" using that k by simp_all
        then show ?thesis using o(5) k by simp
      qed
      show ?thesis using False e[of k] e[of "k - 1"] by simp
    qed (use k o(7) in simp)
    show "\<not> D k" if "a < k" "k < n" for k using that by (rule o(6))
    show "K (k - 1) = K k" if "a < k" "k < n" "L k" for k
      using that o(8) o(9)[of k] assms(2) by (cases "k = m \<and> lnk") auto
  qed
qed

text \<open>
  Nothing is missed. \<open>dup_done\<close>: what agrees with an entry before \<open>i\<close> stands in one piece after it, all
  marked, up to \<open>i\<close> at most; \<open>dup_part\<close> is the same inside the loop, and \<open>R\<close> is what the loop compares
  before it opens the files: entries equal in it stand together.
\<close>

definition dup_done :: "nat \<Rightarrow> nat \<Rightarrow> (nat \<Rightarrow> bool) \<Rightarrow> (nat \<Rightarrow> 'k) \<Rightarrow> bool" where
  "dup_done n i D K \<longleftrightarrow> (\<forall>p q. p < i \<longrightarrow> p < q \<longrightarrow> q < n \<longrightarrow> K p = K q \<longrightarrow>
     q \<le> i \<and> (\<forall>k. p < k \<longrightarrow> k \<le> q \<longrightarrow> D k))"

definition dup_part :: "nat \<Rightarrow> nat \<Rightarrow> nat \<Rightarrow> nat \<Rightarrow> (nat \<Rightarrow> bool) \<Rightarrow> (nat \<Rightarrow> 'k) \<Rightarrow> (nat \<Rightarrow> 'r) \<Rightarrow> bool" where
  "dup_part n ix m a D K R \<longleftrightarrow> dup_done n ix D K \<and> (\<forall>k. ix < k \<longrightarrow> k < a \<longrightarrow> D k) \<and>
     (\<forall>k. a \<le> k \<longrightarrow> k < m \<longrightarrow> K k = K ix \<longrightarrow> k = a \<and> D a) \<and> (\<forall>k. ix \<le> k \<longrightarrow> k < m \<longrightarrow> R k = R ix)"

definition runs_together :: "nat \<Rightarrow> (nat \<Rightarrow> 'r) \<Rightarrow> bool" where
  "runs_together n R \<longleftrightarrow> (\<forall>i j k. i < j \<longrightarrow> j < k \<longrightarrow> k < n \<longrightarrow> R i = R k \<longrightarrow> R j = R i)"

lemma dup_partI:
  assumes "dup_done n ix D K" "\<And>k. ix < k \<Longrightarrow> k < a \<Longrightarrow> D k"
    "\<And>k. a \<le> k \<Longrightarrow> k < m \<Longrightarrow> K k = K ix \<Longrightarrow> k = a \<and> D a" "\<And>k. ix \<le> k \<Longrightarrow> k < m \<Longrightarrow> R k = R ix"
  shows "dup_part n ix m a D K R"
  using assms unfolding dup_part_def by blast

lemma dup_partD:
  assumes "dup_part n ix m a D K R"
  shows "dup_done n ix D K" "\<And>k. ix < k \<Longrightarrow> k < a \<Longrightarrow> D k"
    "\<And>k. a \<le> k \<Longrightarrow> k < m \<Longrightarrow> K k = K ix \<Longrightarrow> k = a \<and> D a" "\<And>k. ix \<le> k \<Longrightarrow> k < m \<Longrightarrow> R k = R ix"
  using assms unfolding dup_part_def by blast+

lemma dup_doneD:
  assumes "dup_done n i D K" "p < i" "p < q" "q < n" "K p = K q"
  shows "q \<le> i" "p < k \<Longrightarrow> k \<le> q \<Longrightarrow> D k"
  using assms unfolding dup_done_def by blast+

lemma dup_done_all: "dup_done n i D K \<Longrightarrow> n \<le> i \<Longrightarrow> dup_done n n D K"
  unfolding dup_done_def by (intro allI impI conjI) (simp, blast dest: less_le_trans)

lemma dup_done_start: "dup_done n 0 D K"
  by (simp add: dup_done_def)

lemma part_enter: "dup_done n ix D K \<Longrightarrow> dup_part n ix (Suc ix) (Suc ix) D K R"
  by (rule dup_partI) (auto simp: less_Suc_eq)

lemma dup_done_cong:
  assumes "dup_done n i D K" "\<And>k. k < n \<Longrightarrow> K' k = K k" "\<And>k. k \<le> i \<Longrightarrow> k < n \<Longrightarrow> D k \<Longrightarrow> D' k"
  shows "dup_done n i D' K'"
  unfolding dup_done_def
proof (intro allI impI)
  fix p q assume o: "p < i" "p < q" "q < n" "K' p = K' q"
  then have "K p = K q" using assms(2)[of p] assms(2)[of q] by simp
  note d = dup_doneD[OF assms(1) o(1-3) this]
  show "q \<le> i \<and> (\<forall>k. p < k \<longrightarrow> k \<le> q \<longrightarrow> D' k)" using d(1) d(2) assms(3) o(3) by auto
qed

lemma part_skip:
  assumes "dup_part n ix m a D K R" "K m \<noteq> K ix" "R m = R ix"
  shows "dup_part n ix (Suc m) a D K R"
  using dup_partD[OF assms(1)] assms(2,3) by (intro dup_partI) (auto simp: less_Suc_eq)

lemma part_stay:
  assumes "dup_part n ix m m D K R" "ix < m" "R m = R ix"
  shows "dup_part n ix (Suc m) m (\<lambda>k. D k \<or> k = m) K R"
proof (rule dup_partI)
  show "dup_done n ix (\<lambda>k. D k \<or> k = m) K" by (rule dup_done_cong[OF dup_partD(1)[OF assms(1)]]) simp_all
  show "D k \<or> k = m" if "ix < k" "k < m" for k using dup_partD(2)[OF assms(1) that] by simp
  show "k = m \<and> (D m \<or> m = m)" if "m \<le> k" "k < Suc m" for k using that by simp
  show "R k = R ix" if "ix \<le> k" "k < Suc m" for k using dup_partD(4)[OF assms(1), of k] that assms(3) by (cases "k = m") simp_all
qed

lemma part_move:
  assumes "dup_part n ix m a D K R" "ix < a" "a < m" "m < n" "R m = R ix"
  shows "dup_part n ix (Suc m) (Suc a) (\<lambda>k. D (shifted a m k) \<or> shifted a m k = m) (\<lambda>k. K (shifted a m k)) R"
proof (rule dup_partI)
  note o = dup_partD[OF assms(1)]
  have s: "k < a \<Longrightarrow> shifted a m k = k" "a < k \<Longrightarrow> k \<le> m \<Longrightarrow> shifted a m k = k - 1" "shifted a m a = m" for k
    using assms(3) by (auto simp: shifted_def)
  have ix: "shifted a m ix = ix" using assms(2) by (rule s(1))
  have old: "p < ix \<Longrightarrow> p < q \<Longrightarrow> q < n \<Longrightarrow> K p \<noteq> K q \<or> q \<le> ix" for p q using dup_doneD(1)[OF o(1)] by blast
  have lt: "shifted a m k < n" if "k < n" for k using that assms(3,4) by (auto simp: shifted_def)
  show "dup_done n ix (\<lambda>k. D (shifted a m k) \<or> shifted a m k = m) (\<lambda>k. K (shifted a m k))"
    unfolding dup_done_def
  proof (intro allI impI)
    fix p q assume p: "p < ix" "p < q" "q < n" "K (shifted a m p) = K (shifted a m q)"
    have sp: "shifted a m p = p" using p(1) assms(2) by (intro s(1)) simp
    have q: "q \<le> ix"
    proof (rule ccontr)
      assume "\<not> q \<le> ix"
      then have "ix < shifted a m q" using assms(2,3) by (auto simp: shifted_def)
      then show False using old[of p "shifted a m q"] p lt[OF p(3)] sp by auto
    qed
    then have sq: "shifted a m k = k" if "k \<le> q" for k using that assms(2) by (intro s(1)) simp
    have "K p = K q" using p(4) sp sq[of q] by simp
    then show "q \<le> ix \<and> (\<forall>k. p < k \<longrightarrow> k \<le> q \<longrightarrow> D (shifted a m k) \<or> shifted a m k = m)"
      using q dup_doneD(2)[OF o(1) p(1-3)] sq by auto
  qed
  show "D (shifted a m k) \<or> shifted a m k = m" if "ix < k" "k < Suc a" for k
    using that o(2)[of k] s(1)[of k] s(3) by (cases "k = a") auto
  show "k = Suc a \<and> (D (shifted a m (Suc a)) \<or> shifted a m (Suc a) = m)"
    if "Suc a \<le> k" "k < Suc m" "K (shifted a m k) = K (shifted a m ix)" for k
    using that o(3)[of "k - 1"] s(2)[of k] ix assms(3) by (cases k) auto
  show "R k = R ix" if "ix \<le> k" "k < Suc m" for k using that o(4)[of k] assms(5) by (cases "k = m") auto
qed

lemma part_leave:
  assumes "dup_part n ix m a D K R" "ix < a" "a \<le> m" "m \<le> n" "\<And>k. ix < k \<Longrightarrow> k < a \<Longrightarrow> K k = K ix"
    and rest: "\<And>k. m \<le> k \<Longrightarrow> k < n \<Longrightarrow> K k \<noteq> K ix"
  shows "dup_done n a D K"
  unfolding dup_done_def
proof (intro allI impI)
  note o = dup_partD[OF assms(1)]
  have head: "q \<le> a \<and> (\<forall>k. ix < k \<longrightarrow> k \<le> q \<longrightarrow> D k)" if q: "ix < q" "q < n" "K q = K ix" for q
  proof (cases "q < a")
    case True
    then show ?thesis using o(2) by auto
  next
    case False
    have "q < m" using rest[of q] q by (cases "q < m") auto
    then have "q = a" "D a" using o(3)[of q] False q(3) by simp_all
    then show ?thesis using o(2) by (auto simp: le_less)
  qed
  fix p q assume p: "p < a" "p < q" "q < n" "K p = K q"
  consider "p < ix" | "p = ix" | "ix < p" by linarith
  then show "q \<le> a \<and> (\<forall>k. p < k \<longrightarrow> k \<le> q \<longrightarrow> D k)"
  proof cases
    case 1
    then show ?thesis using dup_doneD[OF o(1) 1 p(2-4)] assms(2) by auto
  next
    case 2
    then show ?thesis using head[of q] p by simp
  next
    case 3
    then have "K q = K ix" using assms(5)[of p] p by simp
    then show ?thesis using head[of q] 3 p by auto
  qed
qed

section \<open>The scan\<close>

lemma shift_up: "b < length (fl :: filedesc list) \<Longrightarrow>
   length (foldl (\<lambda>l n1. l[n1 := l ! (n1 - 1)]) fl (rev [a + 1 ..< b + 1])) = length fl \<and>
   (\<forall>k<length fl. foldl (\<lambda>l n1. l[n1 := l ! (n1 - 1)]) fl (rev [a + 1 ..< b + 1]) ! k = (if a < k \<and> k \<le> b then fl ! (k - 1) else fl ! k))"
proof (induction b arbitrary: fl)
  case (Suc b)
  show ?case
  proof (cases "a \<le> b")
    case True
    define fl' where "fl' = fl[Suc b := fl ! b]"
    define g where "g = (\<lambda>xs ns. foldl (\<lambda>l n1. l[n1 := l ! (n1 - 1 :: nat)]) xs ns :: filedesc list)"
    have "rev [a + 1 ..< Suc b + 1] = Suc b # rev [a + 1 ..< b + 1]" using True by simp
    then have e: "g fl (rev [a + 1 ..< Suc b + 1]) = g fl' (rev [a + 1 ..< b + 1])" by (simp add: g_def fl'_def)
    have ih: "length (g fl' (rev [a + 1 ..< b + 1])) = length fl'"
      "k < length fl' \<Longrightarrow> g fl' (rev [a + 1 ..< b + 1]) ! k = (if a < k \<and> k \<le> b then fl' ! (k - 1) else fl' ! k)" for k
      using Suc.IH[of fl'] Suc.prems unfolding g_def by (simp_all add: fl'_def)
    have l: "length fl' = length fl" by (simp add: fl'_def)
    have "g fl' (rev [a + 1 ..< b + 1]) ! k = (if a < k \<and> k \<le> Suc b then fl ! (k - 1) else fl ! k)" if "k < length fl" for k
    proof (cases "k = Suc b")
      case True
      then show ?thesis using ih(2)[of k] l that \<open>a \<le> b\<close> by (simp add: fl'_def)
    next
      case False
      have "k \<le> b \<Longrightarrow> fl' ! (k - 1) = fl ! (k - 1)" "fl' ! k = fl ! k" using False by (simp_all add: fl'_def)
      then show ?thesis unfolding ih(2)[OF that[folded l]] using False by (simp add: le_Suc_eq)
    qed
    then show ?thesis unfolding g_def[symmetric] e using ih(1) l by simp
  qed auto
qed auto

lemma move_down_nth:
  assumes "b < length fl" "a \<le> b"
  shows "length (move_down a b fl) = length fl" "k < length fl \<Longrightarrow> move_down a b fl ! k = fl ! shifted a b k"
  using shift_up[OF assms(1), of a] assms by (auto simp: move_down_def Let_def shifted_def nth_list_update)

lemma move_down_split:
  assumes "b < length fl" "a \<le> b"
  shows "move_down a b fl = take a fl @ fl ! b # take (b - a) (drop a fl) @ drop (Suc b) fl"
proof (rule nth_equalityI)
  show "length (move_down a b fl) = length (take a fl @ fl ! b # take (b - a) (drop a fl) @ drop (Suc b) fl)"
    using assms by (simp add: move_down_nth(1)[OF assms])
  fix k assume "k < length (move_down a b fl)"
  then have k: "k < length fl" by (simp add: move_down_nth(1)[OF assms])
  note e = move_down_nth(2)[OF assms k]
  consider "k < a" | "k = a" | "a < k \<and> k \<le> b" | "b < k" by linarith
  then show "move_down a b fl ! k = (take a fl @ fl ! b # take (b - a) (drop a fl) @ drop (Suc b) fl) ! k"
  proof cases
    case 3
    then have "k - a = Suc (k - a - 1)" "k - a - 1 < b - a" "a + (k - a - 1) = k - 1" by linarith+
    then show ?thesis using 3 k assms unfolding e by (simp add: shifted_def nth_append del: One_nat_def)
  next
    case 4
    then have "k - a = Suc (k - a - 1)" "\<not> k - a - 1 < b - a" "Suc b + (k - a - 1 - (b - a)) = k" using assms by linarith+
    then show ?thesis using 4 k assms unfolding e by (simp add: shifted_def nth_append del: One_nat_def)
  qed (use k assms e in \<open>simp_all add: shifted_def nth_append\<close>)
qed

lemma move_down_mset:
  assumes "b < length fl" "a \<le> b"
  shows "mset (move_down a b fl) = mset fl"
proof -
  have "fl = take a fl @ take (b - a) (drop a fl) @ fl ! b # drop (Suc b) fl"
    using assms id_take_nth_drop[OF assms(1)] by (metis append_assoc append_take_drop_id le_add_diff_inverse take_add)
  then have "mset fl = mset (take a fl @ take (b - a) (drop a fl) @ fl ! b # drop (Suc b) fl)" by simp
  then show ?thesis unfolding move_down_split[OF assms] by simp
qed

definition file_key :: "host \<Rightarrow> string \<Rightarrow> filedesc \<Rightarrow> u64 \<times> u64 \<times> u8 list option" where
  "file_key h nf d = (fd_length d, crc32 d, bytes_at h nf d)"

lemma same_file_key: "same_file h nf d e \<longleftrightarrow> file_key h nf d = file_key h nf e"
  by (simp add: same_file_def file_key_def)

lemma file_key_unflag: "unflag d = unflag e \<Longrightarrow> file_key h nf d = file_key h nf e"
  using unflag_fields[of d e] by (simp add: file_key_def bytes_at_def)

abbreviation dup_at :: "finder \<Rightarrow> nat \<Rightarrow> bool" where "dup_at st k \<equiv> GetFlag (filelist st) k FL_DUP"
abbreviation link_at :: "finder \<Rightarrow> nat \<Rightarrow> bool" where "link_at st k \<equiv> GetFlag (filelist st) k FL_LNK"
abbreviation key_at :: "host \<Rightarrow> finder \<Rightarrow> nat \<Rightarrow> u64 \<times> u64 \<times> u8 list option" where
  "key_at h st k \<equiv> file_key h (namefd st) (filelist st ! k)"

lemma dup_inv_cong:
  assumes "dup_inv n ix m a lnk D L K" "ix < n" "\<And>k. k < n \<Longrightarrow> D' k = D k \<and> L' k = L k \<and> K' k = K k"
  shows "dup_inv n ix m a lnk D' L' K'"
proof -
  note o = dup_invD[OF assms(1)]
  show ?thesis
  proof (rule dup_invI)
    show "K' k = K' ix" if "ix < k" "k < a" for k
      using o(2,3) o(4)[OF that] assms(2) assms(3)[of k] assms(3)[of ix] that by simp
    show "K' a = K' ix" if "a < n" "D' a" using o(5) assms(2) assms(3)[of a] assms(3)[of ix] that by simp
    show "\<not> D' k" if "a < k" "k < n" for k using o(6)[OF that] assms(3)[of k] that by simp
    show "0 < k \<and> K' (k - 1) = K' k" if "k \<le> ix" "D' k" for k
      using o(7)[of k] assms(2) assms(3)[of k] assms(3)[of "k - 1"] that by simp
    show "K' m = K' ix" if "lnk" "m < n" "L' m" using o(8) assms(2) assms(3)[of m] assms(3)[of ix] that by simp
    show "K' (k - 1) = K' k" if "a < k" "k < n" "\<not> (k = m \<and> lnk)" "L' k" for k
      using o(9)[of k] assms(3)[of k] assms(3)[of "k - 1"] that by simp
  qed (use o(1-3) in simp_all)
qed

text \<open>What the scan for duplicates keeps.\<close>

definition kept :: "finder \<Rightarrow> finder \<Rightarrow> bool" where
  "kept st st' \<longleftrightarrow> mset (map unflag (filelist st')) = mset (map unflag (filelist st)) \<and> namefd st' = namefd st"

lemma kept_length: "kept st st' \<Longrightarrow> length (filelist st') = length (filelist st)"
  unfolding kept_def by (metis length_map size_mset)

lemma kept_readable: "kept st st' \<Longrightarrow> all_readable h st \<Longrightarrow> all_readable h st'"
proof -
  assume k: "kept st st'" and r: "all_readable h st"
  have "unflag ` set (filelist st') = unflag ` set (filelist st)"
    using k unfolding kept_def by (metis mset_eq_setD set_map)
  then have "\<exists>e\<in>set (filelist st). unflag d = unflag e" if "d \<in> set (filelist st')" for d
    using that by (metis imageE imageI)
  moreover have "readable h (namefd st) e" if "e \<in> set (filelist st)" for e
    using r that by (metis all_readable_def in_set_conv_nth)
  ultimately have "readable h (namefd st) d" if "d \<in> set (filelist st')" for d
    using that same_unflag by blast
  then show ?thesis using k by (simp add: all_readable_def kept_def)
qed

text \<open>The entries that agree in size and checksum stand together, and no duplicate before \<open>ix\<close> is missed.\<close>

abbreviation size_at :: "finder \<Rightarrow> nat \<Rightarrow> u64 \<times> u64" where
  "size_at st k \<equiv> (fd_length (filelist st ! k), crc32 (filelist st ! k))"

definition gathered :: "host \<Rightarrow> finder \<Rightarrow> nat \<Rightarrow> bool" where
  "gathered h st i \<longleftrightarrow> runs_together (length (filelist st)) (size_at st) \<and> dup_done (length (filelist st)) i (dup_at st) (key_at h st)"

definition gathering :: "host \<Rightarrow> finder \<Rightarrow> nat \<Rightarrow> nat \<Rightarrow> nat \<Rightarrow> bool" where
  "gathering h st ix m a \<longleftrightarrow> runs_together (length (filelist st)) (size_at st) \<and>
     dup_part (length (filelist st)) ix m a (dup_at st) (key_at h st) (size_at st)"

lemma gathering_cong:
  assumes "runs_together n (size_at st)" "dup_part n ix m a D K (size_at st)" "length (filelist s) = n" "m \<le> n" "ix < n" "a \<le> m"
    "\<And>k. k < n \<Longrightarrow> (dup_at s k \<longleftrightarrow> D k) \<and> key_at h s k = K k \<and> size_at s k = size_at st k"
  shows "gathering h s ix m a"
  unfolding gathering_def assms(3)
proof
  note o = dup_partD[OF assms(2)]
  show "runs_together n (size_at s)" unfolding runs_together_def
  proof (intro allI impI)
    fix i j k assume i: "i < j" "j < k" "k < n" "size_at s i = size_at s k"
    then have "size_at st i = size_at st k" using assms(7)[of i] assms(7)[of k] by simp
    then have "size_at st j = size_at st i" using assms(1) i unfolding runs_together_def by blast
    then show "size_at s j = size_at s i" using assms(7)[of i] assms(7)[of j] i by simp
  qed
  show "dup_part n ix m a (dup_at s) (key_at h s) (size_at s)"
  proof (rule dup_partI)
    show "dup_done n ix (dup_at s) (key_at h s)" by (rule dup_done_cong[OF o(1)]) (use assms(7) in simp_all)
    show "dup_at s k" if "ix < k" "k < a" for k using o(2)[OF that] assms(4,6) assms(7)[of k] that by simp
    show "k = a \<and> dup_at s a" if "a \<le> k" "k < m" "key_at h s k = key_at h s ix" for k
      using o(3)[of k] that assms(4,5) assms(7)[of k] assms(7)[of ix] by auto
    show "size_at s k = size_at s ix" if "ix \<le> k" "k < m" for k
      using o(4)[OF that] assms(4,5) assms(7)[of k] assms(7)[of ix] that by simp
  qed
qed

lemma gathered_leave:
  assumes "gathering h st ix m a" "dup_inv (length (filelist st)) ix m a lnk (dup_at st) (link_at st) (key_at h st)"
    "m < length (filelist st) \<Longrightarrow> size_at st m \<noteq> size_at st ix"
  shows "gathered h st a"
proof -
  let ?n = "length (filelist st)"
  note g = assms(1)[unfolded gathering_def] and i = dup_invD[OF assms(2)]
  have "key_at h st k \<noteq> key_at h st ix" if k: "m \<le> k" "k < ?n" for k
  proof
    assume "key_at h st k = key_at h st ix"
    then have e: "size_at st ix = size_at st k" by (simp add: file_key_def)
    have ne: "size_at st m \<noteq> size_at st ix" using assms(3) k by simp
    have "m < k" using e ne k(1) by (cases "m = k") auto
    moreover have "ix < m" using i(1,2) by simp
    ultimately have "size_at st m = size_at st ix" using g e k(2) unfolding runs_together_def by blast
    then show False using ne by simp
  qed
  then show ?thesis using part_leave[OF conjunct2[OF g] i(1-4)] g by (simp add: gathered_def)
qed

lemma dup_run_spec:
  assumes "all_readable h st" "dup_inv (length (filelist st)) ix m a lnk (dup_at st) (link_at st) (key_at h st)" "ix < length (filelist st)"
  shows "\<exists>a' st'. dup_run h ix [m ..< length (filelist st)] a lnk st = Ret (a', st') \<and> ix < a' \<and> kept st st' \<and>
    dup_out (length (filelist st)) a' (dup_at st') (link_at st') (key_at h st') \<and> (gathering h st ix m a \<longrightarrow> gathered h st' a')"
  using assms
proof (induction "length (filelist st) - m" arbitrary: m a lnk st)
  case 0
  have "m = length (filelist st)" using 0(1) dup_invD(3)[OF 0(3)] by simp
  moreover have "dup_out (length (filelist st)) a (dup_at st) (link_at st) (key_at h st)"
    by (rule dup_leave[OF 0(3)]) (use calculation in simp)
  moreover have "gathering h st ix m a \<longrightarrow> gathered h st a" using gathered_leave[OF _ 0(3)] calculation(1) by blast
  ultimately show ?case using dup_invD(1)[OF 0(3)] by (auto simp: kept_def)
next
  case (Suc d)
  let ?n = "length (filelist st)" and ?fl = "filelist st"
  have m: "m < ?n" using Suc.hyps(2) by simp
  have a: "ix < a" "a \<le> m" using dup_invD[OF Suc.prems(2)] by simp_all
  note list = upt_conv_Cons[OF m]
  show ?case
  proof (cases "fd_length (?fl ! ix) = fd_length (?fl ! m) \<and> crc32 (?fl ! ix) = crc32 (?fl ! m)")
    case False
    then have "dup_run h ix [m ..< ?n] a lnk st = Ret (a, st)" unfolding list dup_run.simps by (simp only: if_False)
    moreover have "key_at h st m \<noteq> key_at h st ix" using False by (auto simp: file_key_def)
    moreover have "gathering h st ix m a \<longrightarrow> gathered h st a" using gathered_leave[OF _ Suc.prems(2)] False by auto
    ultimately show ?thesis using a dup_leave[OF Suc.prems(2)] by (auto simp: kept_def)
  next
    case same: True
    define r where "r = (if link_at st m \<and> lnk then Ret 0 else fullcmp h st ix m)"
    have full: "fullcmp h st ix m = Ret (if bytes_at h (namefd st) (?fl ! ix) = bytes_at h (namefd st) (?fl ! m) then 0 else 1)"
      using fullcmp_readable[of ix st h m] Suc.prems(1,3) m by (simp add: all_readable_def)
    have key: "key_at h st m = key_at h st ix \<longleftrightarrow> bytes_at h (namefd st) (?fl ! ix) = bytes_at h (namefd st) (?fl ! m)"
      using same by (auto simp: file_key_def)
    have r: "r = Ret (if key_at h st m = key_at h st ix then 0 else 1)" "key_at h st m \<noteq> key_at h st ix \<Longrightarrow> \<not> (link_at st m \<and> lnk)"
      using full key dup_invD(8)[OF Suc.prems(2)] m by (auto simp: r_def)
    have step: "dup_run h ix [m ..< ?n] a lnk st = andThen r (\<lambda>r.
        if r = 0
        then let fl = SetFlag ?fl m FL_DUP in
          if a \<noteq> m then dup_run h ix [Suc m ..< ?n] (a + 1) True (st\<lparr>filelist := move_down a m fl\<rparr>)
          else dup_run h ix [Suc m ..< ?n] a True (st\<lparr>filelist := fl\<rparr>)
        else dup_run h ix [Suc m ..< ?n] a False st)"
      unfolding list dup_run.simps r_def using same by (simp only: if_True simp_thms)
    have next_run: "\<exists>a'' st'. dup_run h ix [Suc m ..< ?n] a' lnk' s = Ret (a'', st') \<and> ix < a'' \<and> kept st st' \<and>
        dup_out ?n a'' (dup_at st') (link_at st') (key_at h st') \<and> (gathering h s ix (Suc m) a' \<longrightarrow> gathered h st' a'')"
      if k: "kept st s" and v: "dup_inv ?n ix (Suc m) a' lnk' (dup_at s) (link_at s) (key_at h s)" for a' lnk' s
    proof -
      have l: "length (filelist s) = ?n" by (rule kept_length[OF k])
      from Suc.hyps(1)[of s "Suc m" a' lnk'] Suc.hyps(2) Suc.prems(3) v kept_readable[OF k Suc.prems(1)]
      show ?thesis unfolding l using k by (auto simp: kept_def)
    qed
    show ?thesis
    proof (cases "key_at h st m = key_at h st ix")
      case False
      have "gathering h st ix m a \<longrightarrow> gathering h st ix (Suc m) a" 
        using part_skip[OF _ False, of ?n a "dup_at st" "size_at st"] same by (auto simp: gathering_def)
      then show ?thesis unfolding step r(1) using False next_run[of st a False] dup_skip[OF Suc.prems(2) m r(2)[OF False]]
        by (auto simp: kept_def)
    next
      case True
      define s where "s = st\<lparr>filelist := SetFlag ?fl m FL_DUP\<rparr>"
      have ks: "kept st s" using m by (simp add: kept_def s_def del: mset_map)
      have sl: "length (filelist s) = ?n" by (rule kept_length[OF ks])
      have su: "unflag (filelist s ! k) = unflag (?fl ! k)" if "k < ?n" for k
        using same_unflag_nth[of "filelist s" ?fl k] that m by (simp add: s_def)
      have sv: "(dup_at s k \<longleftrightarrow> dup_at st k \<or> k = m) \<and> link_at s k = link_at st k \<and> key_at h s k = key_at h st k" if "k < ?n" for k
        using file_key_unflag[OF su[OF that], of h "namefd st"] m by (auto simp: s_def GetFlag_SetFlag flag_values)
      have ss: "size_at s k = size_at st k" if "k < ?n" for k using unflag_fields[OF su[OF that]] by simp
      show ?thesis
      proof (cases "a = m")
        case stay: True
        have "dup_inv ?n ix m m lnk (dup_at st) (link_at st) (key_at h st)" using Suc.prems(2) stay by simp
        from dup_inv_cong[OF dup_stay[OF this m True] Suc.prems(3), of "dup_at s" "link_at s" "key_at h s"]
        have inv: "dup_inv ?n ix (Suc m) a True (dup_at s) (link_at s) (key_at h s)" using sv stay by simp
        have "gathering h st ix m a \<longrightarrow> gathering h s ix (Suc m) a"
        proof
          assume g: "gathering h st ix m a"
          show "gathering h s ix (Suc m) a"
          proof (rule gathering_cong[where n = ?n and st = st and D = "\<lambda>k. dup_at st k \<or> k = a" and K = "key_at h st"])
            show "dup_part ?n ix (Suc m) a (\<lambda>k. dup_at st k \<or> k = a) (key_at h st) (size_at st)"
              using part_stay[of ?n ix m "dup_at st" "key_at h st" "size_at st"] g same a stay by (simp add: gathering_def)
          qed (use g sl sv ss m a Suc.prems(3) stay in \<open>simp_all add: gathering_def\<close>)
        qed
        then show ?thesis unfolding step r(1) using next_run[OF ks inv] True stay by (auto simp: s_def)
      next
        case move: False
        define t where "t = st\<lparr>filelist := move_down a m (SetFlag ?fl m FL_DUP)\<rparr>"
        have ms: "m < length (filelist s)" "a \<le> m" using m sl a by simp_all
        have t: "filelist t = move_down a m (filelist s)" "namefd t = namefd st" by (simp_all add: t_def s_def)
        have kt: "kept st t" using ks move_down_mset[OF ms] unfolding kept_def t by simp
        have tn: "filelist t ! k = filelist s ! shifted a m k" if "k < ?n" for k
          unfolding t by (rule move_down_nth(2)[OF ms]) (use that sl in simp)
        have lt: "shifted a m k < ?n" if "k < ?n" for k using that m a by (auto simp: shifted_def)
        have tv: "dup_at t k = (dup_at st (shifted a m k) \<or> shifted a m k = m) \<and> link_at t k = link_at st (shifted a m k) \<and>
            key_at h t k = key_at h st (shifted a m k)" if k: "k < ?n" for k
          using sv[OF lt[OF k]] tn[OF k] t(2) by (simp add: GetFlag_def s_def)
        have inv: "dup_inv ?n ix (Suc m) (Suc a) True (dup_at t) (link_at t) (key_at h t)"
          by (rule dup_inv_cong[OF dup_move[OF Suc.prems(2) m move True] Suc.prems(3)]) (rule tv)
        have "gathering h st ix m a \<longrightarrow> gathering h t ix (Suc m) (Suc a)"
        proof
          assume g: "gathering h st ix m a"
          then have p: "runs_together ?n (size_at st)" "dup_part ?n ix m a (dup_at st) (key_at h st) (size_at st)" by (simp_all add: gathering_def)
          have "size_at st (shifted a m k) = size_at st k" for k
            using dup_partD(4)[OF p(2), of k] dup_partD(4)[OF p(2), of "k - 1"] dup_partD(4)[OF p(2), of a] same a move
            by (cases "k = m") (auto simp: shifted_def)
          then have st: "size_at t k = size_at st k" if "k < ?n" for k using ss[OF lt[OF that]] tn[OF that] by simp
          have am: "a < m" "size_at st m = size_at st ix" using a move same by simp_all
          show "gathering h t ix (Suc m) (Suc a)"
            by (rule gathering_cong[OF p(1) part_move[OF p(2) a(1) am(1) m am(2)] kept_length[OF kt]])
              (use m am(1) Suc.prems(3) tv st in simp_all)
        qed
        then show ?thesis unfolding step r(1) using next_run[OF kt inv] True move by (auto simp: t_def)
      qed
    qed
  qed
qed

lemma mark_dups_spec:
  assumes "all_readable h st" "dup_out (length (filelist st)) ix (dup_at st) (link_at st) (key_at h st)" "length (filelist st) \<le> fuel + ix"
  shows "\<exists>st'. mark_dups h fuel ix st = Ret st' \<and> kept st st' \<and>
    (\<exists>i. length (filelist st) \<le> i \<and> dup_out (length (filelist st)) i (dup_at st') (link_at st') (key_at h st') \<and>
       (gathered h st ix \<longrightarrow> gathered h st' i))"
  using assms
proof (induction fuel arbitrary: ix st)
  case 0
  then show ?case by (auto simp: kept_def)
next
  case (Suc fuel)
  show ?case
  proof (cases "ix < length (filelist st)")
    case True
    from dup_run_spec[OF Suc.prems(1) dup_enter[OF Suc.prems(2) True] True]
    obtain a s where s: "dup_run h ix [Suc ix ..< length (filelist st)] (Suc ix) True st = Ret (a, s)" "ix < a" "kept st s"
      "dup_out (length (filelist st)) a (dup_at s) (link_at s) (key_at h s)"
      "gathering h st ix (Suc ix) (Suc ix) \<longrightarrow> gathered h s a" by blast
    have ent: "gathered h st ix \<longrightarrow> gathering h st ix (Suc ix) (Suc ix)" using part_enter by (auto simp: gathered_def gathering_def)
    note l = kept_length[OF s(3)]
    from Suc.IH[OF kept_readable[OF s(3) Suc.prems(1)], of a] s(2,4) Suc.prems(3) l
    obtain st' i where "mark_dups h fuel a s = Ret st'" "kept s st'" "length (filelist st) \<le> i"
      "dup_out (length (filelist st)) i (dup_at st') (link_at st') (key_at h st')" "gathered h s a \<longrightarrow> gathered h st' i" by auto
    then show ?thesis using True s(1,3,5) ent by (auto simp: kept_def)
  next
    case False
    then show ?thesis using Suc.prems(2) by (auto simp: kept_def intro!: exI[of _ ix])
  qed
qed

text \<open>Entries of one inode agree: what the file system promises for hard links.\<close>

definition links_agree :: "host \<Rightarrow> finder \<Rightarrow> bool" where
  "links_agree h st \<longleftrightarrow> (\<forall>i<length (filelist st). \<forall>j<length (filelist st).
     same_inode (filelist st ! i) (filelist st ! j) \<longrightarrow> same_file h (namefd st) (filelist st ! i) (filelist st ! j))"

definition unmarked :: "finder \<Rightarrow> bool" where
  "unmarked st \<longleftrightarrow> (\<forall>k<length (filelist st). \<not> dup_at st k \<and> \<not> link_at st k)"

lemma scan2_result:
  assumes "all_readable h st" "links_agree h st" "unmarked st"
  shows "\<exists>st'. scan2 h st = Ret st' \<and> mset (map unflag (filelist st')) = mset (map unflag (filelist st)) \<and>
    namefd st' = namefd st \<and> all_readable h st' \<and>
    (\<forall>k<length (filelist st'). GetFlag (filelist st') k FL_DUP \<longrightarrow>
       0 < k \<and> same_file h (namefd st) (filelist st' ! (k - 1)) (filelist st' ! k)) \<and>
    (runs_together (length (filelist st)) (size_at st) \<longrightarrow> gathered h st' (length (filelist st')))"
proof -
  have "links_adjacent (filelist st)" using assms(3) by (simp add: links_adjacent_def unmarked_def)
  then obtain s where s: "mark_links (length (filelist st)) 0 True st = Ret s" "marked st s" "links_adjacent (filelist s)"
    using mark_links_spec[OF assms(1), of "length (filelist st)" 0 True] by (elim meta_impE exE conjE) simp_all
  let ?n = "length (filelist s)"
  have l: "?n = length (filelist st)" by (rule marked_length[OF s(2)])
  have nf: "namefd s = namefd st" using s(2) by (simp add: marked_def)
  have du: "\<not> dup_at s k" if "k < ?n" for k
  proof -
    have "dup_at s k = dup_at st k" using s(2) that unfolding marked_def l by simp
    then show ?thesis using assms(3) that unfolding unmarked_def l by simp
  qed
  have out: "dup_out ?n 0 (dup_at s) (link_at s) (key_at h s)"
  proof (rule dup_outI)
    show "\<not> dup_at s k" if "0 < k" "k < ?n" for k
      using du that by blast
    show "0 < k \<and> key_at h s (k - 1) = key_at h s k" if "k \<le> 0" "k < ?n" "dup_at s k" for k
      using du that by blast
    show "key_at h s (k - 1) = key_at h s k" if k: "0 < k" "k < ?n" "link_at s k" for k
    proof -
      have "same_inode (filelist s ! (k - 1)) (filelist s ! k)" using s(3) k by (simp add: links_adjacent_def)
      then have "same_inode (filelist st ! (k - 1)) (filelist st ! k)"
        using same_unflag[OF marked_nth[OF s(2), of "k - 1"] marked_nth[OF s(2), of k]] k l by simp
      then have "same_file h (namefd st) (filelist st ! (k - 1)) (filelist st ! k)"
        using assms(2) k l by (simp add: links_agree_def)
      then show ?thesis
        using file_key_unflag[OF marked_nth[OF s(2), of "k - 1"], of h "namefd st"] file_key_unflag[OF marked_nth[OF s(2), of k], of h "namefd st"] k l nf
        by (simp add: same_file_key)
    qed
  qed
  have rd: "all_readable h s" using assms(1) marked_readable[OF s(2)] by simp
  obtain st' i where st': "mark_dups h ?n 0 s = Ret st'" "kept s st'" "?n \<le> i"
    "dup_out ?n i (dup_at st') (link_at st') (key_at h st')" "gathered h s 0 \<longrightarrow> gathered h st' i"
    using mark_dups_spec[OF rd out, of ?n] by (elim exE conjE meta_impE) simp_all
  have "scan2 h st = Ret st'" using s(1) st'(1) l by (simp add: scan2_def)
  moreover have "mset (map unflag (filelist st')) = mset (map unflag (filelist st))"
    using st'(2) s(2) by (simp add: kept_def marked_def del: mset_map)
  moreover have "namefd st' = namefd st" "all_readable h st'"
    using st'(2) nf kept_readable[OF st'(2) rd] by (simp_all add: kept_def)
  moreover have "0 < k \<and> same_file h (namefd st) (filelist st' ! (k - 1)) (filelist st' ! k)"
    if "k < length (filelist st')" "dup_at st' k" for k
    using dup_outD(1)[OF st'(4), of k] that st'(2,3) kept_length[OF st'(2)] nf by (simp add: same_file_key kept_def)
  moreover have "gathered h st' (length (filelist st'))" if run: "runs_together (length (filelist st)) (size_at st)"
  proof -
    have ss: "size_at s k = size_at st k" if "k < length (filelist st)" for k using unflag_fields[OF marked_nth[OF s(2) that]] by simp
    have "runs_together ?n (size_at s)" unfolding runs_together_def l
    proof (intro allI impI)
      fix i j k assume i: "i < j" "j < k" "k < length (filelist st)" "size_at s i = size_at s k"
      then have "size_at st j = size_at st i" using run ss[of i] ss[of k] unfolding runs_together_def by simp
      then show "size_at s j = size_at s i" using ss[of i] ss[of j] i by simp
    qed
    then have "gathered h st' i" using st'(5) dup_done_start by (auto simp: gathered_def)
    then show ?thesis using dup_done_all[of ?n i "dup_at st'" "key_at h st'"] kept_length[OF st'(2)] st'(3) by (simp add: gathered_def)
  qed
  ultimately show ?thesis by blast
qed

theorem scan2_groups_equal:
  assumes "all_readable h st" "links_agree h st" "unmarked st"
  shows "\<exists>st'. scan2 h st = Ret st' \<and> mset (map unflag (filelist st')) = mset (map unflag (filelist st)) \<and>
    (\<forall>k<length (filelist st'). GetFlag (filelist st') k FL_DUP \<longrightarrow>
       0 < k \<and> same_file h (namefd st) (filelist st' ! (k - 1)) (filelist st' ! k))"
  using scan2_result[OF assms] by blast

end
