(* ===== verification/Dup_Report.thy ===== *)
theory Dup_Report imports Dup_Groups begin

text \<open>
  What \<open>finddup.c\<close> prints: the second scan adds a summary of hard links at most, and the third scan prints groups,
  a head and the files after it in the table that are marked, all with the contents of the head.
\<close>

unbundle bit_operations_syntax

section \<open>Output of the second scan\<close>

definition same_output :: "finder \<Rightarrow> finder \<Rightarrow> bool" where
  "same_output st st' \<longleftrightarrow> stdout st' = stdout st \<and> stderr st' = stderr st \<and> linkflag st' = linkflag st"

text \<open>The names of the table with their inodes, which marking does not change.\<close>

definition same_names :: "finder \<Rightarrow> finder \<Rightarrow> bool" where
  "same_names st st' \<longleftrightarrow> namefd st' = namefd st \<and>
     map (\<lambda>d. (nameloc d, device d, inode d)) (filelist st') = map (\<lambda>d. (nameloc d, device d, inode d)) (filelist st)"

lemma same_names_refl [simp]: "same_names st st"
  by (simp add: same_names_def)

lemma same_names_trans: "same_names st s \<Longrightarrow> same_names s st' \<Longrightarrow> same_names st st'"
  by (simp add: same_names_def)

lemma same_names_put [simp]: "same_names st (put x st') \<longleftrightarrow> same_names st st'"
  by (simp add: same_names_def put_def)

lemma same_names_mark: "same_names st (st\<lparr>filelist := SetFlag (filelist st) m f\<rparr>)"
proof (cases "m < length (filelist st)")
  case True
  then have "map (\<lambda>d. (nameloc d, device d, inode d)) (SetFlag (filelist st) m f) =
      (map (\<lambda>d. (nameloc d, device d, inode d)) (filelist st))[m := map (\<lambda>d. (nameloc d, device d, inode d)) (filelist st) ! m]"
    by (simp add: SetFlag_def map_update)
  then show ?thesis by (simp add: same_names_def)
qed (simp add: same_names_def SetFlag_def list_update_beyond)

lemma same_names_at:
  assumes "same_names st st'"
  shows "length (filelist st') = length (filelist st)" "getfn st' k = getfn st k"
    "k < length (filelist st) \<Longrightarrow> device (filelist st' ! k) = device (filelist st ! k) \<and> inode (filelist st' ! k) = inode (filelist st ! k)"
proof -
  let ?f = "\<lambda>d. (nameloc d, device d, inode d)"
  have m: "map ?f (filelist st') = map ?f (filelist st)" using assms by (simp only: same_names_def)
  show l: "length (filelist st') = length (filelist st)" using arg_cong[OF m, of length] by (simp only: length_map)
  have at: "?f (filelist st' ! k) = ?f (filelist st ! k)" if k: "k < length (filelist st)" for k
  proof -
    have "map ?f (filelist st') ! k = map ?f (filelist st) ! k" by (simp only: m)
    then show ?thesis using k l by simp
  qed
  have "namefd st' = namefd st" using assms by (simp only: same_names_def)
  then show "getfn st' k = getfn st k" using l at[of k] by (simp add: getfn_def)
  show "k < length (filelist st) \<Longrightarrow> device (filelist st' ! k) = device (filelist st ! k) \<and> inode (filelist st' ! k) = inode (filelist st ! k)"
    using at[of k] by simp
qed

text \<open>The summary of hard links: a file, and other names of its inode.\<close>

definition link_lines :: "string list \<Rightarrow> string" where
  "link_lines ds = concat (map (\<lambda>d. ''LINK: '' @ d @ NL) ds)"

definition link_groups :: "(string \<times> string list) list \<Rightarrow> string" where
  "link_groups gs = concat (map (\<lambda>(f, ds). NL @ ''FILE: '' @ f @ NL @ link_lines ds) gs)"

definition link_summary :: "bool \<Rightarrow> (string \<times> string list) list \<Rightarrow> string" where
  "link_summary hdr gs = (if gs = [] then [] else (if hdr then NL @ NL @ ''Hard link summary:'' @ NL @ NL else []) @ link_groups gs)"

lemma link_lines_simps [simp]: "link_lines [] = []" "link_lines (d # ds) = ''LINK: '' @ d @ NL @ link_lines ds"
  by (simp_all add: link_lines_def)

lemma link_groups_simps [simp]: "link_groups [] = []" "link_groups ((f, ds) # gs) = NL @ ''FILE: '' @ f @ NL @ link_lines ds @ link_groups gs"
  by (simp_all add: link_groups_def)

definition link_of :: "finder \<Rightarrow> nat \<Rightarrow> string \<Rightarrow> bool" where
  "link_of st i d \<longleftrightarrow> (\<exists>m<length (filelist st). m \<noteq> i \<and> getfn st m = Ret d \<and>
     device (filelist st ! m) = device (filelist st ! i) \<and> inode (filelist st ! m) = inode (filelist st ! i))"

definition link_group :: "finder \<Rightarrow> string \<times> string list \<Rightarrow> bool" where
  "link_group st g \<longleftrightarrow> snd g \<noteq> [] \<and> (\<exists>i<length (filelist st). getfn st i = Ret (fst g) \<and> (\<forall>d\<in>set (snd g). link_of st i d))"

lemma same_names_link: "same_names st st' \<Longrightarrow> i < length (filelist st) \<Longrightarrow> link_of st' i d \<longleftrightarrow> link_of st i d"
  using same_names_at[of st st'] by (auto simp: link_of_def)

lemma same_names_group: "same_names st st' \<Longrightarrow> link_group st' g \<longleftrightarrow> link_group st g"
  using same_names_at[of st st'] same_names_link[of st st'] by (auto simp: link_group_def)

definition quiet_link :: "finder \<Rightarrow> finder \<Rightarrow> bool" where
  "quiet_link st st' \<longleftrightarrow> same_names st st' \<and> stderr st' = stderr st \<and> linkflag st' = linkflag st"

lemma quiet_link_trans: "quiet_link a b \<Longrightarrow> quiet_link b c \<Longrightarrow> quiet_link a c"
  unfolding quiet_link_def using same_names_trans by auto

lemma print_link_text:
  assumes "print_link ix m im nh st = Ret (im', nh', st')"
  obtains f d where "im \<or> getfn st ix = Ret f" "getfn st m = Ret d" "im'" "\<not> nh'" "quiet_link st st'"
    "stdout st' = stdout st @ (if nh then NL @ NL @ ''Hard link summary:'' @ NL @ NL else []) @ (if im then [] else NL @ ''FILE: '' @ f @ NL) @ link_lines [d]"
proof -
  define s where "s = (if nh then put (NL @ NL @ ''Hard link summary:'' @ NL @ NL) st else st)"
  have s: "getfn s k = getfn st k" for k by (simp add: s_def put_def getfn_def)
  have q: "quiet_link st (put x s)" "quiet_link st (put y (put x s))" "quiet_link st s" for x y
    by (simp_all add: quiet_link_def s_def) (simp_all add: put_def)
  have "getfn (put x s) k = getfn s k" for x k by (simp add: put_def getfn_def)
  then have p: "getfn (put x s) k = getfn st k" for x k by (simp only: s)
  have "\<exists>f d. (im \<or> getfn st ix = Ret f) \<and> getfn st m = Ret d \<and> im' \<and> \<not> nh' \<and>
      st' = put (''LINK: '' @ d @ NL) (if im then s else put (NL @ ''FILE: '' @ f @ NL) s)"
  proof (cases im)
    case True
    then show ?thesis using assms unfolding print_link_def Let_def s_def[symmetric] by (auto simp: andThen_Ret_iff s)
  next
    case False
    then obtain f where f: "getfn st ix = Ret f" using assms unfolding print_link_def Let_def s_def[symmetric] by (auto simp: andThen_Ret_iff s)
    then show ?thesis using assms False unfolding print_link_def Let_def s_def[symmetric] by (auto simp: andThen_Ret_iff s p)
  qed
  then obtain f d where f: "im \<or> getfn st ix = Ret f" "im'" "\<not> nh'" "st' = put (''LINK: '' @ d @ NL) (if im then s else put (NL @ ''FILE: '' @ f @ NL) s)"
    and d: "getfn st m = Ret d" by blast
  show thesis by (rule that[OF f(1) d f(2,3)]) (use q f(4) in \<open>auto simp: s_def put_def\<close>)
qed

lemma link_run_text:
  assumes "link_run ix ixs im nh st = Ret (ix2, nh', st')" "ix < length (filelist st)" "\<forall>m\<in>set ixs. m < length (filelist st) \<and> m \<noteq> ix"
    "im \<longrightarrow> \<not> nh"
  shows "\<exists>f ds. quiet_link st st' \<and> nh' = (nh \<and> ds = []) \<and> (linkflag st \<or> ds = []) \<and> (\<forall>d\<in>set ds. link_of st ix d) \<and>
    (ds \<noteq> [] \<longrightarrow> im \<or> getfn st ix = Ret f) \<and>
    stdout st' = stdout st @ (if ds = [] then [] else (if nh then NL @ NL @ ''Hard link summary:'' @ NL @ NL else []) @
      (if im then [] else NL @ ''FILE: '' @ f @ NL) @ link_lines ds)"
  using assms
proof (induction ixs arbitrary: im nh st)
  case Nil
  then show ?case by (auto simp: quiet_link_def intro!: exI[of _ "[]"])
next
  case (Cons m ixs)
  define s where "s = st\<lparr>filelist := SetFlag (filelist st) m FL_LNK\<rparr>"
  have n: "same_names st s" unfolding s_def by (rule same_names_mark)
  have q: "quiet_link st s" using n by (simp add: quiet_link_def s_def)
  have o: "linkflag s = linkflag st" "stdout s = stdout st" by (simp_all add: s_def)
  show ?case
  proof (cases "device (filelist st ! ix) = device (filelist st ! m) \<and> inode (filelist st ! ix) = inode (filelist st ! m)")
    case False
    then show ?thesis using Cons.prems(1) by (auto simp: quiet_link_def intro!: exI[of _ "[]"])
  next
    case True
    show ?thesis
    proof (cases "linkflag st")
      case False
      then have r: "link_run ix ixs im nh s = Ret (ix2, nh', st')" using Cons.prems(1) True by (simp add: s_def[symmetric] o(1))
      have p: "ix < length (filelist s)" "\<forall>m\<in>set ixs. m < length (filelist s) \<and> m \<noteq> ix"
        using Cons.prems(2,3) same_names_at(1)[OF n] by simp_all
      from Cons.IH[OF r p Cons.prems(4)] obtain f ds where ih: "quiet_link s st'" "nh' = (nh \<and> ds = [])" "linkflag s \<or> ds = []"
        "stdout st' = stdout s @ (if ds = [] then [] else (if nh then NL @ NL @ ''Hard link summary:'' @ NL @ NL else []) @
          (if im then [] else NL @ ''FILE: '' @ f @ NL) @ link_lines ds)" by blast
      have e: "ds = []" using ih(3) False o(1) by simp
      have "quiet_link st st'" using q ih(1) by (rule quiet_link_trans)
      moreover have "nh' = nh" using ih(2) e by simp
      moreover have "stdout st' = stdout st" using ih(4) e o(2) by simp
      ultimately show ?thesis by (intro exI[of _ f] exI[of _ "[]"]) simp
    next
      case lf: True
      then obtain im2 nh2 s2 where pl: "print_link ix m im nh s = Ret (im2, nh2, s2)" and r: "link_run ix ixs im2 nh2 s2 = Ret (ix2, nh', st')"
        using Cons.prems(1) True by (auto simp: s_def[symmetric] o(1) andThen_Ret_iff)
      obtain f d where t: "im \<or> getfn s ix = Ret f" "getfn s m = Ret d" "im2" "\<not> nh2" "quiet_link s s2"
        "stdout s2 = stdout s @ (if nh then NL @ NL @ ''Hard link summary:'' @ NL @ NL else []) @ (if im then [] else NL @ ''FILE: '' @ f @ NL) @ link_lines [d]"
        by (rule print_link_text[OF pl])
      have n2: "same_names st s2" using n t(5) same_names_trans by (auto simp: quiet_link_def)
      have p: "ix < length (filelist s2)" "\<forall>m\<in>set ixs. m < length (filelist s2) \<and> m \<noteq> ix" "im2 \<longrightarrow> \<not> nh2"
        using Cons.prems(2,3) same_names_at(1)[OF n2] t(4) by simp_all
      from Cons.IH[OF r p] obtain g ds where ih: "quiet_link s2 st'" "nh' = (nh2 \<and> ds = [])" "\<forall>d\<in>set ds. link_of s2 ix d"
        "stdout st' = stdout s2 @ (if ds = [] then [] else (if nh2 then NL @ NL @ ''Hard link summary:'' @ NL @ NL else []) @
          (if im2 then [] else NL @ ''FILE: '' @ g @ NL) @ link_lines ds)" by blast
      then have ds: "quiet_link s2 st'" "\<not> nh'" "\<forall>d\<in>set ds. link_of s2 ix d" "stdout st' = stdout s2 @ link_lines ds"
        using t(3,4) by simp_all
      have "link_of st ix d" using Cons.prems(3) True t(2) same_names_at(2)[OF n] unfolding link_of_def by (intro exI[of _ m]) simp
      moreover have "\<forall>d\<in>set ds. link_of st ix d" using ds(3) same_names_link[OF n2 Cons.prems(2)] by simp
      moreover have "quiet_link st st'" using quiet_link_trans[OF q quiet_link_trans[OF t(5) ds(1)]] .
      moreover have "im \<or> getfn st ix = Ret f" using t(1) same_names_at(2)[OF n] by simp
      moreover have "stdout st' = stdout st @ (if nh then NL @ NL @ ''Hard link summary:'' @ NL @ NL else []) @
        (if im then [] else NL @ ''FILE: '' @ f @ NL) @ link_lines (d # ds)"
        unfolding ds(4) t(6) o(2) by (simp only: link_lines_simps append_assoc append_Nil append_Nil2)
      ultimately have "quiet_link st st' \<and> nh' = (nh \<and> d # ds = []) \<and> (linkflag st \<or> d # ds = []) \<and>
          (\<forall>x\<in>set (d # ds). link_of st ix x) \<and> (d # ds \<noteq> [] \<longrightarrow> im \<or> getfn st ix = Ret f) \<and>
          stdout st' = stdout st @ (if d # ds = [] then [] else (if nh then NL @ NL @ ''Hard link summary:'' @ NL @ NL else []) @
            (if im then [] else NL @ ''FILE: '' @ f @ NL) @ link_lines (d # ds))"
        using ds(2) lf by (simp only: list.distinct if_False set_simps ball_simps simp_thms)
      then show ?thesis by (intro exI[of _ f] exI[of _ "d # ds"])
    qed
  qed
qed

lemma mark_links_text:
  "mark_links fuel ix nh st = Ret st' \<Longrightarrow> \<exists>gs. quiet_link st st' \<and> stdout st' = stdout st @ link_summary nh gs \<and>
     (\<forall>g\<in>set gs. link_group st g) \<and> (linkflag st \<or> gs = [])"
proof (induction fuel arbitrary: ix nh st)
  case 0
  then show ?case by (auto simp: quiet_link_def link_summary_def split: if_splits intro!: exI[of _ "[]"])
next
  case (Suc fuel)
  show ?case
  proof (cases "ix < length (filelist st)")
    case False
    then show ?thesis using Suc.prems by (auto simp: quiet_link_def link_summary_def intro!: exI[of _ "[]"])
  next
    case True
    then obtain ix2 nh2 s where r: "link_run ix [ix + 1 ..< length (filelist st)] False nh st = Ret (ix2, nh2, s)" "mark_links fuel ix2 nh2 s = Ret st'"
      using Suc.prems by (auto simp: andThen_Ret_iff)
    have "\<forall>m\<in>set [ix + 1 ..< length (filelist st)]. m < length (filelist st) \<and> m \<noteq> ix" by simp
    from link_run_text[OF r(1) True this] obtain f ds where l: "quiet_link st s" "nh2 = (nh \<and> ds = [])" "linkflag st \<or> ds = []"
      "\<forall>d\<in>set ds. link_of st ix d" "ds \<noteq> [] \<longrightarrow> False \<or> getfn st ix = Ret f"
      "stdout s = stdout st @ (if ds = [] then [] else (if nh then NL @ NL @ ''Hard link summary:'' @ NL @ NL else []) @
        (if False then [] else NL @ ''FILE: '' @ f @ NL) @ link_lines ds)"
      by blast
    obtain gs where g: "quiet_link s st'" "stdout st' = stdout s @ link_summary nh2 gs" "\<forall>g\<in>set gs. link_group s g" "linkflag s \<or> gs = []"
      using Suc.IH[OF r(2)] by blast
    have q: "quiet_link st st'" "linkflag s = linkflag st" using l(1) g(1) same_names_trans by (auto simp: quiet_link_def)
    have gs: "\<forall>g\<in>set gs. link_group st g" using g(3) l(1) same_names_group by (auto simp: quiet_link_def)
    show ?thesis
    proof (cases "ds = []")
      case True
      then show ?thesis using q g gs l by (intro exI[of _ gs]) simp
    next
      case False
      then have "link_group st (f, ds)" using l(4,5) \<open>ix < length (filelist st)\<close> by (auto simp: link_group_def)
      then show ?thesis using q g(2,4) gs l(2,3,6) False by (intro exI[of _ "(f, ds) # gs"]) (auto simp: link_summary_def)
    qed
  qed
qed

lemma dup_run_output: "dup_run h ix ixs a lnk st = Ret (a', st') \<Longrightarrow> same_output st st'"
proof (induction ixs arbitrary: a lnk st)
  case (Cons m ixs)
  then show ?case
    by (auto simp: andThen_Ret_iff Let_def same_output_def split: if_splits) fastforce+
qed (simp add: same_output_def)

lemma mark_dups_output: "mark_dups h fuel ix st = Ret st' \<Longrightarrow> same_output st st'"
proof (induction fuel arbitrary: ix st)
  case (Suc fuel)
  show ?case
  proof (cases "ix < length (filelist st)")
    case True
    then obtain a s where "dup_run h ix [ix + 1 ..< length (filelist st)] (ix + 1) True st = Ret (a, s)" "mark_dups h fuel a s = Ret st'"
      using Suc.prems by (auto simp: andThen_Ret_iff)
    then show ?thesis using dup_run_output[of h ix _ _ _ st a s] Suc.IH[of a s] by (simp add: same_output_def)
  qed (use Suc.prems in \<open>simp add: same_output_def\<close>)
qed (simp add: same_output_def split: if_splits)

lemma scan2_output:
  assumes "scan2 h st = Ret st'"
  shows "\<exists>gs. stdout st' = stdout st @ link_summary True gs \<and> (\<forall>g\<in>set gs. link_group st g) \<and> (linkflag st \<or> gs = []) \<and>
    linkflag st' = linkflag st"
proof -
  obtain s where s: "mark_links (length (filelist st)) 0 True st = Ret s" "mark_dups h (length (filelist s)) 0 s = Ret st'"
    using assms by (auto simp: scan2_def andThen_Ret_iff)
  show ?thesis using mark_links_text[OF s(1)] mark_dups_output[OF s(2)] by (auto simp: quiet_link_def same_output_def)
qed

section \<open>The report\<close>

text \<open>A group of the report: the file it is headed by, and the duplicates listed under it.\<close>

type_synonym dup_group = "string \<times> string list"

definition banner :: "bool \<Rightarrow> string" where
  "banner lf = NL @ NL @ ''List of files with duplicate contents'' @ (if lf then '' (includes hard links)'' else []) @ NL"

definition head_line :: "string \<Rightarrow> string" where
  "head_line fn = NL @ ''FILE: '' @ fn @ NL"

definition dup_lines :: "string list \<Rightarrow> string" where
  "dup_lines ds = concat (map (\<lambda>d. ''DUP:  '' @ d @ NL) ds)"

definition groups_text :: "dup_group list \<Rightarrow> string" where
  "groups_text gs = concat (map (\<lambda>(f, ds). head_line f @ dup_lines ds) gs)"

definition report_text :: "bool \<Rightarrow> dup_group list \<Rightarrow> string" where
  "report_text lf gs = (if gs = [] then [] else banner lf @ groups_text gs)"

lemma dup_lines_simps [simp]: "dup_lines [] = []" "dup_lines (d # ds) = ''DUP:  '' @ d @ NL @ dup_lines ds"
  by (simp_all add: dup_lines_def)

lemma groups_text_simps [simp]: "groups_text [] = []" "groups_text ((f, ds) # gs) = head_line f @ dup_lines ds @ groups_text gs"
  by (simp_all add: groups_text_def)

text \<open>Every group lists at least one file, and all its files have the contents of its head.\<close>

definition equal_groups :: "host \<Rightarrow> string set \<Rightarrow> dup_group list \<Rightarrow> bool" where
  "equal_groups h names gs \<longleftrightarrow> (\<forall>(f, ds)\<in>set gs. ds \<noteq> [] \<and> f \<in> names \<and> contents h f \<noteq> None \<and>
     (\<forall>d\<in>set ds. d \<in> names \<and> contents h d = contents h f))"

lemma equal_groups_simps [simp]: "equal_groups h names []"
  "equal_groups h names ((f, ds) # gs) \<longleftrightarrow> ds \<noteq> [] \<and> f \<in> names \<and> contents h f \<noteq> None \<and>
     (\<forall>d\<in>set ds. d \<in> names \<and> contents h d = contents h f) \<and> equal_groups h names gs"
  by (auto simp: equal_groups_def)

text \<open>The name of an entry of the table.\<close>

definition name_of :: "finder \<Rightarrow> nat \<Rightarrow> string" where
  "name_of st k = (case getfn st k of Ret fn \<Rightarrow> fn | Stuck e \<Rightarrow> [])"

lemma name_readable:
  assumes "all_readable h st" "k < length (filelist st)"
  shows "getfn st k = Ret (name_of st k)" "bytes_at h (namefd st) (filelist st ! k) = contents h (name_of st k)"
    "contents h (name_of st k) \<noteq> None"
proof -
  have r: "readable h (namefd st) (filelist st ! k)" using assms by (simp add: all_readable_def)
  then obtain fn where "chop (getline (namefd st) (nameloc (filelist st ! k))) = Ret fn" "contents h fn \<noteq> None"
    by (auto simp: readable_def split: outcome.splits)
  then show "getfn st k = Ret (name_of st k)" "bytes_at h (namefd st) (filelist st ! k) = contents h (name_of st k)"
    "contents h (name_of st k) \<noteq> None"
    using assms(2) by (simp_all add: name_of_def getfn_def bytes_at_def)
qed

lemma put_name [simp]: "getfn (put x st) k = getfn st k" "name_of (put x st) k = name_of st k"
  by (simp_all add: put_def getfn_def name_of_def)

lemma print_dup_run:
  assumes "getfn st k = Ret fn"
  shows "print_dup k r st = Ret (r\<lparr>need_hdr := False, headfn := None\<rparr>,
    put ((if need_hdr r then banner (linkflag st) else []) @ (case headfn r of Some f \<Rightarrow> head_line f | None \<Rightarrow> []) @ dup_lines [fn]) st)"
  using assms by (cases r) (auto simp: print_dup_def Let_def banner_def head_line_def put_def getfn_def split: option.splits)

definition dups_follow :: "host \<Rightarrow> finder \<Rightarrow> bool" where
  "dups_follow h st \<longleftrightarrow> (\<forall>k<length (filelist st). dup_at st k \<longrightarrow>
     0 < k \<and> same_file h (namefd st) (filelist st ! (k - 1)) (filelist st ! k))"

text \<open>
  Nothing is left out. \<open>D\<close> marks the duplicates among \<open>n\<close> entries, \<open>N\<close> gives their names. From entry \<open>k\<close> on,
  \<open>ds\<close> completes the group that is open (\<open>im\<close>), and \<open>gs\<close> are the groups that follow.
\<close>

definition span :: "(nat \<Rightarrow> bool) \<Rightarrow> nat \<Rightarrow> nat \<Rightarrow> bool" where
  "span D k q \<longleftrightarrow> (\<forall>j. k \<le> j \<longrightarrow> j \<le> q \<longrightarrow> D j)"

definition grouped :: "dup_group list \<Rightarrow> string \<Rightarrow> string \<Rightarrow> bool" where
  "grouped gs a b \<longleftrightarrow> (\<exists>(f, ds)\<in>set gs. a \<in> set (f # ds) \<and> b \<in> set (f # ds))"

definition covers :: "nat \<Rightarrow> (nat \<Rightarrow> bool) \<Rightarrow> (nat \<Rightarrow> string) \<Rightarrow> nat \<Rightarrow> bool \<Rightarrow> string list \<Rightarrow> dup_group list \<Rightarrow> bool" where
  "covers n D N k im ds gs \<longleftrightarrow> (\<forall>q. im \<longrightarrow> k \<le> q \<longrightarrow> q < n \<longrightarrow> span D k q \<longrightarrow> N q \<in> set ds) \<and>
     (\<forall>p q. k \<le> Suc p \<longrightarrow> p < q \<longrightarrow> q < n \<longrightarrow> span D (Suc p) q \<longrightarrow> \<not> (im \<and> span D k q) \<longrightarrow> grouped gs (N p) (N q))"

lemma grouped_simps [simp]: "\<not> grouped [] a b"
  "grouped ((f, ds) # gs) a b \<longleftrightarrow> a \<in> set (f # ds) \<and> b \<in> set (f # ds) \<or> grouped gs a b"
  by (simp_all add: grouped_def)

lemma span_first: "span D k q \<Longrightarrow> k \<le> q \<Longrightarrow> D k"
  by (simp add: span_def)

lemma span_Suc: "D k \<Longrightarrow> span D k q \<longleftrightarrow> span D (Suc k) q"
proof -
  have "k \<le> j \<longleftrightarrow> j = k \<or> Suc k \<le> j" for j by auto
  moreover assume "D k"
  ultimately show "span D k q \<longleftrightarrow> span D (Suc k) q" unfolding span_def by metis
qed

lemma coversD:
  assumes "covers n D N k im ds gs"
  shows "im \<Longrightarrow> k \<le> q \<Longrightarrow> q < n \<Longrightarrow> span D k q \<Longrightarrow> N q \<in> set ds"
    "k \<le> Suc p \<Longrightarrow> p < q \<Longrightarrow> q < n \<Longrightarrow> span D (Suc p) q \<Longrightarrow> \<not> (im \<and> span D k q) \<Longrightarrow> grouped gs (N p) (N q)"
  using assms unfolding covers_def by blast+

lemma covers_end: "n \<le> k \<Longrightarrow> covers n D N k im [] []"
  by (auto simp: covers_def)

lemma covers_break:
  assumes "covers n D N (Suc k) False [] gs" "\<not> D k"
  shows "covers n D N k im [] gs"
  unfolding covers_def
proof (intro conjI allI impI)
  show "N q \<in> set []" if "im" "k \<le> q" "q < n" "span D k q" for q using that assms(2) span_first by blast
  fix p q assume p: "k \<le> Suc p" "p < q" "q < n" "span D (Suc p) q"
  have "Suc p \<noteq> k" using span_first[OF p(4)] p(2) assms(2) by auto
  then show "grouped gs (N p) (N q)" using coversD(2)[OF assms(1) _ p(2-4)] p(1) by simp
qed

lemma covers_more:
  assumes "covers n D N (Suc k) True ds gs" "D k"
  shows "covers n D N k True (N k # ds) gs"
  unfolding covers_def
proof (intro conjI allI impI)
  show "N q \<in> set (N k # ds)" if "k \<le> q" "q < n" "span D k q" for q
    using that coversD(1)[OF assms(1), of q] span_Suc[of D k q] assms(2) by (cases "q = k") auto
  fix p q assume p: "k \<le> Suc p" "p < q" "q < n" "span D (Suc p) q" "\<not> (True \<and> span D k q)"
  have "Suc p \<noteq> k" using p(4,5) by auto
  then show "grouped gs (N p) (N q)" using coversD(2)[OF assms(1) _ p(2-4)] p(1,5) span_Suc[of D k q] assms(2) by simp
qed

lemma covers_new:
  assumes "covers n D N (Suc k) True ds gs" "D k" "0 < k"
  shows "covers n D N k False [] ((N (k - 1), N k # ds) # gs)"
  unfolding covers_def
proof (intro conjI allI impI)
  fix p q assume p: "k \<le> Suc p" "p < q" "q < n" "span D (Suc p) q"
  have mem: "N j \<in> set (N k # ds)" if "k \<le> j" "j \<le> q" "span D (Suc k) q" for j
  proof (cases "j = k")
    case False
    have "span D (Suc k) j" using that by (simp add: span_def)
    then show ?thesis using coversD(1)[OF assms(1), of j] that p(3) False by simp
  qed simp
  show "grouped ((N (k - 1), N k # ds) # gs) (N p) (N q)"
  proof (cases "span D (Suc k) q")
    case True
    have "N p \<in> set (N (k - 1) # N k # ds)" using mem[of p] True p(1,2) by (cases "Suc p = k") auto
    then show ?thesis using mem[of q] True p(1,2) by auto
  next
    case False
    have "Suc p \<noteq> k" using False p(4) span_Suc[of D k q] assms(2) by auto
    then show ?thesis using coversD(2)[OF assms(1) _ p(2-4)] p(1) False by simp
  qed
qed simp

lemma scan3_loop_report:
  assumes "all_readable h st" "dups_follow h st" "\<forall>k<length (filelist st). name_of st k \<in> names"
    and "k \<le> length (filelist st)" "inmatch r \<longrightarrow> 0 < k"
  shows "\<exists>ds gs st'. scan3_loop [k ..< length (filelist st)] r st = Ret st' \<and> filelist st' = filelist st \<and> stderr st' = stderr st \<and>
    stdout st' = stdout st @ (if need_hdr r \<and> (ds \<noteq> [] \<or> gs \<noteq> []) then banner (linkflag st) else []) @
      (if ds = [] then [] else (case headfn r of Some f \<Rightarrow> head_line f | None \<Rightarrow> []) @ dup_lines ds) @ groups_text gs \<and>
    (\<not> inmatch r \<longrightarrow> ds = []) \<and> equal_groups h names gs \<and>
    (\<forall>d\<in>set ds. d \<in> names \<and> contents h d = contents h (name_of st (k - 1))) \<and>
    (linkflag st \<longrightarrow> covers (length (filelist st)) (dup_at st) (name_of st) k (inmatch r) ds gs)"
  using assms
proof (induction "length (filelist st) - k" arbitrary: k r st)
  case 0
  then show ?case by (intro exI[of _ "[]"] exI[of _ st]) (simp add: covers_end)
next
  case (Suc n)
  let ?n = "length (filelist st)" and ?D = "dup_at st" and ?N = "name_of st"
  have k: "k < ?n" using Suc.hyps(2) by simp
  note list = upt_conv_Cons[OF k]
  have n: "n = ?n - Suc k" using Suc.hyps(2) by simp
  show ?case
  proof (cases "dup_at st k")
    case False
    obtain ds gs st' where o: "scan3_loop [Suc k ..< ?n] (r\<lparr>inmatch := False\<rparr>) st = Ret st'" "filelist st' = filelist st" "stderr st' = stderr st"
      "stdout st' = stdout st @ (if need_hdr r \<and> (ds \<noteq> [] \<or> gs \<noteq> []) then banner (linkflag st) else []) @
        (if ds = [] then [] else (case headfn r of Some f \<Rightarrow> head_line f | None \<Rightarrow> []) @ dup_lines ds) @ groups_text gs"
      "ds = []" "equal_groups h names gs" "linkflag st \<longrightarrow> covers ?n ?D ?N (Suc k) False ds gs"
      using Suc.hyps(1)[of st "Suc k" "r\<lparr>inmatch := False\<rparr>"] Suc.prems k n by auto
    have "scan3_loop [k ..< ?n] r st = Ret st'" using False o(1) unfolding list by simp
    then show ?thesis using o covers_break[of ?n ?D ?N k gs] False by (intro exI[of _ "[]"] exI[of _ gs] exI[of _ st']) simp
  next
    case True
    have k0: "0 < k" and same: "same_file h (namefd st) (filelist st ! (k - 1)) (filelist st ! k)"
      using Suc.prems(2) k True by (auto simp: dups_follow_def)
    note nm = name_readable[OF Suc.prems(1) k] and pn = name_readable[OF Suc.prems(1), of "k - 1"]
    have eq: "contents h (name_of st k) = contents h (name_of st (k - 1))"
      using same nm(2) pn(2) k by (simp add: same_file_def)
    define r1 where "r1 = (if inmatch r then r else r\<lparr>headfn := Some (name_of st (k - 1))\<rparr>)\<lparr>inmatch := True\<rparr>"
    have start: "scan3_loop [k ..< ?n] r st = (if linkflag st \<or> \<not> link_at st k
        then andThen (print_dup k r1 st) (\<lambda>(r, st). scan3_loop [Suc k ..< ?n] r st) else scan3_loop [Suc k ..< ?n] r1 st)"
      using True k0 pn(1) k unfolding list r1_def by (cases "inmatch r") simp_all
    have r1: "need_hdr r1 = need_hdr r" "inmatch r1" "inmatch r \<Longrightarrow> headfn r1 = headfn r"
      "\<not> inmatch r \<Longrightarrow> headfn r1 = Some (name_of st (k - 1))" by (simp_all add: r1_def)
    have names: "name_of st (k - 1) \<in> names" "name_of st k \<in> names" using Suc.prems(3) k by simp_all
    show ?thesis
    proof (cases "linkflag st \<or> \<not> link_at st k")
      case skip: False
      obtain ds gs st' where o: "scan3_loop [Suc k ..< ?n] r1 st = Ret st'" "filelist st' = filelist st" "stderr st' = stderr st"
        "stdout st' = stdout st @ (if need_hdr r1 \<and> (ds \<noteq> [] \<or> gs \<noteq> []) then banner (linkflag st) else []) @
          (if ds = [] then [] else (case headfn r1 of Some f \<Rightarrow> head_line f | None \<Rightarrow> []) @ dup_lines ds) @ groups_text gs"
        "equal_groups h names gs" "\<forall>d\<in>set ds. d \<in> names \<and> contents h d = contents h (name_of st k)"
        using Suc.hyps(1)[of st "Suc k" r1] Suc.prems k n by auto
      have run: "scan3_loop [k ..< ?n] r st = Ret st'" using skip start o(1) by simp
      show ?thesis
      proof (cases "inmatch r \<or> ds = []")
        case True
        then show ?thesis using run o r1 eq skip
          by (intro exI[of _ ds] exI[of _ gs] exI[of _ st']) auto
      next
        case False
        then show ?thesis using run o r1 eq names pn(3) k skip
          by (intro exI[of _ "[]"] exI[of _ "(name_of st (k - 1), ds) # gs"] exI[of _ st']) auto
      qed
    next
      case print: True
      define s where "s = put ((if need_hdr r1 then banner (linkflag st) else []) @
        (case headfn r1 of Some f \<Rightarrow> head_line f | None \<Rightarrow> []) @ dup_lines [name_of st k]) st"
      define r2 where "r2 = r1\<lparr>need_hdr := False, headfn := None\<rparr>"
      have pd: "print_dup k r1 st = Ret (r2, s)" unfolding s_def r2_def by (rule print_dup_run[OF nm(1)])
      have s: "filelist s = filelist st" "namefd s = namefd st" "linkflag s = linkflag st" "stderr s = stderr st" "name_of s i = name_of st i" for i
        by (simp_all add: s_def) (simp_all add: put_def)
      have nms: "name_of s = name_of st" by (rule ext) (rule s(5))
      have sp: "all_readable h s" "dups_follow h s" "\<forall>k<length (filelist s). name_of s k \<in> names"
        using Suc.prems(1-3) by (simp_all add: all_readable_def dups_follow_def s)
      have r2: "\<not> need_hdr r2" "headfn r2 = None" "inmatch r2" using r1(2) by (simp_all add: r2_def)
      obtain ds gs st' where o': "scan3_loop [Suc k ..< ?n] r2 s = Ret st'" "filelist st' = filelist st" "stderr st' = stderr st"
        "stdout st' = stdout s @ (if ds = [] then [] else (case headfn r2 of Some f \<Rightarrow> head_line f | None \<Rightarrow> []) @ dup_lines ds) @ groups_text gs"
        "equal_groups h names gs" "\<forall>d\<in>set ds. d \<in> names \<and> contents h d = contents h (name_of st k)"
        "linkflag st \<longrightarrow> covers ?n ?D ?N (Suc k) True ds gs"
        using Suc.hyps(1)[of s "Suc k" r2] sp k n r2(1,3) by (auto simp: s nms)
      have "stdout st' = stdout s @ dup_lines ds @ groups_text gs" using o'(4) by (cases ds) (simp_all add: r2(2))
      note o = o'(1-3) this o'(5,6)
      have cov: "linkflag st \<Longrightarrow> covers ?n ?D ?N k True (name_of st k # ds) gs"
        "linkflag st \<Longrightarrow> covers ?n ?D ?N k False [] ((name_of st (k - 1), name_of st k # ds) # gs)"
        using covers_more[of ?n ?D ?N k ds gs] covers_new[of ?n ?D ?N k ds gs] o'(7) \<open>dup_at st k\<close> k0 by blast+
      have run: "scan3_loop [k ..< ?n] r st = Ret st'" using print start pd o(1) by simp
      have out: "stdout st' = stdout st @ (if need_hdr r then banner (linkflag st) else []) @
        (case headfn r1 of Some f \<Rightarrow> head_line f | None \<Rightarrow> []) @ dup_lines (name_of st k # ds) @ groups_text gs"
        unfolding o(4) by (simp add: s_def put_def r1(1))
      show ?thesis
      proof (cases "inmatch r")
        case True
        then show ?thesis using run o(2,3,5,6) out r1(3) eq names cov(1)
          by (intro exI[of _ "name_of st k # ds"] exI[of _ gs] exI[of _ st']) simp
      next
        case False
        then show ?thesis using run o(2,3,5,6) out r1(4) eq names pn(3) k cov(2)
          by (intro exI[of _ "[]"] exI[of _ "(name_of st (k - 1), name_of st k # ds) # gs"] exI[of _ st']) simp
      qed
    qed
  qed
qed

text \<open>The whole report: groups of files with equal contents.\<close>

lemma scan3_report:
  assumes "all_readable h st" "dups_follow h st" "\<forall>k<length (filelist st). name_of st k \<in> names"
  shows "\<exists>gs st'. scan3 st = Ret st' \<and> stdout st' = stdout st @ report_text (linkflag st) gs \<and> stderr st' = stderr st \<and>
    equal_groups h names gs \<and>
    (linkflag st \<longrightarrow> (\<forall>p q. p < q \<longrightarrow> q < length (filelist st) \<longrightarrow> span (dup_at st) (Suc p) q \<longrightarrow> grouped gs (name_of st p) (name_of st q)))"
proof -
  let ?r = "\<lparr>inmatch = False, need_hdr = True, headfn = None\<rparr>"
  obtain ds gs st' where "scan3_loop [0 ..< length (filelist st)] ?r st = Ret st'" "stderr st' = stderr st" "ds = []" "equal_groups h names gs"
    "stdout st' = stdout st @ (if ds \<noteq> [] \<or> gs \<noteq> [] then banner (linkflag st) else []) @ groups_text gs"
    "linkflag st \<longrightarrow> covers (length (filelist st)) (dup_at st) (name_of st) 0 False ds gs"
    using scan3_loop_report[OF assms, of 0 ?r] by auto
  then show ?thesis using coversD(2)[of "length (filelist st)" "dup_at st" "name_of st" 0 False ds gs]
    by (intro exI[of _ gs] exI[of _ st']) (simp add: scan3_def report_text_def)
qed

end
