(* ===== verification/Dup_Main.thy ===== *)
theory Dup_Main imports Dup_Report begin

text \<open>
  The duplicate finder from the file of names to the report (\<open>finddup_main\<close> of \<open>finddup.c\<close>, and
  \<open>main.c\<close>): the table that is built, the checksums of the first scan, and the composition with the two
  other scans. The host is assumed to be stable: the files it lists can be opened, and two names of one
  inode are the same file.
\<close>

unbundle bit_operations_syntax

section \<open>Building the table\<close>

text \<open>\<open>main\<close> passes its arguments on.\<close>

definition hw2_main :: "host \<Rightarrow> string \<Rightarrow> string list \<Rightarrow> (int \<times> string \<times> string) outcome" where
  "hw2_main h chs args = finddup_main h chs args"

definition list_file :: "string list \<Rightarrow> string" where
  "list_file names = concat (map (\<lambda>n. n @ NL) names)"

definition good_name :: "string \<Rightarrow> bool" where
  "good_name n \<longleftrightarrow> CHR 0x0A \<notin> set n \<and> CHR 0x00 \<notin> set n \<and> length n < 119"

lemma list_file_simps [simp]: "list_file [] = []" "list_file (n # ns) = n @ NL @ list_file ns"
  "list_file (xs @ ys) = list_file xs @ list_file ys"
  by (simp_all add: list_file_def)

lemma line_of_name: "CHR 0x0A \<notin> set n \<Longrightarrow> line_of (n @ NL @ r) = n @ NL"
  by (induction n) (auto simp: line_of_def NL_def Let_def)

lemma takeWhile_name: "CHR 0x00 \<notin> set n \<Longrightarrow> takeWhile (\<lambda>c. c \<noteq> CHR 0x00) (n @ NL) = n @ NL"
  by (induction n) (auto simp: NL_def)

lemma chop_name: "CHR 0x00 \<notin> set n \<Longrightarrow> chop (n @ NL) = Ret n"
  by (simp add: chop_def Let_def takeWhile_name) (simp add: NL_def)

lemma fgets_name:
  assumes "good_name n"
  shows "fgets (list_file xs @ n @ NL @ r) MAXFN (length (list_file xs)) = Some (n @ NL)"
proof -
  have "take (MAXFN - 1) (n @ NL @ r) = n @ NL @ take (118 - length n) r"
    using assms by (simp add: good_name_def MAXFN_def NL_def take_Cons')
  then show ?thesis using assms line_of_name[of n "take (118 - length n) r"]
    by (simp add: fgets_def good_name_def NL_def)
qed

lemma getline_name: "good_name n \<Longrightarrow> getline (list_file xs @ n @ NL @ r) (length (list_file xs)) = n @ NL"
  by (simp add: getline_def line_of_name good_name_def)

text \<open>The entry of a file at a place in the file of names, and the files that are listed apart as empty.\<close>

definition entry :: "host \<Rightarrow> nat \<Rightarrow> string \<Rightarrow> filedesc list" where
  "entry h loc n = (case lstat h n of
      None \<Rightarrow> []
    | Some sb \<Rightarrow> if st_size sb = 0 \<or> \<not> st_regular sb then []
        else [\<lparr>fd_length = st_size sb, crc32 = 0, device = st_dev sb, inode = st_ino sb, nameloc = loc, flags = 0\<rparr>])"

fun entries :: "host \<Rightarrow> nat \<Rightarrow> string list \<Rightarrow> filedesc list" where
  "entries h loc [] = []"
| "entries h loc (n # ns) = entry h loc n @ entries h (loc + length n + 1) ns"

definition empty_file :: "host \<Rightarrow> string \<Rightarrow> bool" where
  "empty_file h n = (case lstat h n of None \<Rightarrow> False | Some sb \<Rightarrow> st_size sb = 0)"

definition zero_report :: "bool \<Rightarrow> string list \<Rightarrow> string" where
  "zero_report hdr zs = (if zs = [] then [] else (if hdr then ''Zero length files:'' @ NL @ NL else []) @ concat (map (\<lambda>n. n @ NL) zs))"

lemma zero_report_simps [simp]: "zero_report hdr [] = []"
  "zero_report hdr (n # zs) = (if hdr then ''Zero length files:'' @ NL @ NL else []) @ n @ NL @ zero_report False zs"
  by (auto simp: zero_report_def)

lemma make_room_grants:
  assumes "\<forall>k. grants h k"
  shows "\<exists>k. make_room h st = Ret (st\<lparr>max_files := k\<rparr>)"
proof (cases "length (filelist st) = max_files st")
  case True
  then show ?thesis using assms by (auto simp: make_room_def Let_def)
next
  case False
  then show ?thesis by (auto simp: make_room_def intro: exI[of _ "max_files st"])
qed

lemma add_name_run:
  assumes "\<forall>k. grants h k" "good_name n"
  shows "\<exists>e st'. add_name h loc (n @ NL) (e0, zl) st = Ret ((e, zl \<and> \<not> empty_file h n), st') \<and>
    filelist st' = filelist st @ entry h loc n \<and> namefd st' = namefd st \<and> linkflag st' = linkflag st \<and>
    stdout st' = stdout st @ zero_report zl (if empty_file h n then [n] else [])"
proof -
  obtain k where s: "make_room h st = Ret (st\<lparr>max_files := k\<rparr>)" using make_room_grants[OF assms(1)] by blast
  have "chop (n @ NL) = Ret n" using assms(2) by (simp add: chop_name good_name_def)
  then show ?thesis
    by (cases "lstat h n") (auto simp: add_name_def s entry_def empty_file_def eput_def put_def Let_def)
qed

lemma build_list_run:
  assumes "\<forall>k. grants h k" "list_all good_name ns" "namefd st = list_file xs @ list_file ns" "length (list_file ns) \<le> fuel"
  shows "\<exists>st'. build_list h fuel (length (list_file xs)) (e, zl) st = Ret st' \<and>
    filelist st' = filelist st @ entries h (length (list_file xs)) ns \<and> namefd st' = namefd st \<and> linkflag st' = linkflag st \<and>
    stdout st' = stdout st @ zero_report zl (filter (empty_file h) ns)"
  using assms(2-)
proof (induction ns arbitrary: xs e zl st fuel)
  case Nil
  then have "fgets (namefd st) MAXFN (length (list_file xs)) = None" by (simp add: fgets_def)
  then show ?case by (cases fuel) simp_all
next
  case (Cons n ns)
  let ?loc = "length (list_file xs)"
  obtain f where fuel: "fuel = Suc f" "length (list_file ns) \<le> f" using Cons.prems(3) by (cases fuel) (auto simp: NL_def)
  have g: "good_name n" using Cons.prems(1) by simp
  have line: "fgets (namefd st) MAXFN ?loc = Some (n @ NL)" using fgets_name[OF g] Cons.prems(2) by simp
  obtain e' s where s: "add_name h ?loc (n @ NL) (e, zl) st = Ret ((e', zl \<and> \<not> empty_file h n), s)"
    "filelist s = filelist st @ entry h ?loc n" "namefd s = namefd st" "linkflag s = linkflag st"
    "stdout s = stdout st @ zero_report zl (if empty_file h n then [n] else [])"
    using add_name_run[OF assms(1) g, of ?loc e zl st] by blast
  have loc: "?loc + length (n @ NL) = length (list_file (xs @ [n]))" by simp
  have "namefd s = list_file (xs @ [n]) @ list_file ns" using s(3) Cons.prems(2) by simp
  from Cons.IH[OF _ this fuel(2), of e' "zl \<and> \<not> empty_file h n"] Cons.prems(1)
  obtain st' where st': "build_list h f (length (list_file (xs @ [n]))) (e', zl \<and> \<not> empty_file h n) s = Ret st'"
    "filelist st' = filelist s @ entries h (length (list_file (xs @ [n]))) ns" "namefd st' = namefd s" "linkflag st' = linkflag s"
    "stdout st' = stdout s @ zero_report (zl \<and> \<not> empty_file h n) (filter (empty_file h) ns)" by auto
  have "build_list h fuel ?loc (e, zl) st = Ret st'"
    unfolding fuel(1) build_list.simps line option.case s(1) andThen_simps prod.case loc using st'(1) by simp
  moreover have "length (list_file (xs @ [n])) = ?loc + length n + 1" by (simp add: NL_def)
  ultimately show ?case using st'(2-) s(2-) by auto
qed

text \<open>Every entry of the table belongs to a name of the list.\<close>

definition entry_of :: "host \<Rightarrow> string list \<Rightarrow> string \<Rightarrow> filedesc \<Rightarrow> bool" where
  "entry_of h names nf d \<longleftrightarrow> (\<exists>n\<in>set names. \<exists>sb. lstat h n = Some sb \<and> chop (getline nf (nameloc d)) = Ret n \<and> good_name n \<and>
     st_size sb \<noteq> 0 \<and> st_regular sb \<and> fd_length d = st_size sb \<and> device d = st_dev sb \<and> inode d = st_ino sb)"

lemma entries_of:
  "list_all good_name ns \<Longrightarrow> d \<in> set (entries h (length (list_file xs)) ns) \<Longrightarrow>
   entry_of h (xs @ ns) (list_file (xs @ ns)) d \<and> flags d = 0 \<and> crc32 d = 0"
proof (induction ns arbitrary: xs)
  case Nil
  then show ?case by simp
next
  case (Cons n ns)
  have loc: "length (list_file xs) + length n + 1 = length (list_file (xs @ [n]))" by (simp add: NL_def)
  consider "d \<in> set (entry h (length (list_file xs)) n)" | "d \<in> set (entries h (length (list_file (xs @ [n]))) ns)"
    using Cons.prems(2) unfolding entries.simps loc by auto
  then show ?case
  proof cases
    case 1
    have "chop (getline (list_file (xs @ n # ns)) (length (list_file xs))) = Ret n"
      using Cons.prems(1) getline_name[of n xs "list_file ns"] chop_name[of n] by (simp add: good_name_def)
    moreover obtain sb where "lstat h n = Some sb" using 1 by (cases "lstat h n") (auto simp: entry_def)
    ultimately show ?thesis using 1 Cons.prems(1) by (auto simp: entry_def entry_of_def split: if_splits)
  next
    case 2
    then show ?thesis using Cons.IH[of "xs @ [n]"] Cons.prems(1) by simp
  qed
qed

text \<open>The files the table is for, and that each of them has an entry.\<close>

definition full_file :: "host \<Rightarrow> string \<Rightarrow> bool" where
  "full_file h n = (case lstat h n of None \<Rightarrow> False | Some sb \<Rightarrow> st_regular sb \<and> st_size sb \<noteq> 0)"

definition has_entry :: "string \<Rightarrow> filedesc list \<Rightarrow> string \<Rightarrow> bool" where
  "has_entry nf fl n \<longleftrightarrow> (\<exists>l\<in>nameloc ` set fl. chop (getline nf l) = Ret n)"

lemma entries_complete:
  "list_all good_name ns \<Longrightarrow> n \<in> set ns \<Longrightarrow> full_file h n \<Longrightarrow>
   has_entry (list_file (xs @ ns)) (entries h (length (list_file xs)) ns) n"
proof (induction ns arbitrary: xs)
  case Nil
  then show ?case by simp
next
  case (Cons m ns)
  have loc: "length (list_file xs) + length m + 1 = length (list_file (xs @ [m]))" by (simp add: NL_def)
  show ?case
  proof (cases "n = m")
    case True
    have "chop (getline (list_file (xs @ m # ns)) (length (list_file xs))) = Ret m"
      using Cons.prems(1) getline_name[of m xs "list_file ns"] chop_name[of m] by (simp add: good_name_def)
    moreover obtain sb where "lstat h m = Some sb" using Cons.prems(3) True by (cases "lstat h m") (auto simp: full_file_def)
    ultimately show ?thesis using Cons.prems(3) True by (auto simp: has_entry_def full_file_def entry_def)
  next
    case False
    then have "has_entry (list_file (xs @ m # ns)) (entries h (length (list_file (xs @ [m]))) ns) n"
      using Cons.IH[of "xs @ [m]"] Cons.prems by simp
    then show ?thesis unfolding entries.simps loc by (auto simp: has_entry_def image_Un)
  qed
qed

section \<open>The sorted table\<close>

text \<open>What is relied on of the files: names of one inode are one file, and sizes and numbers stay below 2^31.\<close>

definition stable_files :: "host \<Rightarrow> string list \<Rightarrow> bool" where
  "stable_files h names \<longleftrightarrow> (\<forall>n\<in>set names. \<forall>sb. lstat h n = Some sb \<longrightarrow>
     contents h n \<noteq> None \<and> uint (st_size sb) < 2 ^ 31 \<and> uint (st_dev sb) < 2 ^ 31 \<and> uint (st_ino sb) < 2 ^ 31 \<and>
     (\<forall>m\<in>set names. \<forall>sb'. lstat h m = Some sb' \<longrightarrow> st_dev sb' = st_dev sb \<longrightarrow> st_ino sb' = st_ino sb \<longrightarrow>
        st_size sb' = st_size sb \<and> contents h m = contents h n))"

lemma stable_filesD:
  assumes "stable_files h names" "n \<in> set names" "lstat h n = Some sb"
  shows "contents h n \<noteq> None" "uint (st_size sb) < 2 ^ 31 \<and> uint (st_dev sb) < 2 ^ 31 \<and> uint (st_ino sb) < 2 ^ 31"
    "m \<in> set names \<Longrightarrow> lstat h m = Some sb' \<Longrightarrow> st_dev sb' = st_dev sb \<Longrightarrow> st_ino sb' = st_ino sb \<Longrightarrow>
       st_size sb' = st_size sb \<and> contents h m = contents h n"
proof -
  note all = bspec[OF assms(1)[unfolded stable_files_def] assms(2), rule_format, OF assms(3)]
  show "contents h n \<noteq> None" "uint (st_size sb) < 2 ^ 31 \<and> uint (st_dev sb) < 2 ^ 31 \<and> uint (st_ino sb) < 2 ^ 31"
    using all by blast+
  show "m \<in> set names \<Longrightarrow> lstat h m = Some sb' \<Longrightarrow> st_dev sb' = st_dev sb \<Longrightarrow> st_ino sb' = st_ino sb \<Longrightarrow>
       st_size sb' = st_size sb \<and> contents h m = contents h n"
    using all by blast
qed

lemma entry_ofD:
  assumes "entry_of h names nf d"
  obtains n sb where "n \<in> set names" "lstat h n = Some sb" "chop (getline nf (nameloc d)) = Ret n" "good_name n"
    "fd_length d = st_size sb" "device d = st_dev sb" "inode d = st_ino sb"
  using assms unfolding entry_of_def by (elim bexE exE conjE) simp

text \<open>What is relied on of the sorting routine: it permutes, and sorts when the comparison is an order.\<close>

definition comparable :: "filedesc \<Rightarrow> filedesc \<Rightarrow> bool" where
  "comparable a b \<longleftrightarrow> near (fd_length a) (fd_length b) \<and> near (crc32 a) (crc32 b) \<and>
     near (device a) (device b) \<and> near (inode a) (inode b)"

definition qsort_ok :: "host \<Rightarrow> bool" where
  "qsort_ok h \<longleftrightarrow> (\<forall>fl. mset (qsort h fl) = mset fl \<and>
     ((\<forall>a\<in>set fl. \<forall>b\<in>set fl. comparable a b) \<longrightarrow> sorted_wrt (\<lambda>a b. comp1 a b \<le> 0) (qsort h fl)))"

lemma near_small: "uint a < 2 ^ 31 \<Longrightarrow> uint b < 2 ^ 31 \<Longrightarrow> near a b"
proof -
  assume "uint a < 2 ^ 31" "uint b < 2 ^ 31"
  moreover have "0 \<le> uint a" "0 \<le> uint b" by simp_all
  ultimately show ?thesis unfolding near_def by linarith
qed

lemma comp1_length:
  assumes "near (fd_length a) (fd_length b)" "comp1 a b \<le> 0"
  shows "fd_length a \<le> fd_length b"
proof (cases "fd_length a - fd_length b = 0")
  case False
  then have "uint (fd_length a) - uint (fd_length b) \<le> 0" using assms by (simp add: comp1_def as_int_near)
  then show ?thesis by (simp add: word_le_def)
qed simp

text \<open>A table whose entries belong to names of the list.\<close>

definition listed :: "host \<Rightarrow> string list \<Rightarrow> string \<Rightarrow> filedesc list \<Rightarrow> bool" where
  "listed h names nf fl \<longleftrightarrow> (\<forall>d\<in>set fl. entry_of h names nf d)"

lemma listed_small:
  assumes "listed h names nf fl" "stable_files h names" "d \<in> set fl"
  shows "uint (fd_length d) < 2 ^ 31 \<and> uint (device d) < 2 ^ 31 \<and> uint (inode d) < 2 ^ 31"
proof -
  have "entry_of h names nf d" using assms(1,3) by (simp add: listed_def)
  then obtain n sb where n: "n \<in> set names" "lstat h n = Some sb" "fd_length d = st_size sb" "device d = st_dev sb" "inode d = st_ino sb"
    by (rule entry_ofD)
  show ?thesis using stable_filesD(2)[OF assms(2) n(1,2)] n(3-) by simp
qed

lemma listed_comparable:
  assumes "listed h names nf fl" "stable_files h names" "a \<in> set fl" "b \<in> set fl" "crc32 a = 0" "crc32 b = 0"
  shows "comparable a b"
  using listed_small[OF assms(1-3)] listed_small[OF assms(1,2,4)] near_small assms(5,6) by (simp add: comparable_def)

lemma sort_lengths:
  assumes "qsort_ok h" "stable_files h names" "listed h names nf fl" "\<forall>d\<in>set fl. crc32 d = 0"
  shows "sorted_wrt (\<lambda>a b. fd_length a \<le> fd_length b) (qsort h fl) \<and> mset (qsort h fl) = mset fl"
proof -
  have c: "\<forall>a\<in>set fl. \<forall>b\<in>set fl. comparable a b" using listed_comparable[OF assms(3,2)] assms(4) by blast
  have m: "mset (qsort h fl) = mset fl" and s: "sorted_wrt (\<lambda>a b. comp1 a b \<le> 0) (qsort h fl)"
    using assms(1) c unfolding qsort_ok_def by blast+
  have e: "set (qsort h fl) = set fl" using m by (metis set_mset_mset)
  have "sorted_wrt (\<lambda>a b. fd_length a \<le> fd_length b) (qsort h fl)"
  proof (rule sorted_wrt_mono_rel[OF _ s])
    fix a b assume "a \<in> set (qsort h fl)" "b \<in> set (qsort h fl)" "comp1 a b \<le> 0"
    then show "fd_length a \<le> fd_length b" using c e comp1_length by (auto simp: comparable_def)
  qed
  then show ?thesis using m by simp
qed

lemma entry_readable:
  assumes "entry_of h names nf d" "stable_files h names"
  shows "readable h nf d"
proof -
  from assms(1) obtain n sb where n: "n \<in> set names" "lstat h n = Some sb" "chop (getline nf (nameloc d)) = Ret n" "good_name n"
    by (rule entry_ofD)
  show ?thesis using stable_filesD(1)[OF assms(2) n(1,2)] n(3,4) by (simp add: readable_def good_name_def MAXFN_def)
qed

lemma entries_agree:
  assumes "entry_of h names nf d" "entry_of h names nf e" "stable_files h names" "same_inode d e"
  shows "fd_length d = fd_length e \<and> bytes_at h nf d = bytes_at h nf e"
proof -
  from assms(1) obtain n sb where n: "n \<in> set names" "lstat h n = Some sb" "chop (getline nf (nameloc d)) = Ret n"
    "fd_length d = st_size sb" "device d = st_dev sb" "inode d = st_ino sb" by (rule entry_ofD)
  from assms(2) obtain m sc where m: "m \<in> set names" "lstat h m = Some sc" "chop (getline nf (nameloc e)) = Ret m"
    "fd_length e = st_size sc" "device e = st_dev sc" "inode e = st_ino sc" by (rule entry_ofD)
  have "st_size sc = st_size sb \<and> contents h m = contents h n"
    using stable_filesD(3)[OF assms(3) n(1,2) m(1,2)] assms(4) n m by (simp add: same_inode_def)
  then show ?thesis using n m by (simp add: bytes_at_def)
qed

section \<open>The first scan\<close>

definition base :: "filedesc \<Rightarrow> filedesc" where
  "base d = d\<lparr>crc32 := 0, flags := 0\<rparr>"

text \<open>The checksum the first scan stores.\<close>

definition crc_value :: "host \<Rightarrow> string \<Rightarrow> filedesc \<Rightarrow> u64" where
  "crc_value h nf d = (case bytes_at h nf d of None \<Rightarrow> 0
     | Some bytes \<Rightarrow> ucast (rc_crc32 0 (read_block h (unat (fd_length d)) bytes)))"

definition summed :: "host \<Rightarrow> string \<Rightarrow> filedesc \<Rightarrow> bool" where
  "summed h nf d \<longleftrightarrow> flags d = FL_CRC \<and> crc32 d = crc_value h nf d"

definition scanned :: "host \<Rightarrow> finder \<Rightarrow> finder \<Rightarrow> bool" where
  "scanned h st0 st \<longleftrightarrow> map base (filelist st) = map base (filelist st0) \<and> namefd st = namefd st0 \<and> linkflag st = linkflag st0 \<and>
     stdout st = stdout st0 \<and> stderr st = stderr st0 \<and>
     (\<forall>d\<in>set (filelist st). flags d = 0 \<and> crc32 d = 0 \<or> summed h (namefd st) d)"

lemma base_fields: "base d = base e \<Longrightarrow> fd_length d = fd_length e \<and> device d = device e \<and> inode d = inode e \<and> nameloc d = nameloc e"
  by (cases d; cases e) (simp add: base_def)

lemma base_same: "base d = base e \<Longrightarrow> entry_of h names nf d = entry_of h names nf e \<and> bytes_at h nf d = bytes_at h nf e \<and>
   readable h nf d = readable h nf e \<and> crc_value h nf d = crc_value h nf e"
proof -
  assume "base d = base e"
  then have f: "fd_length d = fd_length e" "device d = device e" "inode d = inode e" "nameloc d = nameloc e" using base_fields by blast+
  show ?thesis unfolding entry_of_def bytes_at_def readable_def crc_value_def f by simp
qed

lemma scanned_length: "scanned h st0 st \<Longrightarrow> length (filelist st) = length (filelist st0)"
  unfolding scanned_def by (metis length_map)

lemma scanned_nth: "scanned h st0 st \<Longrightarrow> k < length (filelist st0) \<Longrightarrow> base (filelist st ! k) = base (filelist st0 ! k)"
  using scanned_length[of h st0 st] unfolding scanned_def by (metis nth_map)

lemma need_crc_run:
  assumes "scanned h st0 st" "all_readable h st0" "ix < length (filelist st0)"
  shows "\<exists>st'. need_crc h ix st = Ret st' \<and> scanned h st0 st' \<and> summed h (namefd st0) (filelist st' ! ix) \<and>
    (\<forall>k<length (filelist st0). summed h (namefd st0) (filelist st ! k) \<longrightarrow> summed h (namefd st0) (filelist st' ! k))"
proof -
  let ?d = "filelist st ! ix"
  have l: "length (filelist st) = length (filelist st0)" and nf: "namefd st = namefd st0"
    using scanned_length[OF assms(1)] assms(1) by (simp_all add: scanned_def)
  have ix: "ix < length (filelist st)" using assms(3) l by simp
  have fl: "flags ?d = 0 \<or> summed h (namefd st0) ?d" using assms(1) nth_mem[OF ix] nf unfolding scanned_def by metis
  show ?thesis
  proof (cases "flags ?d = 0")
    case False
    then have s: "summed h (namefd st0) ?d" using fl by simp
    then have "need_crc h ix st = Ret st" by (simp add: need_crc_def GetFlag_def summed_def FL_CRC_def)
    then show ?thesis using s assms(1) by blast
  next
    case True
    have "readable h (namefd st0) ?d"
      using assms(2,3) base_same[OF scanned_nth[OF assms(1,3)]] by (simp add: all_readable_def)
    then obtain fn bytes where fn: "getfn st ix = Ret fn" "contents h fn = Some bytes" "bytes_at h (namefd st0) ?d = Some bytes"
      using ix nf by (auto simp: readable_def getfn_def bytes_at_def split: outcome.splits option.splits)
    define e where "e = ?d\<lparr>crc32 := crc_value h (namefd st0) ?d, flags := FL_CRC\<rparr>"
    have run: "need_crc h ix st = Ret (st\<lparr>filelist := (filelist st)[ix := e]\<rparr>)"
      using True ix fn by (simp add: need_crc_def GetFlag_def get_crc_def SetFlag_def Let_def e_def crc_value_def)
    have be: "base e = base ?d" by (simp add: e_def base_def)
    have es: "summed h (namefd st0) e" using base_same[OF be] by (simp add: summed_def) (simp add: e_def)
    have "map base ((filelist st)[ix := e]) = map base (filelist st)"
      using ix be by (metis list_update_id map_update nth_map)
    then have "scanned h st0 (st\<lparr>filelist := (filelist st)[ix := e]\<rparr>)"
      using assms(1) es nf set_update_subset_insert[of "filelist st" ix e] by (auto simp: scanned_def)
    then show ?thesis using run es ix l by (auto simp: nth_list_update)
  qed
qed

lemma scan1_loop_run:
  assumes "scanned h st0 st" "all_readable h st0" "0 < k" "k \<le> length (filelist st0)"
  shows "\<exists>ns' st'. scan1_loop h [k ..< length (filelist st0)] ns st = Ret (ns', st') \<and> scanned h st0 st' \<and>
    (\<forall>i<length (filelist st0). summed h (namefd st0) (filelist st ! i) \<longrightarrow> summed h (namefd st0) (filelist st' ! i)) \<and>
    (\<forall>i. k \<le> i \<and> i < length (filelist st0) \<and> fd_length (filelist st0 ! (i - 1)) = fd_length (filelist st0 ! i) \<longrightarrow>
       ns' \<and> summed h (namefd st0) (filelist st' ! (i - 1)) \<and> summed h (namefd st0) (filelist st' ! i)) \<and> (ns \<longrightarrow> ns')"
  using assms
proof (induction "length (filelist st0) - k" arbitrary: k ns st)
  case 0
  then show ?case by (intro exI[of _ ns] exI[of _ st]) auto
next
  case (Suc n)
  let ?n = "length (filelist st0)" and ?S = "summed h (namefd st0)"
  have k: "k < ?n" "k - 1 < ?n" and n: "n = ?n - Suc k" using Suc.hyps(2) by simp_all
  note list = upt_conv_Cons[OF k(1)]
  have len: "fd_length (filelist st ! i) = fd_length (filelist st0 ! i)" if "i < ?n" for i
    using base_fields[OF scanned_nth[OF Suc.prems(1) that]] by simp
  show ?case
  proof (cases "fd_length (filelist st0 ! (k - 1)) = fd_length (filelist st0 ! k)")
    case True
    obtain a where a: "need_crc h (k - 1) st = Ret a" "scanned h st0 a" "?S (filelist a ! (k - 1))"
      "\<forall>i<?n. ?S (filelist st ! i) \<longrightarrow> ?S (filelist a ! i)" using need_crc_run[OF Suc.prems(1,2) k(2)] by blast
    obtain b where b: "need_crc h k a = Ret b" "scanned h st0 b" "?S (filelist b ! k)"
      "\<forall>i<?n. ?S (filelist a ! i) \<longrightarrow> ?S (filelist b ! i)" using need_crc_run[OF a(2) Suc.prems(2) k(1)] by blast
    obtain ns' c where c: "scan1_loop h [Suc k ..< ?n] True b = Ret (ns', c)" "scanned h st0 c"
      "\<forall>i<?n. ?S (filelist b ! i) \<longrightarrow> ?S (filelist c ! i)"
      "\<forall>i. Suc k \<le> i \<and> i < ?n \<and> fd_length (filelist st0 ! (i - 1)) = fd_length (filelist st0 ! i) \<longrightarrow>
         ns' \<and> ?S (filelist c ! (i - 1)) \<and> ?S (filelist c ! i)" "ns'"
      using Suc.hyps(1)[OF n b(2) Suc.prems(2), of True] k by auto
    have "?S (filelist c ! (k - 1))" "?S (filelist c ! k)" using a(3) b(3,4) c(3) k by blast+
    moreover have "scan1_loop h [k ..< ?n] ns st = Ret (ns', c)" unfolding list using True len k a(1) b(1) c(1) by simp
    moreover have "k \<le> i \<longleftrightarrow> i = k \<or> Suc k \<le> i" for i by auto
    ultimately show ?thesis using c(2-5) b(4) a(4) by (intro exI[of _ ns'] exI[of _ c]) auto
  next
    case False
    obtain ns' c where c: "scan1_loop h [Suc k ..< ?n] ns st = Ret (ns', c)" "scanned h st0 c"
      "\<forall>i<?n. ?S (filelist st ! i) \<longrightarrow> ?S (filelist c ! i)"
      "\<forall>i. Suc k \<le> i \<and> i < ?n \<and> fd_length (filelist st0 ! (i - 1)) = fd_length (filelist st0 ! i) \<longrightarrow>
         ns' \<and> ?S (filelist c ! (i - 1)) \<and> ?S (filelist c ! i)" "ns \<longrightarrow> ns'"
      using Suc.hyps(1)[OF n Suc.prems(1,2), of ns] k by auto
    moreover have "scan1_loop h [k ..< ?n] ns st = Ret (ns', c)" unfolding list using False len k c(1) by simp
    moreover have "k \<le> i \<and> fd_length (filelist st0 ! (i - 1)) = fd_length (filelist st0 ! i) \<longrightarrow> Suc k \<le> i" for i
      using False by (auto simp: le_eq_less_or_eq)
    ultimately show ?thesis by (intro exI[of _ ns'] exI[of _ c]) auto
  qed
qed

text \<open>In a table sorted by length an entry that shares its length shares it with a neighbour.\<close>

lemma equal_neighbour:
  assumes "sorted_wrt (\<lambda>a b. fd_length a \<le> fd_length b) fl" "i < length fl" "j < length fl" "i \<noteq> j"
    "fd_length (fl ! i) = fd_length (fl ! j)"
  shows "\<exists>k. 1 \<le> k \<and> k < length fl \<and> fd_length (fl ! (k - 1)) = fd_length (fl ! k) \<and> (i = k - 1 \<or> i = k)"
proof -
  have mono: "fd_length (fl ! a) \<le> fd_length (fl ! b)" if "a \<le> b" "b < length fl" for a b
    using sorted_wrt_nth_less[OF assms(1), of a b] that by (cases "a = b") simp_all
  show ?thesis
  proof (cases "i < j")
    case True
    have "fd_length (fl ! i) = fd_length (fl ! Suc i)"
      using mono[of i "Suc i"] mono[of "Suc i" j] assms(3,5) True by simp
    then show ?thesis using assms(3) True by (intro exI[of _ "Suc i"]) simp
  next
    case False
    have "fd_length (fl ! (i - 1)) = fd_length (fl ! i)"
      using mono[of j "i - 1"] mono[of "i - 1" i] assms(2,4,5) False by simp
    then show ?thesis using assms(2,4) False by (intro exI[of _ i]) simp
  qed
qed

lemma summed_agree:
  assumes "summed h nf d" "summed h nf e" "fd_length d = fd_length e" "bytes_at h nf d = bytes_at h nf e"
  shows "same_file h nf d e"
proof -
  have "crc_value h nf d = crc_value h nf e" unfolding crc_value_def assms(3,4) by (rule refl)
  then show ?thesis using assms by (simp add: same_file_def summed_def)
qed

lemma listed_readable:
  assumes "listed h names (namefd st) (filelist st)" "stable_files h names"
  shows "all_readable h st"
  unfolding all_readable_def
proof (intro allI impI)
  fix k assume "k < length (filelist st)"
  then have "entry_of h names (namefd st) (filelist st ! k)" using assms(1) by (simp add: listed_def)
  then show "readable h (namefd st) (filelist st ! k)" by (rule entry_readable[OF _ assms(2)])
qed

text \<open>Files whose bytes are as many as their size says, with checksums that the comparison can tell apart.\<close>

definition sized_files :: "host \<Rightarrow> string list \<Rightarrow> bool" where
  "sized_files h names \<longleftrightarrow> (\<forall>n\<in>set names. \<forall>sb. \<forall>bytes. lstat h n = Some sb \<longrightarrow> contents h n = Some bytes \<longrightarrow>
     length bytes = unat (st_size sb) \<and> uint (rc_crc32 0 bytes) < 2 ^ 31)"

text \<open>Entries that agree in size and contents agree in their checksums.\<close>

definition sums_agree :: "host \<Rightarrow> string \<Rightarrow> filedesc list \<Rightarrow> bool" where
  "sums_agree h nf fl \<longleftrightarrow> (\<forall>d\<in>set fl. \<forall>e\<in>set fl. fd_length d = fd_length e \<longrightarrow> bytes_at h nf d = bytes_at h nf e \<longrightarrow> crc32 d = crc32 e)"

lemma sums_agreeD:
  "sums_agree h nf fl \<Longrightarrow> d \<in> set fl \<Longrightarrow> e \<in> set fl \<Longrightarrow> fd_length d = fd_length e \<Longrightarrow> bytes_at h nf d = bytes_at h nf e \<Longrightarrow>
   crc32 d = crc32 e"
  unfolding sums_agree_def by blast

lemma sums_agree_mono: "sums_agree h nf fl \<Longrightarrow> set fl' = set fl \<Longrightarrow> sums_agree h nf fl'"
  unfolding sums_agree_def by (simp only:)

lemma read_block_full: "length bytes = n \<Longrightarrow> read_block h n bytes = bytes"
  by (auto simp: read_block_def intro: nth_equalityI)

lemma sum_small:
  assumes "entry_of h names nf d" "sized_files h names" "crc32 d = 0 \<or> summed h nf d"
  shows "uint (crc32 d) < 2 ^ 31"
proof (cases "crc32 d = 0")
  case False
  from assms(1) obtain n sb where n: "n \<in> set names" "lstat h n = Some sb" "chop (getline nf (nameloc d)) = Ret n"
    "fd_length d = st_size sb" by (rule entry_ofD)
  have v: "crc32 d = crc_value h nf d" using False assms(3) by (simp add: summed_def)
  then obtain bytes where b: "contents h n = Some bytes" using False n(3) by (cases "contents h n") (auto simp: crc_value_def bytes_at_def)
  have l: "length bytes = unat (st_size sb)" and u: "uint (rc_crc32 0 bytes) < 2 ^ 31"
    using assms(2) n(1,2) b unfolding sized_files_def by blast+
  have "crc32 d = ucast (rc_crc32 0 bytes)" using v n(3,4) b read_block_full[OF l] by (simp add: crc_value_def bytes_at_def)
  then show ?thesis using u by (simp add: uint_up_ucast is_up)
qed simp

lemma comp1_runs:
  assumes "comparable a b" "comp1 a b \<le> 0"
  shows "fd_length a \<le> fd_length b" "fd_length a = fd_length b \<Longrightarrow> crc32 a \<le> crc32 b"
proof -
  show "fd_length a \<le> fd_length b" using assms by (intro comp1_length) (simp_all add: comparable_def)
  assume e: "fd_length a = fd_length b"
  show "crc32 a \<le> crc32 b"
  proof (cases "crc32 a - crc32 b = 0")
    case False
    then have "uint (crc32 a) - uint (crc32 b) \<le> 0" using assms e by (simp add: comp1_def as_int_near comparable_def)
    then show ?thesis by (simp add: word_le_def)
  qed simp
qed

lemma sorted_runs:
  assumes "qsort_ok h" "\<forall>a\<in>set fl. \<forall>b\<in>set fl. comparable a b"
  shows "runs_together (length (qsort h fl)) (\<lambda>k. (fd_length (qsort h fl ! k), crc32 (qsort h fl ! k)))"
proof -
  let ?q = "qsort h fl"
  have m: "mset ?q = mset fl" and s: "sorted_wrt (\<lambda>a b. comp1 a b \<le> 0) ?q" using assms unfolding qsort_ok_def by blast+
  have "set ?q = set fl" using m by (metis set_mset_mset)
  then have c: "comparable (?q ! i) (?q ! j)" if "i < length ?q" "j < length ?q" for i j using assms(2) that nth_mem by blast
  show ?thesis unfolding runs_together_def
  proof (intro allI impI)
    fix i j k assume o: "i < j" "j < k" "k < length ?q"
      "(fd_length (?q ! i), crc32 (?q ! i)) = (fd_length (?q ! k), crc32 (?q ! k))"
    note ij = comp1_runs[OF c sorted_wrt_nth_less[OF s o(1)]] and jk = comp1_runs[OF c sorted_wrt_nth_less[OF s o(2,3)]]
    have "fd_length (?q ! j) = fd_length (?q ! i)" using ij(1) jk(1) o by simp
    then show "(fd_length (?q ! j), crc32 (?q ! j)) = (fd_length (?q ! i), crc32 (?q ! i))" using ij(2) jk(2) o by simp
  qed
qed

text \<open>The table after the loop of the first scan, before it is sorted again.\<close>

lemma scan1_table:
  assumes "stable_files h names" "listed h names (namefd st0) (filelist st0)" "\<forall>d\<in>set (filelist st0). flags d = 0 \<and> crc32 d = 0"
    and sorted: "sorted_wrt (\<lambda>a b. fd_length a \<le> fd_length b) (filelist st0)"
  shows "\<exists>ns st1. scan1_loop h [1 ..< length (filelist st0)] False st0 = Ret (ns, st1) \<and> scanned h st0 st1 \<and>
    listed h names (namefd st0) (filelist st1) \<and> sums_agree h (namefd st0) (filelist st1) \<and>
    (\<forall>i<length (filelist st0). \<forall>j<length (filelist st0). i \<noteq> j \<longrightarrow> fd_length (filelist st1 ! i) = fd_length (filelist st1 ! j) \<longrightarrow> ns)"
proof -
  let ?n = "length (filelist st0)" and ?nf = "namefd st0"
  have rd: "all_readable h st0" by (rule listed_readable[OF assms(2,1)])
  have s0: "scanned h st0 st0" using assms(3) by (simp add: scanned_def)
  obtain ns st1 where run: "scan1_loop h [1 ..< ?n] False st0 = Ret (ns, st1)" and s1: "scanned h st0 st1"
    and near: "\<forall>i. 1 \<le> i \<and> i < ?n \<and> fd_length (filelist st0 ! (i - 1)) = fd_length (filelist st0 ! i) \<longrightarrow>
       ns \<and> summed h ?nf (filelist st1 ! (i - 1)) \<and> summed h ?nf (filelist st1 ! i)"
  proof (cases "?n = 0")
    case True
    then show thesis using s0 that[of False st0] by simp
  next
    case False
    then have "1 \<le> ?n" by (cases ?n) simp_all
    from scan1_loop_run[OF s0 rd zero_less_one this, of False] show thesis using that by blast
  qed
  let ?fl = "filelist st1"
  have l: "length ?fl = ?n" by (rule scanned_length[OF s1])
  have lt: "listed h names ?nf ?fl"
  proof -
    have "entry_of h names ?nf (?fl ! k)" if "k < ?n" for k
      using base_same[OF scanned_nth[OF s1 that], of h names ?nf] assms(2) that by (simp add: listed_def)
    then show ?thesis using l unfolding listed_def by (metis in_set_conv_nth)
  qed
  have shared: "ns \<and> summed h ?nf (?fl ! i) \<and> summed h ?nf (?fl ! j)"
    if i: "i < ?n" and j: "j < ?n" and ne: "i \<noteq> j" and e: "fd_length (?fl ! i) = fd_length (?fl ! j)" for i j
  proof -
    have len: "fd_length (filelist st0 ! i) = fd_length (filelist st0 ! j)"
      using base_fields[OF scanned_nth[OF s1 i]] base_fields[OF scanned_nth[OF s1 j]] e by simp
    show ?thesis using equal_neighbour[OF sorted i j ne len] equal_neighbour[OF sorted j i ne[symmetric] len[symmetric]] near by blast
  qed
  have "sums_agree h ?nf ?fl" unfolding sums_agree_def
  proof (intro ballI impI)
    fix d e assume d: "d \<in> set ?fl" and e: "e \<in> set ?fl" and eq: "fd_length d = fd_length e" "bytes_at h ?nf d = bytes_at h ?nf e"
    obtain i j where i: "i < ?n" "d = ?fl ! i" and j: "j < ?n" "e = ?fl ! j" using d e l by (metis in_set_conv_nth)
    show "crc32 d = crc32 e"
    proof (cases "i = j")
      case False
      then show ?thesis using summed_agree[OF _ _ eq] shared[OF i(1) j(1) False] eq(1) i j by (simp add: same_file_def)
    qed (use i j in simp)
  qed
  then show ?thesis using run s1 lt shared by blast
qed

lemma scan1_spec:
  assumes "qsort_ok h" "stable_files h names" "listed h names (namefd st0) (filelist st0)" "\<forall>d\<in>set (filelist st0). flags d = 0 \<and> crc32 d = 0"
    and sorted: "sorted_wrt (\<lambda>a b. fd_length a \<le> fd_length b) (filelist st0)"
  shows "\<exists>st'. scan1 h st0 = Ret st' \<and> listed h names (namefd st0) (filelist st') \<and> namefd st' = namefd st0 \<and>
    linkflag st' = linkflag st0 \<and> stdout st' = stdout st0 \<and> all_readable h st' \<and> links_agree h st' \<and> unmarked st' \<and>
    nameloc ` set (filelist st') = nameloc ` set (filelist st0) \<and> sums_agree h (namefd st0) (filelist st') \<and>
    (sized_files h names \<longrightarrow> runs_together (length (filelist st')) (size_at st'))"
proof -
  let ?n = "length (filelist st0)" and ?nf = "namefd st0"
  obtain ns st1 where run: "scan1_loop h [1 ..< ?n] False st0 = Ret (ns, st1)" and s1: "scanned h st0 st1"
    and lt: "listed h names ?nf (filelist st1)" and sums: "sums_agree h ?nf (filelist st1)"
    and needs: "\<forall>i<?n. \<forall>j<?n. i \<noteq> j \<longrightarrow> fd_length (filelist st1 ! i) = fd_length (filelist st1 ! j) \<longrightarrow> ns"
    using scan1_table[OF assms(2-5)] by blast
  let ?fl = "filelist st1"
  have l: "length ?fl = ?n" by (rule scanned_length[OF s1])
  define st' where "st' = (if ns then SORT h st1 else st1)"
  have mem: "set (filelist st') = set ?fl"
  proof -
    have "mset (qsort h ?fl) = mset ?fl" using assms(1) by (simp add: qsort_ok_def)
    then have "set (qsort h ?fl) = set ?fl" by (metis set_mset_mset)
    then show ?thesis by (simp add: st'_def SORT_def)
  qed
  have o: "namefd st' = ?nf" "linkflag st' = linkflag st0" "stdout st' = stdout st0" using s1 by (simp_all add: st'_def SORT_def scanned_def)
  have at: "filelist st' ! k \<in> set ?fl" if "k < length (filelist st')" for k using mem that nth_mem by blast
  have ls: "listed h names ?nf (filelist st')" using lt mem by (simp add: listed_def)
  moreover have "all_readable h st'" using listed_readable[of h names st'] ls assms(2) o(1) by simp
  moreover have "links_agree h st'" unfolding links_agree_def o(1)
  proof (intro allI impI)
    fix i j assume i: "i < length (filelist st')" and j: "j < length (filelist st')"
      and same: "same_inode (filelist st' ! i) (filelist st' ! j)"
    let ?d = "filelist st' ! i" and ?e = "filelist st' ! j"
    have "fd_length ?d = fd_length ?e \<and> bytes_at h ?nf ?d = bytes_at h ?nf ?e"
      using entries_agree[OF _ _ assms(2) same, of ?nf] ls i j by (simp add: listed_def)
    then show "same_file h ?nf ?d ?e" using sums_agreeD[OF sums at[OF i] at[OF j]] by (simp add: same_file_def)
  qed
  moreover have "unmarked st'"
  proof -
    have "flags d AND FL_DUP = 0 \<and> flags d AND FL_LNK = 0" if "d \<in> set ?fl" for d
      using s1 that by (auto simp: scanned_def summed_def FL_CRC_def FL_DUP_def FL_LNK_def)
    then show ?thesis using at by (simp add: unmarked_def GetFlag_def)
  qed
  moreover have "nameloc ` set (filelist st') = nameloc ` set (filelist st0)"
  proof -
    have "map nameloc ?fl = map nameloc (filelist st0)"
      using base_fields[OF scanned_nth[OF s1]] l by (intro nth_equalityI) simp_all
    then show ?thesis unfolding mem by (metis set_map)
  qed
  moreover have "sums_agree h ?nf (filelist st')" by (rule sums_agree_mono[OF sums mem])
  moreover have "runs_together (length (filelist st')) (size_at st')" if sz: "sized_files h names"
  proof (cases ns)
    case True
    have small: "uint (crc32 d) < 2 ^ 31" if "d \<in> set ?fl" for d
    proof (rule sum_small[OF _ sz])
      show "entry_of h names ?nf d" using lt that by (simp add: listed_def)
      have "namefd st1 = ?nf" using s1 by (simp add: scanned_def)
      then show "crc32 d = 0 \<or> summed h ?nf d" using s1 that unfolding scanned_def by metis
    qed
    have "comparable a b" if "a \<in> set ?fl" "b \<in> set ?fl" for a b
      unfolding comparable_def
      using listed_small[OF lt assms(2) that(1)] listed_small[OF lt assms(2) that(2)] small[OF that(1)] small[OF that(2)]
      by (intro conjI near_small) simp_all
    then show ?thesis using sorted_runs[OF assms(1), of ?fl] True by (simp add: st'_def SORT_def)
  next
    case False
    have st: "st' = st1" using False by (simp add: st'_def)
    have d: "fd_length (?fl ! i) \<noteq> fd_length (?fl ! k)" if "i < k" "k < ?n" for i k
    proof
      assume "fd_length (?fl ! i) = fd_length (?fl ! k)"
      then show False using needs[rule_format, of i k] that False by simp
    qed
    show ?thesis unfolding runs_together_def st l
    proof (intro allI impI)
      fix i j k assume "i < j" "j < k" "k < ?n" "size_at st1 i = size_at st1 k"
      then show "size_at st1 j = size_at st1 i" using d[of i k] by simp
    qed
  qed
  moreover have "scan1 h st0 = Ret st'" using run by (simp add: scan1_def st'_def)
  ultimately show ?thesis using o by (intro exI[of _ st']) simp
qed

section \<open>The whole program\<close>

lemma listed_names:
  assumes "listed h names (namefd st) (filelist st)" "k < length (filelist st)"
  shows "name_of st k \<in> set names"
proof -
  have "entry_of h names (namefd st) (filelist st ! k)" using assms by (simp add: listed_def)
  then obtain n where "n \<in> set names" "chop (getline (namefd st) (nameloc (filelist st ! k))) = Ret n" by (rule entry_ofD)
  then show ?thesis using assms(2) by (simp add: name_of_def getfn_def)
qed

lemma listed_unflag:
  assumes "mset (map unflag fl) = mset (map unflag fl')" "listed h names nf fl'"
  shows "listed h names nf fl"
  unfolding listed_def
proof
  fix d assume "d \<in> set fl"
  then have "unflag d \<in> set (map unflag fl)" by simp
  then have "unflag d \<in> set (map unflag fl')" using assms(1) by (metis set_mset_mset)
  then obtain e where e: "e \<in> set fl'" "unflag d = unflag e" by auto
  have "entry_of h names nf e" using assms(2) e(1) by (simp add: listed_def)
  then show "entry_of h names nf d" using unflag_fields[OF e(2)] by (simp add: entry_of_def)
qed

lemma unflag_members:
  assumes "mset (map unflag fl) = mset (map unflag fl')" "d \<in> set fl"
  obtains e where "e \<in> set fl'" "unflag d = unflag e"
proof -
  have "unflag d \<in> set (map unflag fl)" using assms(2) by simp
  then have "unflag d \<in> set (map unflag fl')" using assms(1) by (metis set_mset_mset)
  then show ?thesis using that by auto
qed

lemma sums_agree_unflag:
  assumes "mset (map unflag fl) = mset (map unflag fl')" "sums_agree h nf fl'"
  shows "sums_agree h nf fl"
  unfolding sums_agree_def
proof (intro ballI impI)
  fix d e assume d: "d \<in> set fl" and e: "e \<in> set fl" and eq: "fd_length d = fd_length e" "bytes_at h nf d = bytes_at h nf e"
  obtain d' where d': "d' \<in> set fl'" "unflag d = unflag d'" by (rule unflag_members[OF assms(1) d])
  obtain e' where e': "e' \<in> set fl'" "unflag e = unflag e'" by (rule unflag_members[OF assms(1) e])
  note u = unflag_fields[OF d'(2)] unflag_fields[OF e'(2)]
  have "fd_length d' = fd_length e'" "bytes_at h nf d' = bytes_at h nf e'" using eq u by (simp_all add: bytes_at_def)
  then have "crc32 d' = crc32 e'" by (rule sums_agreeD[OF assms(2) d'(1) e'(1)])
  then show "crc32 d = crc32 e" using u by simp
qed

lemma names_unflag:
  assumes "mset (map unflag fl) = mset (map unflag fl')"
  shows "nameloc ` set fl = nameloc ` set fl'"
proof -
  have "nameloc ` set fl \<subseteq> nameloc ` set fl'" if eq: "mset (map unflag fl) = mset (map unflag fl')" for fl fl'
  proof
    fix l assume "l \<in> nameloc ` set fl"
    then obtain d where d: "d \<in> set fl" "l = nameloc d" by blast
    obtain e where "e \<in> set fl'" "unflag d = unflag e" by (rule unflag_members[OF eq d(1)])
    then show "l \<in> nameloc ` set fl'" using unflag_fields[of d e] d(2) by auto
  qed
  from this[OF assms] this[OF assms[symmetric]] show ?thesis by blast
qed

lemma has_entry_index:
  assumes "has_entry (namefd st) (filelist st) n"
  obtains p where "p < length (filelist st)" "name_of st p = n"
proof -
  obtain d where d: "d \<in> set (filelist st)" "chop (getline (namefd st) (nameloc d)) = Ret n" using assms by (auto simp: has_entry_def)
  then obtain p where "p < length (filelist st)" "filelist st ! p = d" by (metis in_set_conv_nth)
  then show ?thesis using d(2) that[of p] by (simp add: name_of_def getfn_def)
qed

text \<open>Two files with equal contents have entries with equal keys.\<close>

lemma copies_same_key:
  assumes "listed h names (namefd st) (filelist st)" "sums_agree h (namefd st) (filelist st)" "sized_files h names" "stable_files h names"
    and "p < length (filelist st)" "q < length (filelist st)" "contents h (name_of st p) = contents h (name_of st q)"
  shows "key_at h st p = key_at h st q"
proof -
  have e: "contents h (name_of st k) \<noteq> None \<and> bytes_at h (namefd st) (filelist st ! k) = contents h (name_of st k) \<and>
    unat (fd_length (filelist st ! k)) = length (the (contents h (name_of st k)))" if k: "k < length (filelist st)" for k
  proof -
    have "entry_of h names (namefd st) (filelist st ! k)" using assms(1) k by (simp add: listed_def)
    then obtain n sb where n: "n \<in> set names" "lstat h n = Some sb" "chop (getline (namefd st) (nameloc (filelist st ! k))) = Ret n"
      "fd_length (filelist st ! k) = st_size sb" by (rule entry_ofD)
    obtain bytes where b: "contents h n = Some bytes" using stable_filesD(1)[OF assms(4) n(1,2)] by blast
    have "length bytes = unat (st_size sb)" using assms(3) n(1,2) b unfolding sized_files_def by blast
    then show ?thesis using n b k by (simp add: name_of_def getfn_def bytes_at_def)
  qed
  let ?d = "filelist st ! p" and ?e = "filelist st ! q"
  have b: "bytes_at h (namefd st) ?d = bytes_at h (namefd st) ?e" using e[OF assms(5)] e[OF assms(6)] assms(7) by simp
  have l: "fd_length ?d = fd_length ?e" using e[OF assms(5)] e[OF assms(6)] assms(7) by (simp add: word_unat_eq_iff)
  have "crc32 ?d = crc32 ?e" by (rule sums_agreeD[OF assms(2) _ _ l b]) (use assms(5,6) in simp_all)
  then show ?thesis using b l by (simp add: file_key_def)
qed

definition all_grouped :: "host \<Rightarrow> (string \<Rightarrow> bool) \<Rightarrow> dup_group list \<Rightarrow> bool" where
  "all_grouped h has gs \<longleftrightarrow> (\<forall>n m. has n \<longrightarrow> has m \<longrightarrow> n \<noteq> m \<longrightarrow> contents h n = contents h m \<longrightarrow> grouped gs n m)"

lemma grouped_sym: "grouped gs a b \<longleftrightarrow> grouped gs b a"
  by (auto simp: grouped_def)

lemma gathered_grouped:
  assumes "gathered h st (length (filelist st))" "listed h names (namefd st) (filelist st)" "sums_agree h (namefd st) (filelist st)"
    "sized_files h names" "stable_files h names"
    and gs: "\<forall>p q. p < q \<longrightarrow> q < length (filelist st) \<longrightarrow> span (dup_at st) (Suc p) q \<longrightarrow> grouped gs (name_of st p) (name_of st q)"
  shows "all_grouped h (has_entry (namefd st) (filelist st)) gs"
  unfolding all_grouped_def
proof (intro allI impI)
  let ?n = "length (filelist st)"
  have less: "grouped gs (name_of st p) (name_of st q)"
    if p: "p < q" "q < ?n" and eq: "contents h (name_of st p) = contents h (name_of st q)" for p q
  proof -
    have "key_at h st p = key_at h st q" by (rule copies_same_key[OF assms(2-5) _ p(2) eq]) (use p in simp)
    then have "span (dup_at st) (Suc p) q"
      using dup_doneD(2)[of ?n ?n "dup_at st" "key_at h st" p q] assms(1) p by (simp add: gathered_def span_def)
    then show ?thesis using gs p by blast
  qed
  fix n m assume o: "has_entry (namefd st) (filelist st) n" "has_entry (namefd st) (filelist st) m" "n \<noteq> m" "contents h n = contents h m"
  obtain p where p: "p < ?n" "name_of st p = n" by (rule has_entry_index[OF o(1)])
  obtain q where q: "q < ?n" "name_of st q = m" by (rule has_entry_index[OF o(2)])
  have "p \<noteq> q" using p q o(3) by auto
  then show "grouped gs n m" using less[of p q] less[of q p] p q o(4) grouped_sym by (cases "p < q") auto
qed

text \<open>Other names of one inode, as the summary of hard links lists them.\<close>

definition hard_links :: "host \<Rightarrow> string set \<Rightarrow> (string \<times> string list) list \<Rightarrow> bool" where
  "hard_links h names gs \<longleftrightarrow> (\<forall>(f, ds)\<in>set gs. ds \<noteq> [] \<and> (\<forall>d\<in>set (f # ds). d \<in> names \<and>
     (\<exists>a b. lstat h f = Some a \<and> lstat h d = Some b \<and> st_dev a = st_dev b \<and> st_ino a = st_ino b)))"

lemma link_groups_listed:
  assumes "listed h names (namefd st) (filelist st)" "\<forall>g\<in>set gs. link_group st g"
  shows "hard_links h (set names) gs"
proof -
  have at: "n \<in> set names \<and> (\<exists>sb. lstat h n = Some sb \<and> device (filelist st ! i) = st_dev sb \<and> inode (filelist st ! i) = st_ino sb)"
    if i: "i < length (filelist st)" "getfn st i = Ret n" for i n
  proof -
    have "entry_of h names (namefd st) (filelist st ! i)" using assms(1) i(1) by (simp add: listed_def)
    then obtain m sb where m: "m \<in> set names" "lstat h m = Some sb" "chop (getline (namefd st) (nameloc (filelist st ! i))) = Ret m"
      "device (filelist st ! i) = st_dev sb" "inode (filelist st ! i) = st_ino sb" by (rule entry_ofD)
    then have "m = n" using i by (simp add: getfn_def)
    with m show ?thesis by blast
  qed
  have "ds \<noteq> [] \<and> (\<forall>d\<in>set (f # ds). d \<in> set names \<and>
     (\<exists>a b. lstat h f = Some a \<and> lstat h d = Some b \<and> st_dev a = st_dev b \<and> st_ino a = st_ino b))" if g: "(f, ds) \<in> set gs" for f ds
  proof -
    obtain i where i: "i < length (filelist st)" "getfn st i = Ret f" "\<forall>d\<in>set ds. link_of st i d" "ds \<noteq> []"
      using assms(2) g by (auto simp: link_group_def)
    obtain a where a: "f \<in> set names" "lstat h f = Some a" "device (filelist st ! i) = st_dev a" "inode (filelist st ! i) = st_ino a"
      using at[OF i(1,2)] by blast
    have "d \<in> set names \<and> (\<exists>b. lstat h d = Some b \<and> st_dev a = st_dev b \<and> st_ino a = st_ino b)" if d: "d \<in> set ds" for d
    proof -
      obtain m where m: "m < length (filelist st)" "getfn st m = Ret d" "device (filelist st ! m) = device (filelist st ! i)"
        "inode (filelist st ! m) = inode (filelist st ! i)" using i(3) d by (auto simp: link_of_def)
      show ?thesis using at[OF m(1,2)] m(3,4) a(3,4) by auto
    qed
    then show ?thesis using a i(4) by auto
  qed
  then show ?thesis by (auto simp: hard_links_def)
qed

text \<open>The part of the run that follows the building of the table.\<close>

lemma scans_report:
  assumes "qsort_ok h" "stable_files h names" "listed h names (namefd st) (filelist st)"
    and "\<forall>d\<in>set (filelist st). flags d = 0 \<and> crc32 d = 0"
  shows "\<exists>ls gs st'. andThen (scan1 h (eput a (SORT h (eput b st)))) (\<lambda>st. andThen (scan2 h (eput c st)) (\<lambda>st.
      scan3 (eput d st))) = Ret st' \<and> stdout st' = stdout st @ link_summary True ls @ report_text (linkflag st) gs \<and>
    equal_groups h (set names) gs \<and> hard_links h (set names) ls \<and> (linkflag st \<or> ls = []) \<and>
    (linkflag st \<and> sized_files h names \<longrightarrow> all_grouped h (has_entry (namefd st) (filelist st)) gs)"
proof -
  let ?s0 = "eput a (SORT h (eput b st))" and ?nf = "namefd st"
  have s0: "filelist ?s0 = qsort h (filelist st)" "namefd ?s0 = ?nf" "linkflag ?s0 = linkflag st" "stdout ?s0 = stdout st"
    by (simp_all add: eput_def SORT_def)
  have sorted: "sorted_wrt (\<lambda>a b. fd_length a \<le> fd_length b) (filelist ?s0)" and "mset (filelist ?s0) = mset (filelist st)"
    using sort_lengths[OF assms(1-3)] assms(4) unfolding s0 by simp_all
  then have mem: "set (filelist ?s0) = set (filelist st)" by (metis set_mset_mset)
  have "listed h names (namefd ?s0) (filelist ?s0)" "\<forall>d\<in>set (filelist ?s0). flags d = 0 \<and> crc32 d = 0"
    using assms(3,4) unfolding mem s0(2) by (simp_all add: listed_def mem)
  from scan1_spec[OF assms(1,2) this sorted] obtain s1 where s1: "scan1 h ?s0 = Ret s1" "listed h names ?nf (filelist s1)"
    "namefd s1 = ?nf" "linkflag s1 = linkflag st" "stdout s1 = stdout st" "all_readable h s1" "links_agree h s1" "unmarked s1"
    "nameloc ` set (filelist s1) = nameloc ` set (filelist st)" "sums_agree h ?nf (filelist s1)"
    "sized_files h names \<longrightarrow> runs_together (length (filelist s1)) (size_at s1)"
    unfolding s0(2-4) mem by blast
  let ?e1 = "eput c s1"
  have e1: "all_readable h ?e1" "links_agree h ?e1" "unmarked ?e1" "filelist ?e1 = filelist s1"
    using s1(6-8) by (simp_all add: all_readable_def links_agree_def unmarked_def eput_def)
  obtain s2 where s2: "scan2 h ?e1 = Ret s2" "mset (map unflag (filelist s2)) = mset (map unflag (filelist ?e1))" "namefd s2 = namefd ?e1"
    "all_readable h s2" "\<forall>k<length (filelist s2). GetFlag (filelist s2) k FL_DUP \<longrightarrow>
       0 < k \<and> same_file h (namefd ?e1) (filelist s2 ! (k - 1)) (filelist s2 ! k)"
    "runs_together (length (filelist ?e1)) (size_at ?e1) \<longrightarrow> gathered h s2 (length (filelist s2))" using scan2_result[OF e1(1-3)] by blast
  obtain ls where links: "stdout s2 = stdout ?e1 @ link_summary True ls" "linkflag ?e1 \<or> ls = []" "linkflag s2 = linkflag ?e1"
    "\<forall>g\<in>set ls. link_group ?e1 g" using scan2_output[OF s2(1)] by blast
  have "listed h names (namefd ?e1) (filelist ?e1)" using s1(2,3) by (simp add: eput_def)
  note hl = link_groups_listed[OF this links(4)]
  let ?e2 = "eput d s2"
  have nf: "namefd s2 = ?nf" using s2(3) s1(3) by (simp add: eput_def)
  have e2: "filelist ?e2 = filelist s2" "namefd ?e2 = ?nf" "linkflag ?e2 = linkflag st"
    using nf links(3) s1(4) by (simp_all add: eput_def)
  note um = s2(2)[unfolded e1(4)]
  have ls: "listed h names ?nf (filelist s2)" by (rule listed_unflag[OF um s1(2)])
  then have "\<forall>k<length (filelist ?e2). name_of ?e2 k \<in> set names"
    using listed_names[of h names ?e2] unfolding e2 by blast
  moreover have "all_readable h ?e2" "dups_follow h ?e2"
    using s2(3-5) by (simp_all add: all_readable_def dups_follow_def eput_def)
  ultimately obtain gs st' where st': "scan3 ?e2 = Ret st'" "stdout st' = stdout ?e2 @ report_text (linkflag ?e2) gs" "equal_groups h (set names) gs"
    "linkflag ?e2 \<longrightarrow> (\<forall>p q. p < q \<longrightarrow> q < length (filelist ?e2) \<longrightarrow> span (dup_at ?e2) (Suc p) q \<longrightarrow> grouped gs (name_of ?e2 p) (name_of ?e2 q))"
    using scan3_report[of h ?e2 "set names"] by blast
  have "all_grouped h (has_entry ?nf (filelist st)) gs" if lf: "linkflag st" and sz: "sized_files h names"
  proof -
    have "gathered h s2 (length (filelist s2))" using s2(6) s1(11) sz unfolding e1(4) by blast
    then have "gathered h ?e2 (length (filelist ?e2))" by (simp add: gathered_def e2 nf)
    moreover have "sums_agree h (namefd ?e2) (filelist ?e2)" unfolding e2 by (rule sums_agree_unflag[OF um s1(10)])
    ultimately have "all_grouped h (has_entry (namefd ?e2) (filelist ?e2)) gs"
      using gathered_grouped[of h ?e2 names gs] ls sz assms(2) st'(4) lf by (simp add: e2)
    moreover have "nameloc ` set (filelist s2) = nameloc ` set (filelist st)" using names_unflag[OF um] s1(9) by simp
    ultimately show ?thesis unfolding e2 has_entry_def by simp
  qed
  then show ?thesis using s1 s2(1) st' links hl
    by (intro exI[of _ ls] exI[of _ gs] exI[of _ st']) (simp add: eput_def)
qed

text \<open>A run on a file of names.\<close>

lemma finddup_run:
  assumes "options chs True = Some lf" "open_names h list = Some (list_file names)" "list_all good_name names"
    and "\<forall>k. grants h k" "qsort_ok h" "stable_files h names"
  shows "\<exists>ls gs err. finddup_main h chs [list] =
      Ret (0, zero_report True (filter (empty_file h) names) @ link_summary True ls @ report_text lf gs, err) \<and>
    equal_groups h (set names) gs \<and> hard_links h (set names) ls \<and> (lf \<or> ls = []) \<and>
    (lf \<and> sized_files h names \<longrightarrow> all_grouped h (\<lambda>n. n \<in> set names \<and> full_file h n) gs)"
proof -
  define st where "st = \<lparr>filelist = [], max_files = 50, linkflag = lf, namefd = list_file names, stdout = [], stderr = ''build list...''\<rparr>"
  obtain s where s: "build_list h (length (list_file names)) 0 (True, True) st = Ret s" "filelist s = entries h 0 names"
    "namefd s = list_file names" "linkflag s = lf" "stdout s = zero_report True (filter (empty_file h) names)"
    using build_list_run[OF assms(4,3), of st "[]" _ True True] by (auto simp: st_def)
  have of_names: "entry_of h names (list_file names) d \<and> flags d = 0 \<and> crc32 d = 0" if "d \<in> set (filelist s)" for d
    using entries_of[OF assms(3), of d h "[]"] that s(2) by simp
  have has: "has_entry (namefd s) (filelist s) n" if "n \<in> set names" "full_file h n" for n
    using entries_complete[OF assms(3) that, of "[]"] s(2,3) by simp
  obtain ls gs st' where r: "andThen (scan1 h (eput ''scan1...'' (SORT h (eput ''sort...'' s)))) (\<lambda>st. andThen (scan2 h (eput ''scan2...'' st)) (\<lambda>st.
      scan3 (eput (''done'' @ NL) st))) = Ret st'" "stdout st' = stdout s @ link_summary True ls @ report_text (linkflag s) gs"
    "equal_groups h (set names) gs" "hard_links h (set names) ls" "linkflag s \<or> ls = []"
    "linkflag s \<and> sized_files h names \<longrightarrow> all_grouped h (has_entry (namefd s) (filelist s)) gs"
    using scans_report[OF assms(5,6), of s "''scan1...''" "''sort...''" "''scan2...''" "''done'' @ NL"] of_names s(3)
    by (auto simp: listed_def)
  from r(1) obtain s1 s2 where p: "scan1 h (eput ''scan1...'' (SORT h (eput ''sort...'' s))) = Ret s1"
    "scan2 h (eput ''scan2...'' s1) = Ret s2" "scan3 (eput (''done'' @ NL) s2) = Ret st'" by (auto simp: andThen_Ret_iff)
  have "finddup_main h chs [list] = Ret (0, stdout st', stderr st')"
    using assms(1,2,4) s(1) p by (simp add: finddup_main_def Let_def st_def)
  moreover have "stdout st' = zero_report True (filter (empty_file h) names) @ link_summary True ls @ report_text lf gs"
    using r(2) s(4,5) by simp
  moreover have "lf \<and> sized_files h names \<longrightarrow> all_grouped h (\<lambda>n. n \<in> set names \<and> full_file h n) gs"
    using r(6) has s(4) by (simp add: all_grouped_def)
  ultimately show ?thesis using r(3-5) s(4) by (intro exI[of _ ls] exI[of _ gs] exI[of _ "stderr st'"]) simp
qed

text \<open>
  C9: On a file of names whose files are stable, a run of finddup returns 0 and prints exactly
  three parts: the list of the empty files; the summary of hard links, empty with -l, whose
  groups are listed names of one device and inode; and the report of duplicates, whose groups
  are listed files with the contents of the file the group is headed by.
\<close>

theorem finddup_reports_duplicates:
  assumes "options chs True = Some lf" "open_names h list = Some (list_file names)" "list_all good_name names"
    and "\<forall>k. grants h k" "qsort_ok h" "stable_files h names"
  shows "\<exists>ls gs err. finddup_main h chs [list] =
      Ret (0, zero_report True (filter (empty_file h) names) @ link_summary True ls @ report_text lf gs, err) \<and>
    equal_groups h (set names) gs \<and> hard_links h (set names) ls \<and> (lf \<or> ls = [])"
  using finddup_run[OF assms] by blast


end
