(* ===== verification/Dup_Getopt.thy ===== *)
theory Dup_Getopt imports Prelude begin

text \<open>
  The option parser of hw2 (\<open>getopt.c\<close>, \<open>att_getopt\<close>): one option per call, with the position kept in
  static variables between calls. Strings are read through their terminating zero and no further.
\<close>

section \<open>Operations\<close>

definition c_char :: "string \<Rightarrow> nat \<Rightarrow> char outcome" where
  "c_char s k = (if k < length s then Ret (s ! k) else if k = length s then Ret (CHR 0x00) else Stuck Out_of_bounds)"

definition c_arg :: "string list \<Rightarrow> nat \<Rightarrow> string outcome" where
  "c_arg argv k = (if k < length argv then Ret (argv ! k) else Stuck Out_of_bounds)"

definition strchr :: "string \<Rightarrow> char \<Rightarrow> nat option" where
  "strchr s c = (if c \<in> set s then Some (length (takeWhile (\<lambda>d. d \<noteq> c) s))
     else if c = CHR 0x00 then Some (length s) else None)"

record gopt =
  opterr :: bool
  optind :: nat
  optopt :: char
  optarg :: "string option"
  sp :: nat
  errors :: "string list"

definition QUESTION :: int where "QUESTION = 63"

definition EOF :: int where "EOF = -1"

text \<open>The macro \<open>ERR\<close>.\<close>

definition ERR :: "string list \<Rightarrow> string \<Rightarrow> char \<Rightarrow> gopt \<Rightarrow> gopt" where
  "ERR argv s c st = (if opterr st then st\<lparr>errors := errors st @ [hd argv @ s @ [c, CHR 0x0A]]\<rparr> else st)"

text \<open>The end of the current argument: the next one starts at its first option letter.\<close>

definition next_letter :: "string \<Rightarrow> gopt \<Rightarrow> gopt outcome" where
  "next_letter arg st = (let st = st\<lparr>sp := sp st + 1\<rparr> in
     andThen (c_char arg (sp st)) (\<lambda>d.
       Ret (if d = CHR 0x00 then st\<lparr>optind := optind st + 1, sp := 1\<rparr> else st)))"

definition take_option :: "string list \<Rightarrow> string \<Rightarrow> gopt \<Rightarrow> (int \<times> gopt) outcome" where
  "take_option argv opts st =
     andThen (c_arg argv (optind st)) (\<lambda>arg. andThen (c_char arg (sp st)) (\<lambda>c.
       let st = st\<lparr>optopt := c\<rparr> in
       case (if c = CHR '':'' then None else strchr opts c) of
         None \<Rightarrow> andThen (next_letter arg (ERR argv '': illegal option -- '' c st)) (\<lambda>st. Ret (QUESTION, st))
       | Some cp \<Rightarrow> andThen (c_char opts (cp + 1)) (\<lambda>d.
           if d = CHR '':''
           then andThen (c_char arg (sp st + 1)) (\<lambda>e.
             if e \<noteq> CHR 0x00
             then Ret (of_char c, st\<lparr>optarg := Some (drop (sp st + 1) arg), optind := optind st + 1, sp := 1\<rparr>)
             else (let st = st\<lparr>optind := optind st + 1\<rparr> in
               if optind st \<ge> length argv
               then Ret (QUESTION, (ERR argv '': option requires an argument -- '' c st)\<lparr>sp := 1\<rparr>)
               else andThen (c_arg argv (optind st)) (\<lambda>a.
                 Ret (of_char c, st\<lparr>optarg := Some a, optind := optind st + 1, sp := 1\<rparr>))))
           else andThen (next_letter arg st) (\<lambda>st. Ret (of_char c, st\<lparr>optarg := None\<rparr>)))))"

definition att_getopt :: "string list \<Rightarrow> string \<Rightarrow> gopt \<Rightarrow> (int \<times> gopt) outcome" where
  "att_getopt argv opts st =
     (if sp st = 1
      then
        (if optind st \<ge> length argv then Ret (EOF, st)
         else andThen (c_arg argv (optind st)) (\<lambda>arg. andThen (c_char arg 0) (\<lambda>a.
           if a \<noteq> CHR ''-'' then Ret (EOF, st)
           else andThen (c_char arg 1) (\<lambda>b.
             if b = CHR 0x00 then Ret (EOF, st)
             else if arg = ''--'' then Ret (EOF, st\<lparr>optind := optind st + 1\<rparr>)
             else take_option argv opts st))))
      else take_option argv opts st)"

section \<open>Progress\<close>

text \<open>Between calls: inside an argument, or before one. C strings hold no zero.\<close>

definition gopt_ok :: "string list \<Rightarrow> gopt \<Rightarrow> bool" where
  "gopt_ok argv st \<longleftrightarrow> 1 \<le> sp st \<and> (1 < sp st \<longrightarrow> optind st < length argv \<and> sp st < length (argv ! optind st)) \<and>
     (\<forall>a\<in>set argv. CHR 0x00 \<notin> set a)"

definition letters_left :: "string list \<Rightarrow> gopt \<Rightarrow> nat" where
  "letters_left argv st = sum_list (map (\<lambda>a. length a + 1) (drop (optind st) argv)) - (sp st - 1)"

lemma letters_next_arg:
  "k < length argv \<Longrightarrow> sum_list (map (\<lambda>a. length a + 1) (drop (Suc k) argv)) + length (argv ! k) + 1 =
     sum_list (map (\<lambda>a. length a + 1) (drop k argv))"
  by (subst Cons_nth_drop_Suc[symmetric]) simp_all

lemma next_letter_ok:
  assumes "k < length argv" "optind st = k" "1 \<le> sp st" "sp st < length (argv ! k)" "\<forall>a\<in>set argv. CHR 0x00 \<notin> set a"
  shows "\<exists>st'. next_letter (argv ! k) st = Ret st' \<and> gopt_ok argv st' \<and> letters_left argv st' < letters_left argv st"
proof (cases "sp st + 1 < length (argv ! k)")
  case True
  have "argv ! k ! (sp st + 1) \<in> set (argv ! k)" "argv ! k \<in> set argv" using True assms(1) by simp_all
  then have "argv ! k ! (sp st + 1) \<noteq> CHR 0x00" using assms(5) by metis
  then show ?thesis using True assms letters_next_arg[OF assms(1)]
    by (auto simp: next_letter_def c_char_def gopt_ok_def letters_left_def Let_def)
next
  case False
  then have "sp st + 1 = length (argv ! k)" using assms(4) by simp
  then show ?thesis using assms letters_next_arg[OF assms(1)]
    by (auto simp: next_letter_def c_char_def gopt_ok_def letters_left_def Let_def)
qed

lemma ERR_frame [simp]: "optind (ERR argv s c st) = optind st" "sp (ERR argv s c st) = sp st"
  by (simp_all add: ERR_def)

lemma frame_ok: "optind st' = optind st \<Longrightarrow> sp st' = sp st \<Longrightarrow>
   gopt_ok argv st' = gopt_ok argv st \<and> letters_left argv st' = letters_left argv st"
  by (simp add: gopt_ok_def letters_left_def)

lemma c_char_total: "k \<le> length s \<Longrightarrow> \<exists>d. c_char s k = Ret d"
  by (cases "k < length s") (simp_all add: c_char_def)

lemma strchr_next: "strchr opts c = Some cp \<Longrightarrow> c \<noteq> CHR 0x00 \<Longrightarrow> cp + 1 \<le> length opts"
proof -
  assume "strchr opts c = Some cp" "c \<noteq> CHR 0x00"
  then have "c \<in> set opts" "cp = length (takeWhile (\<lambda>d. d \<noteq> c) opts)" by (auto simp: strchr_def split: if_splits)
  moreover from this have "length (takeWhile (\<lambda>d. d \<noteq> c) opts) < length opts"
    by (metis (mono_tags, lifting) length_takeWhile_le nat_less_le takeWhile_eq_all_conv takeWhile_eq_take take_all_iff order_refl)
  ultimately show ?thesis by simp
qed

lemma take_option_progress:
  assumes ok: "gopt_ok argv st" and k: "optind st < length argv" "sp st < length (argv ! optind st)"
  shows "\<exists>r st'. take_option argv opts st = Ret (r, st') \<and> gopt_ok argv st' \<and> letters_left argv st' < letters_left argv st"
proof -
  let ?arg = "argv ! optind st"
  define c where "c = ?arg ! sp st"
  have z: "\<forall>a\<in>set argv. CHR 0x00 \<notin> set a" and sp1: "1 \<le> sp st" using ok by (auto simp: gopt_ok_def)
  have c: "c \<noteq> CHR 0x00" using z k unfolding c_def by (metis nth_mem)
  have nl: "\<exists>st'. next_letter ?arg s = Ret st' \<and> gopt_ok argv st' \<and> letters_left argv st' < letters_left argv st"
    if "optind s = optind st" "sp s = sp st" for s
    using next_letter_ok[OF k(1) that(1) _ _ z] that(2) sp1 k(2) frame_ok[OF that] by simp
  have next_arg: "gopt_ok argv s \<and> letters_left argv s < letters_left argv st"
    if "sp s = 1" "optind s = optind st + 1 \<or> optind s = optind st + 2 \<and> optind st + 1 < length argv" for s
    using that letters_next_arg[OF k(1)] letters_next_arg[of "optind st + 1" argv] z k(2)
    by (auto simp: gopt_ok_def letters_left_def)
  have start: "c_arg argv (optind st) = Ret ?arg" "c_char ?arg (sp st) = Ret c"
    using k by (simp_all add: c_arg_def c_char_def c_def)
  show ?thesis
  proof (cases "if c = CHR '':'' then None else strchr opts c")
    case None
    obtain st' where "next_letter ?arg (ERR argv '': illegal option -- '' c (st\<lparr>optopt := c\<rparr>)) = Ret st'"
        "gopt_ok argv st'" "letters_left argv st' < letters_left argv st"
      using nl[of "ERR argv '': illegal option -- '' c (st\<lparr>optopt := c\<rparr>)"] by auto
    then show ?thesis using None by (simp add: take_option_def start)
  next
    case (Some cp)
    then have "cp + 1 \<le> length opts" using strchr_next c by (auto split: if_splits)
    then obtain d where d: "c_char opts (cp + 1) = Ret d" using c_char_total by blast
    obtain e where e: "c_char ?arg (sp st + 1) = Ret e" using k(2) c_char_total[of "sp st + 1" ?arg] by auto
    obtain st' where st': "next_letter ?arg (st\<lparr>optopt := c\<rparr>) = Ret st'" "gopt_ok argv st'" "letters_left argv st' < letters_left argv st"
      using nl[of "st\<lparr>optopt := c\<rparr>"] by auto
    have "gopt_ok argv (st'\<lparr>optarg := None\<rparr>)" "letters_left argv (st'\<lparr>optarg := None\<rparr>) < letters_left argv st"
      using st' frame_ok[of "st'\<lparr>optarg := None\<rparr>" st' argv] by simp_all
    note unfold = take_option_def start Let_def Some
    show ?thesis
    proof (cases "d = CHR '':''")
      case False
      then show ?thesis using d st'(1) \<open>gopt_ok argv (st'\<lparr>optarg := None\<rparr>)\<close>
          \<open>letters_left argv (st'\<lparr>optarg := None\<rparr>) < letters_left argv st\<close> by (simp add: unfold)
    next
      case arg: True
      show ?thesis
      proof (cases "e \<noteq> CHR 0x00")
        case True
        then show ?thesis using d e arg next_arg by (simp add: unfold)
      next
        case e0: False
        show ?thesis
        proof (cases "optind st + 1 \<ge> length argv")
          case True
          then show ?thesis using d e e0 arg next_arg by (simp add: unfold)
        next
          case False
          then show ?thesis using d e e0 arg next_arg by (simp add: unfold c_arg_def)
        qed
      qed
    qed
  qed
qed

text \<open>
  Every call returns, reads no argument past its end, and unless it reports the end of the options it
  has consumed part of the arguments: the usual loop over the options ends.
\<close>

theorem att_getopt_progress:
  assumes "gopt_ok argv st"
  shows "\<exists>r st'. att_getopt argv opts st = Ret (r, st') \<and> gopt_ok argv st' \<and>
    (r = EOF \<or> letters_left argv st' < letters_left argv st)"
proof (cases "sp st = 1")
  case False
  then have "optind st < length argv" "sp st < length (argv ! optind st)" using assms by (auto simp: gopt_ok_def)
  from take_option_progress[OF assms this, of opts] False show ?thesis by (simp add: att_getopt_def) blast
next
  case sp: True
  have "CHR 0x00 \<notin> set a" if "a \<in> set argv" for a using assms that by (simp add: gopt_ok_def)
  then have z: "k < length argv \<Longrightarrow> i < length (argv ! k) \<Longrightarrow> argv ! k ! i \<noteq> CHR 0x00" for k i
    by (metis nth_mem)
  have "(\<exists>st'. att_getopt argv opts st = Ret (EOF, st') \<and> gopt_ok argv st') \<or>
    optind st < length argv \<and> 1 < length (argv ! optind st) \<and> att_getopt argv opts st = take_option argv opts st"
  proof (cases "optind st < length argv \<and> 1 < length (argv ! optind st)")
    case True
    then have k: "optind st < length argv" "1 < length (argv ! optind st)" by simp_all
    have c: "c_arg argv (optind st) = Ret (argv ! optind st)" "c_char (argv ! optind st) 0 = Ret (argv ! optind st ! 0)"
      "c_char (argv ! optind st) (Suc 0) = Ret (argv ! optind st ! 1)" "argv ! optind st ! 1 \<noteq> CHR 0x00"
      using k z[OF k] by (auto simp: c_arg_def c_char_def)
    have "gopt_ok argv (st\<lparr>optind := optind st + 1\<rparr>)" using assms sp by (simp add: gopt_ok_def)
    then show ?thesis using k c sp assms
      by (cases "argv ! optind st ! 0 = CHR ''-''"; cases "argv ! optind st = ''--''") (simp_all add: att_getopt_def)
  next
    case False
    then have "att_getopt argv opts st = Ret (EOF, st)" using sp
      by (cases "optind st < length argv"; cases "length (argv ! optind st)") (simp_all add: att_getopt_def c_arg_def c_char_def)
    then show ?thesis using assms by simp
  qed
  then show ?thesis
  proof
    assume "optind st < length argv \<and> 1 < length (argv ! optind st) \<and> att_getopt argv opts st = take_option argv opts st"
    with take_option_progress[OF assms, of opts] sp show ?thesis by simp blast
  qed blast
qed

end
