(* ===== verification/Dup_Examples.thy ===== *)
theory Dup_Examples imports Dup_Main Dup_Getopt "HOL-Library.Product_Lexorder" begin

text \<open>
  A file of three names (two copies and a file of the same size and different contents) and a command
  line, on which the theorems of the hw2 theories are instantiated.
\<close>

section \<open>Three files\<close>

definition demo_names :: string where
  "demo_names = ''a'' @ NL @ ''b'' @ NL @ ''c'' @ NL"

definition demo_host :: host where
  "demo_host = \<lparr>open_names = (\<lambda>f. Some demo_names),
     lstat = (\<lambda>f. Some \<lparr>st_size = 2, st_dev = 1, st_ino = of_nat (length f), st_regular = True\<rparr>),
     contents = (\<lambda>f. if f = ''c'' then Some [1, 3] else Some [1, 2]),
     fresh = (\<lambda>n. 0), grants = (\<lambda>n. True), qsort = (\<lambda>l. l), errno_text = (\<lambda>f. ''no such file'')\<rparr>"

definition demo_entry :: "nat \<Rightarrow> u64 \<Rightarrow> filedesc" where
  "demo_entry loc ino = \<lparr>fd_length = 2, crc32 = 7, device = 1, inode = ino, nameloc = loc, flags = 1\<rparr>"

definition demo_finder :: finder where
  "demo_finder = \<lparr>filelist = [demo_entry 0 10, demo_entry 4 12, demo_entry 2 11], max_files = 50, linkflag = True,
     namefd = demo_names, stdout = [], stderr = []\<rparr>"

lemma demo_entry_fields [simp]:
  "fd_length (demo_entry l i) = 2" "crc32 (demo_entry l i) = 7" "device (demo_entry l i) = 1"
  "inode (demo_entry l i) = i" "nameloc (demo_entry l i) = l" "flags (demo_entry l i) = 1"
  by (simp_all add: demo_entry_def)

lemma demo_list: "filelist demo_finder = [demo_entry 0 10, demo_entry 4 12, demo_entry 2 11]" "namefd demo_finder = demo_names"
  by (simp_all add: demo_finder_def)

lemma demo_lines:
  "chop (getline demo_names 0) = Ret ''a''" "chop (getline demo_names 2) = Ret ''b''" "chop (getline demo_names 4) = Ret ''c''"
  by (simp_all add: demo_names_def getline_def line_of_def chop_def NL_def Let_def)

lemma three: "k < (3::nat) \<longleftrightarrow> k = 0 \<or> k = 1 \<or> k = 2"
  by auto

lemma demo_readable: "all_readable demo_host demo_finder"
  unfolding all_readable_def demo_list
  by (auto simp: readable_def demo_lines MAXFN_def less_Suc_eq) (simp_all add: demo_host_def)

lemma demo_agree: "links_agree demo_host demo_finder"
  unfolding links_agree_def demo_list by (auto simp: same_inode_def same_file_def less_Suc_eq)

lemma demo_unmarked: "unmarked demo_finder"
  unfolding unmarked_def demo_list by (auto simp: GetFlag_def FL_DUP_def FL_LNK_def less_Suc_eq)

theorem scan2_groups_equal_witness:
  "\<exists>st'. scan2 demo_host demo_finder = Ret st' \<and> mset (map unflag (filelist st')) = mset (map unflag (filelist demo_finder))"
  using scan2_groups_equal[OF demo_readable demo_agree demo_unmarked] by blast

lemma demo_open: "open_file demo_host demo_finder 0 = Ret [1, 2]" "open_file demo_host demo_finder 1 = Ret [1, 3]"
  by (simp_all add: open_file_def getfn_def demo_list demo_lines MAXFN_def) (simp_all add: demo_host_def)

theorem fullcmp_exact_witness: "fullcmp demo_host demo_finder 0 1 = Ret 1"
  using fullcmp_exact[OF demo_open] by simp

theorem comp1_order_witness: "comp1 (demo_entry 0 10) (demo_entry 4 12) < 0"
proof -
  have "near (fd_length (demo_entry 0 10)) (fd_length (demo_entry 4 12))" "near (crc32 (demo_entry 0 10)) (crc32 (demo_entry 4 12))"
    "near (device (demo_entry 0 10)) (device (demo_entry 4 12))" "near (inode (demo_entry 0 10)) (inode (demo_entry 4 12))"
    by (simp_all add: near_def)
  from comp1_order[OF this] have "comp1 (demo_entry 0 10) (demo_entry 4 12) < 0 \<longleftrightarrow> sorts_before (demo_entry 0 10) (demo_entry 4 12)" by blast
  moreover have "sorts_before (demo_entry 0 10) (demo_entry 4 12)" by (simp add: sorts_before_def)
  ultimately show ?thesis by blast
qed

theorem crc_detects_one_octet_witness: "rc_crc32 0 [1, 2, 3] \<noteq> rc_crc32 0 [1, 5, 3]"
  using crc_detects_one_octet[of 2 5 0 "[1]" "[3]"] by simp

section \<open>A run\<close>

text \<open>A sorting routine that meets the assumption, and a host with a pair of copies and an empty file.\<close>

definition desc_key :: "filedesc \<Rightarrow> u64 \<times> u64 \<times> u64 \<times> u64" where
  "desc_key d = (fd_length d, crc32 d, device d, inode d)"

lemma as_int_le: "near x y \<Longrightarrow> as_int (x - y) \<le> 0 \<longleftrightarrow> x \<le> y"
  by (simp add: as_int_near word_le_def)

lemma desc_key_order:
  assumes "comparable a b" "desc_key a \<le> desc_key b"
  shows "comp1 a b \<le> 0"
proof -
  have n: "near (fd_length a) (fd_length b)" "near (crc32 a) (crc32 b)" "near (device a) (device b)" "near (inode a) (inode b)"
    using assms(1) by (simp_all add: comparable_def)
  have z: "x - y \<noteq> 0 \<longleftrightarrow> x \<noteq> y" for x y :: u64 by simp
  show ?thesis using assms(2)
    unfolding comp1_def z desc_key_def less_eq_prod_simp
    by (cases "fd_length a = fd_length b"; cases "crc32 a = crc32 b"; cases "device a = device b"; cases "inode a = inode b")
      (simp_all add: n[THEN as_int_le], (blast intro: order.strict_implies_order)+)
qed

definition copies_stat :: "string \<Rightarrow> filestat option" where
  "copies_stat f = Some \<lparr>st_size = (if f = ''cc'' then 0 else 2), st_dev = 1,
     st_ino = (if f = ''a'' then 1 else if f = ''b'' then 2 else 3), st_regular = True\<rparr>"

definition copies_host :: host where
  "copies_host = \<lparr>open_names = (\<lambda>f. Some (list_file [''a'', ''b'', ''cc''])), lstat = copies_stat,
     contents = (\<lambda>f. Some (if f = ''cc'' then [] else [0, 1])),
     fresh = (\<lambda>n. 0), grants = (\<lambda>n. True), qsort = sort_key desc_key, errno_text = (\<lambda>f. ''no such file'')\<rparr>"

lemma copies_qsort: "qsort_ok copies_host"
proof -
  have "sorted_wrt (\<lambda>a b. comp1 a b \<le> 0) (sort_key desc_key fl)" if "\<forall>a\<in>set fl. \<forall>b\<in>set fl. comparable a b" for fl
  proof (rule sorted_wrt_mono_rel)
    show "sorted_wrt (\<lambda>a b. desc_key a \<le> desc_key b) (sort_key desc_key fl)"
      using sorted_sort_key[of desc_key fl] by (simp add: sorted_wrt_map)
    show "comp1 a b \<le> 0" if "a \<in> set (sort_key desc_key fl)" "b \<in> set (sort_key desc_key fl)" "desc_key a \<le> desc_key b" for a b
      using desc_key_order that \<open>\<forall>a\<in>set fl. \<forall>b\<in>set fl. comparable a b\<close> by simp
  qed
  then show ?thesis by (simp add: qsort_ok_def copies_host_def)
qed

lemma copies_stable: "stable_files copies_host [''a'', ''b'', ''cc'']"
  by (simp add: stable_files_def copies_host_def copies_stat_def)

theorem finddup_reports_duplicates_witness:
  "\<exists>ls gs err. finddup_main copies_host [] [''list''] =
      Ret (0, ''Zero length files:'' @ NL @ NL @ ''cc'' @ NL @ link_summary True ls @ report_text True gs, err) \<and>
    equal_groups copies_host {''a'', ''b'', ''cc''} gs \<and> hard_links copies_host {''a'', ''b'', ''cc''} ls"
proof -
  have "list_all good_name [''a'', ''b'', ''cc'']" "\<forall>k. grants copies_host k"
    "open_names copies_host ''list'' = Some (list_file [''a'', ''b'', ''cc''])" "options [] True = Some True"
    by (simp_all add: good_name_def copies_host_def)
  note run = finddup_reports_duplicates[OF this(4,3,1,2) copies_qsort copies_stable]
  have "filter (empty_file copies_host) [''a'', ''b'', ''cc''] = [''cc'']"
    by (simp add: empty_file_def copies_host_def copies_stat_def)
  then show ?thesis using run by auto
qed




section \<open>A command line\<close>

definition demo_argv :: "string list" where
  "demo_argv = [''finddup'', ''-lh'', ''list'']"

definition demo_gopt :: gopt where
  "demo_gopt = \<lparr>opterr = False, optind = 1, optopt = CHR 0x00, optarg = None, sp = 1, errors = []\<rparr>"

theorem att_getopt_progress_witness:
  "\<exists>r st'. att_getopt demo_argv ''lh'' demo_gopt = Ret (r, st') \<and> (r = EOF \<or> letters_left demo_argv st' < letters_left demo_argv demo_gopt)"
proof -
  have "gopt_ok demo_argv demo_gopt" by (simp add: gopt_ok_def demo_argv_def demo_gopt_def)
  from att_getopt_progress[OF this, of "''lh''"] show ?thesis by blast
qed

end
