(* ===== verification/Legion_Parse.thy ===== *)
theory Legion_Parse imports Prelude begin

text \<open>
  The command words of hw4 (\<open>cli.c\<close>): \<open>get_word_from_args\<close>, which reads one word of the current line
  from standard input, and \<open>get_arg_vector_for_daemon\<close>, which reads the rest of the line.
\<close>

section \<open>Reading words\<close>

text \<open>
  \<open>getchar\<close> into a \<open>char\<close>: the end of the input is -1, and so is the byte 255.
\<close>

definition EOF_CHAR :: char where "EOF_CHAR = CHR 0xFF"
definition NEWLINE :: char where "NEWLINE = CHR 0x0A"
definition QUOTE :: char where "QUOTE = CHR 0x27"

definition getchar :: "string \<Rightarrow> char \<times> string" where
  "getchar s = (case s of [] \<Rightarrow> (EOF_CHAR, []) | c # s \<Rightarrow> (c, s))"

text \<open>A buffer as the string it holds: up to its first zero.\<close>

definition c_str :: "string \<Rightarrow> string" where
  "c_str s = takeWhile (\<lambda>c. c \<noteq> CHR 0x00) s"

text \<open>
  The loops of \<open>get_word_from_args\<close>, from the next character of the input on: the word, the value of
  the flag, and the input that is left. At the end of the input the program exits.
\<close>

fun plain_word :: "string \<Rightarrow> bool \<Rightarrow> string \<Rightarrow> (string \<times> bool \<times> string) outcome" where
  "plain_word buff lst [] = Stuck (Exit_called 0)"
| "plain_word buff lst (c # s) =
     (if c = CHR '' '' \<or> c = NEWLINE then Ret (c_str buff, lst \<or> c = NEWLINE, s)
      else if c = EOF_CHAR then Stuck (Exit_called 0)
      else plain_word (buff @ [c]) lst s)"

fun quoted_word :: "string \<Rightarrow> bool \<Rightarrow> string \<Rightarrow> (string \<times> bool \<times> string) outcome" where
  "quoted_word buff lst [] = Stuck (Exit_called 0)"
| "quoted_word buff lst (c # s) =
     (if c = NEWLINE then Ret (c_str buff, True, s)
      else if c = QUOTE then Ret (c_str buff, lst \<or> fst (getchar s) = NEWLINE, snd (getchar s))
      else if c = EOF_CHAR then Stuck (Exit_called 0)
      else quoted_word (buff @ [c]) lst s)"

definition get_word_from_args :: "bool \<Rightarrow> string \<Rightarrow> (string \<times> bool \<times> string) outcome" where
  "get_word_from_args lst s =
     (if fst (getchar s) = QUOTE then quoted_word [] lst (snd (getchar s)) else plain_word [] lst s)"

text \<open>
  The loops that read up to the end of the line. Every word takes a character, so as many rounds as the
  input has characters suffice.
\<close>

primrec skip_line :: "nat \<Rightarrow> string \<Rightarrow> string outcome" where
  "skip_line 0 s = Stuck Diverges"
| "skip_line (Suc fuel) s = andThen (get_word_from_args False s) (\<lambda>(w, lst, s). if lst then Ret s else skip_line fuel s)"

text \<open>
  The argument vector: its buffer has room for one pointer and grows by the length of each word, and
  the pointer of a word is written behind those of the words before it.
\<close>

primrec arg_vector_loop :: "nat \<Rightarrow> nat \<Rightarrow> string list \<Rightarrow> string \<Rightarrow> (string list \<times> string) outcome" where
  "arg_vector_loop 0 total_size ws s = Stuck Diverges"
| "arg_vector_loop (Suc fuel) total_size ws s = andThen (get_word_from_args False s) (\<lambda>(w, lst, s).
     let total_size = total_size + length w in
     if total_size < 8 * (length ws + 1) then Stuck Out_of_bounds
     else if lst then Ret (ws @ [w], s)
     else arg_vector_loop fuel total_size (ws @ [w]) s)"

definition get_arg_vector_for_daemon :: "string \<Rightarrow> (string list \<times> string) outcome" where
  "get_arg_vector_for_daemon s = arg_vector_loop (Suc (length s)) 8 [] s"

section \<open>What a line gives back\<close>

lemma getchar_Cons [simp]: "getchar (c # s) = (c, s)"
  by (simp add: getchar_def)

lemma c_str_id: "CHR 0x00 \<notin> set w \<Longrightarrow> c_str w = w"
  unfolding c_str_def by (rule takeWhile_eq_all_conv[THEN iffD2]) auto

text \<open>Words that stand in a line as they are, and words that need quotes.\<close>

definition inert :: "string \<Rightarrow> bool" where
  "inert w \<longleftrightarrow> set w \<inter> {NEWLINE, QUOTE, EOF_CHAR, CHR 0x00} = {}"

definition bare :: "string \<Rightarrow> bool" where
  "bare w \<longleftrightarrow> inert w \<and> CHR '' '' \<notin> set w"

definition written :: "string \<Rightarrow> string" where
  "written w = (if bare w then w else QUOTE # w @ [QUOTE])"

fun line :: "string list \<Rightarrow> string" where
  "line [] = [NEWLINE]"
| "line [w] = written w @ [NEWLINE]"
| "line (w # ws) = written w @ CHR '' '' # line ws"

lemma plain_word_read:
  assumes "bare w" "c = CHR '' '' \<or> c = NEWLINE"
  shows "plain_word b lst (w @ c # s) = Ret (c_str (b @ w), lst \<or> c = NEWLINE, s)"
  using assms(1)
proof (induction w arbitrary: b)
  case (Cons d w)
  then have "bare w" "d \<noteq> CHR '' ''" "d \<noteq> NEWLINE" "d \<noteq> EOF_CHAR" by (auto simp: bare_def inert_def)
  then show ?case using Cons.IH[of "b @ [d]"] by simp
qed (use assms(2) in auto)

lemma quoted_word_read:
  assumes "inert w"
  shows "quoted_word b lst (w @ QUOTE # c # s) = Ret (c_str (b @ w), lst \<or> c = NEWLINE, s)"
  using assms
proof (induction w arbitrary: b)
  case (Cons d w)
  then have "inert w" "d \<noteq> QUOTE" "d \<noteq> NEWLINE" "d \<noteq> EOF_CHAR" by (auto simp: inert_def)
  then show ?case using Cons.IH[of "b @ [d]"] by simp
qed (simp add: QUOTE_def NEWLINE_def)

lemma get_word_read:
  assumes "inert w" "c = CHR '' '' \<or> c = NEWLINE"
  shows "get_word_from_args lst (written w @ c # s) = Ret (w, lst \<or> c = NEWLINE, s)"
proof -
  have z: "c_str w = w" using assms(1) by (intro c_str_id) (auto simp: inert_def)
  show ?thesis
  proof (cases "bare w")
    case True
    then have "fst (getchar (w @ c # s)) \<noteq> QUOTE"
      using assms(2) by (cases w) (auto simp: bare_def inert_def QUOTE_def NEWLINE_def)
    then show ?thesis using True plain_word_read[OF True assms(2), of "[]" lst s] z
      by (simp add: get_word_from_args_def written_def)
  next
    case False
    then show ?thesis using quoted_word_read[OF assms(1), of "[]" lst c s] z
      by (simp add: get_word_from_args_def written_def)
  qed
qed

text \<open>Room for the pointers of all words.\<close>

definition roomy :: "nat \<Rightarrow> nat \<Rightarrow> string list \<Rightarrow> bool" where
  "roomy room k ws \<longleftrightarrow> (\<forall>i<length ws. 8 * (k + i + 1) \<le> room + length (concat (take (Suc i) ws)))"

lemma roomy_Cons: "roomy room k (w # ws) \<longleftrightarrow> 8 * (k + 1) \<le> room + length w \<and> roomy (room + length w) (Suc k) ws"
  unfolding roomy_def by (simp add: All_less_Suc2 add.assoc)

lemma line_length: "length ws \<le> length (line ws)"
  by (induction ws rule: line.induct) auto

lemma arg_vector_read:
  assumes "ws \<noteq> []" "\<forall>w\<in>set ws. inert w" "roomy room (length acc) ws" "length ws \<le> fuel"
  shows "arg_vector_loop fuel room acc (line ws @ s) = Ret (acc @ ws, s)"
  using assms
proof (induction ws arbitrary: fuel room acc rule: line.induct)
  case (2 w)
  then obtain f where f: "fuel = Suc f" by (cases fuel) auto
  have "8 * (length acc + 1) \<le> room + length w" using 2(3) by (simp add: roomy_Cons)
  then show ?case using get_word_read[of w NEWLINE False s] 2(2) by (simp add: f Let_def)
next
  case (3 w v ws)
  then obtain f where f: "fuel = Suc f" by (cases fuel) auto
  have r: "8 * (length acc + 1) \<le> room + length w" "roomy (room + length w) (length (acc @ [w])) (v # ws)"
    using 3(4) by (simp_all only: roomy_Cons length_append list.size One_nat_def add_Suc_right add_0_right)
  have "arg_vector_loop f (room + length w) (acc @ [w]) (line (v # ws) @ s) = Ret ((acc @ [w]) @ v # ws, s)"
    using 3(1)[OF _ _ r(2), of f] 3(3,5) f by simp
  then show ?case using get_word_read[of w "CHR '' ''" False "line (v # ws) @ s"] 3(3) r(1)
    by (simp add: f Let_def NEWLINE_def)
qed simp

text \<open>
  C40: A line of words, quoted where they contain spaces, is read back as exactly those words,
  when the lengths of the words make room for their pointers.
\<close>

theorem arg_vector_roundtrip:
  assumes "ws \<noteq> []" "\<forall>w\<in>set ws. inert w" "\<forall>i<length ws. 8 * i \<le> length (concat (take (Suc i) ws))"
  shows "get_arg_vector_for_daemon (line ws @ s) = Ret (ws, s)"
proof -
  have "roomy 8 (length []) ws" using assms(3) by (simp add: roomy_def)
  moreover have "length ws \<le> Suc (length (line ws @ s))" using line_length[of ws] by simp
  ultimately show ?thesis unfolding get_arg_vector_for_daemon_def
    using arg_vector_read[OF assms(1,2), of 8 "[]"] by (simp del: arg_vector_loop.simps)
qed

text \<open>Short arguments write past the buffer of the vector.\<close>

theorem arg_vector_overflow:
  assumes "inert v" "inert w" "length v + length w < 8"
  shows "get_arg_vector_for_daemon (line (v # w # ws) @ s) = Stuck Out_of_bounds"
proof -
  obtain c rest where r: "line (w # ws) @ s = written w @ c # rest" "c = CHR '' '' \<or> c = NEWLINE"
    by (cases ws) auto
  have l: "line (v # w # ws) @ s = written v @ CHR '' '' # written w @ c # rest" using r(1) by simp
  obtain f where f: "length (line (v # w # ws) @ s) = Suc f" unfolding l by (cases "written v") auto
  show ?thesis unfolding get_arg_vector_for_daemon_def f arg_vector_loop.simps unfolding l
    using get_word_read[OF assms(1), of "CHR '' ''" False "written w @ c # rest"] get_word_read[OF assms(2) r(2), of False rest] assms(3)
    by (simp add: Let_def NEWLINE_def)
qed

text \<open>A whole line can be skipped.\<close>

lemma plain_word_uses: "plain_word b lst s = Ret (w, l, s') \<Longrightarrow> length s' < length s"
  by (induction b lst s rule: plain_word.induct) (auto split: if_splits)

lemma quoted_word_uses: "quoted_word b lst s = Ret (w, l, s') \<Longrightarrow> length s' < length s"
proof (induction b lst s rule: quoted_word.induct)
  case (2 buff lst c s)
  then show ?case by (cases s) (auto simp: getchar_def split: if_splits)
qed simp

lemma get_word_uses: "get_word_from_args lst s = Ret (w, l, s') \<Longrightarrow> length s' < length s"
  by (cases s) (auto simp: get_word_from_args_def getchar_def dest: plain_word_uses quoted_word_uses split: if_splits)

lemma plain_word_total: "(\<exists>w l s'. plain_word b lst s = Ret (w, l, s')) \<or> plain_word b lst s = Stuck (Exit_called 0)"
  by (induction b lst s rule: plain_word.induct) auto

lemma quoted_word_total: "(\<exists>w l s'. quoted_word b lst s = Ret (w, l, s')) \<or> quoted_word b lst s = Stuck (Exit_called 0)"
  by (induction b lst s rule: quoted_word.induct) auto

lemma get_word_total: "(\<exists>w l s'. get_word_from_args lst s = Ret (w, l, s')) \<or> get_word_from_args lst s = Stuck (Exit_called 0)"
  using plain_word_total[of "[]" lst s] quoted_word_total[of "[]" lst "snd (getchar s)"] by (simp add: get_word_from_args_def)

lemma skip_line_total: "length s < fuel \<Longrightarrow> (\<exists>s'. skip_line fuel s = Ret s') \<or> skip_line fuel s = Stuck (Exit_called 0)"
proof (induction fuel arbitrary: s)
  case (Suc fuel)
  show ?case
  proof (cases "get_word_from_args False s = Stuck (Exit_called 0)")
    case False
    then obtain w l s' where w: "get_word_from_args False s = Ret (w, l, s')" using get_word_total[of False s] by blast
    then have "length s' < fuel" using get_word_uses[OF w] Suc.prems by simp
    then show ?thesis using Suc.IH[of s'] w by simp
  qed simp
qed simp

end
