(* ===== verification/Legion_Cli.thy ===== *)
theory Legion_Cli imports Legion_Parse Decimal begin

text \<open>
  The supervisor of hw4 (\<open>cli.c\<close>): the table of daemons, the signal handlers, and the commands. The
  operating system is the argument \<open>E\<close>: it says how pipes, forks, waits and reads end, which signals
  arrive while the program waits, and how many bytes behind a local array may be overwritten unnoticed.
\<close>

section \<open>State\<close>

datatype daemon_status =
    status_unknown
  | status_inactive
  | status_starting
  | status_active
  | status_stopping
  | status_exited
  | status_crashed

definition get_daemon_status :: "daemon_status \<Rightarrow> string" where
  "get_daemon_status s = (case s of
     status_unknown \<Rightarrow> ''unknown'' | status_inactive \<Rightarrow> ''inactive'' | status_starting \<Rightarrow> ''starting''
   | status_active \<Rightarrow> ''active'' | status_stopping \<Rightarrow> ''stopping'' | status_exited \<Rightarrow> ''exited'' | status_crashed \<Rightarrow> ''crashed'')"

record daemon =
  d_name :: string
  d_pid :: int
  d_using :: bool
  d_status :: string
  d_execute :: string
  d_args :: "string list option"

text \<open>The event functions of \<open>legion.h\<close>, what is printed, and the signals sent.\<close>

datatype event =
    Printed string
  | Killed int string
  | Sf_register string string
  | Sf_unregister string
  | Sf_active string int
  | Sf_stop string int
  | Sf_reset string
  | Sf_kill string int
  | Sf_logrotate string
  | Sf_term string int int
  | Sf_crash string int int
  | Sf_error string

record legion =
  input :: string
  daemons :: "daemon list"
  most_recent_index :: nat
  flag_killed_child :: bool
  flag_error_stop :: bool
  flag_child_exited :: bool
  chld_blocked :: bool
  chld_pending :: bool
  alarm_on :: bool
  files :: "string \<Rightarrow> string option"
  events :: "event list"
  ticks :: nat

text \<open>
  The signals with a handler. \<open>SIGALRM\<close> is one that another process or the user sends; the expiry of the
  timer that \<open>alarm\<close> has set raises the same signal.
\<close>

datatype signal = SIGCHLD | SIGALRM | Timer_expires | SIGINT

datatype wait_result = Still_running | No_child | Reaped int

record os =
  pipe_ok :: "nat \<Rightarrow> bool"
  fork_result :: "nat \<Rightarrow> int"
  read_result :: "nat \<Rightarrow> int"
  during_read :: "nat \<Rightarrow> signal list"
  between :: "nat \<Rightarrow> signal list"
  wakes :: "nat \<Rightarrow> signal"
  waits :: "nat \<Rightarrow> int \<Rightarrow> wait_result"
  path_env :: string
  slack :: nat
  past_end :: string

definition emit :: "event \<Rightarrow> legion \<Rightarrow> legion" where
  "emit e st = st\<lparr>events := events st @ [e]\<rparr>"

definition set_status :: "nat \<Rightarrow> daemon_status \<Rightarrow> legion \<Rightarrow> legion" where
  "set_status i s st = st\<lparr>daemons := (daemons st)[i := (daemons st ! i)\<lparr>d_status := get_daemon_status s\<rparr>]\<rparr>"

definition tick :: "legion \<Rightarrow> legion" where
  "tick st = st\<lparr>ticks := ticks st + 1\<rparr>"

abbreviation name_at :: "legion \<Rightarrow> nat \<Rightarrow> string" where "name_at st i \<equiv> d_name (daemons st ! i)"
abbreviation pid_at :: "legion \<Rightarrow> nat \<Rightarrow> int" where "pid_at st i \<equiv> d_pid (daemons st ! i)"

section \<open>Signal handlers\<close>

text \<open>
  The list is freed when the program ends: the first two arguments of every daemon that has a vector,
  also when there is only one.
\<close>

primrec free_args :: "daemon list \<Rightarrow> unit outcome" where
  "free_args [] = Ret ()"
| "free_args (d # ds) = (case d_args d of
     Some v \<Rightarrow> if length v < 2 then Stuck Use_after_free else free_args ds
   | None \<Rightarrow> free_args ds)"

definition free_daemon_list :: "legion \<Rightarrow> unit outcome" where
  "free_daemon_list st = free_args (daemons st)"

definition handle_sigint :: "legion \<Rightarrow> legion outcome" where
  "handle_sigint st = andThen (free_daemon_list st) (\<lambda>_. Stuck (Exit_called 0))"

text \<open>
  The list starts as room for one entry that nothing has been written to, and \<open>most_recent_index\<close> as 0.
\<close>

definition handle_sigalrm :: "legion \<Rightarrow> legion outcome" where
  "handle_sigalrm st = (let i = most_recent_index st in
     if i < length (daemons st)
     then Ret ((set_status i status_stopping (emit (Sf_kill (name_at st i) (pid_at st i)) (emit (Killed (pid_at st i) ''SIGKILL'') st)))
                 \<lparr>flag_killed_child := True, flag_error_stop := True\<rparr>)
     else Stuck Uninitialised)"

text \<open>
  The loop of \<open>handle_sigchld\<close>; \<open>status\<close> keeps its value when \<open>waitpid\<close> finds no child. A child that is
  still running blocks the handler.
\<close>

primrec sigchld_loop :: "os \<Rightarrow> nat list \<Rightarrow> int \<Rightarrow> legion \<Rightarrow> legion outcome" where
  "sigchld_loop E [] status st = Ret st"
| "sigchld_loop E (i # is) status st =
     (if d_using (daemons st ! i) \<and> d_status (daemons st ! i) = ''active''
      then case waits E (ticks st) (pid_at st i) of
          Still_running \<Rightarrow> Stuck Blocked
        | r \<Rightarrow> let status = (case r of Reaped s \<Rightarrow> s | _ \<Rightarrow> status); st = tick st in
            if status mod 128 = 0
            then sigchld_loop E is status
              ((set_status i status_exited (emit (Sf_term (name_at st i) (pid_at st i) status) st))\<lparr>flag_child_exited := True\<rparr>)
            else sigchld_loop E is status
              ((set_status i status_crashed (emit (Sf_crash (name_at st i) (pid_at st i) 17) st))\<lparr>flag_error_stop := True\<rparr>)
      else sigchld_loop E is status st)"

definition handle_sigchld :: "os \<Rightarrow> legion \<Rightarrow> legion outcome" where
  "handle_sigchld E st = sigchld_loop E [0 ..< length (daemons st)] 0 st"

text \<open>
  The handlers of \<open>SIGALRM\<close> and \<open>SIGINT\<close> are installed for good and never blocked. A \<open>SIGCHLD\<close> that arrives
  while it is blocked stays pending, and is handled when the mask is lifted. A timer that is not set does
  not expire.
\<close>

definition deliver :: "os \<Rightarrow> signal \<Rightarrow> legion \<Rightarrow> legion outcome" where
  "deliver E s st = (case s of
     SIGCHLD \<Rightarrow> if chld_blocked st then Ret (st\<lparr>chld_pending := True\<rparr>) else handle_sigchld E st
   | SIGALRM \<Rightarrow> handle_sigalrm st
   | Timer_expires \<Rightarrow> if alarm_on st then handle_sigalrm (st\<lparr>alarm_on := False\<rparr>) else Ret st
   | SIGINT \<Rightarrow> handle_sigint st)"

definition unblock :: "os \<Rightarrow> legion \<Rightarrow> legion outcome" where
  "unblock E st = (let pending = chld_pending st; st = st\<lparr>chld_blocked := False, chld_pending := False\<rparr> in
     if pending then handle_sigchld E st else Ret st)"

primrec deliver_all :: "os \<Rightarrow> signal list \<Rightarrow> legion \<Rightarrow> legion outcome" where
  "deliver_all E [] st = Ret st"
| "deliver_all E (s # ss) st = andThen (deliver E s st) (deliver_all E ss)"

section \<open>Stopping and starting\<close>

text \<open>
  \<open>sigsuspend\<close> waits under the mask from before the \<open>SIG_BLOCK\<close>. A \<open>SIGCHLD\<close> that this mask blocks does not
  end the wait; then the timer does.
\<close>

definition stop_and_wait :: "os \<Rightarrow> nat \<Rightarrow> legion \<Rightarrow> legion outcome" where
  "stop_and_wait E i st =
     (let t = ticks st; old_mask = chld_blocked st;
          st = set_status i status_stopping (st\<lparr>most_recent_index := i\<rparr>);
          st = emit (Sf_stop (name_at st i) (pid_at st i)) st;
          st = st\<lparr>chld_blocked := True\<rparr>;
          st = emit (Killed (pid_at st i) ''SIGTERM'') st;
          st = st\<lparr>alarm_on := True, chld_blocked := old_mask, ticks := t + 1\<rparr> in
      andThen (deliver_all E (if old_mask \<and> wakes E t = SIGCHLD then [SIGCHLD, Timer_expires] else [wakes E t]) st) (\<lambda>st.
        Ret (st\<lparr>alarm_on := False, chld_blocked := True\<rparr>)))"

text \<open>Local arrays: \<open>strcpy\<close> and \<open>strcat\<close> into an array of \<open>n\<close> bytes.\<close>

definition strcpy :: "os \<Rightarrow> nat \<Rightarrow> string \<Rightarrow> string outcome" where
  "strcpy E n s = (if length s < n + slack E then Ret s else Stuck Out_of_bounds)"

definition strcat :: "os \<Rightarrow> nat \<Rightarrow> string \<Rightarrow> string \<Rightarrow> string outcome" where
  "strcat E n dst s = (if length (dst @ s) < n + slack E then Ret (dst @ s) else Stuck Out_of_bounds)"

text \<open>\<open>logs/<name><ext>\<close>, built in an array of 6 bytes.\<close>

definition log_path :: "os \<Rightarrow> string \<Rightarrow> string \<Rightarrow> string outcome" where
  "log_path E name ext =
     andThen (strcpy E (length name) name) (\<lambda>fname. andThen (strcat E (length name) fname ext) (\<lambda>fname.
       strcat E 6 ''logs/'' fname))"

text \<open>
  The child: its search path, the log it writes to and the program it runs. The array of the search path
  is filled to its end, so the text behind it belongs to the string.
\<close>

record image =
  im_path :: string
  im_log :: string
  im_exec :: string
  im_args :: "string list option"

definition child_process :: "os \<Rightarrow> daemon \<Rightarrow> image outcome" where
  "child_process E d =
     andThen (strcat E 8 (''daemons:'' @ past_end E) (path_env E)) (\<lambda>path.
     andThen (log_path E (d_name d) ''.log.0'') (\<lambda>dir.
     andThen (strcpy E (length (d_execute d)) (d_execute d)) (\<lambda>execute.
     andThen (strcat E 9 ''daemons/'' execute) (\<lambda>d_dir.
       Ret \<lparr>im_path = path, im_log = dir, im_exec = d_dir, im_args = d_args d\<rparr>))))"

text \<open>
  The flag of the result says that \<open>fork\<close> has failed. A \<open>SIGCHLD\<close> that is pending is handled when the mask
  is lifted after the \<open>fork\<close>; the child inherits none.
\<close>

definition start_process :: "os \<Rightarrow> nat \<Rightarrow> legion \<Rightarrow> (bool \<times> legion) outcome" where
  "start_process E i st =
     (let st = set_status i status_starting st; t = ticks st; st = tick st in
      if \<not> pipe_ok E t then Ret (False, set_status i status_inactive (emit (Sf_error ''error in pipe'') st))
      else
        let cpid = fork_result E t in
        andThen (unblock E (if cpid = 0 then st\<lparr>chld_pending := False\<rparr> else st)) (\<lambda>st.
        if cpid = -1
        then Ret (True, set_status i status_inactive (emit (Sf_error ''error in forking child!'') st))
        else if cpid > 0
        then let st = st\<lparr>daemons := (daemons st)[i := (daemons st ! i)\<lparr>d_pid := cpid\<rparr>], most_recent_index := i,
                flag_killed_child := False, alarm_on := True\<rparr> in
          andThen (deliver_all E (during_read E t) st) (\<lambda>st.
            let st = (if read_result E t \<ge> 0 then st\<lparr>alarm_on := False\<rparr> else st) in
            Ret (False, emit (Sf_active (name_at st i) cpid) (set_status i status_active st)))
        else andThen (child_process E (daemons st ! i)) (\<lambda>im. Stuck Image_replaced)))"

section \<open>Rotating logs\<close>

definition file_exists :: "string \<Rightarrow> legion \<Rightarrow> bool" where
  "file_exists fname st = (files st fname \<noteq> None)"

definition rename :: "string \<Rightarrow> string \<Rightarrow> legion \<Rightarrow> legion" where
  "rename p l st = (if files st p = None then st else st\<lparr>files := (files st)(l := files st p, p := None)\<rparr>)"

definition remove_file :: "string \<Rightarrow> legion \<Rightarrow> legion" where
  "remove_file p st = st\<lparr>files := (files st)(p := None)\<rparr>"

definition LOG_VERSIONS :: nat where "LOG_VERSIONS = 7"

primrec rotate_loop :: "os \<Rightarrow> string \<Rightarrow> nat list \<Rightarrow> nat \<Rightarrow> legion \<Rightarrow> legion outcome" where
  "rotate_loop E name [] highest_log st = Ret st"
| "rotate_loop E name (j # js) highest_log st =
     andThen (log_path E name (''.log.'' @ [digits ! highest_log])) (\<lambda>lpath.
     andThen (log_path E name (''.log.'' @ [digits ! (highest_log - 1)])) (\<lambda>p_path.
       if \<not> file_exists lpath st then Ret (rename p_path lpath st)
       else rotate_loop E name js (highest_log + 1) (if j = LOG_VERSIONS - 1 then remove_file lpath st else st)))"

section \<open>Commands\<close>

text \<open>At the end of the input the list of daemons is freed before the program exits.\<close>

definition at_eof :: "legion \<Rightarrow> 'a outcome \<Rightarrow> 'a outcome" where
  "at_eof st r = (if r = Stuck (Exit_called 0) then andThen (free_daemon_list st) (\<lambda>_. Stuck (Exit_called 0)) else r)"

definition read_word :: "bool \<Rightarrow> legion \<Rightarrow> (string \<times> bool \<times> legion) outcome" where
  "read_word lst st = andThen (at_eof st (get_word_from_args lst (input st))) (\<lambda>(w, lst, s). Ret (w, lst, st\<lparr>input := s\<rparr>))"

definition skip_rest :: "legion \<Rightarrow> legion outcome" where
  "skip_rest st = andThen (at_eof st (skip_line (Suc (length (input st))) (input st))) (\<lambda>s. Ret (st\<lparr>input := s\<rparr>))"

fun find_daemon :: "string \<Rightarrow> daemon list \<Rightarrow> nat option" where
  "find_daemon name [] = None"
| "find_daemon name (d # ds) = (if d_using d \<and> d_name d = name then Some 0 else map_option Suc (find_daemon name ds))"

definition sf_error :: "string \<Rightarrow> legion \<Rightarrow> legion outcome" where
  "sf_error msg st = Ret (emit (Sf_error msg) st)"

definition stop_command :: "os \<Rightarrow> legion \<Rightarrow> legion outcome" where
  "stop_command E st = andThen (read_word False st) (\<lambda>(name, lst, st).
     if \<not> lst then andThen (skip_rest st) (sf_error ''Usage: stop <daemon>'')
     else case find_daemon name (daemons st) of
       None \<Rightarrow> sf_error ''Daemon does not exist!'' st
     | Some i \<Rightarrow>
         if d_status (daemons st ! i) = ''exited'' \<or> d_status (daemons st ! i) = ''crashed''
         then Ret (emit (Sf_reset (name_at st i)) (set_status i status_inactive st))
         else if d_status (daemons st ! i) \<noteq> ''active'' then sf_error ''Can only stop an active daemon!'' st
         else andThen (stop_and_wait E i st) (\<lambda>st.
           if flag_error_stop st then Ret ((emit (Sf_error ''an error occurred in stop'') st)\<lparr>flag_error_stop := False\<rparr>)
           else if flag_child_exited st then Ret (st\<lparr>flag_child_exited := False\<rparr>)
           else Ret st))"

definition start_command :: "os \<Rightarrow> legion \<Rightarrow> legion outcome" where
  "start_command E st = andThen (read_word False st) (\<lambda>(name, lst, st).
     if \<not> lst then andThen (skip_rest st) (sf_error ''Usage: start <daemon>'')
     else case find_daemon name (daemons st) of
       None \<Rightarrow> sf_error ''Daemon does not exist!'' st
     | Some i \<Rightarrow>
         if d_status (daemons st ! i) \<noteq> ''inactive'' then sf_error ''Daemon not inactive, error!'' st
         else andThen (start_process E i st) (\<lambda>(failed, st). if failed then Stuck Use_after_free else Ret st))"

definition status_line :: "daemon \<Rightarrow> string" where
  "status_line d = d_name d @ [CHR 0x09] @ show_int (d_pid d) @ [CHR 0x09] @ d_status d @ [NEWLINE]"

definition status_command :: "legion \<Rightarrow> legion outcome" where
  "status_command st = andThen (read_word False st) (\<lambda>(name, lst, st).
     if \<not> lst then andThen (skip_rest st) (sf_error ''Usage: status <daemon>'')
     else case find_daemon name (daemons st) of
       None \<Rightarrow> Ret (emit (Printed (''unknown'' @ [NEWLINE, NEWLINE])) st)
     | Some i \<Rightarrow> Ret (emit (Printed (status_line (daemons st ! i))) st))"

definition status_all_command :: "legion \<Rightarrow> legion outcome" where
  "status_all_command st = Ret (st\<lparr>events := events st @ map (\<lambda>d. Printed (status_line d)) (filter d_using (daemons st))\<rparr>)"

definition add_daemon :: "string \<Rightarrow> string \<Rightarrow> string list option \<Rightarrow> legion \<Rightarrow> legion" where
  "add_daemon name executable args st = emit (Sf_register name executable) (st\<lparr>daemons := daemons st @
     [\<lparr>d_name = name, d_pid = 0, d_using = True, d_status = get_daemon_status status_inactive, d_execute = executable, d_args = args\<rparr>]\<rparr>)"

text \<open>The word \<open>command\<close> is freed at the start, and again on every path with an error.\<close>

definition register_command :: "legion \<Rightarrow> legion outcome" where
  "register_command st = andThen (read_word False st) (\<lambda>(name, lst, st).
     if lst then Stuck Use_after_free
     else
       let exists = (find_daemon name (daemons st) \<noteq> None);
           st = (if exists then emit (Sf_error ''Daemon already exists!'') st else st) in
       andThen (read_word lst st) (\<lambda>(executable, lst, st).
         if lst then (if exists then Stuck Use_after_free else Ret (add_daemon name executable None st))
         else andThen (at_eof st (get_arg_vector_for_daemon (input st))) (\<lambda>(args, s).
           let st = st\<lparr>input := s\<rparr> in
           if exists then Stuck Use_after_free else Ret (add_daemon name executable (Some args) st))))"

definition unregister_command :: "legion \<Rightarrow> legion outcome" where
  "unregister_command st = andThen (read_word False st) (\<lambda>(name, lst, st).
     if \<not> lst then Stuck Use_after_free
     else case find_daemon name (daemons st) of
       None \<Rightarrow> sf_error ''This daemon does not exist!'' st
     | Some i \<Rightarrow>
         if d_status (daemons st ! i) \<noteq> ''inactive'' then sf_error ''This daemon is not in the inactive state!'' st
         else Ret (emit (Sf_unregister name) (st\<lparr>daemons := (daemons st)[i := (daemons st ! i)\<lparr>d_using := False\<rparr>]\<rparr>)))"

definition rotate_daemon :: "os \<Rightarrow> nat \<Rightarrow> legion \<Rightarrow> legion outcome" where
  "rotate_daemon E i st = andThen (log_path E (name_at st i) ''.log.0'') (\<lambda>path.
     if \<not> file_exists path st then sf_error ''Cannot rotate a log file that does not exist'' st
     else
       let d_stopped = (d_status (daemons st ! i) = ''active'') in
       andThen (if d_stopped
           then andThen (stop_and_wait E i st) (\<lambda>st.
             if flag_error_stop st then sf_error ''an error occurred in stop'' st else Ret st)
           else Ret st) (\<lambda>st.
       andThen (rotate_loop E (name_at st i) [1 ..< LOG_VERSIONS] 1 st) (\<lambda>st.
         let st = emit (Sf_logrotate (name_at st i)) st in
         if d_stopped then andThen (start_process E i st) (\<lambda>(failed, st). Ret st) else Ret st)))"

definition logrotate_command :: "os \<Rightarrow> legion \<Rightarrow> legion outcome" where
  "logrotate_command E st = andThen (read_word False st) (\<lambda>(name, lst, st).
     if \<not> lst then andThen (skip_rest st) (sf_error ''Usage: logrotate <daemon>'')
     else case find_daemon name (daemons st) of
       None \<Rightarrow> sf_error ''This daemon does not exist!'' st
     | Some i \<Rightarrow> rotate_daemon E i st)"

definition help_text :: string where
  "help_text = concat (map (\<lambda>l. l @ [NEWLINE])
     ['''', ''Available commands:'',
      ''help (0 args) Print this help message'',
      ''quit (0 args) Quit the program'',
      ''register (2 args) Register a daemon'',
      ''unregister (1 args) Unregister a daemon'',
      ''status (1 args) Show the status of a daemon'',
      ''status-all (0 args) Show the status of all daemons'',
      ''start (1 args) Start a daemon'',
      ''stop (1 args) Stop a daemon'',
      ''logrotate (1 args) Rotate log files for a daemon'',
      ''''])"

definition other_command :: "bool \<Rightarrow> legion \<Rightarrow> legion outcome" where
  "other_command lst st = (let st = emit (Sf_error ''Error executing command!'') st in
     if lst then Ret st else skip_rest st)"

text \<open>One round of the loop of \<open>run_cli\<close>, after its first word; the flag says that the loop goes on.\<close>

definition dispatch :: "os \<Rightarrow> string \<Rightarrow> bool \<Rightarrow> legion \<Rightarrow> (bool \<times> legion) outcome" where
  "dispatch E command lst st =
     (let go = (\<lambda>r. andThen r (\<lambda>st. Ret (True, st))) in
      if command = ''help'' \<and> lst then Ret (True, emit (Printed help_text) st)
      else if command = ''quit'' \<and> lst then andThen (free_daemon_list st) (\<lambda>_. Ret (False, st))
      else if command = ''stop'' \<and> \<not> lst then go (stop_command E st)
      else if command = ''start'' \<and> \<not> lst then go (start_command E st)
      else if command = ''status'' \<and> \<not> lst then go (status_command st)
      else if command = ''register'' \<and> \<not> lst then go (register_command st)
      else if command = ''status-all'' \<and> lst then go (status_all_command st)
      else if command = ''unregister'' \<and> \<not> lst then go (unregister_command st)
      else if command = ''logrotate'' \<and> \<not> lst then go (logrotate_command E st)
      else go (other_command lst st))"

text \<open>
  The loop. Signals that arrive while it waits for the next line are handled there. Every round takes
  at least one character of the input.
\<close>

primrec run_cli :: "os \<Rightarrow> nat \<Rightarrow> legion \<Rightarrow> legion outcome" where
  "run_cli E 0 st = Stuck Diverges"
| "run_cli E (Suc fuel) st =
     andThen (deliver_all E (between E (ticks st)) (tick (emit (Printed ''legion> '') st))) (\<lambda>st.
     andThen (read_word False st) (\<lambda>(command, lst, st).
     andThen (dispatch E command lst st) (\<lambda>(go, st). if go then run_cli E fuel st else Ret st)))"

end
