(* ===== verification/Legion_Props.thy ===== *)
theory Legion_Props imports Legion_Cli begin

text \<open>
  The supervisor as a state machine: what every command and every signal keeps, and what the life of a
  daemon looks like under them.
\<close>

section \<open>What the operations change\<close>

text \<open>Every operation but registering and unregistering keeps the names in the table.\<close>

definition entries :: "legion \<Rightarrow> (string \<times> bool) list" where
  "entries st = map (\<lambda>d. (d_name d, d_using d)) (daemons st)"

definition is_lost :: "nat \<Rightarrow> legion \<Rightarrow> bool" where
  "is_lost i st \<longleftrightarrow> i < length (daemons st) \<and> d_using (daemons st ! i) \<and> d_status (daemons st ! i) = ''stopping''"

text \<open>
  One step inside a command: the entries stay, and so does a daemon that is stopping, unless it is the
  one that is being started.
\<close>

definition keeps :: "nat set \<Rightarrow> legion \<Rightarrow> legion \<Rightarrow> bool" where
  "keeps X st st' \<longleftrightarrow> entries st' = entries st \<and> (\<forall>i. i \<notin> X \<and> is_lost i st \<longrightarrow> is_lost i st')"

lemma keeps_refl [simp]: "keeps X st st"
  by (simp add: keeps_def)

lemma keeps_trans: "keeps X st st' \<Longrightarrow> keeps X st' st'' \<Longrightarrow> keeps X st st''"
  by (auto simp: keeps_def)

lemma keeps_mono: "keeps {} st st' \<Longrightarrow> keeps X st st'"
  by (auto simp: keeps_def)

lemma keeps_same: "daemons st' = daemons st \<Longrightarrow> keeps X st st'"
  by (simp add: keeps_def entries_def is_lost_def)

lemma keeps_to: "daemons st2 = daemons st1 \<Longrightarrow> keeps X st st1 \<Longrightarrow> keeps X st st2"
  by (rule keeps_trans[OF _ keeps_same])

lemma entries_length: "entries st' = entries st \<Longrightarrow> length (daemons st') = length (daemons st)"
  unfolding entries_def by (metis length_map)

lemma statuses [simp]:
  "get_daemon_status status_inactive = ''inactive''" "get_daemon_status status_starting = ''starting''"
  "get_daemon_status status_active = ''active''" "get_daemon_status status_stopping = ''stopping''"
  "get_daemon_status status_exited = ''exited''" "get_daemon_status status_crashed = ''crashed''"
  by (simp_all add: get_daemon_status_def)

lemma emit_fields [simp]: "daemons (emit e st) = daemons st" "input (emit e st) = input st" "chld_blocked (emit e st) = chld_blocked st"
  "alarm_on (emit e st) = alarm_on st" "ticks (emit e st) = ticks st" "most_recent_index (emit e st) = most_recent_index st"
  "events (emit e st) = events st @ [e]" "files (emit e st) = files st" "flag_error_stop (emit e st) = flag_error_stop st"
  "flag_child_exited (emit e st) = flag_child_exited st" "flag_killed_child (emit e st) = flag_killed_child st"
  "chld_pending (emit e st) = chld_pending st"
  by (simp_all add: emit_def)

lemma set_status_fields [simp]: "length (daemons (set_status i s st)) = length (daemons st)" "input (set_status i s st) = input st"
  "chld_blocked (set_status i s st) = chld_blocked st" "alarm_on (set_status i s st) = alarm_on st" "ticks (set_status i s st) = ticks st"
  "most_recent_index (set_status i s st) = most_recent_index st" "events (set_status i s st) = events st" "files (set_status i s st) = files st"
  "flag_error_stop (set_status i s st) = flag_error_stop st" "flag_child_exited (set_status i s st) = flag_child_exited st" "flag_killed_child (set_status i s st) = flag_killed_child st"
  "chld_pending (set_status i s st) = chld_pending st"
  by (simp_all add: set_status_def)

lemma set_status_nth: "i < length (daemons st) \<Longrightarrow> k < length (daemons st) \<Longrightarrow>
   daemons (set_status i s st) ! k = (if k = i then (daemons st ! i)\<lparr>d_status := get_daemon_status s\<rparr> else daemons st ! k)"
  by (simp add: set_status_def)

lemma tick_fields [simp]: "daemons (tick st) = daemons st" "input (tick st) = input st" "ticks (tick st) = ticks st + 1"
  "chld_blocked (tick st) = chld_blocked st" "alarm_on (tick st) = alarm_on st" "events (tick st) = events st"
  "files (tick st) = files st" "most_recent_index (tick st) = most_recent_index st"
  "flag_error_stop (tick st) = flag_error_stop st" "flag_child_exited (tick st) = flag_child_exited st" "flag_killed_child (tick st) = flag_killed_child st"
  "chld_pending (tick st) = chld_pending st"
  by (simp_all add: tick_def)

lemma update_entries:
  assumes "d_name d = d_name (daemons st ! i)" "d_using d = d_using (daemons st ! i)"
  shows "entries (st\<lparr>daemons := (daemons st)[i := d]\<rparr>) = entries st"
proof (cases "i < length (daemons st)")
  case True
  then have "map (\<lambda>d. (d_name d, d_using d)) ((daemons st)[i := d]) = (entries st)[i := (entries st) ! i]"
    using assms by (simp add: entries_def map_update)
  then show ?thesis by (simp add: entries_def)
qed (simp add: entries_def list_update_beyond)

lemma keeps_set_status:
  assumes "i \<in> X \<or> s = status_stopping \<or> (i < length (daemons st) \<longrightarrow> d_status (daemons st ! i) \<noteq> ''stopping'')"
  shows "keeps X st (set_status i s st)"
proof -
  have "entries (set_status i s st) = entries st" unfolding set_status_def by (rule update_entries) simp_all
  then show ?thesis using assms
    by (cases "i < length (daemons st)") (auto simp: keeps_def is_lost_def set_status_nth, simp_all add: set_status_def)
qed

lemma keeps_set_pid: "keeps X st (st\<lparr>daemons := (daemons st)[i := (daemons st ! i)\<lparr>d_pid := p\<rparr>]\<rparr>)"
  using update_entries[of "(daemons st ! i)\<lparr>d_pid := p\<rparr>" st i]
  by (cases "i < length (daemons st)") (auto simp: keeps_def is_lost_def nth_list_update list_update_beyond)

section \<open>Signals\<close>

lemma sigchld_keeps: "sigchld_loop E is status st = Ret st' \<Longrightarrow> keeps {} st st'"
proof (induction "is" arbitrary: status st)
  case (Cons i "is")
  show ?case
  proof (cases "d_using (daemons st ! i) \<and> d_status (daemons st ! i) = ''active''")
    case True
    define w where "w = waits E (ticks st) (pid_at st i)"
    define x where "x = (case w of Reaped s \<Rightarrow> s | _ \<Rightarrow> status)"
    have k: "keeps {} st (set_status i s (emit e (tick st)))" for s e
      using True by (intro keeps_trans[OF keeps_same[of "emit e (tick st)"] keeps_set_status]) auto
    have "w \<noteq> Still_running" using Cons.prems True by (auto simp: w_def)
    then have "sigchld_loop E is x ((set_status i status_exited (emit (Sf_term (name_at st i) (pid_at st i) x) (tick st)))\<lparr>flag_child_exited := True\<rparr>) = Ret st' \<or>
        sigchld_loop E is x ((set_status i status_crashed (emit (Sf_crash (name_at st i) (pid_at st i) 17) (tick st)))\<lparr>flag_error_stop := True\<rparr>) = Ret st'"
      using Cons.prems True by (cases w) (auto simp: w_def[symmetric] x_def Let_def split: if_splits)
    then show ?thesis
    proof
      assume "sigchld_loop E is x ((set_status i status_exited (emit (Sf_term (name_at st i) (pid_at st i) x) (tick st)))\<lparr>flag_child_exited := True\<rparr>) = Ret st'"
      from keeps_trans[OF keeps_to[OF _ k] Cons.IH[OF this]] show ?thesis by simp
    next
      assume "sigchld_loop E is x ((set_status i status_crashed (emit (Sf_crash (name_at st i) (pid_at st i) 17) (tick st)))\<lparr>flag_error_stop := True\<rparr>) = Ret st'"
      from keeps_trans[OF keeps_to[OF _ k] Cons.IH[OF this]] show ?thesis by simp
    qed
  next
    case False
    then show ?thesis using Cons by (simp only: sigchld_loop.simps if_False)
  qed
qed simp

lemma sigalrm_keeps: "handle_sigalrm st = Ret st' \<Longrightarrow> keeps {} st st'"
proof -
  assume h: "handle_sigalrm st = Ret st'"
  let ?i = "most_recent_index st"
  define s1 where "s1 = emit (Sf_kill (name_at st ?i) (pid_at st ?i)) (emit (Killed (pid_at st ?i) ''SIGKILL'') st)"
  have "keeps {} st (set_status ?i status_stopping s1)"
    by (rule keeps_trans[OF keeps_same[of s1] keeps_set_status]) (simp_all add: s1_def)
  moreover have "daemons st' = daemons (set_status ?i status_stopping s1)"
    using h by (auto simp: handle_sigalrm_def Let_def s1_def split: if_splits)
  ultimately show ?thesis using keeps_to by blast
qed

lemma handle_sigint_stuck: "handle_sigint st = Ret st' \<longleftrightarrow> False"
  by (simp add: handle_sigint_def andThen_Ret_iff)

lemma deliver_keeps: "deliver E s st = Ret st' \<Longrightarrow> keeps {} st st'"
proof (cases s)
  case SIGCHLD
  assume "deliver E s st = Ret st'"
  then show ?thesis using SIGCHLD
    by (auto simp: deliver_def handle_sigchld_def split: if_splits dest: sigchld_keeps intro: keeps_same)
next
  case Timer_expires
  assume "deliver E s st = Ret st'"
  then have "st' = st \<or> handle_sigalrm (st\<lparr>alarm_on := False\<rparr>) = Ret st'" using Timer_expires by (auto simp: deliver_def split: if_splits)
  then show ?thesis using keeps_trans[OF keeps_same sigalrm_keeps, of "st\<lparr>alarm_on := False\<rparr>" st st'] by auto
qed (simp_all add: deliver_def sigalrm_keeps handle_sigint_stuck)

lemma unblock_keeps: "unblock E st = Ret st' \<Longrightarrow> keeps {} st st'"
  using keeps_trans[OF keeps_same sigchld_keeps, of "st\<lparr>chld_blocked := False, chld_pending := False\<rparr>" st]
  by (auto simp: unblock_def handle_sigchld_def Let_def split: if_splits intro: keeps_same)

lemma deliver_all_keeps: "deliver_all E ss st = Ret st' \<Longrightarrow> keeps {} st st'"
  by (induction ss arbitrary: st) (auto simp: andThen_Ret_iff dest: deliver_keeps intro: keeps_trans)

section \<open>Commands\<close>

lemma pid_set_status [simp]: "pid_at (set_status i s st) k = pid_at st k" "name_at (set_status i s st) k = name_at st k"
  by (cases "i < length (daemons st)"; cases "i = k", simp_all add: set_status_def list_update_beyond)+

text \<open>The state in which \<open>stop\<close> waits, and the signals it then gets.\<close>

definition stop_sent :: "nat \<Rightarrow> legion \<Rightarrow> legion" where
  "stop_sent i st = (emit (Killed (pid_at st i) ''SIGTERM'') (emit (Sf_stop (name_at st i) (pid_at st i))
     (set_status i status_stopping (st\<lparr>most_recent_index := i\<rparr>))))\<lparr>alarm_on := True, ticks := ticks st + 1\<rparr>"

definition stop_wakes :: "os \<Rightarrow> legion \<Rightarrow> signal list" where
  "stop_wakes E st = (if chld_blocked st \<and> wakes E (ticks st) = SIGCHLD then [SIGCHLD, Timer_expires] else [wakes E (ticks st)])"

lemma stop_and_wait_eq:
  "stop_and_wait E i st = andThen (deliver_all E (stop_wakes E st) (stop_sent i st)) (\<lambda>st. Ret (st\<lparr>alarm_on := False, chld_blocked := True\<rparr>))"
proof -
  have "stop_sent i st = (emit (Killed (pid_at st i) ''SIGTERM'') ((emit (Sf_stop (name_at st i) (pid_at st i))
     (set_status i status_stopping (st\<lparr>most_recent_index := i\<rparr>)))\<lparr>chld_blocked := True\<rparr>))
     \<lparr>alarm_on := True, chld_blocked := chld_blocked st, ticks := ticks st + 1\<rparr>"
    by (simp add: stop_sent_def emit_def set_status_def)
  then show ?thesis by (simp add: stop_and_wait_def Let_def stop_wakes_def)
qed

lemma stop_sent_fields [simp]: "daemons (stop_sent i st) = daemons (set_status i status_stopping st)" "alarm_on (stop_sent i st)"
  "most_recent_index (stop_sent i st) = i" "chld_blocked (stop_sent i st) = chld_blocked st" "flag_error_stop (stop_sent i st) = flag_error_stop st"
  "events (stop_sent i st) = events st @ [Sf_stop (name_at st i) (pid_at st i), Killed (pid_at st i) ''SIGTERM'']" "input (stop_sent i st) = input st"
  "chld_pending (stop_sent i st) = chld_pending st"
  by (simp_all add: stop_sent_def) (simp add: set_status_def)

lemma stop_and_wait_keeps:
  assumes "stop_and_wait E i st = Ret st'"
  shows "keeps {} st st' \<and> chld_blocked st' \<and> (i < length (daemons st) \<and> d_using (daemons st ! i) \<longrightarrow> is_lost i st')"
proof -
  obtain y where y: "deliver_all E (stop_wakes E st) (stop_sent i st) = Ret y" "st' = y\<lparr>alarm_on := False, chld_blocked := True\<rparr>"
    using assms by (auto simp: stop_and_wait_eq andThen_Ret_iff)
  have "keeps {} st (set_status i status_stopping st)" by (rule keeps_set_status) simp
  then have k: "keeps {} st (stop_sent i st)" by (rule keeps_to[rotated]) simp
  note d = keeps_trans[OF k deliver_all_keeps[OF y(1)]]
  have "is_lost i y" if "i < length (daemons st)" "d_using (daemons st ! i)"
    using deliver_all_keeps[OF y(1)] that by (simp add: keeps_def is_lost_def set_status_nth)
  moreover have "keeps {} st st'" by (rule keeps_to[OF _ d]) (simp add: y(2))
  ultimately show ?thesis by (simp add: y(2) is_lost_def)
qed

lemma start_process_ret:
  assumes "start_process E i st = Ret x" "pipe_ok E (ticks st)"
  obtains s0 s1 where "s0 = tick (set_status i status_starting st) \<or> s0 = (tick (set_status i status_starting st))\<lparr>chld_pending := False\<rparr>"
    "unblock E s0 = Ret s1"
    "(if fork_result E (ticks st) = -1 then Ret (True, set_status i status_inactive (emit (Sf_error ''error in forking child!'') s1))
        else if fork_result E (ticks st) > 0
        then let st' = s1\<lparr>daemons := (daemons s1)[i := (daemons s1 ! i)\<lparr>d_pid := fork_result E (ticks st)\<rparr>], most_recent_index := i,
                flag_killed_child := False, alarm_on := True\<rparr> in
          andThen (deliver_all E (during_read E (ticks st)) st') (\<lambda>st'.
            let st' = (if read_result E (ticks st) \<ge> 0 then st'\<lparr>alarm_on := False\<rparr> else st') in
            Ret (False, emit (Sf_active (name_at st' i) (fork_result E (ticks st))) (set_status i status_active st')))
        else andThen (child_process E (daemons s1 ! i)) (\<lambda>im. Stuck Image_replaced)) = Ret x"
proof -
  define s0 where "s0 = (if fork_result E (ticks st) = 0 then (tick (set_status i status_starting st))\<lparr>chld_pending := False\<rparr>
    else tick (set_status i status_starting st))"
  have t: "ticks (set_status i status_starting st) = ticks st" by simp
  obtain s1 where s1: "unblock E s0 = Ret s1" and r: "(if fork_result E (ticks st) = -1 then Ret (True, set_status i status_inactive (emit (Sf_error ''error in forking child!'') s1))
        else if fork_result E (ticks st) > 0
        then let st' = s1\<lparr>daemons := (daemons s1)[i := (daemons s1 ! i)\<lparr>d_pid := fork_result E (ticks st)\<rparr>], most_recent_index := i,
                flag_killed_child := False, alarm_on := True\<rparr> in
          andThen (deliver_all E (during_read E (ticks st)) st') (\<lambda>st'.
            let st' = (if read_result E (ticks st) \<ge> 0 then st'\<lparr>alarm_on := False\<rparr> else st') in
            Ret (False, emit (Sf_active (name_at st' i) (fork_result E (ticks st))) (set_status i status_active st')))
        else andThen (child_process E (daemons s1 ! i)) (\<lambda>im. Stuck Image_replaced)) = Ret x"
    using assms unfolding start_process_def Let_def t s0_def by (simp only: not_not if_False andThen_Ret_iff simp_thms) blast
  show thesis by (rule that[OF _ s1 r]) (simp add: s0_def)
qed

lemma start_process_keeps:
  assumes "start_process E i st = Ret (failed, st')"
  shows "keeps {i} st st'"
proof -
  have k0: "keeps {i} st s" if "daemons s = daemons (set_status i status_starting st)" for s
    by (rule keeps_to[OF that keeps_set_status]) simp
  have k1: "keeps {i} st (set_status i x s)" if "keeps {i} st s" for x s
    by (rule keeps_trans[OF that keeps_set_status]) simp
  let ?s = "set_status i status_starting st"
  let ?t = "ticks st"
  show ?thesis
  proof (cases "pipe_ok E ?t")
    case False
    then have "st' = set_status i status_inactive (emit (Sf_error ''error in pipe'') (tick ?s))"
      using assms by (simp add: start_process_def Let_def)
    then show ?thesis by (simp only:) (rule k1, rule k0, simp)
  next
    case pipe: True
    obtain s0 s1 where s0: "s0 = tick ?s \<or> s0 = (tick ?s)\<lparr>chld_pending := False\<rparr>" and s1: "unblock E s0 = Ret s1"
      and r: "(if fork_result E ?t = -1 then Ret (True, set_status i status_inactive (emit (Sf_error ''error in forking child!'') s1))
        else if fork_result E ?t > 0
        then let st = s1\<lparr>daemons := (daemons s1)[i := (daemons s1 ! i)\<lparr>d_pid := fork_result E ?t\<rparr>], most_recent_index := i,
                flag_killed_child := False, alarm_on := True\<rparr> in
          andThen (deliver_all E (during_read E ?t) st) (\<lambda>st.
            let st = (if read_result E ?t \<ge> 0 then st\<lparr>alarm_on := False\<rparr> else st) in
            Ret (False, emit (Sf_active (name_at st i) (fork_result E ?t)) (set_status i status_active st)))
        else andThen (child_process E (daemons s1 ! i)) (\<lambda>im. Stuck Image_replaced)) = Ret (failed, st')"
      by (rule start_process_ret[OF assms pipe])
    have "daemons s0 = daemons ?s" using s0 by auto
    then have ks1: "keeps {i} st s1" by (rule keeps_trans[OF k0 keeps_mono[OF unblock_keeps[OF s1]]])
    show ?thesis
    proof (cases "fork_result E ?t = -1")
      case True
      then have "st' = set_status i status_inactive (emit (Sf_error ''error in forking child!'') s1)" using r by simp
      then show ?thesis by (simp only:) (rule k1, rule keeps_to[OF _ ks1], simp)
    next
      case False
      then have p: "fork_result E ?t > 0" using r by (auto simp: andThen_def split: outcome.splits if_splits)
      define s2 where "s2 = s1\<lparr>daemons := (daemons s1)[i := (daemons s1 ! i)\<lparr>d_pid := fork_result E ?t\<rparr>], most_recent_index := i,
        flag_killed_child := False, alarm_on := True\<rparr>"
      have ks2: "keeps {i} st s2"
        using keeps_to[OF _ keeps_trans[OF ks1 keeps_set_pid[of "{i}" s1 i "fork_result E ?t"]]] by (simp add: s2_def)
      obtain y where y: "deliver_all E (during_read E ?t) s2 = Ret y" "daemons st' = daemons (set_status i status_active y)"
        using r p by (auto simp: Let_def andThen_Ret_iff s2_def split: if_splits) (auto simp: set_status_def)
      have "keeps {i} st y" using keeps_trans[OF ks2 keeps_mono[OF deliver_all_keeps[OF y(1)]]] .
      then show ?thesis using keeps_to[OF y(2) k1] by blast
    qed
  qed
qed

lemma rotate_loop_keeps: "rotate_loop E name js k st = Ret st' \<Longrightarrow> daemons st' = daemons st \<and> chld_blocked st' = chld_blocked st"
proof (induction js arbitrary: k st)
  case (Cons j js)
  then obtain lpath p_path where "log_path E name (''.log.'' @ [digits ! k]) = Ret lpath" "log_path E name (''.log.'' @ [digits ! (k - 1)]) = Ret p_path"
    by (auto simp: andThen_Ret_iff)
  then show ?case using Cons.prems Cons.IH[of "k + 1"]
    by (auto simp: rename_def remove_file_def split: if_splits)
qed simp

lemma read_word_same: "read_word lst st = Ret (w, l, st') \<Longrightarrow> daemons st' = daemons st"
  by (auto simp: read_word_def andThen_Ret_iff)

lemma skip_rest_same: "skip_rest st = Ret st' \<Longrightarrow> daemons st' = daemons st"
  by (auto simp: skip_rest_def andThen_Ret_iff)

lemma find_daemon_some: "find_daemon name ds = Some i \<Longrightarrow> i < length ds \<and> d_using (ds ! i) \<and> d_name (ds ! i) = name"
  by (induction ds arbitrary: i) (auto split: if_splits)

lemma find_daemon_none: "find_daemon name ds = None \<longleftrightarrow> (\<forall>d\<in>set ds. \<not> (d_using d \<and> d_name d = name))"
  by (induction ds) auto

text \<open>
  What a command does to the table: it keeps the entries, takes one out of use that is inactive, or
  adds one with a new name. A daemon that is stopping stays so in all three cases.
\<close>

definition table_step :: "legion \<Rightarrow> legion \<Rightarrow> bool" where
  "table_step st st' \<longleftrightarrow> (\<forall>i. is_lost i st \<longrightarrow> is_lost i st') \<and>
     (entries st' = entries st \<or>
      (\<exists>i<length (daemons st). entries st' = (entries st)[i := (d_name (daemons st ! i), False)]) \<or>
      (\<exists>name. find_daemon name (daemons st) = None \<and> entries st' = entries st @ [(name, True)]))"

lemma table_keeps: "keeps {} st st' \<Longrightarrow> table_step st st'"
  by (simp add: keeps_def table_step_def)

lemma table_from: "daemons s = daemons st \<Longrightarrow> table_step s st' \<Longrightarrow> table_step st st'"
  by (simp add: table_step_def entries_def is_lost_def)

lemma table_emit: "daemons st' = daemons st \<Longrightarrow> table_step st st'"
  by (intro table_keeps keeps_same)

lemma keeps_not_lost: "keeps {i} st st' \<Longrightarrow> \<not> is_lost i st \<Longrightarrow> keeps {} st st'"
  by (auto simp: keeps_def)

text \<open>The usage error of a command with one argument.\<close>

lemma usage_step: "andThen (skip_rest st) (sf_error msg) = Ret st' \<Longrightarrow> table_step st st'"
  by (auto simp: andThen_Ret_iff sf_error_def dest!: skip_rest_same intro!: table_emit)

lemma error_step: "sf_error msg st = Ret st' \<Longrightarrow> table_step st st'"
  by (auto simp: sf_error_def intro!: table_emit)

lemma stop_command_step:
  assumes "stop_command E st = Ret st'"
  shows "table_step st st'"
proof -
  obtain name l s where r: "read_word False st = Ret (name, l, s)" using assms by (auto simp: stop_command_def andThen_Ret_iff)
  show ?thesis
  proof (rule table_from[OF read_word_same[OF r]], cases "l \<and> find_daemon name (daemons s) \<noteq> None")
    case False
    then show "table_step s st'" using assms r usage_step error_step
      by (cases l) (auto simp: stop_command_def)
  next
    case True
    then obtain i where i: "l" "find_daemon name (daemons s) = Some i" by auto
    let ?st = "d_status (daemons s ! i)"
    consider "?st = ''exited'' \<or> ?st = ''crashed''" | "?st \<noteq> ''exited''" "?st \<noteq> ''crashed''" "?st \<noteq> ''active''" | "?st = ''active''" by blast
    then have "keeps {} s st'"
    proof cases
      case 1
      then have "st' = emit (Sf_reset (name_at s i)) (set_status i status_inactive s)" using assms r i by (simp add: stop_command_def)
      moreover have "keeps {} s (set_status i status_inactive s)" by (rule keeps_set_status) (use 1 in auto)
      ultimately show ?thesis using keeps_to[of st' "set_status i status_inactive s"] by simp
    next
      case 2
      then show ?thesis using assms r i by (auto simp: stop_command_def sf_error_def intro!: keeps_same)
    next
      case 3
      then obtain y where "stop_and_wait E i s = Ret y" "daemons st' = daemons y"
        using assms r i by (auto simp: stop_command_def andThen_Ret_iff split: if_splits)
      then show ?thesis using keeps_to stop_and_wait_keeps by blast
    qed
    then show "table_step s st'" by (rule table_keeps)
  qed
qed

lemma start_command_step:
  assumes "start_command E st = Ret st'"
  shows "table_step st st'"
proof -
  obtain name l s where r: "read_word False st = Ret (name, l, s)" using assms by (auto simp: start_command_def andThen_Ret_iff)
  show ?thesis
  proof (rule table_from[OF read_word_same[OF r]], cases "l \<and> find_daemon name (daemons s) \<noteq> None")
    case False
    then show "table_step s st'" using assms r usage_step error_step by (cases l) (auto simp: start_command_def)
  next
    case True
    then obtain i where i: "l" "find_daemon name (daemons s) = Some i" by auto
    show "table_step s st'"
    proof (cases "d_status (daemons s ! i) = ''inactive''")
      case False
      then show ?thesis using assms r i error_step by (auto simp: start_command_def)
    next
      case True
      then have "start_process E i s = Ret (False, st')" using assms r i by (auto simp: start_command_def andThen_Ret_iff split: if_splits)
      from keeps_not_lost[OF start_process_keeps[OF this]] True show ?thesis by (intro table_keeps) (simp add: is_lost_def)
    qed
  qed
qed

lemma rotate_daemon_step:
  assumes "rotate_daemon E i st = Ret st'"
  shows "table_step st st'"
proof -
  obtain path where p: "log_path E (name_at st i) ''.log.0'' = Ret path" using assms by (auto simp: rotate_daemon_def andThen_Ret_iff)
  show ?thesis
  proof (cases "file_exists path st")
    case False
    then show ?thesis using assms p error_step by (simp add: rotate_daemon_def)
  next
    case ex: True
    show ?thesis
    proof (cases "d_status (daemons st ! i) = ''active''")
      case False
      then obtain y where "rotate_loop E (name_at st i) [1 ..< LOG_VERSIONS] 1 st = Ret y" "daemons st' = daemons y"
        using assms p ex by (auto simp: rotate_daemon_def andThen_Ret_iff Let_def)
      then show ?thesis using rotate_loop_keeps by (intro table_emit) auto
    next
      case True
      define err where "err = (\<lambda>x. if flag_error_stop x then emit (Sf_error ''an error occurred in stop'') x else x)"
      obtain x z v where v: "stop_and_wait E i st = Ret x" "rotate_loop E (name_at (err x) i) [1 ..< LOG_VERSIONS] 1 (err x) = Ret z"
        "start_process E i (emit (Sf_logrotate (name_at z i)) z) = Ret (v, st')"
        using assms p ex True by (auto simp: rotate_daemon_def andThen_Ret_iff Let_def sf_error_def err_def split: if_splits)
      have e: "daemons (err x) = daemons x" by (simp add: err_def)
      have "keeps {i} st x" using stop_and_wait_keeps[OF v(1)] keeps_mono by blast
      moreover have "keeps {i} x (emit (Sf_logrotate (name_at z i)) z)"
        using rotate_loop_keeps[OF v(2)] e by (intro keeps_same) simp
      ultimately have "keeps {i} st st'" using keeps_trans start_process_keeps[OF v(3)] by blast
      from keeps_not_lost[OF this] True show ?thesis by (intro table_keeps) (simp add: is_lost_def)
    qed
  qed
qed

lemma logrotate_command_step:
  assumes "logrotate_command E st = Ret st'"
  shows "table_step st st'"
proof -
  obtain name l s where r: "read_word False st = Ret (name, l, s)" using assms by (auto simp: logrotate_command_def andThen_Ret_iff)
  show ?thesis
    by (rule table_from[OF read_word_same[OF r]], cases l; cases "find_daemon name (daemons s)")
       (use assms r usage_step error_step rotate_daemon_step in \<open>auto simp: logrotate_command_def\<close>)
qed

lemma status_command_step:
  assumes "status_command st = Ret st'"
  shows "table_step st st'"
proof -
  obtain name l s where r: "read_word False st = Ret (name, l, s)" using assms by (auto simp: status_command_def andThen_Ret_iff)
  show ?thesis
    by (rule table_from[OF read_word_same[OF r]], cases l; cases "find_daemon name (daemons s)")
       (use assms r usage_step in \<open>auto simp: status_command_def intro!: table_emit\<close>)
qed

lemma add_daemon_step: "find_daemon name (daemons st) = None \<Longrightarrow> table_step st (add_daemon name x a st)"
  by (auto simp: table_step_def add_daemon_def entries_def is_lost_def nth_append)

lemma register_command_ret:
  assumes "register_command st = Ret st'"
  obtains name s x l t u a where "read_word False st = Ret (name, False, s)" "find_daemon name (daemons s) = None"
    "read_word False s = Ret (x, l, t)" "u = t \<or> (\<exists>i. u = t\<lparr>input := i\<rparr>)" "st' = add_daemon name x a u"
proof -
  obtain name s where r: "read_word False st = Ret (name, False, s)" using assms by (auto simp: register_command_def andThen_Ret_iff split: if_splits)
  define ex where "ex = (find_daemon name (daemons s) \<noteq> None)"
  define v where "v = (if ex then emit (Sf_error ''Daemon already exists!'') s else s)"
  obtain x l t where t: "read_word False v = Ret (x, l, t)" using assms r by (auto simp: register_command_def andThen_Ret_iff Let_def v_def ex_def)
  have e: "(if l then (if ex then Stuck Use_after_free else Ret (add_daemon name x None t))
      else andThen (at_eof t (get_arg_vector_for_daemon (input t))) (\<lambda>(args, sa).
        if ex then Stuck Use_after_free else Ret (add_daemon name x (Some args) (t\<lparr>input := sa\<rparr>)))) = Ret st'"
    using assms r t unfolding register_command_def Let_def v_def ex_def by simp
  then have nx: "\<not> ex" by (cases ex) (auto simp: andThen_def split: if_splits outcome.splits)
  note p = that[OF r _ t[unfolded v_def if_not_P[OF nx]]]
  show thesis
  proof (cases l)
    case True
    then have "st' = add_daemon name x None t" using e nx by simp
    then show thesis using p[of t None] nx ex_def by simp
  next
    case False
    then obtain a i where "st' = add_daemon name x (Some a) (t\<lparr>input := i\<rparr>)" using e nx by (auto simp: andThen_Ret_iff)
    then show thesis using p[of "t\<lparr>input := i\<rparr>" "Some a"] nx ex_def by blast
  qed
qed

lemma register_command_step:
  assumes "register_command st = Ret st'"
  shows "table_step st st'"
proof -
  obtain name s x l t u a where r: "read_word False st = Ret (name, False, s)" and new: "find_daemon name (daemons s) = None"
    and t: "read_word False s = Ret (x, l, t)" and u: "u = t \<or> (\<exists>i. u = t\<lparr>input := i\<rparr>)" and st': "st' = add_daemon name x a u"
    by (rule register_command_ret[OF assms])
  have d: "daemons u = daemons s" using read_word_same[OF t] u by auto
  then have "table_step u st'" using new add_daemon_step st' by simp
  then have "table_step s st'" using table_from d by metis
  then show ?thesis by (rule table_from[OF read_word_same[OF r]])
qed

lemma unregister_command_step:
  assumes "unregister_command st = Ret st'"
  shows "table_step st st'"
proof -
  obtain name s where r: "read_word False st = Ret (name, True, s)" using assms by (auto simp: unregister_command_def andThen_Ret_iff split: if_splits)
  show ?thesis
  proof (rule table_from[OF read_word_same[OF r]], cases "find_daemon name (daemons s)")
    case None
    then show "table_step s st'" using assms r error_step by (simp add: unregister_command_def)
  next
    case (Some i)
    note i = find_daemon_some[OF Some]
    show "table_step s st'"
    proof (cases "d_status (daemons s ! i) = ''inactive''")
      case False
      then show ?thesis using assms r Some error_step by (simp add: unregister_command_def)
    next
      case True
      then have "st' = emit (Sf_unregister name) (s\<lparr>daemons := (daemons s)[i := (daemons s ! i)\<lparr>d_using := False\<rparr>]\<rparr>)"
        using assms r Some by (simp add: unregister_command_def)
      then have "entries st' = (entries s)[i := (d_name (daemons s ! i), False)]" "\<forall>k. is_lost k s \<longrightarrow> is_lost k st'"
        using True i by (auto simp: entries_def map_update is_lost_def nth_list_update)
      then show ?thesis using i unfolding table_step_def by blast
    qed
  qed
qed

lemma if_branch: "(if c then a else b) = Ret x \<Longrightarrow> (a = Ret x \<Longrightarrow> Q) \<Longrightarrow> (b = Ret x \<Longrightarrow> Q) \<Longrightarrow> Q"
  by (cases c) simp_all

lemma go_on: "andThen r (\<lambda>st. Ret (True, st)) = Ret (go, st') \<Longrightarrow> r = Ret st'"
  by (cases r) simp_all

lemma other_command_step: "other_command l st = Ret st' \<Longrightarrow> table_step st st'"
  by (auto simp: other_command_def Let_def split: if_splits dest!: skip_rest_same intro!: table_emit)

lemma status_all_command_step: "status_all_command st = Ret st' \<Longrightarrow> table_step st st'"
  by (auto simp: status_all_command_def intro!: table_emit)

lemmas command_steps = stop_command_step start_command_step status_command_step register_command_step status_all_command_step
  unregister_command_step logrotate_command_step other_command_step

lemma dispatch_step:
  assumes "dispatch E command l st = Ret (go, st')"
  shows "table_step st st'"
  using assms unfolding dispatch_def Let_def
  by (elim if_branch; (drule go_on)?) (auto simp: andThen_Ret_iff intro: command_steps table_emit)

section \<open>Runs\<close>

text \<open>The supervisor takes a line, or a signal.\<close>

inductive legion_step :: "os \<Rightarrow> legion \<Rightarrow> legion \<Rightarrow> bool" for E where
  a_line: "legion_step E st st'" if "read_word False (emit (Printed ''legion> '') st) = Ret (command, l, s)" "dispatch E command l s = Ret (True, st')"
| a_signal: "legion_step E st st'" if "deliver E s st = Ret st'"

lemma legion_step_table: "legion_step E st st' \<Longrightarrow> table_step st st'"
proof (induction rule: legion_step.induct)
  case (a_line st command l s st')
  then have "daemons s = daemons st" using read_word_same by fastforce
  then show ?case using table_from dispatch_step[OF a_line(2)] by blast
next
  case (a_signal s st st')
  then show ?case using deliver_keeps table_keeps by blast
qed

definition names_unique :: "legion \<Rightarrow> bool" where
  "names_unique st \<longleftrightarrow> distinct (map fst (filter snd (entries st)))"

lemma names_unique_update:
  "distinct (map fst (filter snd es)) \<Longrightarrow> distinct (map fst (filter snd (es[i := (n, False)])))"
proof (induction es arbitrary: i)
  case (Cons e es)
  have "set (map fst (filter snd (es[k := (n, False)]))) \<subseteq> set (map fst (filter snd es))" for k
    by (auto simp: image_iff dest!: set_update_subset_insert[THEN subsetD])
  then show ?case using Cons by (cases i) (auto split: if_splits)
qed simp

lemma table_step_unique: "table_step st st' \<Longrightarrow> names_unique st \<Longrightarrow> names_unique st'"
proof -
  assume t: "table_step st st'" and u: "names_unique st"
  have "distinct (map fst (filter snd (entries st @ [(name, True)])))" if "find_daemon name (daemons st) = None" for name
    using u that unfolding names_unique_def find_daemon_none by (force simp: entries_def)
  then show ?thesis using t u names_unique_update unfolding table_step_def names_unique_def by metis
qed

lemma distinct_filter_nth:
  assumes "distinct (map fst (filter snd es))" "k < length es" "i < length es" "es ! k = (n, True)" "es ! i = (n, True)"
  shows "k = i"
  using assms
proof (induction es arbitrary: i k)
  case (Cons e es)
  have "n \<in> set (map fst (filter snd es))" if "es ! j = (n, True)" "j < length es" for j
    using that by (force simp: in_set_conv_nth image_iff)
  then show ?case using Cons by (cases i; cases k) (auto split: if_splits)
qed simp

text \<open>
  C17: Under any sequence of command lines and signals, at most one daemon in use has a given
  name, and it is the one every command finds for that name.
\<close>

theorem names_stay_unique:
  assumes "(legion_step E)\<^sup>*\<^sup>* st st'" "names_unique st" "find_daemon name (daemons st') = Some i"
    "k < length (daemons st')" "d_using (daemons st' ! k)" "d_name (daemons st' ! k) = name"
  shows "k = i"
proof -
  have "names_unique st'" using assms(1,2) by (induction rule: rtranclp_induct) (auto dest: legion_step_table table_step_unique)
  then have u: "distinct (map fst (filter snd (entries st')))" by (simp add: names_unique_def)
  have i: "i < length (daemons st')" "entries st' ! i = (name, True)"
    using find_daemon_some[OF assms(3)] by (auto simp: entries_def)
  have k: "entries st' ! k = (name, True)" using assms(4-6) by (simp add: entries_def)
  have l: "length (entries st') = length (daemons st')" by (simp add: entries_def)
  show ?thesis using distinct_filter_nth[OF u, of k i] i k l assms(4) by simp
qed

section \<open>Stopping\<close>

lemma sigchld_none: "\<forall>k\<in>set is. \<not> (d_using (daemons st ! k) \<and> d_status (daemons st ! k) = ''active'') \<Longrightarrow> sigchld_loop E is x st = Ret st"
  by (induction "is") auto

lemma read_last: "get_word_from_args False (input st) = Ret (name, l, rest) \<Longrightarrow> read_word False st = Ret (name, l, st\<lparr>input := rest\<rparr>)"
  by (simp add: read_word_def at_eof_def)

text \<open>
  A daemon that ends in time after \<open>stop\<close> is waited for by nobody: its status stays \<open>stopping\<close> for good.
\<close>

lemma lost_forever: "(legion_step E)\<^sup>*\<^sup>* st st' \<Longrightarrow> is_lost i st \<Longrightarrow> is_lost i st'"
  by (induction rule: rtranclp_induct) (auto dest: legion_step_table simp: table_step_def)

text \<open>
  C8: Whenever stop of an active daemon returns, whatever the other daemons and the signals,
  SIGCHLD is left blocked, the daemon has the status stopping, and no later command or signal
  ever changes it: it can never be started, stopped or unregistered again. When SIGCHLD was
  not blocked (no stop before), the daemon ends in time and no other daemon is active, stop
  does return, having sent SIGTERM and reported no termination; an error is reported only if
  the flag of an earlier one was still set.
\<close>

theorem stopped_daemon_is_lost:
  assumes r: "get_word_from_args False (input st) = Ret (name, True, rest)"
    and i: "find_daemon name (daemons st) = Some i" "d_status (daemons st ! i) = ''active''"
  shows "(\<forall>st1. stop_command E st = Ret st1 \<longrightarrow> chld_blocked st1 \<and> d_status (daemons st1 ! i) = ''stopping'' \<and>
      (\<forall>st2. (legion_step E)\<^sup>*\<^sup>* st1 st2 \<longrightarrow> d_using (daemons st2 ! i) \<and> d_status (daemons st2 ! i) = ''stopping'')) \<and>
    (\<not> chld_blocked st \<and> wakes E (ticks st) = SIGCHLD \<and>
      (\<forall>k<length (daemons st). k \<noteq> i \<longrightarrow> \<not> (d_using (daemons st ! k) \<and> d_status (daemons st ! k) = ''active'')) \<longrightarrow>
      (\<exists>st1. stop_command E st = Ret st1 \<and>
        events st1 = events st @ [Sf_stop name (d_pid (daemons st ! i)), Killed (d_pid (daemons st ! i)) ''SIGTERM''] @
          (if flag_error_stop st then [Sf_error ''an error occurred in stop''] else [])))"
proof (intro conjI allI impI)
  note f = find_daemon_some[OF i(1)]
  let ?u = "st\<lparr>input := rest\<rparr>"
  define fin where "fin = (\<lambda>y. if flag_error_stop y then (emit (Sf_error ''an error occurred in stop'') y)\<lparr>flag_error_stop := False\<rparr>
    else if flag_child_exited y then y\<lparr>flag_child_exited := False\<rparr> else y)"
  have fin: "daemons (fin y) = daemons y" "chld_blocked (fin y) = chld_blocked y" for y by (simp_all add: fin_def)
  have stop: "stop_command E st = andThen (stop_and_wait E i ?u) (\<lambda>y. Ret (fin y))"
    using i by (cases "stop_and_wait E i ?u") (simp_all add: stop_command_def read_last[OF r] fin_def)
  {
    fix st1 assume "stop_command E st = Ret st1"
    then obtain y where y: "stop_and_wait E i ?u = Ret y" "st1 = fin y" by (auto simp: stop andThen_Ret_iff)
    note k = stop_and_wait_keeps[OF y(1)]
    have l: "is_lost i st1" using k f by (simp add: y(2) fin is_lost_def)
    show "chld_blocked st1" "d_status (daemons st1 ! i) = ''stopping''" using k l by (simp_all add: y(2) fin is_lost_def)
    show "d_using (daemons st2 ! i)" "d_status (daemons st2 ! i) = ''stopping''" if "(legion_step E)\<^sup>*\<^sup>* st1 st2" for st2
      using lost_forever[OF that l] by (simp_all add: is_lost_def)
  next
    assume os: "\<not> chld_blocked st \<and> wakes E (ticks st) = SIGCHLD \<and>
      (\<forall>k<length (daemons st). k \<noteq> i \<longrightarrow> \<not> (d_using (daemons st ! k) \<and> d_status (daemons st ! k) = ''active''))"
    let ?s = "stop_sent i ?u"
    have "\<forall>k\<in>set [0 ..< length (daemons ?s)]. \<not> (d_using (daemons ?s ! k) \<and> d_status (daemons ?s ! k) = ''active'')"
      using os f by (auto simp: set_status_nth)
    then have "deliver_all E (stop_wakes E ?u) ?s = Ret ?s"
      using os sigchld_none[of _ ?s E 0] by (simp add: stop_wakes_def deliver_def handle_sigchld_def)
    then have "stop_command E st = Ret (fin (?s\<lparr>alarm_on := False, chld_blocked := True\<rparr>))" by (simp add: stop stop_and_wait_eq)
    then show "\<exists>st1. stop_command E st = Ret st1 \<and>
        events st1 = events st @ [Sf_stop name (d_pid (daemons st ! i)), Killed (d_pid (daemons st ! i)) ''SIGTERM''] @
          (if flag_error_stop st then [Sf_error ''an error occurred in stop''] else [])"
      using f by (simp add: fin_def)
  }
qed

text \<open>
  A stop leaves \<open>SIGCHLD\<close> blocked, and the next one waits under that mask: only its alarm can wake it, so
  the daemon is killed and an error is reported however fast it ends.
\<close>

theorem second_stop_kills:
  assumes r: "get_word_from_args False (input st) = Ret (name, True, rest)"
    and i: "find_daemon name (daemons st) = Some i" "d_status (daemons st ! i) = ''active''" and b: "chld_blocked st" "wakes E (ticks st) \<noteq> SIGINT"
  shows "\<exists>st1. stop_command E st = Ret st1 \<and> chld_blocked st1 \<and> d_status (daemons st1 ! i) = ''stopping'' \<and>
    (let p = d_pid (daemons st ! i) in
     events st1 = events st @ [Sf_stop name p, Killed p ''SIGTERM'', Killed p ''SIGKILL'', Sf_kill name p, Sf_error ''an error occurred in stop''])"
proof -
  note f = find_daemon_some[OF i(1)]
  have "\<exists>y. stop_and_wait E i (st\<lparr>input := rest\<rparr>) = Ret y \<and> flag_error_stop y \<and> chld_blocked y \<and> d_status (daemons y ! i) = ''stopping'' \<and>
      events y = events st @ [Sf_stop name (pid_at st i), Killed (pid_at st i) ''SIGTERM'', Killed (pid_at st i) ''SIGKILL'', Sf_kill name (pid_at st i)]"
    using f b by (cases "wakes E (ticks st)") (simp_all add: stop_and_wait_eq stop_wakes_def Let_def deliver_def handle_sigalrm_def set_status_nth)
  then obtain y where y: "stop_and_wait E i (st\<lparr>input := rest\<rparr>) = Ret y" "flag_error_stop y" "chld_blocked y" "d_status (daemons y ! i) = ''stopping''"
      "events y = events st @ [Sf_stop name (pid_at st i), Killed (pid_at st i) ''SIGTERM'', Killed (pid_at st i) ''SIGKILL'', Sf_kill name (pid_at st i)]"
    by blast
  have "stop_command E st = Ret ((emit (Sf_error ''an error occurred in stop'') y)\<lparr>flag_error_stop := False\<rparr>)"
    using i y(1,2) by (simp add: stop_command_def read_last[OF r])
  then show ?thesis using y(3-5) by simp
qed

section \<open>Starting\<close>

text \<open>A daemon that does not answer in time is killed, and then reported and kept as active.\<close>

theorem start_timeout_active:
  assumes r: "get_word_from_args False (input st) = Ret (name, True, rest)"
    and i: "find_daemon name (daemons st) = Some i" "d_status (daemons st ! i) = ''inactive''"
    and os: "pipe_ok E (ticks st)" "fork_result E (ticks st) = p" "0 < p" "during_read E (ticks st) = [Timer_expires]" "0 \<le> read_result E (ticks st)"
    and n: "\<not> chld_pending st"
  shows "\<exists>st1. start_command E st = Ret st1 \<and> d_status (daemons st1 ! i) = ''active'' \<and> d_pid (daemons st1 ! i) = p \<and>
    flag_killed_child st1 \<and> events st1 = events st @ [Killed p ''SIGKILL'', Sf_kill name p, Sf_active name p]"
proof -
  note f = find_daemon_some[OF i(1)]
  have "\<exists>y. start_process E i (st\<lparr>input := rest\<rparr>) = Ret (False, y) \<and> d_status (daemons y ! i) = ''active'' \<and> d_pid (daemons y ! i) = p \<and>
      flag_killed_child y \<and> events y = events st @ [Killed p ''SIGKILL'', Sf_kill name p, Sf_active name p]"
    using f os n by (simp add: start_process_def Let_def unblock_def deliver_def handle_sigalrm_def set_status_def)
  then show ?thesis using i by (auto simp: start_command_def read_last[OF r])
qed

section \<open>Log rotation\<close>

definition log_file :: "string \<Rightarrow> nat \<Rightarrow> string" where
  "log_file name v = ''logs/'' @ name @ ''.log.'' @ [digits ! v]"

lemma log_path_room: "length name + 7 \<le> slack E \<Longrightarrow> log_path E name (''.log.'' @ [digits ! v]) = Ret (log_file name v)"
  by (simp add: log_path_def strcpy_def strcat_def log_file_def)

lemma log_file_inj: "v < 10 \<Longrightarrow> w < 10 \<Longrightarrow> log_file name v = log_file name w \<Longrightarrow> v = w"
  using nth_eq_iff_index_eq[of digits v w] by (simp add: log_file_def digits_def)

lemma rotate_loop_step:
  assumes "length name + 7 \<le> slack E"
  shows "rotate_loop E name (j # js) k st =
    (if files st (log_file name k) = None then Ret (rename (log_file name (k - 1)) (log_file name k) st)
     else rotate_loop E name js (k + 1) (if j = 6 then remove_file (log_file name k) st else st))"
  unfolding rotate_loop.simps log_path_room[OF assms] andThen_simps by (simp add: file_exists_def LOG_VERSIONS_def)

lemma rotate_loop_from:
  assumes "length name + 7 \<le> slack E" "0 < k" "k \<le> 7"
  shows "rotate_loop E name [k ..< 7] k st = Ret (st\<lparr>files :=
    (case find (\<lambda>v. files st (log_file name v) = None) [k ..< 7] of
       Some v \<Rightarrow> if files st (log_file name (v - 1)) = None then files st
         else (files st)(log_file name v := files st (log_file name (v - 1)), log_file name (v - 1) := None)
     | None \<Rightarrow> if k < 7 then (files st)(log_file name 6 := None) else files st)\<rparr>)"
  using assms(2,3)
proof (induction "7 - k" arbitrary: k st)
  case (Suc d)
  then have k: "[k ..< 7] = k # [Suc k ..< 7]" by (simp add: upt_conv_Cons)
  show ?case
  proof (cases "files st (log_file name k) = None")
    case True
    then show ?thesis by (simp add: k rotate_loop_step[OF assms(1)] rename_def del: rotate_loop.simps(2))
  next
    case False
    then obtain y where y: "files st (log_file name k) = Some y" by auto
    show ?thesis
    proof (cases "k = 6")
      case True
      then show ?thesis using y by (simp add: k rotate_loop_step[OF assms(1)] remove_file_def del: rotate_loop.simps(2))
    next
      case k6: False
      then have "rotate_loop E name [k ..< 7] k st = rotate_loop E name [Suc k ..< 7] (Suc k) st"
        using y by (simp add: k rotate_loop_step[OF assms(1)] del: rotate_loop.simps(2))
      moreover have "Suc k \<le> 7" "Suc k < 7" using Suc k6 by simp_all
      ultimately show ?thesis using Suc.hyps(1)[of "Suc k" st] Suc.hyps(2) y by (simp add: k)
    qed
  qed
qed simp

theorem rotate_moves_one:
  assumes "length name + 7 \<le> slack E"
  shows "rotate_loop E name [1 ..< LOG_VERSIONS] 1 st = Ret (st\<lparr>files :=
    (case find (\<lambda>v. files st (log_file name v) = None) [1 ..< 7] of
       Some v \<Rightarrow> if files st (log_file name (v - 1)) = None then files st
         else (files st)(log_file name v := files st (log_file name (v - 1)), log_file name (v - 1) := None)
     | None \<Rightarrow> (files st)(log_file name 6 := None))\<rparr>)"
  using rotate_loop_from[OF assms, of 1 st] by (simp add: LOG_VERSIONS_def)

text \<open>Without a byte to spare behind the arrays nothing of this happens: the first copy overflows.\<close>

lemma rotate_overflows: "slack E = 0 \<Longrightarrow> rotate_daemon E i st = Stuck Out_of_bounds"
  by (simp add: rotate_daemon_def log_path_def strcpy_def)

lemma child_overflows: "slack E = 0 \<Longrightarrow> child_process E d = Stuck Out_of_bounds"
  by (simp add: child_process_def strcat_def)

end
