(* ===== verification/Legion_Loop.thy ===== *)
theory Legion_Loop imports Legion_Props begin

text \<open>
  The command loop of hw4 ends on every input: no operation of the supervisor loops, each round reads at
  least one character, and the end of the input ends the program.
\<close>

section \<open>The loop ends\<close>

text \<open>No operation loops, none puts characters back into the input, and none waits for ever unless the flag says so.\<close>

definition settles :: "bool \<Rightarrow> nat \<Rightarrow> ('a \<Rightarrow> nat) \<Rightarrow> 'a outcome \<Rightarrow> bool" where
  "settles B n f r \<longleftrightarrow> r \<noteq> Stuck Diverges \<and> (r = Stuck Blocked \<longrightarrow> B) \<and> (\<forall>x. r = Ret x \<longrightarrow> f x \<le> n)"

text \<open>Some wait for a child finds it running.\<close>

definition child_runs :: "os \<Rightarrow> bool" where
  "child_runs E \<longleftrightarrow> (\<exists>t p. waits E t p = Still_running)"

abbreviation left :: "legion \<Rightarrow> nat" where "left st \<equiv> length (input st)"

lemma settles_Ret [simp]: "settles B n f (Ret x) \<longleftrightarrow> f x \<le> n"
  by (simp add: settles_def)

lemma settles_Stuck [simp]: "settles B n f (Stuck e) \<longleftrightarrow> e \<noteq> Diverges \<and> (e = Blocked \<longrightarrow> B)"
  by (simp add: settles_def)

lemma settles_andThen: "settles B n f m \<Longrightarrow> (\<And>x. m = Ret x \<Longrightarrow> f x \<le> n \<Longrightarrow> settles B n g (k x)) \<Longrightarrow> settles B n g (andThen m k)"
  by (cases m) (auto simp: settles_def)

abbreviation ends :: "'a outcome \<Rightarrow> bool" where
  "ends r \<equiv> r \<noteq> Stuck Diverges \<and> r \<noteq> Stuck Blocked"

lemma free_args_settles: "ends (free_args ds)"
  by (induction ds) (auto split: option.splits)

lemma at_eof_settles: "ends r \<Longrightarrow> ends (at_eof st r)" "at_eof st r = Ret x \<Longrightarrow> r = Ret x"
  using free_args_settles[of "daemons st"]
  by (cases "free_args (daemons st)"; auto simp: at_eof_def free_daemon_list_def split: if_splits)+

lemma get_word_settles: "ends (get_word_from_args l s)"
  using get_word_total[of l s] by auto

lemma read_word_uses: "read_word l st = Ret (w, x, st') \<Longrightarrow> left st' < left st"
  by (auto simp: read_word_def andThen_Ret_iff dest!: at_eof_settles(2) get_word_uses)

lemma read_word_settles: "settles B (left st) (\<lambda>(w, x, s). left s) (read_word l st)"
proof -
  have "ends (read_word l st)"
    using at_eof_settles(1)[OF get_word_settles, of st l "input st"] by (auto simp: read_word_def andThen_def split: outcome.splits prod.splits)
  then show ?thesis using read_word_uses by (fastforce simp: settles_def)
qed

lemma skip_line_uses: "skip_line fuel s = Ret s' \<Longrightarrow> length s' < length s"
proof (induction fuel arbitrary: s)
  case (Suc fuel)
  then obtain w l r where r: "get_word_from_args False s = Ret (w, l, r)" "(if l then Ret r else skip_line fuel r) = Ret s'"
    by (auto simp: andThen_Ret_iff)
  then show ?case using get_word_uses[OF r(1)] Suc.IH[of r] by (cases l) auto
qed simp

lemma skip_rest_settles: "settles B (left st) left (skip_rest st)"
proof -
  have "ends (skip_line (Suc (left st)) (input st))" using skip_line_total[of "input st" "Suc (left st)"] by auto
  from at_eof_settles(1)[OF this, of st] have "ends (skip_rest st)"
    by (auto simp: skip_rest_def andThen_def split: outcome.splits)
  moreover have "left st' \<le> left st" if "skip_rest st = Ret st'" for st'
    using that by (auto simp: skip_rest_def andThen_Ret_iff simp del: skip_line.simps dest!: at_eof_settles(2) skip_line_uses)
  ultimately show ?thesis by (simp add: settles_def)
qed

lemma arg_vector_settles: "length s < fuel \<Longrightarrow> settles B (length s) (\<lambda>(a, r). length r) (arg_vector_loop fuel n ws s)"
proof (induction fuel arbitrary: s n ws)
  case (Suc fuel)
  show ?case
  proof (cases "get_word_from_args False s = Stuck (Exit_called 0)")
    case False
    then obtain w l r where r: "get_word_from_args False s = Ret (w, l, r)" using get_word_total[of False s] by blast
    note u = get_word_uses[OF r]
    then have "settles B (length r) (\<lambda>(a, r). length r) (arg_vector_loop fuel (n + length w) (ws @ [w]) r)"
      using Suc by simp
    then have "settles B (length s) (\<lambda>(a, r). length r) (arg_vector_loop fuel (n + length w) (ws @ [w]) r)"
      using u unfolding settles_def by force
    then show ?thesis using r u by (simp add: Let_def)
  qed simp
qed simp

lemma sigchld_settles: "settles (child_runs E) (left st) left (sigchld_loop E is x st)"
proof (induction "is" arbitrary: x st)
  case (Cons i "is")
  have s: "settles (child_runs E) (left st) left (sigchld_loop E is y s)" if "input s = input st" for y s
    using Cons.IH[of s y] that by simp
  have runs: "child_runs E" if "waits E t p = Still_running" for t p using that by (auto simp: child_runs_def)
  have "settles (child_runs E) (left st) left (sigchld_loop E is x st)" by (rule s) simp
  then have t: "settles True (left st) left (sigchld_loop E is x st)" by (simp add: settles_def)
  show ?case
    by (cases "waits E (ticks st) (pid_at st i)") (auto simp: Let_def runs t intro!: s)
qed simp

lemma deliver_settles: "settles (child_runs E) (left st) left (deliver E s st)"
proof (cases s)
  case SIGCHLD
  then show ?thesis using sigchld_settles[of E st _ 0] by (simp add: deliver_def handle_sigchld_def)
next
  case SIGINT
  then show ?thesis using free_args_settles[of "daemons st"]
    by (cases "free_args (daemons st)") (auto simp: deliver_def handle_sigint_def free_daemon_list_def)
qed (simp_all add: deliver_def handle_sigalrm_def Let_def)

lemma unblock_settles: "settles (child_runs E) (left st) left (unblock E st)"
  using sigchld_settles[of E "st\<lparr>chld_blocked := False, chld_pending := False\<rparr>" _ 0] by (simp add: unblock_def handle_sigchld_def Let_def)

lemma deliver_all_settles: "settles (child_runs E) (left st) left (deliver_all E ss st)"
proof (induction ss arbitrary: st)
  case (Cons s ss)
  have "settles (child_runs E) (left st) left (deliver_all E ss x)" if "left x \<le> left st" for x
    using Cons.IH[of x] that unfolding settles_def by force
  then show ?case using settles_andThen[OF deliver_settles[of E st s], of left "deliver_all E ss"] by simp
qed simp

lemma settles_mono: "settles B n f r \<Longrightarrow> n \<le> m \<Longrightarrow> settles B m f r"
  unfolding settles_def by force

lemma stop_and_wait_settles: "settles (child_runs E) (left st) left (stop_and_wait E i st)"
  unfolding stop_and_wait_eq
  by (rule settles_andThen[OF settles_mono[OF deliver_all_settles]]) simp_all

lemma child_settles: "ends (child_process E d)"
  by (auto simp: child_process_def log_path_def strcpy_def strcat_def)

lemma start_process_settles: "settles (child_runs E) (left st) (\<lambda>(x, s). left s) (start_process E i st)"
proof -
  define s where "s = tick (set_status i status_starting st)"
  define u where "u = (if fork_result E (ticks st) = 0 then s\<lparr>chld_pending := False\<rparr> else s)"
  have u: "left u = left st" by (simp add: u_def s_def)
  have run: "settles (child_runs E) (left st) (\<lambda>(x, s). left s) (andThen (deliver_all E ss y) (\<lambda>st'.
      let st' = (if read_result E (ticks st) \<ge> 0 then st'\<lparr>alarm_on := False\<rparr> else st') in
      Ret (False, emit (Sf_active (name_at st' i) (fork_result E (ticks st))) (set_status i status_active st'))))"
    if "left y \<le> left st" for y ss
    by (rule settles_andThen[OF settles_mono[OF deliver_all_settles that]]) (simp add: Let_def)
  have child: "settles (child_runs E) (left st) (\<lambda>(x :: bool, s). left s) (andThen (child_process E d) (\<lambda>im. Stuck Image_replaced))" for d
    using child_settles[of E d] by (cases "child_process E d") simp_all
  have "settles (child_runs E) (left st) (\<lambda>(x, s). left s) (andThen (unblock E u) (\<lambda>st'.
      if fork_result E (ticks st) = -1
      then Ret (True, set_status i status_inactive (emit (Sf_error ''error in forking child!'') st'))
      else if fork_result E (ticks st) > 0
      then let st' = st'\<lparr>daemons := (daemons st')[i := (daemons st' ! i)\<lparr>d_pid := fork_result E (ticks st)\<rparr>], most_recent_index := i,
              flag_killed_child := False, alarm_on := True\<rparr> in
        andThen (deliver_all E (during_read E (ticks st)) st') (\<lambda>st'.
          let st' = (if read_result E (ticks st) \<ge> 0 then st'\<lparr>alarm_on := False\<rparr> else st') in
          Ret (False, emit (Sf_active (name_at st' i) (fork_result E (ticks st))) (set_status i status_active st')))
      else andThen (child_process E (daemons st' ! i)) (\<lambda>im. Stuck Image_replaced)))"
    by (rule settles_andThen[OF settles_mono[OF unblock_settles]]) (use child run u in \<open>simp_all add: Let_def\<close>)
  then show ?thesis unfolding start_process_def Let_def u_def s_def by (cases "pipe_ok E (ticks st)") (simp_all only: set_status_fields not_True_eq_False not_False_eq_True if_True if_False settles_Ret, simp)
qed

lemma rotate_loop_settles: "settles B (left st) left (rotate_loop E name js k st)"
proof (induction js arbitrary: k st)
  case (Cons j js)
  show ?case
  proof (cases "(\<exists>a b. log_path E name (''.log.'' @ [digits ! k]) = Ret a \<and> log_path E name (''.log.'' @ [digits ! (k - 1)]) = Ret b)")
    case True
    then obtain a b where "log_path E name (''.log.'' @ [digits ! k]) = Ret a" "log_path E name (''.log.'' @ [digits ! (k - 1)]) = Ret b" by blast
    then show ?thesis using Cons.IH[of st] Cons.IH[of "remove_file a st"]
      by (simp add: rename_def remove_file_def)
  next
    case False
    have "log_path E name x = Stuck Out_of_bounds \<or> (\<exists>a. log_path E name x = Ret a)" for x
      by (auto simp: log_path_def strcpy_def strcat_def)
    then show ?thesis using False unfolding rotate_loop.simps by (metis (no_types, lifting) andThen_simps fault.distinct settles_Stuck)
  qed
qed simp

lemmas settles_read = settles_andThen[OF read_word_settles]
lemmas settles_skip = settles_andThen[OF skip_rest_settles]

text \<open>A rest of the command that works on what \<open>read_word\<close> has left.\<close>

lemma settles_after_read:
  assumes "\<And>w l s. left s \<le> left st \<Longrightarrow> settles B (left s) f (k (w, l, s))"
  shows "settles B (left st) f (andThen (read_word b st) k)"
proof (rule settles_read)
  fix x :: "string \<times> bool \<times> legion" assume "(case x of (w, x, s) \<Rightarrow> left s) \<le> left st"
  then show "settles B (left st) f (k x)" using settles_mono[OF assms] by (cases x) auto
qed

lemma usage_settles: "settles B (left st) left (andThen (skip_rest st) (sf_error msg))"
  by (rule settles_skip) (simp add: sf_error_def)

lemma stop_command_settles: "settles (child_runs E) (left st) left (stop_command E st)"
  unfolding stop_command_def
  by (rule settles_after_read)
     (auto simp: usage_settles sf_error_def split: option.splits intro!: settles_andThen[OF stop_and_wait_settles])

lemma start_command_settles: "settles (child_runs E) (left st) left (start_command E st)"
  unfolding start_command_def
  by (rule settles_after_read)
     (auto simp: usage_settles sf_error_def split: option.splits intro!: settles_andThen[OF start_process_settles])

lemma status_command_settles: "settles B (left st) left (status_command st)"
  unfolding status_command_def
  by (rule settles_after_read) (auto simp: usage_settles split: option.splits)

lemma unregister_command_settles: "settles B (left st) left (unregister_command st)"
  unfolding unregister_command_def
  by (rule settles_after_read) (auto simp: sf_error_def split: option.splits)

lemma add_daemon_left [simp]: "left (add_daemon n x a st) = left st"
  by (simp add: add_daemon_def)

lemma get_args_settles: "settles B (left st) (\<lambda>(a, r). length r) (at_eof st (get_arg_vector_for_daemon (input st)))"
proof -
  let ?r = "get_arg_vector_for_daemon (input st)"
  have s: "settles B (left st) (\<lambda>(a, r). length r) ?r" for B
    unfolding get_arg_vector_for_daemon_def by (rule arg_vector_settles) simp
  have "ends (at_eof st ?r)" using s[of False] at_eof_settles(1)[of ?r st] by (simp add: settles_def)
  moreover have "length b \<le> left st" if "at_eof st ?r = Ret (a, b)" for a b
    using s[of B] at_eof_settles(2)[OF that] by (simp add: settles_def)
  ultimately show ?thesis by (simp add: settles_def)
qed

lemma register_command_settles: "settles B (left st) left (register_command st)"
  unfolding register_command_def
proof (rule settles_after_read, clarify)
  fix name l s
  define u where "u = (if find_daemon name (daemons s) \<noteq> None then emit (Sf_error ''Daemon already exists!'') s else s)"
  define ex where "ex = (find_daemon name (daemons s) \<noteq> None)"
  have "settles B (left u) left (andThen (read_word l u) (\<lambda>(executable, lst, st).
         if lst then (if ex then Stuck Use_after_free else Ret (add_daemon name executable None st))
         else andThen (at_eof st (get_arg_vector_for_daemon (input st))) (\<lambda>(args, s).
           if ex then Stuck Use_after_free else Ret (add_daemon name executable (Some args) (st\<lparr>input := s\<rparr>)))))"
    by (rule settles_after_read) (auto intro!: settles_andThen[OF get_args_settles])
  moreover have "left u = left s" by (simp add: u_def)
  ultimately show "settles B (left s) left (if l then Stuck Use_after_free
       else let exists = find_daemon name (daemons s) \<noteq> None; st = if exists then emit (Sf_error ''Daemon already exists!'') s else s in
       andThen (read_word l st) (\<lambda>(executable, lst, st).
         if lst then (if exists then Stuck Use_after_free else Ret (add_daemon name executable None st))
         else andThen (at_eof st (get_arg_vector_for_daemon (input st))) (\<lambda>(args, s).
           let st = st\<lparr>input := s\<rparr> in
           if exists then Stuck Use_after_free else Ret (add_daemon name executable (Some args) st))))"
    unfolding Let_def unfolding u_def[symmetric] unfolding ex_def[symmetric] by (cases l) simp_all
qed

lemma rotate_daemon_settles: "settles (child_runs E) (left st) left (rotate_daemon E i st)"
proof -
  have p: "log_path E n x = Stuck Out_of_bounds \<or> (\<exists>a. log_path E n x = Ret a)" for n x
    by (auto simp: log_path_def strcpy_def strcat_def)
  define rest where "rest = (\<lambda>b st. andThen (rotate_loop E (name_at st i) [1 ..< LOG_VERSIONS] 1 st) (\<lambda>st.
         let st = emit (Sf_logrotate (name_at st i)) st in
         if b then andThen (start_process E i st) (\<lambda>(failed, st). Ret st) else Ret st))"
  have r: "settles (child_runs E) (left s) left (rest b s)" for b s
    unfolding rest_def
  proof (rule settles_andThen[OF rotate_loop_settles])
    fix x assume "left x \<le> left s"
    moreover have "settles (child_runs E) (left x) left (let st = emit (Sf_logrotate (name_at x i)) x in
         if b then andThen (start_process E i st) (\<lambda>(failed, st). Ret st) else Ret st)"
      using settles_andThen[OF start_process_settles[of E "emit (Sf_logrotate (name_at x i)) x" i], of left "\<lambda>(failed, st). Ret st"]
      by (auto simp: Let_def)
    ultimately show "settles (child_runs E) (left s) left (let st = emit (Sf_logrotate (name_at x i)) x in
         if b then andThen (start_process E i st) (\<lambda>(failed, st). Ret st) else Ret st)" using settles_mono by blast
  qed
  have w: "settles (child_runs E) (left st) left (andThen (if b then andThen (stop_and_wait E i st) (\<lambda>st.
             if flag_error_stop st then sf_error ''an error occurred in stop'' st else Ret st) else Ret st) (rest b))" for b
  proof (rule settles_andThen)
    show "settles (child_runs E) (left st) left (if b then andThen (stop_and_wait E i st) (\<lambda>st.
             if flag_error_stop st then sf_error ''an error occurred in stop'' st else Ret st) else Ret st)"
      by (auto simp: sf_error_def intro!: settles_andThen[OF stop_and_wait_settles])
    show "settles (child_runs E) (left st) left (rest b x)" if "left x \<le> left st" for x using settles_mono[OF r that] .
  qed
  obtain a where "log_path E (name_at st i) ''.log.0'' = Stuck Out_of_bounds \<or> log_path E (name_at st i) ''.log.0'' = Ret a"
    using p by blast
  then show ?thesis
  proof
    assume a: "log_path E (name_at st i) ''.log.0'' = Ret a"
    let ?b = "d_status (daemons st ! i) = ''active''"
    have "rotate_daemon E i st = (if \<not> file_exists a st then sf_error ''Cannot rotate a log file that does not exist'' st
        else andThen (if ?b then andThen (stop_and_wait E i st) (\<lambda>st.
             if flag_error_stop st then sf_error ''an error occurred in stop'' st else Ret st) else Ret st) (rest ?b))"
      unfolding rotate_daemon_def a andThen_simps rest_def Let_def by (rule refl)
    then show ?thesis using w[of ?b] by (simp only: sf_error_def settles_Ret split: if_split) simp
  qed (simp add: rotate_daemon_def)
qed

lemma logrotate_command_settles: "settles (child_runs E) (left st) left (logrotate_command E st)"
  unfolding logrotate_command_def
  by (rule settles_after_read) (auto simp: usage_settles sf_error_def rotate_daemon_settles split: option.splits)

lemma other_command_settles: "settles B (left st) left (other_command l st)"
  using skip_rest_settles[of B "emit (Sf_error ''Error executing command!'') st"] by (simp add: other_command_def Let_def)

lemma settles_go: "settles B n left r \<Longrightarrow> settles B n (\<lambda>(go, s). left s) (andThen r (\<lambda>st. Ret (True, st)))"
  by (rule settles_andThen) simp_all

lemmas command_settles = status_command_settles register_command_settles unregister_command_settles other_command_settles

lemma dispatch_settles: "settles (child_runs E) (left st) (\<lambda>(go, s). left s) (dispatch E command l st)"
proof -
  have q: "settles (child_runs E) (left st) (\<lambda>(go, s). left s) (andThen (free_daemon_list st) (\<lambda>_. Ret (False, st)))"
    using free_args_settles[of "daemons st"] by (cases "free_daemon_list st") (auto simp: free_daemon_list_def)
  have a: "settles (child_runs E) (left st) left (status_all_command st)" by (simp add: status_all_command_def)
  show ?thesis unfolding dispatch_def Let_def
    using q settles_go[OF a] stop_command_settles[of E st, THEN settles_go] start_command_settles[of E st, THEN settles_go]
      logrotate_command_settles[of E st, THEN settles_go] command_settles[of _ st, THEN settles_go] by (simp split: if_split)
qed

lemma run_cli_rounds:
  assumes "left st < fuel"
  shows "run_cli E fuel st \<noteq> Stuck Diverges \<and> (run_cli E fuel st = Stuck Blocked \<longrightarrow> child_runs E)"
  using assms
proof (induction fuel arbitrary: st)
  case (Suc fuel)
  define s where "s = tick (emit (Printed ''legion> '') st)"
  have d: "settles (child_runs E) (left st) left (deliver_all E (between E (ticks st)) s)"
    using deliver_all_settles[of E s] by (simp add: s_def)
  have k: "settles (child_runs E) (left s1) (\<lambda>_. 0) (andThen (dispatch E c l s1) (\<lambda>(go, st). if go then run_cli E fuel st else Ret st))"
    if "left s1 < fuel" for c l and s1 :: legion
  proof (rule settles_andThen[OF dispatch_settles])
    fix x :: "bool \<times> legion" assume "(case x of (go, s) \<Rightarrow> left s) \<le> left s1"
    then show "settles (child_runs E) (left s1) (\<lambda>_. 0) (case x of (go, st) \<Rightarrow> if go then run_cli E fuel st else Ret st)"
      using Suc.IH[of "snd x"] that by (auto simp: settles_def split: prod.splits)
  qed
  have "settles (child_runs E) (left st) (\<lambda>_. 0) (run_cli E (Suc fuel) st)" unfolding run_cli.simps s_def[symmetric]
  proof (rule settles_andThen[OF d])
    fix s1 assume "left s1 \<le> left st"
    then have l: "left s1 \<le> fuel" using Suc.prems by simp
    show "settles (child_runs E) (left st) (\<lambda>_. 0) (andThen (read_word False s1)
        (\<lambda>(command, lst, st). andThen (dispatch E command lst st) (\<lambda>(go, st). if go then run_cli E fuel st else Ret st)))"
    proof (rule settles_andThen[OF settles_mono[OF read_word_settles \<open>left s1 \<le> left st\<close>]])
      fix x assume x: "read_word False s1 = Ret x"
      obtain c w s2 where c: "x = (c, w, s2)" by (cases x) auto
      have "left s2 < left s1" using read_word_uses x c by blast
      then show "settles (child_runs E) (left st) (\<lambda>_. 0)
          (case x of (command, lst, st) \<Rightarrow> andThen (dispatch E command lst st) (\<lambda>(go, st). if go then run_cli E fuel st else Ret st))"
        using k[of s2 c w] l \<open>left s1 \<le> left st\<close> settles_mono[of _ "left s2" _ _ "left st"] by (simp add: c)
    qed
  qed
  then show ?case by (simp add: settles_def)
qed simp

text \<open>
  C29: The command loop needs at most one round more than the input has characters; it ends
  with quit, at the end of the input or with an error of the program, for every behaviour of
  the operating system, and the only way not to end is to wait for ever in the handler of
  SIGCHLD for a child that keeps running.
\<close>

theorem run_cli_ends:
  assumes "left st < fuel"
  shows "run_cli E fuel st \<noteq> Stuck Diverges \<and>
    (run_cli E fuel st = Stuck Blocked \<longrightarrow> (\<exists>t p. waits E t p = Still_running))"
  using run_cli_rounds[OF assms] by (simp add: child_runs_def)

end
