(* ===== verification/Legion_Main.thy ===== *)
theory Legion_Main imports Legion_Loop begin

text \<open>
  The program of hw4 (\<open>main.c\<close>). \<open>sf_init\<close> and \<open>sf_fini\<close> come as an object file (\<open>lib/sf_event.o\<close>)
  and are parameters.
\<close>

definition legion_main :: "(legion \<Rightarrow> legion) \<Rightarrow> (legion \<Rightarrow> legion) \<Rightarrow> os \<Rightarrow> nat \<Rightarrow> legion \<Rightarrow> (int \<times> legion) outcome" where
  "legion_main sf_init sf_fini E fuel st =
     andThen (run_cli E fuel (sf_init st)) (\<lambda>st. Ret (0, sf_fini st))"

text \<open>An initialisation that reads nothing leaves the bound on the rounds as it is.\<close>

lemma legion_main_ends:
  assumes "input (sf_init st) = input st" "left st < fuel"
  shows "legion_main sf_init sf_fini E fuel st \<noteq> Stuck Diverges"
  using run_cli_rounds[of "sf_init st" fuel E] assms by (cases "run_cli E fuel (sf_init st)") (simp_all add: legion_main_def)

end
