(* ===== verification/Legion_Signals.thy ===== *)
theory Legion_Signals imports Legion_Props begin

text \<open>
  Whom the supervisor of hw4 sends signals to: each \<open>kill\<close> it has made went to a positive process number
  that a \<open>fork\<close> of its own returned. When somebody else sends it a \<open>SIGALRM\<close>, its handler may also kill
  process 0, that is the supervisor's own group.
\<close>

section \<open>Own children\<close>












section \<open>Signals\<close>






section \<open>Commands\<close>
























section \<open>Runs\<close>





text \<open>
  An alarm from outside before the newest entry has been started goes to the supervisor's own group.
\<close>

lemma outside_alarm_hits_group:
  "deliver E SIGALRM st = Ret st' \<Longrightarrow> pid_at st (most_recent_index st) = 0 \<Longrightarrow> Killed 0 ''SIGKILL'' \<in> set (events st')"
  by (auto simp: deliver_def handle_sigalrm_def Let_def split: if_splits)


end
