(* ===== verification/Legion_Examples.thy ===== *)
theory Legion_Examples imports Legion_Main Legion_Signals begin

text \<open>
  A table of two daemons and an operating system whose children answer or do not, on which the theorems
  of the hw4 theories are instantiated.
\<close>

definition demo_os :: os where
  "demo_os = \<lparr>pipe_ok = (\<lambda>t. True), fork_result = (\<lambda>t. 41), read_result = (\<lambda>t. 0), during_read = (\<lambda>t. [Timer_expires]),
     between = (\<lambda>t. []), wakes = (\<lambda>t. SIGCHLD), waits = (\<lambda>t p. Reaped 0), path_env = ''/bin'', slack = 64, past_end = []\<rparr>"

definition demo_daemon :: "string \<Rightarrow> int \<Rightarrow> string \<Rightarrow> daemon" where
  "demo_daemon n p s = \<lparr>d_name = n, d_pid = p, d_using = True, d_status = s, d_execute = n, d_args = None\<rparr>"

definition demo_legion :: "string \<Rightarrow> bool \<Rightarrow> string \<Rightarrow> legion" where
  "demo_legion s b t = \<lparr>input = s, daemons = [demo_daemon ''yoyo'' 0 ''inactive'', demo_daemon ''lazy'' 7 t],
     most_recent_index = 0, flag_killed_child = False, flag_error_stop = False, flag_child_exited = False, chld_blocked = b, chld_pending = False,
     alarm_on = False, files = Map.empty, events = [], ticks = 0\<rparr>"

lemma legion_demo_fields [simp]:
  "d_name (demo_daemon n p s) = n" "d_pid (demo_daemon n p s) = p" "d_using (demo_daemon n p s)" "d_status (demo_daemon n p s) = s"
  "input (demo_legion i b t) = i" "daemons (demo_legion i b t) = [demo_daemon ''yoyo'' 0 ''inactive'', demo_daemon ''lazy'' 7 t]"
  "chld_blocked (demo_legion i b t) = b" "ticks (demo_legion i b t) = 0" "flag_error_stop (demo_legion i b t) = False"
  "events (demo_legion i b t) = []" "chld_pending (demo_legion i b t) = False"
  by (simp_all add: demo_daemon_def demo_legion_def)

lemma demo_os_fields [simp]:
  "pipe_ok demo_os t" "fork_result demo_os t = 41" "read_result demo_os t = 0" "during_read demo_os t = [Timer_expires]" "wakes demo_os t = SIGCHLD"
  "slack demo_os = 64" "between demo_os t = []"
  by (simp_all add: demo_os_def)

lemma demo_words: "get_word_from_args False (''lazy'' @ [NEWLINE]) = Ret (''lazy'', True, [])"
  "get_word_from_args False (''yoyo'' @ [NEWLINE]) = Ret (''yoyo'', True, [])"
  by (simp_all add: get_word_from_args_def getchar_def NEWLINE_def QUOTE_def EOF_CHAR_def c_str_def)

theorem arg_vector_roundtrip_witness:
  "get_arg_vector_for_daemon (line [''a b'', ''longer name''] @ ''quit'') = Ret ([''a b'', ''longer name''], ''quit'')"
  by (rule arg_vector_roundtrip) (auto simp: inert_def NEWLINE_def QUOTE_def EOF_CHAR_def less_Suc_eq)

theorem arg_vector_overflow_witness: "get_arg_vector_for_daemon (line [''a'', ''b''] @ ''quit'') = Stuck Out_of_bounds"
  by (rule arg_vector_overflow) (auto simp: inert_def NEWLINE_def QUOTE_def EOF_CHAR_def)

theorem names_stay_unique_witness:
  "\<exists>st'. legion_step demo_os (demo_legion [] False ''active'') st' \<and> find_daemon ''lazy'' (daemons st') = Some 1"
proof -
  let ?st = "demo_legion [] False ''active''"
  define st' where "st' = (set_status 1 status_exited (emit (Sf_term ''lazy'' 7 0) (tick ?st)))\<lparr>flag_child_exited := True\<rparr>"
  have "deliver demo_os SIGCHLD ?st = Ret st'"
    by (simp add: deliver_def handle_sigchld_def upt_rec demo_os_def st'_def Let_def)
  then have s: "legion_step demo_os ?st st'" by (rule a_signal)
  have d: "daemons st' = [demo_daemon ''yoyo'' 0 ''inactive'', demo_daemon ''lazy'' 7 ''exited'']"
    by (simp add: st'_def set_status_def demo_daemon_def)
  have u: "names_unique ?st" by (simp add: names_unique_def entries_def)
  obtain i where i: "find_daemon ''lazy'' (daemons st') = Some i" by (auto simp: d)
  have "1 = i" by (rule names_stay_unique[OF r_into_rtranclp[of "legion_step demo_os", OF s] u i]) (simp_all add: d)
  then show ?thesis using s i by auto
qed

theorem stopped_daemon_is_lost_witness:
  "\<exists>st1. stop_command demo_os (demo_legion (''lazy'' @ [NEWLINE]) False ''active'') = Ret st1 \<and> d_status (daemons st1 ! 1) = ''stopping'' \<and>
    events st1 = [Sf_stop ''lazy'' 7, Killed 7 ''SIGTERM'']"
proof -
  let ?st = "demo_legion (''lazy'' @ [NEWLINE]) False ''active''"
  have f: "find_daemon ''lazy'' (daemons ?st) = Some 1" "d_status (daemons ?st ! 1) = ''active''" by simp_all
  have r: "get_word_from_args False (input ?st) = Ret (''lazy'', True, [])" using demo_words(1) by simp
  note lost = stopped_daemon_is_lost[OF r f, of demo_os]
  have "\<not> chld_blocked ?st \<and> wakes demo_os (ticks ?st) = SIGCHLD \<and>
      (\<forall>k<length (daemons ?st). k \<noteq> 1 \<longrightarrow> \<not> (d_using (daemons ?st ! k) \<and> d_status (daemons ?st ! k) = ''active''))"
    by (simp add: less_Suc_eq)
  then obtain st1 where 1: "stop_command demo_os ?st = Ret st1" and e: "events st1 = [Sf_stop ''lazy'' 7, Killed 7 ''SIGTERM'']"
    using conjunct2[OF lost] by auto
  have "d_status (daemons st1 ! 1) = ''stopping''" using conjunct1[OF lost] 1 by blast
  then show ?thesis using 1 e by blast
qed

theorem second_stop_kills_witness:
  "\<exists>st1. stop_command demo_os (demo_legion (''lazy'' @ [NEWLINE]) True ''active'') = Ret st1 \<and>
    events st1 = [Sf_stop ''lazy'' 7, Killed 7 ''SIGTERM'', Killed 7 ''SIGKILL'', Sf_kill ''lazy'' 7, Sf_error ''an error occurred in stop'']"
proof -
  let ?st = "demo_legion (''lazy'' @ [NEWLINE]) True ''active''"
  have "\<exists>st1. stop_command demo_os ?st = Ret st1 \<and> chld_blocked st1 \<and> d_status (daemons st1 ! 1) = ''stopping'' \<and>
    (let p = d_pid (daemons ?st ! 1) in
     events st1 = events ?st @ [Sf_stop ''lazy'' p, Killed p ''SIGTERM'', Killed p ''SIGKILL'', Sf_kill ''lazy'' p, Sf_error ''an error occurred in stop''])"
    by (rule second_stop_kills[where rest = "[]"]) (use demo_words in auto)
  then show ?thesis by (auto simp: Let_def)
qed

theorem start_timeout_active_witness:
  "\<exists>st1. start_command demo_os (demo_legion (''yoyo'' @ [NEWLINE]) False ''active'') = Ret st1 \<and> d_status (daemons st1 ! 0) = ''active'' \<and>
    events st1 = [Killed 41 ''SIGKILL'', Sf_kill ''yoyo'' 41, Sf_active ''yoyo'' 41]"
proof -
  let ?st = "demo_legion (''yoyo'' @ [NEWLINE]) False ''active''"
  have "\<exists>st1. start_command demo_os ?st = Ret st1 \<and> d_status (daemons st1 ! 0) = ''active'' \<and> d_pid (daemons st1 ! 0) = 41 \<and>
    flag_killed_child st1 \<and> events st1 = events ?st @ [Killed 41 ''SIGKILL'', Sf_kill ''yoyo'' 41, Sf_active ''yoyo'' 41]"
    by (rule start_timeout_active[where rest = "[]"]) (use demo_words in auto)
  then show ?thesis by auto
qed

theorem rotate_moves_one_witness:
  "rotate_loop demo_os ''lazy'' [1 ..< LOG_VERSIONS] 1 ((demo_legion [] False ''active'')\<lparr>files := [''logs/lazy.log.0'' \<mapsto> ''new'', ''logs/lazy.log.1'' \<mapsto> ''old'']\<rparr>) =
   Ret ((demo_legion [] False ''active'')\<lparr>files := [''logs/lazy.log.0'' \<mapsto> ''new'', ''logs/lazy.log.2'' \<mapsto> ''old'']\<rparr>)"
proof -
  have f: "find (\<lambda>v. [''logs/lazy.log.0'' \<mapsto> ''new'', ''logs/lazy.log.1'' \<mapsto> ''old''] (log_file ''lazy'' v) = None) [1 ..< 7] = Some 2"
    by (simp add: log_file_def digits_def upt_rec)
  have r: "length ''lazy'' + 7 \<le> slack demo_os" by simp
  let ?F = "[''logs/lazy.log.0'' \<mapsto> ''new'', ''logs/lazy.log.1'' \<mapsto> ''old'']"
  have fs: "files ((demo_legion [] False ''active'')\<lparr>files := ?F\<rparr>) = ?F" by simp
  have g: "log_file ''lazy'' (2 - 1) = ''logs/lazy.log.1''" "log_file ''lazy'' 2 = ''logs/lazy.log.2''"
    by (simp_all add: log_file_def digits_def)
  show ?thesis unfolding rotate_moves_one[OF r] fs f option.case g by (auto simp: fun_eq_iff)
qed

theorem run_cli_ends_witness:
  "run_cli demo_os 5 (demo_legion ''quit'' False ''active'') \<noteq> Stuck Diverges \<and> run_cli demo_os 5 (demo_legion ''quit'' False ''active'') \<noteq> Stuck Blocked"
  using run_cli_ends[of "demo_legion ''quit'' False ''active''" 5 demo_os] by (auto simp: demo_os_def)





end
