(* ===== verification/Spec2Isabelle.thy ===== *)
theory Spec2Isabelle imports Sf_Examples Csapp_Examples Dtmf_Examples Dup_Examples Legion_Examples begin

text \<open>
  A verification library for the five C programs of this repository. Each program has its own group of
  theories, in the order in which its code is layered; all of them share Prelude (outcomes of C
  functions, words, list lemmas), Bytes (byte orders and the contract of a fixed-width encoding) and
  Decimal (printing and reading decimal numbers, 32-bit \<open>int\<close>).

  Conventions. A C function is a HOL function on an explicit state, under the name it has in the source
  wherever that is possible. It gives \<open>Ret v\<close> where the code returns, and \<open>Stuck f\<close> where the thread of
  control does not get that far: a null or dangling pointer, an index outside an array, an
  uninitialised variable, a semaphore nobody posts, \<open>abort\<close>, \<open>exit\<close>, \<open>exec\<close>, the end of a thread, or a
  loop that never ends. Machine integers are words of their width where the code can overflow. What is not in the
  repository is an argument: memory the system provides, the network, files, processes and signals,
  the clock, and the game module behind \<open>game.h\<close>. What an uninitialised object holds is an argument too.

  hw3, the allocator (\<open>hw3/src/sfmm.c\<close>, \<open>hw3/include/sfmm.h\<close>).
  Sf_Layout: memory as a map from addresses to 64-bit rows, the fields of a block with their
  overlapping storage, the obfuscated headers, and the size arithmetic.
  Sf_Lists: the circular free lists and the quick lists as sequences of row writes, the abstract lists
  they represent, and the locale \<open>lifo\<close>, which the quick lists implement.
  Sf_Blocks: headers and footers are not touched by the lists, and the other way round.
  Sf_Malloc: first fit, splitting, the first page, growing; Sf_Free: validation, quick lists,
  coalescing, reallocation. The lemmas show what each call does to the abstract lists and the headers.
  Sf_Runs: blocks that are handed out whole, sequences of requests and the regions they get, and the
  demonstration program (\<open>main.c\<close>). Sf_Stack: rounds of requests, arbitrary writes of the client inside
  its regions, and releases in the reverse order, which give the page back. \<open>sf_mem_grow\<close> and the magic number are parameters (\<open>sf_env\<close>).

  hw5, the game server (\<open>hw5/src\<close>, \<open>hw5/include\<close>).
  Jeux_Protocol: packets over \<open>rio_readn\<close> and \<open>rio_writen\<close>, with every pattern of short transfers and
  interruptions as a plan. Jeux_State: the heap of reference-counted objects and the sequencing of
  operations. Jeux_Player: players, ratings, the player registry, and the locale \<open>refcounted\<close> that
  players, invitations and clients implement. Jeux_Invitation: the states of an invitation.
  Jeux_Registry: the client registry with its semaphores. Jeux_Client: login, logout, and the
  invitation protocol between two clients, down to the packets each of them receives. Jeux_Lobby: the
  calls of all clients in any order as a step relation \<open>lobby_step\<close>, whose invariant holds whatever the
  calls return and whichever locks they leave behind; \<open>quiet\<close> calls are those that keep what the
  registries rely on. Jeux_Main
  (\<open>main.c\<close>): the start and the shutdown, whose argument is what the service threads do between the
  shutdown of their sockets and the moment the main thread takes the mutex to wait for them.
  Csapp_Rio (\<open>csapp.c\<close>): the buffered reader. The locale \<open>byte_source\<close> says what a source of bytes promises,
  and \<open>byte_collector\<close> what a loop over one collects; the reader with its buffer and the bare \<open>read\<close> are
  its instances, so the buffered and the unbuffered functions are shown to deliver the same bytes.
  Csapp_Wrappers: every system call wrapper, on a \<open>process\<close> whose operating system is a function from the
  calls made so far and the next one to its result. Csapp_Sockets: the helpers that open sockets, the
  calls they make and the descriptors they leave open. Jeux_Server: the whole \<open>main\<close> of \<open>main.c\<close> with the
  accept loop, whose turns are related to the calls that appear in the trace.

  hw1, the DTMF tools (\<open>hw1/src\<close>, \<open>hw1/include\<close>).
  Dtmf_Audio (\<open>audio.c\<close>): headers and samples on byte streams, as instances of the locale \<open>codec\<close>.
  Dtmf_Goertzel (\<open>goertzel.c\<close>): the filter, shown to compute a Fourier coefficient.
  Dtmf_Generate and Dtmf_Detect (\<open>dtmf.c\<close>): events to samples and samples to events, each with a
  specification that says what the whole output is, with and without a noise file, and for last blocks
  of every length; Dtmf_Events: which events come out of runs of
  tones, of changes of tone, and of silence. Dtmf_Args (\<open>validargs\<close>): the command line, and the round
  trip from settings to arguments and back. Dtmf_Main (\<open>main.c\<close>): the composition on byte streams.

  hw2, the duplicate finder (\<open>hw2/src\<close>).
  Dup_Crc (\<open>crc32.c\<close>): the table-driven checksum equals bit-serial division. Dup_Getopt (\<open>getopt.c\<close>):
  the option parser and its progress. Dup_Find (\<open>finddup.c\<close>): the data, the three scans and the
  program, on a \<open>host\<close> that answers for the file system and sorts. Dup_Scan and Dup_Groups: the exact
  file comparison, the sorting order, and that entries marked as duplicates have equal contents.
  Dup_Report: what the scans print, as lists of groups of hard links and of duplicates. Dup_Main (\<open>main.c\<close>): the table that is built from
  the file of names, the checksums, and the run of the program from there to the report, for files that
  do not change meanwhile (\<open>stable_files\<close>) and a routine that sorts whenever the comparison is an order
  (\<open>qsort_ok\<close>): the groups of hard links share an inode, the groups of duplicates hold equal files only, and with checksums that the
  comparison can tell apart (\<open>sized_files\<close>) every pair of equal files is in one of them.

  hw4, the daemon supervisor (\<open>hw4/src/cli.c\<close>).
  Legion_Parse: the words of a command line and the argument vector with its buffer. Legion_Cli: the
  table of daemons, the signal handlers, and the commands, on an operating system \<open>os\<close> that decides
  which signals arrive where the program waits; its \<open>slack\<close> and \<open>past_end\<close> say how much may be
  overwritten behind a local array before something breaks, and what is found there. Legion_Props: the
  supervisor as a step relation \<open>legion_step\<close> of commands and signals, with its invariants.
  A blocked SIGCHLD stays pending until \<open>unblock\<close>; an alarm arrives from the timer of the program
  (\<open>Timer_expires\<close>, only while it runs) or from outside (SIGALRM, at any time).
  Legion_Signals: in every run from an empty table, each signal the supervisor sends goes to a positive
  process number that one of its own forks returned, but for the alarms from outside before any start,
  which make it kill its own process group. Legion_Loop: the command loop ends, unless the handler of
  SIGCHLD waits for a child that keeps running. Legion_Main: \<open>main.c\<close>.

  The theories named *_Examples hold concrete states, and instances of the properties on them.

  Loops. Loops over a list or a bounded index are structural recursions; the others are functions with
  a measure, such as \<open>detect_loop\<close> (the bytes left), \<open>rio_refill\<close> (the plan of results left) and
  \<open>readlineb_loop\<close> (the room left). Loops that may never end are \<open>num_loop\<close>, \<open>generate_loop\<close> and
  \<open>accept_loop\<close>, where the result \<open>None\<close> means exactly that. Where a definition carries fuel, it is
  enough for every run: more than the length of the input for \<open>run_cli\<close> and \<open>skip_line\<close>, the
  length of the table for \<open>build_list\<close>, \<open>mark_links\<close> and \<open>mark_dups\<close>.

  Not modelled. Rounding: \<open>double\<close> is the reals, in the ratings of hw5 and in hw1. \<open>server.c\<close> of hw5, which
  is commented out as a whole: there is no service routine, and a service thread is no more than the name
  of one. What a system call stores through its pointer arguments: it belongs to the operating system.
  The counters of \<open>rio_readlineb\<close> and \<open>rio_read\<close> are \<open>int\<close>, the model has natural numbers, so requests are
  below 2^31. Operations of hw5 run one after another: a mutex is a counter, and an operation that finds
  it taken is stuck. An allocation fails where the model says so (\<open>malloc_ok\<close>); \<open>creg_step\<close> has the
  registrations that fail this way as well as those that succeed. Signals of hw4 arrive where the program waits for them or between commands, not in
  the middle of other code, and a child whose \<open>exec\<close> fails is not followed. \<open>sf_mem_grow\<close> of hw3 and the
  event functions of hw4 come as object files. What is left of the sources are prototypes and comments in
  the headers, and the test programs, which are not part of the development.
\<close>

end
